(* ===== verification/Prelude.thy ===== *)
theory Prelude
  imports Main "HOL-Library.Word" "HOL-Library.Multiset"
begin

text \<open>
  Shared vocabulary of the development: the machine integers of the C sources, the outcome type
  that carries a failed assertion, an \<^verbatim>\<open>EXIT_TRACE\<close> or an out-of-range access as a value, the
  little-endian layout in which the C code writes integers to files, and generic lemmas on lists
  and words that several components use.
\<close>

unbundle bit_operations_syntax

section \<open>Machine types\<close>

type_synonym byte = "8 word"
type_synonym u16 = "16 word"
type_synonym u32 = "32 word"
type_synonym u64 = "64 word"

section \<open>Outcomes\<close>

text \<open>
  A C function that may stop the process returns \<open>Inl\<close> of the reason: a failed \<^verbatim>\<open>assert\<close>, an
  \<^verbatim>\<open>EXIT_TRACE\<close>/\<^verbatim>\<open>exit\<close> with its message, an array access outside the allocated range, or
  a use of freed memory, a division by zero, a shift by the width of the type or a signed overflow (undefined behaviour
  in C, made explicit here).
\<close>

datatype fault =
    Assertion string
  | Exit_Trace string
  | Out_Of_Bounds
  | Invalid_Pointer
  | Division_By_Zero
  | Shift_Overflow
  | Signed_Overflow

type_synonym 'a outcome = "fault + 'a"

definition bindR :: "'a outcome \<Rightarrow> ('a \<Rightarrow> 'b outcome) \<Rightarrow> 'b outcome" where
  "bindR m f = (case m of Inl e \<Rightarrow> Inl e | Inr x \<Rightarrow> f x)"

definition assertR :: "bool \<Rightarrow> string \<Rightarrow> 'a outcome \<Rightarrow> 'a outcome" where
  "assertR b msg m = (if b then m else Inl (Assertion msg))"

named_theorems outcome_simps \<open>unfolding of the outcome combinators\<close>

lemma bindR_Inl [simp, outcome_simps]: "bindR (Inl e) f = Inl e"
  by (simp add: bindR_def)

lemma bindR_Inr [simp, outcome_simps]: "bindR (Inr x) f = f x"
  by (simp add: bindR_def)

lemma assertR_True [simp, outcome_simps]: "assertR True msg m = m"
  by (simp add: assertR_def)

lemma assertR_holds: "b \<Longrightarrow> assertR b msg m = m"
  by (simp add: assertR_def)

lemma bindR_eq_Inr: "bindR m f = Inr y \<longleftrightarrow> (\<exists>x. m = Inr x \<and> f x = Inr y)"
  by (cases m) auto

lemma assertR_eq_Inr: "assertR b msg m = Inr y \<longleftrightarrow> b \<and> m = Inr y"
  by (simp add: assertR_def)

lemma bindR_assoc: "bindR (bindR m f) g = bindR m (\<lambda>x. bindR (f x) g)"
  by (cases m) auto

text \<open>The result of a signed 32-bit operation.\<close>

definition int32 :: "int \<Rightarrow> int outcome" where
  "int32 x = (if - (2 ^ 31) \<le> x \<and> x < 2 ^ 31 then Inr x else Inl Signed_Overflow)"

lemma int32_eq_Inr: "int32 x = Inr y \<longleftrightarrow> y = x \<and> - (2 ^ 31) \<le> x \<and> x < 2 ^ 31"
  by (auto simp: int32_def)

lemma int32_ok: "\<lbrakk>- (2 ^ 31) \<le> x; x < 2 ^ 31\<rbrakk> \<Longrightarrow> int32 x = Inr x"
  by (simp add: int32_def)

text \<open>A sequence of statements, each of which may fail.\<close>

fun seqR :: "('s \<Rightarrow> 's outcome) list \<Rightarrow> 's \<Rightarrow> 's outcome" where
  "seqR [] s = Inr s"
| "seqR (f # fs) s = bindR (f s) (seqR fs)"

lemma seqR_append: "seqR (fs @ gs) s = bindR (seqR fs s) (seqR gs)"
proof (induction fs arbitrary: s)
  case (Cons f fs)
  then show ?case by (cases "f s") simp_all
qed simp

section \<open>Little-endian layout of integers in files\<close>

definition le_bytes :: "nat \<Rightarrow> 'a::len word \<Rightarrow> byte list" where
  "le_bytes n w = map (\<lambda>i. ucast (drop_bit (8 * i) w)) [0..<n]"

fun le_word :: "byte list \<Rightarrow> 'a::len word" where
  "le_word [] = 0"
| "le_word (b # bs) = ucast b OR push_bit 8 (le_word bs)"

lemma length_le_bytes [simp]: "length (le_bytes n w) = n"
  by (simp add: le_bytes_def)

lemma le_bytes_Suc:
  "le_bytes (Suc n) w = ucast w # le_bytes n (drop_bit 8 w)"
proof (rule nth_equalityI)
  show "length (le_bytes (Suc n) w) = length (ucast w # le_bytes n (drop_bit 8 w))" by simp
next
  fix i assume "i < length (le_bytes (Suc n) w)"
  then show "le_bytes (Suc n) w ! i = (ucast w # le_bytes n (drop_bit 8 w)) ! i"
    by (cases i) (simp_all add: le_bytes_def algebra_simps del: upt_Suc)
qed

lemma le_word_le_bytes_mask:
  fixes w :: "'a::len word"
  shows "le_word (le_bytes n w) = (take_bit (8 * n) w :: 'a word)"
proof (induction n arbitrary: w)
  case 0
  then show ?case by (simp add: le_bytes_def)
next
  case (Suc n)
  have "le_word (le_bytes (Suc n) w) = ucast (ucast w :: byte) OR push_bit 8 (take_bit (8 * n) (drop_bit 8 w))"
    by (simp add: le_bytes_Suc Suc.IH)
  also have "\<dots> = take_bit (8 * Suc n) w"
    by (rule bit_word_eqI) (auto simp: bit_simps)
  finally show ?case .
qed

lemma le_word_le_bytes_u32 [simp]: "le_word (le_bytes 4 w) = (w :: u32)"
  by (simp add: le_word_le_bytes_mask take_bit_word_eq_self)

lemma le_word_le_bytes_u64 [simp]: "le_word (le_bytes 8 w) = (w :: u64)"
  by (simp add: le_word_le_bytes_mask take_bit_word_eq_self)

section \<open>Words as numbers\<close>

lemma unat_lt2p: "unat (w :: 'a::len word) < 2 ^ LENGTH('a)"
  by (rule unsigned_less)

section \<open>Lists and options\<close>

lemma option_eqI: "(\<And>e. a = Some e \<longleftrightarrow> b = Some e) \<Longrightarrow> a = b"
  by (cases a; cases b) auto

lemma concat_snoc [simp]: "concat (xs @ [x]) = concat xs @ x"
  by simp

lemma nth_take_prefix: "n \<le> length xs \<Longrightarrow> map (\<lambda>i. xs ! i) [0..<n] = take n xs"
  by (simp add: list_eq_iff_nth_eq)

lemma nth_update_if: "i < length xs \<Longrightarrow> xs[i := x] ! j = (if j = i then x else xs ! j)"
  by simp

lemma mset_update_nth:
  assumes "i < length xs"
  shows "mset (xs[i := x]) = add_mset x (mset xs - {#xs ! i#})"
  using assms by (rule mset_update)

end
