(* ===== verification/Fifo.thy ===== *)
theory Fifo
  imports Prelude
begin

text \<open>
  The interface of a bounded first-in first-out buffer, as the ring buffers of dedup
  (\<^verbatim>\<open>apps/dedup/src/queue.h\<close>) and of ferret (\<^verbatim>\<open>apps/ferret/src/src/queue.c\<close>) provide it, and the
  batch loop that dedup runs over two such buffers. What a client may rely on is proved here once,
  from the laws of the interface alone.
\<close>

section \<open>The batch loop of queue_dequeue and queue_enqueue\<close>

text \<open>
  \<^verbatim>\<open>for(i=0; i<limit && !isEmpty(src) && !isFull(dst); i++)\<close>: one element moves per round, with the
  two assertions of the loop body. The counter \<open>i\<close> is what the caller gets back.
\<close>

fun transfer ::
  "('p \<Rightarrow> bool) \<Rightarrow> ('p \<Rightarrow> 'a option \<times> 'p) \<Rightarrow> ('q \<Rightarrow> bool) \<Rightarrow> ('q \<Rightarrow> 'a \<Rightarrow> 'q \<times> int)
   \<Rightarrow> nat \<Rightarrow> int \<Rightarrow> 'p \<Rightarrow> 'q \<Rightarrow> (int \<times> 'p \<times> 'q) outcome" where
  "transfer isEmpty get isFull put 0 i src dst = Inr (i, src, dst)"
| "transfer isEmpty get isFull put (Suc k) i src dst =
     (if isEmpty src \<or> isFull dst then Inr (i, src, dst)
      else case get src of (temp, src') \<Rightarrow>
        (case temp of None \<Rightarrow> Inl (Assertion ''temp!=NULL'')
         | Some x \<Rightarrow> (case put dst x of (dst', rv) \<Rightarrow>
             assertR (rv = 0) ''rv==0''
               (transfer isEmpty get isFull put k (i + 1) src' dst'))))"

section \<open>The contract of a bounded buffer\<close>

locale bounded_fifo =
  fixes isEmpty :: "'q \<Rightarrow> bool"
    and isFull :: "'q \<Rightarrow> bool"
    and get :: "'q \<Rightarrow> 'a option \<times> 'q"
    and put :: "'q \<Rightarrow> 'a \<Rightarrow> 'q \<times> int"
    and elems :: "'q \<Rightarrow> 'a list"
    and capacity :: "'q \<Rightarrow> nat"
    and inv :: "'q \<Rightarrow> bool"
  assumes isEmpty_iff: "inv q \<Longrightarrow> isEmpty q \<longleftrightarrow> elems q = []"
    and isFull_iff: "inv q \<Longrightarrow> isFull q \<longleftrightarrow> length (elems q) = capacity q"
    and length_le: "inv q \<Longrightarrow> length (elems q) \<le> capacity q"
    and get_Nil: "inv q \<Longrightarrow> elems q = [] \<Longrightarrow> get q = (None, q)"
    and get_Cons: "inv q \<Longrightarrow> elems q = x # xs \<Longrightarrow>
      fst (get q) = Some x \<and> inv (snd (get q)) \<and> elems (snd (get q)) = xs
      \<and> capacity (snd (get q)) = capacity q"
    and put_full: "inv q \<Longrightarrow> length (elems q) = capacity q \<Longrightarrow> put q x = (q, -1)"
    and put_ok: "inv q \<Longrightarrow> length (elems q) < capacity q \<Longrightarrow>
      snd (put q x) = 0 \<and> inv (fst (put q x)) \<and> elems (fst (put q x)) = elems q @ [x]
      \<and> capacity (fst (put q x)) = capacity q"
begin

lemma get_ConsE:
  assumes "inv q" "elems q = x # xs"
  obtains q' where "get q = (Some x, q')" "inv q'" "elems q' = xs" "capacity q' = capacity q"
  using get_Cons [OF assms] by (cases "get q") auto

lemma put_okE:
  assumes "inv q" "length (elems q) < capacity q"
  obtains q' where "put q x = (q', 0)" "inv q'" "elems q' = elems q @ [x]"
    "capacity q' = capacity q"
  using put_ok [OF assms, of x] by (cases "put q x") auto

text \<open>
  The batch loop never trips an assertion, moves exactly the longest prefix that the limit, the
  source and the free space of the destination allow, keeps the order, and loses nothing.
\<close>

lemma transfer_spec:
  assumes "inv src" "inv dst"
    and "m = min k (min (length (elems src)) (capacity dst - length (elems dst)))"
  shows "\<exists>src' dst'. transfer isEmpty get isFull put k i src dst = Inr (i + int m, src', dst')
    \<and> inv src' \<and> inv dst' \<and> elems src' = drop m (elems src)
    \<and> elems dst' = elems dst @ take m (elems src)
    \<and> capacity src' = capacity src \<and> capacity dst' = capacity dst"
  using assms
proof (induction k arbitrary: i src dst m)
  case 0
  then show ?case by simp
next
  case (Suc k)
  note inv = \<open>inv src\<close> \<open>inv dst\<close>
  show ?case
  proof (cases "isEmpty src \<or> isFull dst")
    case True
    then have "m = 0" using Suc.prems by (auto simp: isEmpty_iff isFull_iff)
    with True inv show ?thesis by simp
  next
    case False
    then obtain x xs where src: "elems src = x # xs"
      using inv(1) isEmpty_iff by (cases "elems src") auto
    have room: "length (elems dst) < capacity dst"
      using False inv(2) isFull_iff length_le by (metis le_neq_implies_less)
    obtain src' where r: "get src = (Some x, src')" "inv src'" "elems src' = xs"
      "capacity src' = capacity src" by (rule get_ConsE [OF inv(1) src])
    obtain dst' where d: "put dst x = (dst', 0)" "inv dst'" "elems dst' = elems dst @ [x]"
      "capacity dst' = capacity dst" by (rule put_okE [OF inv(2) room])
    have "m \<noteq> 0" using Suc.prems(3) src room by simp
    then obtain m' where m: "m = Suc m'" using not0_implies_Suc by blast
    have "m' = min k (min (length (elems src')) (capacity dst' - length (elems dst')))"
      using Suc.prems(3) m src r(3) d(3,4) by simp
    from Suc.IH [OF r(2) d(2) this, of "i + 1"] show ?thesis
      using False r d m src by (auto simp: algebra_simps)
  qed
qed

lemma transfer_progress:
  assumes "inv src" "inv dst" "elems src \<noteq> []" "length (elems dst) < capacity dst" "0 < k"
  shows "\<exists>n src' dst'. transfer isEmpty get isFull put k 0 src dst = Inr (n, src', dst') \<and> 1 \<le> n"
proof -
  define m where "m = min k (min (length (elems src)) (capacity dst - length (elems dst)))"
  have "1 \<le> m" using assms(3,4,5) by (simp add: m_def Suc_le_eq)
  with transfer_spec [OF assms(1,2) m_def, of 0] show ?thesis by auto
qed

end

end
