(* ===== verification/Ringbuffer.thy ===== *)
theory Ringbuffer
  imports Fifo
begin

text \<open>
  The ring buffer and the synchronised queue of dedup
  (\<^verbatim>\<open>apps/dedup/src/queue.h\<close>, \<^verbatim>\<open>apps/dedup/src/queue.c\<close>). \<open>head\<close> and \<open>tail\<close> are C ints (mathematical
  integers here: the invariant keeps them in \<open>[0, size)\<close>), \<open>size\<close> is a 64-bit \<^verbatim>\<open>size_t\<close>, and the
  mixed int/size_t arithmetic of \<^verbatim>\<open>ringbuffer_isFull\<close> is done at 64 bits with wrap-around, as C
  converts it. A slot is \<open>None\<close> while it holds no valid pointer.
\<close>

section \<open>The ring buffer\<close>

record 'a ringbuffer_t =
  rb_head :: int
  rb_tail :: int
  rb_data :: "'a option list"
  rb_size :: u64

definition ringbuffer_init :: "bool \<Rightarrow> u64 \<Rightarrow> 'a ringbuffer_t \<times> int" where
  "ringbuffer_init alloc_ok n =
     (\<lparr>rb_head = 0, rb_tail = 0,
       rb_data = (if alloc_ok then replicate (unat (n + 1)) None else []),
       rb_size = n + 1\<rparr>,
      if alloc_ok then 0 else 1)"

definition ringbuffer_isEmpty :: "'a ringbuffer_t \<Rightarrow> bool" where
  "ringbuffer_isEmpty b \<longleftrightarrow> rb_tail b = rb_head b"

definition ringbuffer_isFull :: "'a ringbuffer_t \<Rightarrow> bool" where
  "ringbuffer_isFull b \<longleftrightarrow>
     (word_of_int (rb_head b) :: u64) = (word_of_int (rb_tail b - 1) + rb_size b) mod rb_size b"

definition ringbuffer_remove :: "'a ringbuffer_t \<Rightarrow> 'a option \<times> 'a ringbuffer_t" where
  "ringbuffer_remove b =
     (if ringbuffer_isEmpty b then (None, b)
      else let ptr = rb_data b ! nat (rb_tail b); tail = rb_tail b + 1
           in (ptr, b\<lparr>rb_tail := (if word_of_int tail \<ge> rb_size b then 0 else tail)\<rparr>))"

definition ringbuffer_peek :: "'a ringbuffer_t \<Rightarrow> 'a option" where
  "ringbuffer_peek b = (if ringbuffer_isEmpty b then None else rb_data b ! nat (rb_tail b))"

definition ringbuffer_insert :: "'a ringbuffer_t \<Rightarrow> 'a \<Rightarrow> 'a ringbuffer_t \<times> int" where
  "ringbuffer_insert b ptr =
     (if ringbuffer_isFull b then (b, -1)
      else let head = rb_head b + 1
           in (b\<lparr>rb_data := (rb_data b)[nat (rb_head b) := Some ptr],
                 rb_head := (if word_of_int head = rb_size b then 0 else head)\<rparr>, 0))"

section \<open>Invariant and contents\<close>

definition rb_count :: "'a ringbuffer_t \<Rightarrow> nat" where
  "rb_count b = nat ((rb_head b - rb_tail b) mod int (length (rb_data b)))"

definition rb_slot :: "'a ringbuffer_t \<Rightarrow> nat \<Rightarrow> nat" where
  "rb_slot b i = nat ((rb_tail b + int i) mod int (length (rb_data b)))"

definition rb_elems :: "'a ringbuffer_t \<Rightarrow> 'a list" where
  "rb_elems b = map (\<lambda>i. the (rb_data b ! rb_slot b i)) [0..<rb_count b]"

definition rb_capacity :: "'a ringbuffer_t \<Rightarrow> nat" where
  "rb_capacity b = length (rb_data b) - 1"

definition rb_inv :: "'a ringbuffer_t \<Rightarrow> bool" where
  "rb_inv b \<longleftrightarrow> 1 \<le> length (rb_data b) \<and> length (rb_data b) < 2 ^ 31
     \<and> rb_size b = of_nat (length (rb_data b))
     \<and> 0 \<le> rb_head b \<and> rb_head b < int (length (rb_data b))
     \<and> 0 \<le> rb_tail b \<and> rb_tail b < int (length (rb_data b))
     \<and> (\<forall>i < rb_count b. rb_data b ! rb_slot b i \<noteq> None)"

lemma rb_inv_bounds:
  assumes "rb_inv b"
  shows "0 < length (rb_data b)" "rb_count b < length (rb_data b)"
    "rb_slot b i < length (rb_data b)"
proof -
  show n: "0 < length (rb_data b)" using assms by (auto simp: rb_inv_def)
  have "x mod int (length (rb_data b)) < int (length (rb_data b))" for x using n by simp
  then show "rb_count b < length (rb_data b)" "rb_slot b i < length (rb_data b)"
    unfolding rb_count_def rb_slot_def using n by (metis nat_less_iff pos_mod_sign of_nat_0_less_iff)+
qed

lemma rb_inv_size: "rb_inv b \<Longrightarrow> unat (rb_size b) = length (rb_data b)"
  by (simp add: rb_inv_def unat_of_nat take_bit_nat_eq_self)

lemma length_rb_elems [simp]: "length (rb_elems b) = rb_count b"
  by (simp add: rb_elems_def)

lemma diff_mod_small:
  fixes h t n :: int
  assumes "0 \<le> h" "h < n" "0 \<le> t" "t < n"
  shows "(h - t) mod n = (if t \<le> h then h - t else h - t + n)"
proof (cases "t \<le> h")
  case True
  with assms show ?thesis by (simp add: mod_pos_pos_trivial)
next
  case False
  have "(h - t) mod n = (h - t + n) mod n" by simp
  also have "\<dots> = h - t + n" using False assms by (intro mod_pos_pos_trivial) auto
  finally show ?thesis using False by simp
qed

lemma add_mod_small:
  fixes t i n :: int
  assumes "0 \<le> t" "t < n" "0 \<le> i" "i \<le> n"
  shows "(t + i) mod n = (if t + i < n then t + i else t + i - n)"
proof (cases "t + i < n")
  case True
  with assms show ?thesis by (simp add: mod_pos_pos_trivial)
next
  case False
  have "(t + i) mod n = (t + i - n) mod n" by simp
  also have "\<dots> = t + i - n" using False assms by (intro mod_pos_pos_trivial) auto
  finally show ?thesis using False by simp
qed

lemma rb_count_eq:
  assumes "rb_inv b"
  shows "int (rb_count b) = (if rb_tail b \<le> rb_head b then rb_head b - rb_tail b
    else rb_head b - rb_tail b + int (length (rb_data b)))"
  using assms by (auto simp: rb_count_def rb_inv_def diff_mod_small)

lemma rb_slot_eq:
  assumes "rb_inv b" "i \<le> length (rb_data b)"
  shows "int (rb_slot b i) = (if rb_tail b + int i < int (length (rb_data b)) then rb_tail b + int i
    else rb_tail b + int i - int (length (rb_data b)))"
  using assms by (auto simp: rb_slot_def rb_inv_def add_mod_small)

lemma uint_woi_u64: "0 \<le> i \<Longrightarrow> i < 2 ^ 64 \<Longrightarrow> uint (word_of_int i :: u64) = i"
  by (simp add: uint_word_of_int take_bit_int_eq_self)

lemma rb_pred_word:
  assumes "rb_inv b"
  shows "uint ((word_of_int (rb_tail b - 1) + rb_size b) mod rb_size b)
       = (rb_tail b - 1) mod int (length (rb_data b))"
proof -
  let ?n = "int (length (rb_data b))"
  have b: "0 < ?n" "?n < 2 ^ 31" "0 \<le> rb_tail b" "rb_tail b < ?n"
    and size: "rb_size b = word_of_int ?n"
    using assms by (auto simp: rb_inv_def)
  have "word_of_int (rb_tail b - 1) + rb_size b = word_of_int (rb_tail b - 1 + ?n)"
    by (simp add: size)
  moreover have "uint (word_of_int (rb_tail b - 1 + ?n) :: u64) = rb_tail b - 1 + ?n"
    by (rule uint_woi_u64) (use b in auto)
  moreover have "uint (rb_size b) = ?n"
    unfolding size by (rule uint_woi_u64) (use b in auto)
  ultimately show ?thesis
    by (simp add: uint_mod)
qed

lemma rb_isEmpty_iff: "rb_inv b \<Longrightarrow> ringbuffer_isEmpty b \<longleftrightarrow> rb_elems b = []"
  using rb_count_eq [of b]
  by (auto simp: ringbuffer_isEmpty_def rb_elems_def rb_inv_def split: if_splits)

lemma rb_isFull_iff: "rb_inv b \<Longrightarrow> ringbuffer_isFull b \<longleftrightarrow> length (rb_elems b) = rb_capacity b"
proof -
  assume inv: "rb_inv b"
  let ?n = "int (length (rb_data b))"
  have b: "0 \<le> rb_head b" "rb_head b < ?n" "0 \<le> rb_tail b" "rb_tail b < ?n" "?n < 2 ^ 31"
    using inv by (auto simp: rb_inv_def)
  have head: "uint (word_of_int (rb_head b) :: u64) = rb_head b"
    by (rule uint_woi_u64) (use b in auto)
  have pred: "(rb_tail b - 1) mod ?n = (if rb_tail b = 0 then ?n - 1 else rb_tail b - 1)"
    using b diff_mod_small [of "rb_tail b" ?n 1] by (cases "?n = 1") auto
  have "ringbuffer_isFull b \<longleftrightarrow> rb_head b = (rb_tail b - 1) mod ?n"
    unfolding ringbuffer_isFull_def word_uint_eq_iff head rb_pred_word [OF inv] ..
  also have "\<dots> \<longleftrightarrow> rb_count b = rb_capacity b"
    using b rb_count_eq [OF inv] by (auto simp: pred rb_capacity_def split: if_splits)
  finally show ?thesis by simp
qed

lemma rb_elems_nth: "i < rb_count b \<Longrightarrow> rb_elems b ! i = the (rb_data b ! rb_slot b i)"
  by (simp add: rb_elems_def)


lemma rb_removed:
  assumes inv: "rb_inv b" and ne: "rb_elems b \<noteq> []"
  shows "ringbuffer_remove b =
    (rb_data b ! rb_slot b 0, b\<lparr>rb_tail := (rb_tail b + 1) mod int (length (rb_data b))\<rparr>)"
proof -
  let ?n = "int (length (rb_data b))"
  have b: "0 \<le> rb_tail b" "rb_tail b < ?n" "?n < 2 ^ 31" and size: "rb_size b = word_of_int ?n"
    using inv by (auto simp: rb_inv_def)
  have "uint (word_of_int (rb_tail b + 1) :: u64) = rb_tail b + 1"
    by (rule uint_woi_u64) (use b in auto)
  moreover have "uint (rb_size b) = ?n"
    unfolding size by (rule uint_woi_u64) (use b in auto)
  ultimately have wrap: "word_of_int (rb_tail b + 1) \<ge> rb_size b \<longleftrightarrow> rb_tail b + 1 = ?n"
    unfolding word_le_def using b by auto
  have "(rb_tail b + 1) mod ?n = (if rb_tail b + 1 = ?n then 0 else rb_tail b + 1)"
    using b add_mod_small [of "rb_tail b" ?n 1] by auto
  moreover have "rb_slot b 0 = nat (rb_tail b)"
    using b by (simp add: rb_slot_def mod_pos_pos_trivial)
  ultimately show ?thesis
    using ne rb_isEmpty_iff [OF inv] unfolding ringbuffer_remove_def wrap Let_def by simp
qed

lemma rb_inserted:
  assumes inv: "rb_inv b" and room: "rb_count b < rb_capacity b"
  shows "ringbuffer_insert b x =
    (b\<lparr>rb_data := (rb_data b)[rb_slot b (rb_count b) := Some x],
       rb_head := (rb_head b + 1) mod int (length (rb_data b))\<rparr>, 0)"
proof -
  let ?n = "int (length (rb_data b))"
  have b: "0 \<le> rb_head b" "rb_head b < ?n" "?n < 2 ^ 31" and size: "rb_size b = word_of_int ?n"
    using inv by (auto simp: rb_inv_def)
  have "uint (word_of_int (rb_head b + 1) :: u64) = rb_head b + 1"
    by (rule uint_woi_u64) (use b in auto)
  moreover have "uint (rb_size b) = ?n"
    unfolding size by (rule uint_woi_u64) (use b in auto)
  ultimately have wrap: "word_of_int (rb_head b + 1) = rb_size b \<longleftrightarrow> rb_head b + 1 = ?n"
    unfolding word_uint_eq_iff by simp
  have "(rb_head b + 1) mod ?n = (if rb_head b + 1 = ?n then 0 else rb_head b + 1)"
    using b add_mod_small [of "rb_head b" ?n 1] by auto
  moreover have "int (rb_slot b (rb_count b)) = rb_head b"
    using rb_slot_eq [OF inv, of "rb_count b"] rb_count_eq [OF inv] rb_inv_bounds(2) [OF inv] b
    by (auto split: if_splits)
  then have "rb_slot b (rb_count b) = nat (rb_head b)" by simp
  moreover have "\<not> ringbuffer_isFull b"
    using room rb_isFull_iff [OF inv] by simp
  ultimately show ?thesis
    unfolding ringbuffer_insert_def wrap Let_def by simp
qed

lemma rb_remove_spec:
  assumes inv: "rb_inv b" and elems: "rb_elems b = x # xs"
  shows "fst (ringbuffer_remove b) = Some x \<and> rb_inv (snd (ringbuffer_remove b))
    \<and> rb_elems (snd (ringbuffer_remove b)) = xs
    \<and> rb_capacity (snd (ringbuffer_remove b)) = rb_capacity b"
proof -
  define b' where "b' = b\<lparr>rb_tail := (rb_tail b + 1) mod int (length (rb_data b))\<rparr>"
  have cnt: "0 < rb_count b" using elems by (metis length_rb_elems length_greater_0_conv list.distinct(1))
  have n: "0 < int (length (rb_data b))" using rb_inv_bounds(1) [OF inv] by simp
  have slot: "rb_slot b' i = rb_slot b (Suc i)" for i
    by (simp add: rb_slot_def b'_def mod_add_left_eq add.assoc)
  have "(rb_head b - (rb_tail b + 1) mod int (length (rb_data b))) mod int (length (rb_data b))
      = ((rb_head b - rb_tail b) mod int (length (rb_data b)) - 1) mod int (length (rb_data b))"
    by (simp add: mod_diff_left_eq mod_diff_right_eq diff_diff_eq)
  also have "\<dots> = (int (rb_count b) - 1) mod int (length (rb_data b))"
    using rb_inv_bounds(1) [OF inv] by (simp add: rb_count_def)
  also have "\<dots> = int (rb_count b) - 1"
    by (rule mod_pos_pos_trivial) (use cnt rb_inv_bounds(2) [OF inv] in auto)
  finally have count: "rb_count b' = rb_count b - 1"
    unfolding rb_count_def [of b'] by (simp add: b'_def)
  have some: "rb_data b ! rb_slot b i = Some (rb_elems b ! i)" if "i < rb_count b" for i
    using inv that by (auto simp: rb_inv_def rb_elems_nth)
  have "rb_inv b'"
    using inv some count slot pos_mod_sign [OF n, of "rb_tail b + 1"]
      pos_mod_bound [OF n, of "rb_tail b + 1"]
    unfolding rb_inv_def by (auto simp: b'_def)
  moreover have "rb_elems b' = xs"
  proof (rule nth_equalityI)
    show "length (rb_elems b') = length xs" using count elems by (metis length_rb_elems length_tl list.sel(3))
    fix i assume "i < length (rb_elems b')"
    then have "i < rb_count b'" by simp
    then have "rb_elems b' ! i = the (rb_data b ! rb_slot b (Suc i))"
      by (simp add: rb_elems_nth slot) (simp add: b'_def)
    then show "rb_elems b' ! i = xs ! i"
      using some [of "Suc i"] count elems \<open>i < rb_count b'\<close> by simp
  qed
  moreover have "rb_data b ! rb_slot b 0 = Some x" using some [OF cnt] elems by simp
  ultimately show ?thesis
    using rb_removed [OF inv] elems by (simp add: b'_def rb_capacity_def)
qed

lemma rb_insert_spec:
  assumes inv: "rb_inv b" and room: "length (rb_elems b) < rb_capacity b"
  shows "snd (ringbuffer_insert b x) = 0 \<and> rb_inv (fst (ringbuffer_insert b x))
    \<and> rb_elems (fst (ringbuffer_insert b x)) = rb_elems b @ [x]
    \<and> rb_capacity (fst (ringbuffer_insert b x)) = rb_capacity b"
proof -
  let ?n = "int (length (rb_data b))"
  let ?new = "rb_slot b (rb_count b)"
  define b' where "b' = b\<lparr>rb_data := (rb_data b)[?new := Some x], rb_head := (rb_head b + 1) mod ?n\<rparr>"
  have lt: "rb_count b < rb_capacity b" using room by simp
  have n: "0 < int (length (rb_data b))" using rb_inv_bounds(1) [OF inv] by simp
  have slot: "rb_slot b' i = rb_slot b i" for i
    by (simp add: rb_slot_def b'_def)
  have "((rb_head b + 1) mod ?n - rb_tail b) mod ?n = ((rb_head b - rb_tail b) mod ?n + 1) mod ?n"
    unfolding mod_diff_left_eq mod_add_left_eq by (simp add: algebra_simps)
  also have "\<dots> = (int (rb_count b) + 1) mod ?n"
    using rb_inv_bounds(1) [OF inv] by (simp add: rb_count_def)
  also have "\<dots> = int (rb_count b) + 1"
    by (rule mod_pos_pos_trivial) (use lt in \<open>auto simp: rb_capacity_def\<close>)
  finally have count: "rb_count b' = Suc (rb_count b)"
    unfolding rb_count_def [of b'] by (simp add: b'_def)
  have old: "rb_data b' ! rb_slot b i = rb_data b ! rb_slot b i \<and> i < rb_count b" if "i < rb_count b" for i
  proof -
    have "int (rb_slot b i) \<noteq> int (rb_slot b (rb_count b))"
      using rb_slot_eq [OF inv, of i] rb_slot_eq [OF inv, of "rb_count b"] that lt
      by (simp add: rb_capacity_def split: if_splits) linarith
    then show ?thesis using that by (simp add: b'_def)
  qed
  have new: "rb_data b' ! ?new = Some x"
    using rb_inv_bounds(3) [OF inv] by (simp add: b'_def)
  have "rb_inv b'"
    using inv old new count slot pos_mod_sign [OF n, of "rb_head b + 1"]
      pos_mod_bound [OF n, of "rb_head b + 1"]
    unfolding rb_inv_def by (auto simp: b'_def less_Suc_eq)
  moreover have "rb_elems b' = rb_elems b @ [x]"
  proof (rule nth_equalityI)
    show "length (rb_elems b') = length (rb_elems b @ [x])" using count by simp
    fix i assume "i < length (rb_elems b')"
    then have "i < Suc (rb_count b)" using count by simp
    then show "rb_elems b' ! i = (rb_elems b @ [x]) ! i"
      using old [of i] new by (auto simp: rb_elems_nth count slot nth_append less_Suc_eq)
  qed
  ultimately show ?thesis
    using rb_inserted [OF inv lt] by (simp add: b'_def rb_capacity_def)
qed

interpretation rb: bounded_fifo ringbuffer_isEmpty ringbuffer_isFull ringbuffer_remove
  ringbuffer_insert rb_elems rb_capacity rb_inv
proof unfold_locales
  fix b :: "'a ringbuffer_t" and x and xs
  assume inv: "rb_inv b"
  show "ringbuffer_isEmpty b \<longleftrightarrow> rb_elems b = []" using inv by (rule rb_isEmpty_iff)
  show "ringbuffer_isFull b \<longleftrightarrow> length (rb_elems b) = rb_capacity b" using inv by (rule rb_isFull_iff)
  show "length (rb_elems b) \<le> rb_capacity b"
    using rb_inv_bounds(2) [OF inv] by (simp add: rb_capacity_def)
  show "ringbuffer_remove b = (None, b)" if "rb_elems b = []"
    using that rb_isEmpty_iff [OF inv] by (simp add: ringbuffer_remove_def)
  show "ringbuffer_insert b x = (b, -1)" if "length (rb_elems b) = rb_capacity b"
    using that rb_isFull_iff [OF inv] by (simp add: ringbuffer_insert_def)
qed (simp_all add: rb_remove_spec rb_insert_spec)

lemma rb_inv_init:
  assumes "unat n + 1 < 2 ^ 31"
  shows "rb_inv (fst (ringbuffer_init True n))"
    "rb_elems (fst (ringbuffer_init True n)) = []"
    "rb_capacity (fst (ringbuffer_init True n)) = unat n"
proof -
  have "unat (n + 1) = unat n + 1"
    using assms by (simp add: unat_word_ariths)
  then show "rb_inv (fst (ringbuffer_init True n))" "rb_elems (fst (ringbuffer_init True n)) = []"
    "rb_capacity (fst (ringbuffer_init True n)) = unat n"
    using assms add_strict_increasing [OF zero_less_one uint_ge_0 [of n]]
    by (auto simp: rb_inv_def ringbuffer_init_def rb_count_def rb_elems_def rb_capacity_def
        simp flip: word_unat_eq_iff)
qed

lemma rb_peek_spec: "rb_inv b \<Longrightarrow> ringbuffer_peek b = fst (ringbuffer_remove b)"
  by (simp add: ringbuffer_peek_def ringbuffer_remove_def Let_def)

section \<open>The synchronised queue\<close>

record 'a queue_t =
  q_buf :: "'a ringbuffer_t"
  nProducers :: int
  nTerminated :: int

definition queue_init :: "bool \<Rightarrow> u64 \<Rightarrow> int \<Rightarrow> 'a queue_t outcome" where
  "queue_init alloc_ok n producers =
     (case ringbuffer_init alloc_ok n of (b, rv) \<Rightarrow>
        assertR (rv = 0) ''!ringbuffer_init(&(que->buf), size)''
          (Inr \<lparr>q_buf = b, nProducers = producers, nTerminated = 0\<rparr>))"

definition queue_isTerminated :: "'a queue_t \<Rightarrow> bool outcome" where
  "queue_isTerminated que =
     assertR (nTerminated que \<le> nProducers que) ''que->nTerminated <= que->nProducers''
       (Inr (nTerminated que = nProducers que))"

definition queue_terminate :: "'a queue_t \<Rightarrow> 'a queue_t outcome" where
  "queue_terminate que =
     (let que' = que\<lparr>nTerminated := nTerminated que + 1\<rparr>
      in assertR (nTerminated que' \<le> nProducers que') ''que->nTerminated <= que->nProducers''
           (Inr que'))"

text \<open>
  A call made under the queue's mutex. \<open>None\<close>: the caller is inside \<^verbatim>\<open>pthread_cond_wait\<close> (the loop
  condition holds, so it sleeps and will evaluate it again); \<open>Some\<close>: the call returned.
\<close>

definition queue_dequeue ::
  "'a queue_t \<Rightarrow> 'a ringbuffer_t \<Rightarrow> int \<Rightarrow> (int \<times> 'a queue_t \<times> 'a ringbuffer_t) option outcome" where
  "queue_dequeue que buf limit =
     bindR (if ringbuffer_isEmpty (q_buf que) then queue_isTerminated que else Inr False)
       (\<lambda>terminated.
          if ringbuffer_isEmpty (q_buf que) \<and> \<not> terminated then Inr None
          else if ringbuffer_isEmpty (q_buf que) \<and> terminated then Inr (Some (-1, que, buf))
          else bindR (transfer ringbuffer_isEmpty ringbuffer_remove ringbuffer_isFull ringbuffer_insert
                        (nat limit) 0 (q_buf que) buf)
                 (\<lambda>(i, qb, buf'). Inr (Some (i, que\<lparr>q_buf := qb\<rparr>, buf'))))"

definition queue_enqueue ::
  "'a queue_t \<Rightarrow> 'a ringbuffer_t \<Rightarrow> int \<Rightarrow> (int \<times> 'a queue_t \<times> 'a ringbuffer_t) option outcome" where
  "queue_enqueue que buf limit =
     bindR (queue_isTerminated que)
       (\<lambda>terminated. assertR (\<not> terminated) ''!queue_isTerminated(que)''
          (if ringbuffer_isFull (q_buf que) then Inr None
           else bindR (transfer ringbuffer_isEmpty ringbuffer_remove ringbuffer_isFull ringbuffer_insert
                         (nat limit) 0 buf (q_buf que))
                  (\<lambda>(i, buf', qb). Inr (Some (i, que\<lparr>q_buf := qb\<rparr>, buf')))))"

definition queue_inv :: "'a queue_t \<Rightarrow> bool" where
  "queue_inv que \<longleftrightarrow> rb_inv (q_buf que) \<and> 0 \<le> nTerminated que \<and> nTerminated que \<le> nProducers que"

lemma queue_inv_buf [simp]: "queue_inv que \<Longrightarrow> rb_inv (q_buf que)"
  by (simp add: queue_inv_def)

lemma queue_isTerminated_inv:
  "queue_inv que \<Longrightarrow> queue_isTerminated que = Inr (nTerminated que = nProducers que)"
  by (simp add: queue_inv_def queue_isTerminated_def assertR_holds)

lemma queue_inv_init:
  assumes "unat n + 1 < 2 ^ 31" "0 \<le> producers"
  shows "\<exists>que. queue_init True n producers = Inr que \<and> queue_inv que
    \<and> rb_elems (q_buf que) = [] \<and> rb_capacity (q_buf que) = unat n"
  using rb_inv_init [OF assms(1)] assms(2)
  by (auto simp: queue_init_def queue_inv_def assertR_def ringbuffer_init_def)

lemma queue_dequeue_nonempty:
  assumes "queue_inv que" "rb_inv buf" "rb_elems (q_buf que) \<noteq> []"
    and "m = min (nat limit) (min (length (rb_elems (q_buf que))) (rb_capacity buf - length (rb_elems buf)))"
  shows "\<exists>que' buf'. queue_dequeue que buf limit = Inr (Some (int m, que', buf'))
    \<and> queue_inv que' \<and> rb_inv buf'
    \<and> rb_elems (q_buf que') = drop m (rb_elems (q_buf que))
    \<and> rb_elems buf' = rb_elems buf @ take m (rb_elems (q_buf que))
    \<and> rb_capacity buf' = rb_capacity buf \<and> rb_capacity (q_buf que') = rb_capacity (q_buf que)
    \<and> nTerminated que' = nTerminated que \<and> nProducers que' = nProducers que"
proof -
  have q: "rb_inv (q_buf que)" using assms(1) by simp
  obtain qb buf' where t: "transfer ringbuffer_isEmpty ringbuffer_remove ringbuffer_isFull ringbuffer_insert
      (nat limit) 0 (q_buf que) buf = Inr (int m, qb, buf')"
    "rb_inv qb" "rb_inv buf'" "rb_elems qb = drop m (rb_elems (q_buf que))"
    "rb_elems buf' = rb_elems buf @ take m (rb_elems (q_buf que))"
    "rb_capacity qb = rb_capacity (q_buf que)" "rb_capacity buf' = rb_capacity buf"
    using rb.transfer_spec [OF q assms(2,4), of 0] by auto
  have "\<not> ringbuffer_isEmpty (q_buf que)" using assms(3) rb_isEmpty_iff [OF q] by simp
  then have "queue_dequeue que buf limit = Inr (Some (int m, que\<lparr>q_buf := qb\<rparr>, buf'))"
    by (simp add: queue_dequeue_def t(1))
  with t assms(1) show ?thesis by (auto simp: queue_inv_def)
qed

lemma queue_enqueue_room:
  assumes "queue_inv que" "rb_inv buf" "nTerminated que < nProducers que"
    and "length (rb_elems (q_buf que)) < rb_capacity (q_buf que)"
    and "m = min (nat limit) (min (length (rb_elems buf))
           (rb_capacity (q_buf que) - length (rb_elems (q_buf que))))"
  shows "\<exists>que' buf'. queue_enqueue que buf limit = Inr (Some (int m, que', buf'))
    \<and> queue_inv que' \<and> rb_inv buf'
    \<and> rb_elems (q_buf que') = rb_elems (q_buf que) @ take m (rb_elems buf)
    \<and> rb_elems buf' = drop m (rb_elems buf)
    \<and> rb_capacity buf' = rb_capacity buf \<and> rb_capacity (q_buf que') = rb_capacity (q_buf que)
    \<and> nTerminated que' = nTerminated que \<and> nProducers que' = nProducers que"
proof -
  have q: "rb_inv (q_buf que)" using assms(1) by simp
  obtain qb buf' where t: "transfer ringbuffer_isEmpty ringbuffer_remove ringbuffer_isFull ringbuffer_insert
      (nat limit) 0 buf (q_buf que) = Inr (int m, buf', qb)"
    "rb_inv qb" "rb_inv buf'" "rb_elems buf' = drop m (rb_elems buf)"
    "rb_elems qb = rb_elems (q_buf que) @ take m (rb_elems buf)"
    "rb_capacity qb = rb_capacity (q_buf que)" "rb_capacity buf' = rb_capacity buf"
    using rb.transfer_spec [OF assms(2) q assms(5), of 0] by auto
  have "\<not> ringbuffer_isFull (q_buf que)" using assms(4) rb_isFull_iff [OF q] by simp
  then have "queue_enqueue que buf limit = Inr (Some (int m, que\<lparr>q_buf := qb\<rparr>, buf'))"
    using assms(3) by (simp add: queue_enqueue_def queue_isTerminated_inv [OF assms(1)] t(1) assertR_holds)
  with t assms(1) show ?thesis by (auto simp: queue_inv_def)
qed

section \<open>Properties of the queue operations\<close>

definition queue_contents :: "'a queue_t \<Rightarrow> 'a list" where
  "queue_contents que = rb_elems (q_buf que)"

text \<open>
  C1. \<^verbatim>\<open>queue_dequeue\<close>, on every branch: it sleeps exactly when the queue is empty and a producer is
  still running, it returns -1 exactly when the queue is empty and every producer has terminated,
  and otherwise it moves the oldest elements, in order, as many as the limit, the queue and the free
  space of the receive buffer allow. No assertion of the call or of its loop can fail.
\<close>

theorem queue_dequeue_correct:
  assumes "queue_inv que" "rb_inv buf"
  shows "case queue_dequeue que buf limit of
      Inl e \<Rightarrow> False
    | Inr None \<Rightarrow> queue_contents que = [] \<and> nTerminated que < nProducers que
    | Inr (Some (r, que', buf')) \<Rightarrow>
        queue_inv que' \<and> rb_inv buf' \<and>
        (if queue_contents que = []
         then r = -1 \<and> nTerminated que = nProducers que \<and> que' = que \<and> buf' = buf
         else r = int (min (nat limit) (min (length (queue_contents que))
                                            (rb_capacity buf - length (rb_elems buf)))) \<and>
              queue_contents que' = drop (nat r) (queue_contents que) \<and>
              rb_elems buf' = rb_elems buf @ take (nat r) (queue_contents que))"
proof (cases "queue_contents que = []")
  case True
  then have "ringbuffer_isEmpty (q_buf que)"
    using rb_isEmpty_iff [of "q_buf que"] assms(1) by (simp add: queue_contents_def)
  with True assms show ?thesis
    by (auto simp: queue_dequeue_def queue_isTerminated_inv queue_inv_def)
next
  case False
  then have "rb_elems (q_buf que) \<noteq> []" by (simp add: queue_contents_def)
  from queue_dequeue_nonempty [OF assms this refl, of limit] False show ?thesis
    by (auto simp: queue_contents_def)
qed

definition queue_example :: "nat queue_t" where
  "queue_example = \<lparr>q_buf = \<lparr>rb_head = 1, rb_tail = 2, rb_data = [Some 8, None, Some 7], rb_size = 3\<rparr>,
     nProducers = 2, nTerminated = 1\<rparr>"

definition buffer_example :: "nat ringbuffer_t" where
  "buffer_example = \<lparr>rb_head = 0, rb_tail = 0, rb_data = [None, None], rb_size = 2\<rparr>"

lemma queue_example_inv: "queue_inv queue_example" "rb_inv buffer_example"
  by (auto simp: queue_inv_def rb_inv_def queue_example_def buffer_example_def rb_count_def rb_slot_def
      less_2_cases_iff)

theorem queue_dequeue_correct_witness:
  "case queue_dequeue queue_example buffer_example 20 of
      Inl e \<Rightarrow> False
    | Inr None \<Rightarrow> False
    | Inr (Some (r, que', buf')) \<Rightarrow> r = 1 \<and> queue_contents que' = [8] \<and> rb_elems buf' = [7]"
proof -
  have c: "queue_contents queue_example = [7, 8]" "rb_elems buffer_example = []"
    "rb_capacity buffer_example = 1"
    by (simp_all add: queue_contents_def queue_example_def buffer_example_def rb_elems_def rb_count_def
        rb_slot_def rb_capacity_def upt_rec)
  show ?thesis
    using queue_dequeue_correct [OF queue_example_inv, of 20]
    by (auto simp: c split: sum.splits option.splits)
qed

section \<open>The queue as a shared object\<close>

text \<open>
  Every access to a queue happens under its mutex, so a concurrent history of a queue is a sequence
  of atomic calls: batches put in by producers, batches taken out by consumers (each through its own
  private buffer, with its own limit), and terminations.
\<close>

datatype 'a queue_event = Enqueued "'a list" | Dequeued "'a list" | Terminated

inductive queue_step :: "'a queue_t \<Rightarrow> 'a queue_event \<Rightarrow> 'a queue_t \<Rightarrow> bool" where
  enq: "rb_inv buf \<Longrightarrow> queue_enqueue que buf limit = Inr (Some (r, que', buf')) \<Longrightarrow>
    queue_step que (Enqueued (take (nat r) (rb_elems buf))) que'"
| deq: "rb_inv buf \<Longrightarrow> queue_dequeue que buf limit = Inr (Some (r, que', buf')) \<Longrightarrow>
    queue_step que (Dequeued (drop (length (rb_elems buf)) (rb_elems buf'))) que'"
| trm: "queue_terminate que = Inr que' \<Longrightarrow> queue_step que Terminated que'"

inductive_cases queue_stepE: "queue_step que e que'"

inductive queue_history :: "'a queue_t \<Rightarrow> 'a queue_event list \<Rightarrow> 'a queue_t \<Rightarrow> bool" where
  none: "queue_history que [] que"
| more: "queue_history que es que' \<Longrightarrow> queue_step que' e que'' \<Longrightarrow> queue_history que (es @ [e]) que''"

fun event_in :: "'a queue_event \<Rightarrow> 'a list" where
  "event_in (Enqueued xs) = xs"
| "event_in _ = []"

fun event_out :: "'a queue_event \<Rightarrow> 'a list" where
  "event_out (Dequeued xs) = xs"
| "event_out _ = []"

fun event_term :: "'a queue_event \<Rightarrow> int" where
  "event_term Terminated = 1"
| "event_term _ = 0"

definition queue_shape :: "'a queue_t \<Rightarrow> int \<times> nat" where
  "queue_shape que = (nProducers que, rb_capacity (q_buf que))"

lemma queue_enqueue_effect:
  assumes "queue_inv que" "rb_inv buf" "queue_enqueue que buf limit = Inr (Some (r, que', buf'))"
  shows "queue_inv que' \<and> queue_contents que' = queue_contents que @ take (nat r) (rb_elems buf)
    \<and> nTerminated que' = nTerminated que \<and> queue_shape que' = queue_shape que"
proof -
  have q: "rb_inv (q_buf que)" using assms(1) by simp
  have "nTerminated que < nProducers que" "\<not> ringbuffer_isFull (q_buf que)"
    using assms(1,3) by (auto simp: queue_enqueue_def queue_isTerminated_inv assertR_def queue_inv_def
        split: if_splits)
  then have "length (rb_elems (q_buf que)) < rb_capacity (q_buf que)"
    using rb.length_le [OF q] rb_isFull_iff [OF q] by simp
  from queue_enqueue_room [OF assms(1,2) \<open>nTerminated que < nProducers que\<close> this refl, of limit]
  show ?thesis using assms(3) by (auto simp: queue_contents_def queue_shape_def)
qed

lemma queue_dequeue_effect:
  assumes "queue_inv que" "rb_inv buf" "queue_dequeue que buf limit = Inr (Some (r, que', buf'))"
  shows "queue_inv que'
    \<and> drop (length (rb_elems buf)) (rb_elems buf') @ queue_contents que' = queue_contents que
    \<and> nTerminated que' = nTerminated que \<and> queue_shape que' = queue_shape que"
proof (cases "rb_elems (q_buf que) = []")
  case True
  then have "ringbuffer_isEmpty (q_buf que)" using rb_isEmpty_iff [of "q_buf que"] assms(1) by simp
  then have "que' = que \<and> buf' = buf"
    using assms(1,3) by (auto simp: queue_dequeue_def queue_isTerminated_inv split: if_splits)
  with assms(1) show ?thesis by simp
next
  case False
  from queue_dequeue_nonempty [OF assms(1,2) False refl, of limit] assms(3) show ?thesis
    by (auto simp: queue_contents_def queue_shape_def)
qed

lemma queue_step_effect:
  assumes "queue_step que e que'" "queue_inv que"
  shows "queue_inv que' \<and> queue_contents que @ event_in e = event_out e @ queue_contents que'
    \<and> nTerminated que' = nTerminated que + event_term e \<and> queue_shape que' = queue_shape que"
  using assms
proof cases
  case (enq buf limit r buf')
  with queue_enqueue_effect [OF assms(2)] show ?thesis by simp
next
  case (deq buf limit r buf')
  with queue_dequeue_effect [OF assms(2)] show ?thesis by simp
next
  case trm
  then show ?thesis using assms(2)
    by (auto simp: queue_terminate_def assertR_def queue_inv_def queue_contents_def queue_shape_def Let_def
        split: if_splits)
qed

lemma queue_history_effect:
  assumes "queue_history que es que'" "queue_inv que"
  shows "queue_inv que' \<and>
    queue_contents que @ concat (map event_in es) = concat (map event_out es) @ queue_contents que'
    \<and> nTerminated que' = nTerminated que + sum_list (map event_term es) \<and> queue_shape que' = queue_shape que"
  using assms
proof (induction rule: queue_history.induct)
  case (none que)
  then show ?case by simp
next
  case (more que es que' e que'')
  note IH = more.IH [OF more.prems]
  from queue_step_effect [OF more.hyps(2)] IH
  have e: "queue_inv que''" "queue_contents que' @ event_in e = event_out e @ queue_contents que''"
    "nTerminated que'' = nTerminated que' + event_term e" "queue_shape que'' = queue_shape que'"
    by auto
  have "queue_contents que @ concat (map event_in (es @ [e]))
      = concat (map event_out es) @ queue_contents que' @ event_in e"
    using IH by (metis append.assoc concat_snoc map_append list.simps(8,9))
  also have "\<dots> = concat (map event_out (es @ [e])) @ queue_contents que''"
    by (simp add: e(2))
  finally show ?case using IH e(1,3,4) by simp
qed

text \<open>
  C2. Over every history of concurrent producers and consumers of a queue that starts empty, the
  elements taken out are, in order, exactly the elements put in, less those still in the queue (no
  loss, duplication or reordering); the queue never holds more than its capacity; and no more than
  the announced number of producers can have terminated.
\<close>

theorem queue_history_fifo:
  assumes "queue_history que es que'" "queue_inv que" "queue_contents que = []"
  shows "concat (map event_in es) = concat (map event_out es) @ queue_contents que'
    \<and> length (queue_contents que') \<le> rb_capacity (q_buf que)
    \<and> nTerminated que + sum_list (map event_term es) \<le> nProducers que"
proof (intro conjI)
  note eff = queue_history_effect [OF assms(1,2)]
  show "concat (map event_in es) = concat (map event_out es) @ queue_contents que'"
    using eff assms(3) by simp
  show "length (queue_contents que') \<le> rb_capacity (q_buf que)"
    using eff rb.length_le [of "q_buf que'"] by (auto simp: queue_contents_def queue_shape_def)
  show "nTerminated que + sum_list (map event_term es) \<le> nProducers que"
    using eff by (auto simp: queue_inv_def queue_shape_def)
qed

lemma queue_history_example:
  "\<exists>que'. queue_history \<lparr>q_buf = \<lparr>rb_head = 0, rb_tail = 0, rb_data = [None, None, None], rb_size = 3\<rparr>,
       nProducers = 1, nTerminated = 0\<rparr> [Enqueued [5 :: nat], Terminated] que'"
proof -
  define q0 :: "nat queue_t" where
    "q0 = \<lparr>q_buf = \<lparr>rb_head = 0, rb_tail = 0, rb_data = [None, None, None], rb_size = 3\<rparr>,
       nProducers = 1, nTerminated = 0\<rparr>"
  define b0 :: "nat ringbuffer_t" where
    "b0 = \<lparr>rb_head = 1, rb_tail = 0, rb_data = [Some 5, None], rb_size = 2\<rparr>"
  have b: "rb_inv b0" "rb_elems b0 = [5]"
    by (simp_all add: b0_def rb_inv_def rb_count_def rb_slot_def rb_elems_def)
  have "queue_enqueue q0 b0 1 = Inr (Some (1, q0\<lparr>q_buf := \<lparr>rb_head = 1, rb_tail = 0,
      rb_data = [Some 5, None, None], rb_size = 3\<rparr>\<rparr>, b0\<lparr>rb_tail := 1\<rparr>))"
    by (simp add: queue_enqueue_def q0_def b0_def queue_isTerminated_def assertR_def
        ringbuffer_isFull_def ringbuffer_isEmpty_def ringbuffer_remove_def ringbuffer_insert_def
        word_le_def)
  from queue_step.enq [OF b(1) this] have
    "queue_step q0 (Enqueued [5]) (q0\<lparr>q_buf := \<lparr>rb_head = 1, rb_tail = 0,
      rb_data = [Some 5, None, None], rb_size = 3\<rparr>\<rparr>)"
    by (simp add: b(2))
  from queue_history.more [OF queue_history.more [OF queue_history.none this, simplified] queue_step.trm]
  show ?thesis by (auto simp: q0_def queue_terminate_def assertR_def)
qed

theorem queue_history_fifo_witness:
  "\<exists>que'. queue_history \<lparr>q_buf = \<lparr>rb_head = 0, rb_tail = 0, rb_data = [None, None, None], rb_size = 3\<rparr>,
       nProducers = 1, nTerminated = 0\<rparr> [Enqueued [5 :: nat], Terminated] que' \<and> queue_contents que' = [5]"
proof -
  have "queue_inv \<lparr>q_buf = \<lparr>rb_head = 0, rb_tail = 0, rb_data = [None, None, None :: nat option], rb_size = 3\<rparr>,
       nProducers = 1, nTerminated = 0\<rparr>"
    "queue_contents \<lparr>q_buf = \<lparr>rb_head = 0, rb_tail = 0, rb_data = [None, None, None :: nat option], rb_size = 3\<rparr>,
       nProducers = 1, nTerminated = 0\<rparr> = []"
    by (simp_all add: queue_inv_def rb_inv_def rb_count_def queue_contents_def rb_elems_def)
  then show ?thesis
    using queue_history_example queue_history_fifo by fastforce
qed

end
