(* ===== verification/Array_Heap.thy ===== *)
theory Array_Heap
  imports Prelude
begin

text \<open>
  Heaps laid out in an array with the root at index 1 and the children of \<open>i\<close> at \<open>2i\<close> and \<open>2i+1\<close>,
  seen through the function \<open>A\<close> from positions to keys, and the ``hole'' argument behind every
  percolation loop of the repository: positions other than the hole are in order, and the hole's
  parent is in order with the hole's children. The contract of a priority queue is stated at the end
  as a locale.
\<close>

definition heap_fun :: "(nat \<Rightarrow> 'k::linorder) \<Rightarrow> nat \<Rightarrow> bool" where
  "heap_fun A n \<longleftrightarrow> (\<forall>j. 2 \<le> j \<and> j \<le> n \<longrightarrow> A (j div 2) \<le> A j)"

definition heap_hole :: "(nat \<Rightarrow> 'k::linorder) \<Rightarrow> nat \<Rightarrow> nat \<Rightarrow> bool" where
  "heap_hole A n i \<longleftrightarrow>
     (\<forall>j. 2 \<le> j \<and> j \<le> n \<and> j \<noteq> i \<and> j div 2 \<noteq> i \<longrightarrow> A (j div 2) \<le> A j) \<and>
     (\<forall>j. 2 \<le> i \<and> j \<le> n \<and> j div 2 = i \<longrightarrow> A (i div 2) \<le> A j)"

lemma heap_funD: "heap_fun A n \<Longrightarrow> 2 \<le> j \<Longrightarrow> j \<le> n \<Longrightarrow> A (j div 2) \<le> A j"
  by (simp add: heap_fun_def)

lemma heap_fun_trivial [simp]: "n \<le> 1 \<Longrightarrow> heap_fun A n"
  by (auto simp: heap_fun_def)

lemma heap_fun_mono: "heap_fun A n \<Longrightarrow> m \<le> n \<Longrightarrow> heap_fun A m"
  by (simp add: heap_fun_def)

lemma heap_root_least:
  assumes "heap_fun A n" "1 \<le> j" "j \<le> n"
  shows "A 1 \<le> A j"
  using assms(2,3)
proof (induction j rule: less_induct)
  case (less j)
  show ?case
  proof (cases "j = 1")
    case False
    then have "2 \<le> j" "1 \<le> j div 2" "j div 2 < j" using less.prems by auto
    then have "A 1 \<le> A (j div 2)" "A (j div 2) \<le> A j"
      using less heap_funD [OF assms(1)] by auto
    then show ?thesis by (rule order_trans)
  qed simp
qed

lemma heap_hole_new:
  assumes "heap_fun A n" "1 \<le> n"
  shows "heap_hole A (Suc n) (Suc n)"
  using assms by (auto simp: heap_hole_def heap_fun_def le_Suc_eq)

lemma heap_hole_root:
  assumes "heap_fun A n"
  shows "heap_hole A n 1"
  using assms by (auto simp: heap_hole_def heap_fun_def)

lemma heap_hole_fill:
  assumes "heap_hole A n i"
    and "2 \<le> i \<Longrightarrow> A (i div 2) \<le> k"
    and "\<And>j. j \<le> n \<Longrightarrow> j div 2 = i \<Longrightarrow> j \<noteq> i \<Longrightarrow> k \<le> A j"
  shows "heap_fun (A(i := k)) n"
  unfolding heap_fun_def
proof (intro allI impI)
  fix j assume j: "2 \<le> j \<and> j \<le> n"
  then have "j div 2 \<noteq> j" by auto
  then show "(A(i := k)) (j div 2) \<le> (A(i := k)) j"
    using assms j by (cases "j = i"; cases "j div 2 = i") (auto simp: heap_hole_def)
qed

lemma heap_hole_up:
  assumes hole: "heap_hole A n i" and i: "2 \<le> i" "i \<le> n"
    and above: "k < A (i div 2)"
  shows "heap_hole (A(i := A (i div 2))) n (i div 2)"
    and "\<And>j. j \<le> n \<Longrightarrow> j div 2 = i div 2 \<Longrightarrow> j \<noteq> i div 2 \<Longrightarrow> k \<le> (A(i := A (i div 2))) j"
proof -
  let ?p = "i div 2"
  have p: "?p \<noteq> i" "1 \<le> ?p" "?p \<le> n" "?p div 2 \<noteq> i" using i by auto
  have sib: "A ?p \<le> A j" if "j \<le> n" "j div 2 = ?p" "j \<noteq> i" "2 \<le> j" for j
    using hole that p unfolding heap_hole_def by metis
  have gp: "A (?p div 2) \<le> A ?p" if "2 \<le> ?p"
    using hole that p unfolding heap_hole_def by auto
  show "heap_hole (A(i := A ?p)) n ?p"
    unfolding heap_hole_def
  proof (intro conjI allI impI)
    fix j assume j: "2 \<le> j \<and> j \<le> n \<and> j \<noteq> ?p \<and> j div 2 \<noteq> ?p"
    then show "(A(i := A ?p)) (j div 2) \<le> (A(i := A ?p)) j"
      using hole i unfolding heap_hole_def by (cases "j = i"; cases "j div 2 = i") auto
  next
    fix j assume j: "2 \<le> ?p \<and> j \<le> n \<and> j div 2 = ?p"
    then have "2 \<le> j" by (metis div_le_dividend le_trans)
    then show "(A(i := A ?p)) (?p div 2) \<le> (A(i := A ?p)) j"
      using j gp sib [of j] p order_trans by (cases "j = i") (auto intro: order_trans)
  qed
  fix j assume j: "j \<le> n" "j div 2 = ?p" "j \<noteq> ?p"
  then have "2 \<le> j" using p(2) by (metis One_nat_def Suc_1 div_by_Suc_0 div_less le_neq_implies_less
        less_2_cases_iff not_less not_one_le_zero div_0)
  then show "k \<le> (A(i := A ?p)) j"
    using j above sib [of j] by (cases "j = i") (auto intro: less_imp_le order_trans)
qed

lemma heap_hole_down:
  assumes hole: "heap_hole A n i" and i: "1 \<le> i" and c: "c \<le> n" "c div 2 = i"
    and least: "\<And>j. j \<le> n \<Longrightarrow> j div 2 = i \<Longrightarrow> A c \<le> A j"
  shows "heap_hole (A(i := A c)) n c"
proof -
  have c2: "2 \<le> c" "c \<noteq> i" "i div 2 \<noteq> c" using c i by auto
  show ?thesis
    unfolding heap_hole_def
  proof (intro conjI allI impI)
    fix j assume j: "2 \<le> j \<and> j \<le> n \<and> j \<noteq> c \<and> j div 2 \<noteq> c"
    show "(A(i := A c)) (j div 2) \<le> (A(i := A c)) j"
      using hole c c2 least j unfolding heap_hole_def
      by (cases "j = i"; cases "j div 2 = i") auto
  next
    fix j assume j: "2 \<le> c \<and> j \<le> n \<and> j div 2 = c"
    then have "j \<noteq> i" "j div 2 \<noteq> i" "2 \<le> j" "j \<noteq> c" using c2 i by auto
    then have "A c \<le> A j" using hole j unfolding heap_hole_def by auto
    then show "(A(i := A c)) (c div 2) \<le> (A(i := A c)) j"
      using c \<open>j \<noteq> i\<close> by simp
  qed
qed

section \<open>The contract of a priority queue\<close>

text \<open>Repeated extraction; under the contract it gives the contents in ascending order.\<close>

primrec drain :: "('q \<Rightarrow> 'a option) \<Rightarrow> ('q \<Rightarrow> ('a \<times> 'q) outcome) \<Rightarrow> nat \<Rightarrow> 'q \<Rightarrow> 'a list" where
  "drain find_min delete_min 0 q = []"
| "drain find_min delete_min (Suc k) q =
     (case find_min q of None \<Rightarrow> []
      | Some _ \<Rightarrow> (case delete_min q of Inl _ \<Rightarrow> []
                  | Inr (x, q') \<Rightarrow> x # drain find_min delete_min k q'))"

locale priority_queue =
  fixes key :: "'a \<Rightarrow> 'k::linorder"
    and put :: "'a \<Rightarrow> 'q \<Rightarrow> 'q outcome"
    and find_min :: "'q \<Rightarrow> 'a option"
    and delete_min :: "'q \<Rightarrow> ('a \<times> 'q) outcome"
    and contents :: "'q \<Rightarrow> 'a multiset"
    and inv :: "'q \<Rightarrow> bool"
  assumes put_ok: "inv q \<Longrightarrow>
      \<exists>q'. put x q = Inr q' \<and> inv q' \<and> contents q' = add_mset x (contents q)"
    and find_min_empty: "inv q \<Longrightarrow> contents q = {#} \<Longrightarrow> find_min q = None"
    and find_min_least: "inv q \<Longrightarrow> contents q \<noteq> {#} \<Longrightarrow>
      \<exists>x. find_min q = Some x \<and> x \<in># contents q \<and> (\<forall>y \<in># contents q. key x \<le> key y)"
    and delete_min_ok: "inv q \<Longrightarrow> find_min q = Some x \<Longrightarrow>
      \<exists>q'. delete_min q = Inr (x, q') \<and> inv q' \<and> contents q' = contents q - {#x#}"
begin

lemma find_min_None_iff: "inv q \<Longrightarrow> find_min q = None \<longleftrightarrow> contents q = {#}"
  using find_min_empty find_min_least by fastforce

lemma find_min_SomeD:
  assumes "inv q" "find_min q = Some x"
  shows "x \<in># contents q" "\<And>y. y \<in># contents q \<Longrightarrow> key x \<le> key y"
  using assms find_min_least find_min_empty by fastforce+

lemma drain_sorts:
  assumes "inv q" "size (contents q) \<le> k"
  shows "mset (drain find_min delete_min k q) = contents q \<and> sorted (map key (drain find_min delete_min k q))"
  using assms
proof (induction k arbitrary: q)
  case 0
  then show ?case by simp
next
  case (Suc k)
  show ?case
  proof (cases "find_min q")
    case None
    then show ?thesis using Suc.prems find_min_None_iff [of q] by auto
  next
    case (Some x)
    then obtain q' where q': "delete_min q = Inr (x, q')" "inv q'" "contents q' = contents q - {#x#}"
      using Suc.prems delete_min_ok by blast
    note x = find_min_SomeD [OF Suc.prems(1) Some]
    have IH: "mset (drain find_min delete_min k q') = contents q' \<and> sorted (map key (drain find_min delete_min k q'))"
      using Suc.IH [OF q'(2)] q'(3) x(1) Suc.prems(2) by (simp add: size_Diff_singleton)
    have "key x \<le> key y" if "y \<in> set (drain find_min delete_min k q')" for y
      using that IH q'(3) x(2) by (metis in_diffD set_mset_mset)
    then show ?thesis using Some q' IH x(1) by auto
  qed
qed

end

end
