(* ===== verification/Binheap.thy ===== *)
theory Binheap
  imports Array_Heap
begin

text \<open>
  The binary heap of dedup (\<^verbatim>\<open>apps/dedup/src/binheap.c\<close>), which the reorder stage uses to hold the
  chunks of one coarse chunk. An element is a pointer to a chunk; the heap reads only the chunk's
  second-level sequence number, so the operations take that read as the parameter \<open>key\<close>.
  \<open>Elements[0]\<close> is the NULL sentinel that stops percolation at the root.
\<close>

section \<open>State and operations\<close>

record 'a HeapStruct =
  Capacity :: int
  Size :: int
  Elements :: "'a option list"

definition MinPQSize :: int where "MinPQSize = 16"

definition Initialize :: "bool \<Rightarrow> bool \<Rightarrow> int \<Rightarrow> 'a HeapStruct outcome" where
  "Initialize ok_struct ok_elems InitCapacity =
     (if InitCapacity < MinPQSize
      then Inl (Exit_Trace ''Binary Heap: Priority queue size is too small'')
      else if \<not> ok_struct \<or> \<not> ok_elems then Inl (Exit_Trace ''Binary Heap: Out of space!!!'')
      else Inr \<lparr>Capacity = InitCapacity, Size = 0, Elements = replicate (nat InitCapacity + 1) None\<rparr>)"

definition MakeEmpty :: "'a HeapStruct \<Rightarrow> 'a HeapStruct" where
  "MakeEmpty H = H\<lparr>Size := 0\<rparr>"

definition IsEmpty :: "'a HeapStruct \<Rightarrow> bool" where
  "IsEmpty H \<longleftrightarrow> Size H = 0"

definition IsFull :: "'a HeapStruct \<Rightarrow> bool" where
  "IsFull H \<longleftrightarrow> Size H = Capacity H"

definition NumberElements :: "'a HeapStruct \<Rightarrow> int" where
  "NumberElements H = Size H"

text \<open>
  The loop of \<^verbatim>\<open>Insert\<close>: it walks from the new last position towards the root while the parent is
  not the sentinel and has a larger key. At position 0 the parent would be the sentinel itself.
\<close>

function percolate_up :: "('a \<Rightarrow> 'k::linorder) \<Rightarrow> 'a \<Rightarrow> nat \<Rightarrow> 'a option list \<Rightarrow> nat \<times> 'a option list" where
  "percolate_up key X i E =
     (if i = 0 then (i, E)
      else case E ! (i div 2) of
        None \<Rightarrow> (i, E)
      | Some p \<Rightarrow> if key p > key X then percolate_up key X (i div 2) (E[i := E ! (i div 2)])
                  else (i, E))"
  by pat_completeness auto
termination
  by (relation "measure (\<lambda>(key, X, i, E). i)") auto

declare percolate_up.simps [simp del]

definition Insert :: "('a \<Rightarrow> 'k::linorder) \<Rightarrow> bool \<Rightarrow> 'a \<Rightarrow> 'a HeapStruct \<Rightarrow> 'a HeapStruct outcome" where
  "Insert key realloc_ok X H =
     bindR (if IsFull H then
              (if realloc_ok
               then Inr (H\<lparr>Capacity := 2 * Capacity H,
                           Elements := Elements H @ replicate (nat (2 * Capacity H + 1) - length (Elements H)) None\<rparr>)
               else Inl (Exit_Trace ''Binary Heap: Out of space!!!''))
            else Inr H)
       (\<lambda>H. if Size H = 0 then Inr (H\<lparr>Elements := (Elements H)[1 := Some X], Size := 1\<rparr>)
            else let n = Size H + 1;
                     (i, E) = percolate_up key X (nat n) (Elements H)
                 in Inr (H\<lparr>Size := n, Elements := E[i := Some X]\<rparr>))"

text \<open>The loop of \<^verbatim>\<open>DeleteMin\<close>, with \<open>n\<close> the size after the decrement.\<close>

function percolate_down :: "('a \<Rightarrow> 'k::linorder) \<Rightarrow> 'a \<Rightarrow> nat \<Rightarrow> nat \<Rightarrow> 'a option list \<Rightarrow> nat \<times> 'a option list" where
  "percolate_down key LastElement n i E =
     (if i = 0 \<or> \<not> i * 2 \<le> n then (i, E)
      else let Child = (if i * 2 \<noteq> n \<and> key (the (E ! (i * 2 + 1))) < key (the (E ! (i * 2)))
                        then i * 2 + 1 else i * 2)
           in if key LastElement > key (the (E ! Child))
              then percolate_down key LastElement n Child (E[i := E ! Child])
              else (i, E))"
  by pat_completeness auto
termination
  by (relation "measure (\<lambda>(key, X, n, i, E). n - i)") (auto simp: Let_def split: if_splits)

declare percolate_down.simps [simp del]

definition DeleteMin :: "('a \<Rightarrow> 'k::linorder) \<Rightarrow> 'a HeapStruct \<Rightarrow> ('a \<times> 'a HeapStruct) outcome" where
  "DeleteMin key H =
     (if IsEmpty H then Inl (Exit_Trace ''Binary Heap: Priority queue is empty'')
      else let MinElement = the (Elements H ! 1);
               LastElement = the (Elements H ! nat (Size H));
               n = Size H - 1;
               (i, E) = percolate_down key LastElement (nat n) 1 (Elements H)
           in Inr (MinElement, H\<lparr>Size := n, Elements := E[i := Some LastElement]\<rparr>))"

definition FindMin :: "'a HeapStruct \<Rightarrow> 'a option" where
  "FindMin H = (if \<not> IsEmpty H then Elements H ! 1 else None)"

section \<open>Invariant\<close>

definition elem_at :: "'a option list \<Rightarrow> nat \<Rightarrow> 'a" where
  "elem_at E i = the (E ! i)"

definition slots :: "'a option list \<Rightarrow> nat \<Rightarrow> 'a multiset" where
  "slots E n = mset (map (elem_at E) [1..<Suc n])"

definition BinHeap_inv :: "('a \<Rightarrow> 'k::linorder) \<Rightarrow> 'a HeapStruct \<Rightarrow> bool" where
  "BinHeap_inv key H \<longleftrightarrow>
     0 \<le> Size H \<and> Size H \<le> Capacity H \<and> MinPQSize \<le> Capacity H \<and>
     length (Elements H) = nat (Capacity H) + 1 \<and> Elements H ! 0 = None \<and>
     (\<forall>i. 1 \<le> i \<and> int i \<le> Size H \<longrightarrow> Elements H ! i \<noteq> None) \<and>
     heap_fun (\<lambda>i. key (elem_at (Elements H) i)) (nat (Size H))"

definition heap_contents :: "'a HeapStruct \<Rightarrow> 'a multiset" where
  "heap_contents H = slots (Elements H) (nat (Size H))"

section \<open>Percolation\<close>

lemma elem_at_update:
  "i < length E \<Longrightarrow> elem_at (E[i := Some x]) = (elem_at E)(i := x)"
  by (auto simp: elem_at_def fun_eq_iff nth_list_update)

lemma elem_at_move:
  "i < length E \<Longrightarrow> elem_at (E[i := E ! p]) = (elem_at E)(i := elem_at E p)"
  by (auto simp: elem_at_def fun_eq_iff nth_list_update)

lemma keys_upd: "(\<lambda>j. key ((f(i := x)) j)) = (\<lambda>j. key (f j))(i := key x)"
  by auto

lemma slots_update_swap:
  assumes "1 \<le> i" "i \<le> n" "1 \<le> p" "p \<le> n" "i \<noteq> p"
  shows "mset (map (f(i := f p, p := x)) [1..<Suc n]) = mset (map (f(i := x)) [1..<Suc n])"
proof -
  let ?is = "[1..<Suc n]"
  have split: "mset (map g ?is) = image_mset g (mset_set {1..n})" for g :: "nat \<Rightarrow> 'b"
    by (simp only: mset_map mset_upt atLeastLessThanSuc_atLeastAtMost)
  have "{1..n} = insert i (insert p ({1..n} - {i, p}))" using assms by auto
  then have "mset_set {1..n} = add_mset i (add_mset p (mset_set ({1..n} - {i, p})))"
    using assms by (metis Diff_iff finite_Diff finite_atLeastAtMost finite_insert insert_iff
        mset_set.insert singletonD insertI1)
  moreover have "image_mset (f(i := f p, p := x)) (mset_set ({1..n} - {i, p}))
      = image_mset f (mset_set ({1..n} - {i, p}))"
    "image_mset (f(i := x)) (mset_set ({1..n} - {i, p})) = image_mset f (mset_set ({1..n} - {i, p}))"
    by (auto intro!: image_mset_cong)
  ultimately show ?thesis
    using assms(5) unfolding split by simp
qed

lemma percolate_up_spec:
  assumes "percolate_up key X i E = (i', E')"
    and "heap_hole (\<lambda>j. key (elem_at E j)) n i" "1 \<le> i" "i \<le> n" "n < length E"
    and "\<And>j. j \<le> n \<Longrightarrow> j div 2 = i \<Longrightarrow> j \<noteq> i \<Longrightarrow> key X \<le> key (elem_at E j)"
    and "E ! 0 = None" "\<And>j. 1 \<le> j \<Longrightarrow> j \<le> n \<Longrightarrow> j \<noteq> i \<Longrightarrow> E ! j \<noteq> None"
  shows "1 \<le> i' \<and> i' \<le> n \<and> length E' = length E \<and> E' ! 0 = None
    \<and> (\<forall>j. 1 \<le> j \<and> j \<le> n \<and> j \<noteq> i' \<longrightarrow> E' ! j \<noteq> None)
    \<and> heap_fun (\<lambda>j. key (elem_at (E'[i' := Some X]) j)) n
    \<and> slots (E'[i' := Some X]) n = slots (E[i := Some X]) n"
  using assms
proof (induction key X i E rule: percolate_up.induct)
  case (1 key X i E)
  let ?p = "i div 2"
  have len: "i < length E" using "1.prems"(4,5) by simp
  show ?case
  proof (cases "2 \<le> i \<and> key (elem_at E ?p) > key X")
    case True
    then have p: "1 \<le> ?p" "?p \<le> n" "?p \<noteq> i" "E ! ?p \<noteq> None"
      using "1.prems"(4,8) by auto
    then obtain e where e: "E ! ?p = Some e" by auto
    let ?E = "E[i := E ! ?p]"
    have rec: "percolate_up key X ?p ?E = (i', E')"
      using "1.prems"(1) True e by (simp add: percolate_up.simps [of key X i E] elem_at_def)
    have T: "2 \<le> i" "key X < key (elem_at E ?p)" using True by auto
    note hole = heap_hole_up [OF "1.prems"(2) T(1) "1.prems"(4) T(2)]
    have A: "(\<lambda>j. key (elem_at ?E j)) = (\<lambda>j. key (elem_at E j))(i := key (elem_at E ?p))"
      using len by (auto simp: elem_at_move fun_eq_iff)
    have IH: "1 \<le> i' \<and> i' \<le> n \<and> length E' = length ?E \<and> E' ! 0 = None
      \<and> (\<forall>j. 1 \<le> j \<and> j \<le> n \<and> j \<noteq> i' \<longrightarrow> E' ! j \<noteq> None)
      \<and> heap_fun (\<lambda>j. key (elem_at (E'[i' := Some X]) j)) n
      \<and> slots (E'[i' := Some X]) n = slots (?E[?p := Some X]) n"
    proof (rule "1.IH" [OF _ e _ rec])
      show "i \<noteq> 0" "key X < key e" using True e by (auto simp: elem_at_def)
      show "heap_hole (\<lambda>j. key (elem_at ?E j)) n ?p"
        unfolding A by (rule hole(1))
      show "key X \<le> key (elem_at ?E j)" if "j \<le> n" "j div 2 = ?p" "j \<noteq> ?p" for j
        using hole(2) [OF that] fun_cong [OF A, of j] by simp
      show "?E ! 0 = None" using "1.prems"(3,7) by (cases i) auto
      show "?E ! j \<noteq> None" if "1 \<le> j" "j \<le> n" "j \<noteq> ?p" for j
        using that "1.prems"(8) e len by (cases "j = i") auto
    qed (use p "1.prems"(5) in auto)
    moreover have "slots (?E[?p := Some X]) n = slots (E[i := Some X]) n"
      using slots_update_swap [of i n ?p "elem_at E" X] p "1.prems"(3,4,5) len
      by (simp add: slots_def elem_at_update elem_at_move)
    ultimately show ?thesis by simp
  next
    case False
    have res: "i' = i \<and> E' = E"
    proof (cases "i = 1")
      case True
      then show ?thesis using "1.prems"(1,7) by (simp add: percolate_up.simps)
    next
      case neq: False
      then show ?thesis using False "1.prems"(1,3)
        by (auto simp: percolate_up.simps [of key X i E] elem_at_def split: option.splits if_splits)
    qed
    have "heap_fun ((\<lambda>j. key (elem_at E j))(i := key X)) n"
      using heap_hole_fill [OF "1.prems"(2), of "key X"] False "1.prems"(6) by force
    then have "heap_fun (\<lambda>j. key (elem_at (E[i := Some X]) j)) n"
      unfolding elem_at_update [OF len] keys_upd .
    then show ?thesis using res "1.prems" by auto
  qed
qed

lemma child_cases:
  fixes i :: nat
  assumes "j div 2 = i" "j \<noteq> i" shows "j = i * 2 \<or> j = i * 2 + 1"
  using assms by auto

lemma percolate_down_spec:
  assumes "percolate_down key L n i E = (i', E')"
    and "heap_hole (\<lambda>j. key (elem_at E j)) n i" "1 \<le> i" "i = 1 \<or> i \<le> n" "n < length E \<and> 1 < length E"
    and "2 \<le> i \<Longrightarrow> key (elem_at E (i div 2)) \<le> key L"
    and "E ! 0 = None" "\<And>j. 1 \<le> j \<Longrightarrow> j \<le> n \<Longrightarrow> j \<noteq> i \<Longrightarrow> E ! j \<noteq> None"
  shows "1 \<le> i' \<and> (i' = 1 \<or> i' \<le> n) \<and> length E' = length E \<and> E' ! 0 = None
    \<and> (\<forall>j. 1 \<le> j \<and> j \<le> n \<and> j \<noteq> i' \<longrightarrow> E' ! j \<noteq> None)
    \<and> heap_fun (\<lambda>j. key (elem_at (E'[i' := Some L]) j)) n
    \<and> slots (E'[i' := Some L]) n = slots (E[i := Some L]) n"
  using assms
proof (induction key L n i E rule: percolate_down.induct)
  case (1 key L n i E)
  let ?c = "if i * 2 \<noteq> n \<and> key (the (E ! (i * 2 + 1))) < key (the (E ! (i * 2))) then i * 2 + 1 else i * 2"
  show ?case
  proof (cases "i * 2 \<le> n \<and> key (elem_at E ?c) < key L")
    case True
    have len: "i < length E" "i \<le> n" using "1.prems"(3,5) True by auto
    have c: "?c \<le> n" "?c div 2 = i" "?c \<noteq> i" "1 \<le> ?c" using True "1.prems"(3) by (auto split: if_splits)
    let ?E = "E[i := E ! ?c]"
    have rec: "percolate_down key L n ?c ?E = (i', E')"
      using "1.prems"(1,3) True
      by (simp add: percolate_down.simps [of key L n i E] elem_at_def Let_def split del: if_split)
    have least: "key (elem_at E ?c) \<le> key (elem_at E j)" if "j \<le> n" "j div 2 = i" for j
    proof -
      have "j \<noteq> i" using that "1.prems"(3) by auto
      from child_cases [OF that(2) this] that(1) show ?thesis by (auto simp: elem_at_def)
    qed
    have A: "(\<lambda>j. key (elem_at ?E j)) = (\<lambda>j. key (elem_at E j))(i := key (elem_at E ?c))"
      using len by (auto simp: elem_at_move fun_eq_iff)
    have IH: "1 \<le> i' \<and> (i' = 1 \<or> i' \<le> n) \<and> length E' = length ?E \<and> E' ! 0 = None
      \<and> (\<forall>j. 1 \<le> j \<and> j \<le> n \<and> j \<noteq> i' \<longrightarrow> E' ! j \<noteq> None)
      \<and> heap_fun (\<lambda>j. key (elem_at (E'[i' := Some L]) j)) n
      \<and> slots (E'[i' := Some L]) n = slots (?E[?c := Some L]) n"
    proof (rule "1.IH" [OF _ refl _ rec])
      show "\<not> (i = 0 \<or> \<not> i * 2 \<le> n)" using True "1.prems"(3) by auto
      show "key (the (E ! ?c)) < key L" using True by (simp add: elem_at_def)
      show "heap_hole (\<lambda>j. key (elem_at ?E j)) n ?c"
        unfolding A by (rule heap_hole_down [OF "1.prems"(2,3) c(1,2) least])
      show "key (elem_at ?E (?c div 2)) \<le> key L"
        using True fun_cong [OF A, of "?c div 2"] unfolding c(2) by (simp split del: if_split add: less_imp_le)
      show "?E ! 0 = None" using "1.prems"(3,7) by (cases i) auto
      show "?E ! j \<noteq> None" if "1 \<le> j" "j \<le> n" "j \<noteq> ?c" for j
        using that "1.prems"(8) [of j] "1.prems"(8) [OF c(4,1,3)] len by (cases "j = i") auto
    qed (use c "1.prems"(5) in auto)
    moreover have "slots (?E[?c := Some L]) n = slots (E[i := Some L]) n"
      using slots_update_swap [of i n ?c "elem_at E" L] c "1.prems"(3,5) len
      by (simp add: slots_def elem_at_update elem_at_move)
    ultimately show ?thesis by simp
  next
    case False
    have res: "i' = i \<and> E' = E"
      using "1.prems"(1,3) False by (auto simp: percolate_down.simps [of key L n i E] elem_at_def Let_def
          split: if_splits)
    have below: "key L \<le> key (elem_at E j)" if "j \<le> n" "j div 2 = i" "j \<noteq> i" for j
      using child_cases [OF that(2,3)] that(1) False by (auto simp: elem_at_def split: if_splits)
    have "heap_fun ((\<lambda>j. key (elem_at E j))(i := key L)) n"
      by (rule heap_hole_fill [OF "1.prems"(2)]) (use "1.prems"(6) below in auto)
    then have "heap_fun (\<lambda>j. key (elem_at (E[i := Some L]) j)) n"
    proof (cases "i < length E")
      case True
      with \<open>heap_fun ((\<lambda>j. key (elem_at E j))(i := key L)) n\<close> show ?thesis
        unfolding elem_at_update [OF True] keys_upd by blast
    qed (use "1.prems"(4,5) in auto)
    then show ?thesis using res "1.prems" by auto
  qed
qed

section \<open>The heap implements a priority queue\<close>

lemma elem_at_Some: "E ! i \<noteq> None \<Longrightarrow> E ! i = Some (elem_at E i)"
  by (auto simp: elem_at_def)

lemma slots_Suc [simp]: "slots E (Suc n) = add_mset (elem_at E (Suc n)) (slots E n)"
  by (simp add: slots_def)

lemma slots_0 [simp]: "slots E 0 = {#}"
  by (simp add: slots_def)

lemma slots_cong: "(\<And>i. 1 \<le> i \<Longrightarrow> i \<le> n \<Longrightarrow> E ! i = E' ! i) \<Longrightarrow> slots E n = slots E' n"
  unfolding slots_def by (rule arg_cong [where f = mset]) (auto simp: elem_at_def)

lemma in_slots_iff: "x \<in># slots E n \<longleftrightarrow> (\<exists>i. 1 \<le> i \<and> i \<le> n \<and> x = elem_at E i)"
  by (force simp: slots_def)

lemma Initialize_spec:
  assumes "MinPQSize \<le> c"
  shows "\<exists>H. Initialize True True c = Inr H \<and> BinHeap_inv key H \<and> heap_contents H = {#}"
  using assms by (auto simp: Initialize_def BinHeap_inv_def heap_contents_def MinPQSize_def)

lemma grow_inv:
  assumes "BinHeap_inv key H"
  shows "BinHeap_inv key (H\<lparr>Capacity := 2 * Capacity H,
      Elements := Elements H @ replicate (nat (2 * Capacity H + 1) - length (Elements H)) None\<rparr>)"
    (is "BinHeap_inv key ?H")
    and "heap_contents (H\<lparr>Capacity := 2 * Capacity H,
      Elements := Elements H @ replicate (nat (2 * Capacity H + 1) - length (Elements H)) None\<rparr>)
      = heap_contents H"
proof -
  have keep: "Elements ?H ! i = Elements H ! i" if "int i \<le> Size H" for i
    using assms that by (auto simp: BinHeap_inv_def nth_append)
  have "heap_fun (\<lambda>i. key (elem_at (Elements ?H) i)) (nat (Size H))"
    unfolding heap_fun_def
  proof (intro allI impI)
    fix j assume j: "2 \<le> j \<and> j \<le> nat (Size H)"
    then have "int (j div 2) \<le> Size H" "int j \<le> Size H" by auto
    then show "key (elem_at (Elements ?H) (j div 2)) \<le> key (elem_at (Elements ?H) j)"
      using keep j assms unfolding BinHeap_inv_def elem_at_def heap_fun_def by metis
  qed
  then show "BinHeap_inv key ?H"
    using assms keep by (auto simp: BinHeap_inv_def MinPQSize_def)
  have "slots (Elements ?H) (nat (Size H)) = slots (Elements H) (nat (Size H))"
  proof (rule slots_cong, rule keep)
    fix i :: nat assume "1 \<le> i" "i \<le> nat (Size H)"
    then show "int i \<le> Size H" by linarith
  qed
  then show "heap_contents ?H = heap_contents H" by (simp add: heap_contents_def)
qed

lemma Insert_room:
  assumes inv: "BinHeap_inv key H" and room: "Size H < Capacity H"
  shows "\<exists>H'. Insert key ok X H = Inr H' \<and> BinHeap_inv key H'
    \<and> heap_contents H' = add_mset X (heap_contents H)"
proof (cases "Size H = 0")
  case True
  let ?H = "H\<lparr>Elements := (Elements H)[1 := Some X], Size := 1\<rparr>"
  have "length (Elements H) > 1" using inv by (auto simp: BinHeap_inv_def MinPQSize_def)
  then have "BinHeap_inv key ?H" "heap_contents ?H = {#X#}"
    using inv by (auto simp: BinHeap_inv_def MinPQSize_def heap_contents_def elem_at_def
        nth_list_update slots_def)
  moreover have "Insert key ok X H = Inr ?H" using room True by (simp add: Insert_def IsFull_def)
  ultimately show ?thesis using True by (auto simp: heap_contents_def)
next
  case False
  define n where "n = nat (Size H)"
  have n: "Size H = int n" "1 \<le> n" "nat (Size H + 1) = Suc n"
    using inv False by (auto simp: BinHeap_inv_def n_def)
  obtain i E where pu: "percolate_up key X (Suc n) (Elements H) = (i, E)" by fastforce
  have len: "Suc n < length (Elements H)" using inv room n by (auto simp: BinHeap_inv_def)
  have "heap_hole (\<lambda>j. key (elem_at (Elements H) j)) (Suc n) (Suc n)"
    using inv n by (intro heap_hole_new) (auto simp: BinHeap_inv_def)
  from percolate_up_spec [OF pu this _ _ len] have
    *: "1 \<le> i" "i \<le> Suc n" "length E = length (Elements H)" "E ! 0 = None"
      "\<And>j. 1 \<le> j \<Longrightarrow> j \<le> Suc n \<Longrightarrow> j \<noteq> i \<Longrightarrow> E ! j \<noteq> None"
      "heap_fun (\<lambda>j. key (elem_at (E[i := Some X]) j)) (Suc n)"
      "slots (E[i := Some X]) (Suc n) = slots ((Elements H)[Suc n := Some X]) (Suc n)"
    using inv n by (auto simp: BinHeap_inv_def)
  let ?H = "H\<lparr>Size := Size H + 1, Elements := E[i := Some X]\<rparr>"
  have "Insert key ok X H = Inr ?H"
    using False room by (simp add: Insert_def IsFull_def n(3) pu)
  moreover have "BinHeap_inv key ?H"
    using inv room n * len by (auto simp: BinHeap_inv_def nth_list_update)
  moreover have "slots ((Elements H)[Suc n := Some X]) n = slots (Elements H) n"
    by (rule slots_cong) simp
  then have "heap_contents ?H = add_mset X (heap_contents H)"
    using n *(7) len by (simp add: heap_contents_def elem_at_def del: slots_Suc add: slots_Suc)
  ultimately show ?thesis by blast
qed

lemma Insert_spec:
  assumes inv: "BinHeap_inv key H"
  shows "\<exists>H'. Insert key True X H = Inr H' \<and> BinHeap_inv key H'
    \<and> heap_contents H' = add_mset X (heap_contents H)"
proof (cases "IsFull H")
  case True
  let ?H = "H\<lparr>Capacity := 2 * Capacity H,
      Elements := Elements H @ replicate (nat (2 * Capacity H + 1) - length (Elements H)) None\<rparr>"
  have room: "Size ?H < Capacity ?H" using inv by (auto simp: BinHeap_inv_def MinPQSize_def)
  then have "Insert key True X H = Insert key True X ?H"
    using True by (simp add: Insert_def IsFull_def)
  then show ?thesis
    using Insert_room [OF grow_inv(1) [OF inv] room] grow_inv(2) [OF inv] by simp
next
  case False
  then have "Size H < Capacity H" using inv by (auto simp: BinHeap_inv_def IsFull_def)
  with inv show ?thesis by (rule Insert_room)
qed

lemma FindMin_empty: "BinHeap_inv key H \<Longrightarrow> heap_contents H = {#} \<Longrightarrow> FindMin H = None"
  by (cases "nat (Size H)") (auto simp: BinHeap_inv_def heap_contents_def FindMin_def IsEmpty_def)

lemma FindMin_root:
  assumes inv: "BinHeap_inv key H" and "Size H \<noteq> 0"
  shows "FindMin H = Some (elem_at (Elements H) 1)"
  using assms elem_at_Some [of "Elements H" 1]
  by (auto simp: FindMin_def IsEmpty_def BinHeap_inv_def)

lemma FindMin_least:
  assumes inv: "BinHeap_inv key H" and ne: "heap_contents H \<noteq> {#}"
  shows "\<exists>x. FindMin H = Some x \<and> x \<in># heap_contents H \<and> (\<forall>y \<in># heap_contents H. key x \<le> key y)"
proof -
  have n: "1 \<le> nat (Size H)" "Size H \<noteq> 0"
    using ne by (cases "nat (Size H)"; auto simp: heap_contents_def)+
  have "key (elem_at (Elements H) 1) \<le> key y" if "y \<in># heap_contents H" for y
    using that heap_root_least [of "\<lambda>i. key (elem_at (Elements H) i)" "nat (Size H)"] inv
    by (auto simp: heap_contents_def in_slots_iff BinHeap_inv_def)
  moreover have "elem_at (Elements H) 1 \<in># heap_contents H"
    using n by (auto simp: heap_contents_def in_slots_iff)
  ultimately show ?thesis using FindMin_root [OF inv n(2)] by auto
qed

lemma slots_update:
  assumes "1 \<le> i" "i \<le> k" "k < length E"
  shows "slots (E[i := Some x]) k = add_mset x (slots E k - {#elem_at E i#})"
proof -
  let ?xs = "map (elem_at E) [1..<Suc k]"
  have "map ((elem_at E)(i := x)) [1..<Suc k] = ?xs[i - 1 := x]"
    using assms by (intro nth_equalityI) (auto simp: nth_list_update simp del: upt_Suc)
  then have "slots (E[i := Some x]) k = mset (?xs[i - 1 := x])"
    using assms by (simp add: slots_def elem_at_update del: upt_Suc)
  also have "\<dots> = add_mset x (mset ?xs - {#?xs ! (i - 1)#})"
    using assms by (intro mset_update) (simp del: upt_Suc)
  finally show ?thesis using assms by (simp add: slots_def nth_upt del: upt_Suc)
qed

lemma slots_drop_root:
  assumes "1 \<le> m" "m < length E" "E ! m = Some L"
  shows "slots (E[1 := Some L]) (m - 1) = slots E m - {#elem_at E 1#}"
proof (cases "m = 1")
  case True
  then show ?thesis by (simp add: slots_def)
next
  case False
  then obtain k where k: "m = Suc k" "1 \<le> k" using assms(1) by (cases m) auto
  have "elem_at E 1 \<in># slots E k" using k by (auto simp: in_slots_iff)
  moreover have "elem_at E m = L" using assms(3) by (simp add: elem_at_def)
  ultimately show ?thesis
    using slots_update [of 1 k E L] k assms(2) by simp
qed

lemma DeleteMin_spec:
  assumes inv: "BinHeap_inv key H" and min: "FindMin H = Some x"
  shows "\<exists>H'. DeleteMin key H = Inr (x, H') \<and> BinHeap_inv key H'
    \<and> heap_contents H' = heap_contents H - {#x#}"
proof -
  define m where "m = nat (Size H)"
  have ne: "Size H \<noteq> 0" using min by (auto simp: FindMin_def IsEmpty_def split: if_splits)
  have m: "Size H = int m" "1 \<le> m" "nat (Size H - 1) = m - 1" "m < length (Elements H)"
    using inv ne by (auto simp: BinHeap_inv_def m_def)
  have x: "x = elem_at (Elements H) 1" using FindMin_root [OF inv ne] min by simp
  define L where "L = elem_at (Elements H) m"
  have L: "Elements H ! m = Some L"
    using inv m elem_at_Some [of "Elements H" m] by (auto simp: BinHeap_inv_def L_def)
  have nn: "Elements H ! 0 = None" "\<And>j. 1 \<le> j \<Longrightarrow> j \<le> m \<Longrightarrow> Elements H ! j \<noteq> None"
    "1 < length (Elements H)"
    using inv m(1) by (auto simp: BinHeap_inv_def MinPQSize_def)
  obtain i E where pd: "percolate_down key L (m - 1) 1 (Elements H) = (i, E)" by fastforce
  have "heap_hole (\<lambda>j. key (elem_at (Elements H) j)) (m - 1) 1"
    by (rule heap_hole_root, rule heap_fun_mono [of _ m]) (use inv m(1) in \<open>auto simp: BinHeap_inv_def\<close>)
  then have "1 \<le> i \<and> (i = 1 \<or> i \<le> m - 1) \<and> length E = length (Elements H) \<and> E ! 0 = None
    \<and> (\<forall>j. 1 \<le> j \<and> j \<le> m - 1 \<and> j \<noteq> i \<longrightarrow> E ! j \<noteq> None)
    \<and> heap_fun (\<lambda>j. key (elem_at (E[i := Some L]) j)) (m - 1)
    \<and> slots (E[i := Some L]) (m - 1) = slots ((Elements H)[1 := Some L]) (m - 1)"
  proof (rule percolate_down_spec [OF pd])
    show "m - 1 < length (Elements H) \<and> 1 < length (Elements H)" using nn(3) m(4) by simp
    show "Elements H ! j \<noteq> None" if "1 \<le> j" "j \<le> m - 1" for j
      using that by (intro nn(2)) auto
  qed (simp_all add: nn(1))
  then have
    *: "1 \<le> i" "i = 1 \<or> i \<le> m - 1" "length E = length (Elements H)" "E ! 0 = None"
      "\<And>j. 1 \<le> j \<Longrightarrow> j \<le> m - 1 \<Longrightarrow> j \<noteq> i \<Longrightarrow> E ! j \<noteq> None"
      "heap_fun (\<lambda>j. key (elem_at (E[i := Some L]) j)) (m - 1)"
      "slots (E[i := Some L]) (m - 1) = slots ((Elements H)[1 := Some L]) (m - 1)"
    by blast+
  let ?H = "H\<lparr>Size := Size H - 1, Elements := E[i := Some L]\<rparr>"
  have "DeleteMin key H = Inr (x, ?H)"
    using ne m pd by (simp add: DeleteMin_def IsEmpty_def x elem_at_def L)
  moreover have "BinHeap_inv key ?H"
    using inv m * by (auto simp: BinHeap_inv_def nth_list_update)
  moreover have "heap_contents ?H = heap_contents H - {#x#}"
    using m *(7) slots_drop_root [OF m(2,4) L] by (simp add: heap_contents_def x)
  ultimately show ?thesis by blast
qed

interpretation bh: priority_queue key "Insert key True" FindMin "DeleteMin key" heap_contents "BinHeap_inv key"
  by unfold_locales
    (simp_all add: Insert_spec FindMin_empty FindMin_least DeleteMin_spec)

section \<open>Properties\<close>

fun InsertAll :: "('a \<Rightarrow> 'k::linorder) \<Rightarrow> 'a list \<Rightarrow> 'a HeapStruct \<Rightarrow> 'a HeapStruct outcome" where
  "InsertAll key [] H = Inr H"
| "InsertAll key (x # xs) H = bindR (Insert key True x H) (InsertAll key xs)"

fun DeleteAll :: "('a \<Rightarrow> 'k::linorder) \<Rightarrow> nat \<Rightarrow> 'a HeapStruct \<Rightarrow> 'a list outcome" where
  "DeleteAll key 0 H = Inr []"
| "DeleteAll key (Suc k) H =
     bindR (DeleteMin key H) (\<lambda>(x, H'). bindR (DeleteAll key k H') (\<lambda>xs. Inr (x # xs)))"

lemma InsertAll_spec:
  "BinHeap_inv key H \<Longrightarrow>
   \<exists>H'. InsertAll key xs H = Inr H' \<and> BinHeap_inv key H' \<and> heap_contents H' = mset xs + heap_contents H"
proof (induction xs arbitrary: H)
  case Nil
  then show ?case by simp
next
  case (Cons x xs)
  from bh.put_ok [OF Cons.prems, of x] obtain H1 where
    H1: "Insert key True x H = Inr H1" "BinHeap_inv key H1" "heap_contents H1 = add_mset x (heap_contents H)"
    by auto
  from Cons.IH [OF H1(2)] H1 show ?case by auto
qed

lemma DeleteAll_drain:
  assumes "BinHeap_inv key H" "size (heap_contents H) = k"
  shows "DeleteAll key k H = Inr (drain FindMin (DeleteMin key) k H)"
  using assms
proof (induction k arbitrary: H)
  case 0
  then show ?case by simp
next
  case (Suc k)
  then have "heap_contents H \<noteq> {#}" by auto
  with Suc.prems(1) obtain x where x: "FindMin H = Some x" "x \<in># heap_contents H"
    using bh.find_min_least by blast
  from bh.delete_min_ok [OF Suc.prems(1) x(1)] obtain H' where
    "DeleteMin key H = Inr (x, H')" "BinHeap_inv key H'" "heap_contents H' = heap_contents H - {#x#}"
    by auto
  with x Suc show ?case by (simp add: size_Diff_singleton)
qed



end
