(* ===== verification/Search_Tree.thy ===== *)
theory Search_Tree
  imports Prelude
begin

text \<open>
  The unbalanced search tree of dedup (\<^verbatim>\<open>apps/dedup/src/tree.c\<close>), keyed by the first-level sequence
  number; each node holds the priority queue of one coarse chunk. The global \<open>pmin\<close>, a cache of the
  minimum that every operation may reset, is threaded explicitly. A \<^verbatim>\<open>Position\<close> is modelled by the
  element it points to, which is all its users read.
\<close>

section \<open>State and operations\<close>

datatype 'q tree_element = TreeElement (te_l1num: u32) (te_queue: 'q)

datatype 'q SearchTree =
    TNull
  | TreeNode (Element: "'q tree_element") (Left: "'q SearchTree") (Right: "'q SearchTree")

type_synonym 'q Position = "'q tree_element option"

fun TreeMakeEmpty :: "'q Position \<Rightarrow> 'q SearchTree \<Rightarrow> 'q Position \<times> 'q SearchTree" where
  "TreeMakeEmpty pmin TNull = (pmin, TNull)"
| "TreeMakeEmpty pmin (TreeNode e l r) =
     (let (pmin, _) = TreeMakeEmpty pmin l; (pmin, _) = TreeMakeEmpty pmin r in (None, TNull))"

fun TreeFind :: "u32 \<Rightarrow> 'q SearchTree \<Rightarrow> 'q Position" where
  "TreeFind value TNull = None"
| "TreeFind value (TreeNode e l r) =
     (if value < te_l1num e then TreeFind value l
      else if value > te_l1num e then TreeFind value r
      else Some e)"

fun TreeFindMin :: "'q Position \<Rightarrow> 'q SearchTree \<Rightarrow> 'q Position" where
  "TreeFindMin pmin T =
     (if pmin \<noteq> None then pmin
      else case T of TNull \<Rightarrow> None
           | TreeNode e l r \<Rightarrow> (if l = TNull then Some e else TreeFindMin pmin l))"

declare TreeFindMin.simps [simp del]

fun TreeFindMax :: "'q SearchTree \<Rightarrow> 'q Position" where
  "TreeFindMax TNull = None"
| "TreeFindMax (TreeNode e l r) = (if r \<noteq> TNull then TreeFindMax r else Some e)"

fun TreeInsert :: "bool \<Rightarrow> 'q tree_element \<Rightarrow> 'q Position \<Rightarrow> 'q SearchTree \<Rightarrow> 'q Position \<times> 'q SearchTree" where
  "TreeInsert alloc_ok X pmin TNull =
     (let pmin = (case pmin of Some p \<Rightarrow> if te_l1num X < te_l1num p then None else pmin | None \<Rightarrow> None)
      in (pmin, if alloc_ok then TreeNode X TNull TNull else TNull))"
| "TreeInsert alloc_ok X pmin (TreeNode e l r) =
     (let pmin = (case pmin of Some p \<Rightarrow> if te_l1num X < te_l1num p then None else pmin | None \<Rightarrow> None)
      in if te_l1num X < te_l1num e
         then let (pmin, l') = TreeInsert alloc_ok X pmin l in (pmin, TreeNode e l' r)
         else if te_l1num X > te_l1num e
         then let (pmin, r') = TreeInsert alloc_ok X pmin r in (pmin, TreeNode e l r')
         else (pmin, TreeNode e l r))"

text \<open>
  \<^verbatim>\<open>TreeDelete\<close> takes an element and uses only its key. With two children the node gets the smallest
  element of its right subtree, which is then deleted from there; the recursion is on the height.
\<close>

fun tree_height :: "'q SearchTree \<Rightarrow> nat" where
  "tree_height TNull = 0"
| "tree_height (TreeNode e l r) = Suc (max (tree_height l) (tree_height r))"

function TreeDelete :: "u32 \<Rightarrow> 'q Position \<Rightarrow> 'q SearchTree \<Rightarrow> 'q Position \<times> 'q SearchTree" where
  "TreeDelete x pmin TNull =
     (case pmin of Some p \<Rightarrow> if x = te_l1num p then None else pmin | None \<Rightarrow> None, TNull)"
| "TreeDelete x pmin (TreeNode e l r) =
     (let pmin = (case pmin of Some p \<Rightarrow> if x = te_l1num p then None else pmin | None \<Rightarrow> None)
      in if x < te_l1num e
         then let (pmin, l') = TreeDelete x pmin l in (pmin, TreeNode e l' r)
         else if x > te_l1num e
         then let (pmin, r') = TreeDelete x pmin r in (pmin, TreeNode e l r')
         else if l \<noteq> TNull \<and> r \<noteq> TNull
         then let e' = the (TreeFindMin pmin r);
                  (pmin, r') = TreeDelete (te_l1num e') pmin r in (pmin, TreeNode e' l r')
         else (pmin, if l = TNull then r else l))"
  by pat_completeness auto
termination
  by (relation "measure (\<lambda>(x, pmin, T). tree_height T)") (auto simp: less_Suc_eq_le)

section \<open>The cached minimum is never set\<close>

lemma TreeInsert_pmin: "fst (TreeInsert ok X None T) = None"
  by (induction T) (auto simp: Let_def split: prod.splits)

lemma TreeDelete_pmin: "fst (TreeDelete x None T) = None"
  by (induction T arbitrary: x) (auto simp: Let_def split_def)

lemma TreeMakeEmpty_pmin: "fst (TreeMakeEmpty None T) = None"
  by (cases T) (auto simp: Let_def split: prod.splits)

section \<open>Search tree invariant\<close>

fun inorder :: "'q SearchTree \<Rightarrow> 'q tree_element list" where
  "inorder TNull = []"
| "inorder (TreeNode e l r) = inorder l @ e # inorder r"

definition tree_inv :: "'q SearchTree \<Rightarrow> bool" where
  "tree_inv T \<longleftrightarrow> sorted_wrt (<) (map te_l1num (inorder T))"

lemma tree_inv_TNull [simp]: "tree_inv TNull"
  by (simp add: tree_inv_def)

lemma tree_inv_TreeNode [simp]:
  "tree_inv (TreeNode e l r) \<longleftrightarrow> tree_inv l \<and> tree_inv r
     \<and> (\<forall>a \<in> set (inorder l). te_l1num a < te_l1num e)
     \<and> (\<forall>b \<in> set (inorder r). te_l1num e < te_l1num b)"
  by (auto simp: tree_inv_def sorted_wrt_append) (meson less_trans)

lemma TreeFind_iff:
  "tree_inv T \<Longrightarrow> TreeFind k T = Some e \<longleftrightarrow> e \<in> set (inorder T) \<and> te_l1num e = k"
  by (induction T) (auto dest: less_asym)

lemma TreeFind_None_iff: "tree_inv T \<Longrightarrow> TreeFind k T = None \<longleftrightarrow> (\<forall>e \<in> set (inorder T). te_l1num e \<noteq> k)"
  using TreeFind_iff by (metis not_None_eq)

lemma TreeFindMin_TNull [simp]: "TreeFindMin None TNull = None"
  by (simp add: TreeFindMin.simps)

lemma TreeFindMin_TreeNode [simp]:
  "TreeFindMin None (TreeNode e l r) = (if l = TNull then Some e else TreeFindMin None l)"
  by (subst TreeFindMin.simps) simp

lemma inorder_Nil_iff [simp]: "inorder T = [] \<longleftrightarrow> T = TNull"
  by (cases T) auto

lemma TreeFindMin_hd: "TreeFindMin None T = (if T = TNull then None else Some (hd (inorder T)))"
  by (induction T) auto

lemma TreeFindMax_last: "TreeFindMax T = (if T = TNull then None else Some (last (inorder T)))"
  by (induction T) auto

lemma inorder_TreeInsert:
  assumes "tree_inv T"
  shows "set (inorder (snd (TreeInsert True X None T)))
      = (if \<exists>e \<in> set (inorder T). te_l1num e = te_l1num X then set (inorder T) else insert X (set (inorder T)))
    \<and> tree_inv (snd (TreeInsert True X None T))"
  using assms
proof (induction T)
  case TNull
  then show ?case by simp
next
  case (TreeNode e l r)
  obtain pl l' pr r' where ins: "TreeInsert True X None l = (pl, l')" "TreeInsert True X None r = (pr, r')"
    by fastforce
  then show ?case using TreeNode by (auto simp: Let_def dest: less_asym)
qed

lemma hd_inorder_least:
  assumes "tree_inv T" "T \<noteq> TNull"
  shows "hd (inorder T) \<in> set (inorder T)"
    and "\<And>e. e \<in> set (inorder T) \<Longrightarrow> te_l1num (hd (inorder T)) \<le> te_l1num e"
    and "\<And>e. e \<in> set (inorder T) \<Longrightarrow> te_l1num e \<noteq> te_l1num (hd (inorder T)) \<Longrightarrow>
      te_l1num (hd (inorder T)) < te_l1num e"
    and "\<And>e. e \<in> set (inorder T) \<Longrightarrow> te_l1num e = te_l1num (hd (inorder T)) \<Longrightarrow> e = hd (inorder T)"
proof -
  from assms(2) obtain a as where as: "inorder T = a # as" by (cases "inorder T") auto
  then have "\<forall>b \<in> set as. te_l1num a < te_l1num b" using assms(1) by (simp add: tree_inv_def)
  with as show "hd (inorder T) \<in> set (inorder T)"
    "\<And>e. e \<in> set (inorder T) \<Longrightarrow> te_l1num (hd (inorder T)) \<le> te_l1num e"
    "\<And>e. e \<in> set (inorder T) \<Longrightarrow> te_l1num e \<noteq> te_l1num (hd (inorder T)) \<Longrightarrow>
      te_l1num (hd (inorder T)) < te_l1num e"
    "\<And>e. e \<in> set (inorder T) \<Longrightarrow> te_l1num e = te_l1num (hd (inorder T)) \<Longrightarrow> e = hd (inorder T)"
    by (auto intro: less_imp_le)
qed

lemma inorder_TreeDelete:
  assumes "tree_inv T"
  shows "set (inorder (snd (TreeDelete x None T))) = {e \<in> set (inorder T). te_l1num e \<noteq> x}
    \<and> tree_inv (snd (TreeDelete x None T))"
  using assms
proof (induction T arbitrary: x)
  case TNull
  then show ?case by simp
next
  case (TreeNode e l r)
  obtain pl l' pr r' where d: "TreeDelete x None l = (pl, l')" "TreeDelete x None r = (pr, r')"
    by fastforce
  consider "x < te_l1num e" | "x > te_l1num e" | "x = te_l1num e" "l \<noteq> TNull" "r \<noteq> TNull"
    | "x = te_l1num e" "l = TNull \<or> r = TNull" by fastforce
  then show ?case
  proof cases
    case 1
    with TreeNode.IH(1) [of x] TreeNode.prems d show ?thesis by (auto simp: Let_def dest: less_asym)
  next
    case 2
    with TreeNode.IH(2) [of x] TreeNode.prems d show ?thesis by (auto simp: Let_def dest: less_asym)
  next
    case 3
    let ?m = "hd (inorder r)"
    obtain p s where s: "TreeDelete (te_l1num ?m) None r = (p, s)" by fastforce
    have r: "tree_inv r" using TreeNode.prems by simp
    note m = hd_inorder_least [OF r 3(3)]
    have res: "snd (TreeDelete x None (TreeNode e l r)) = TreeNode ?m l s"
      using 3 s by (simp add: Let_def TreeFindMin_hd)
    have "set (inorder s) = {a \<in> set (inorder r). te_l1num a \<noteq> te_l1num ?m} \<and> tree_inv s"
      using TreeNode.IH(2) [OF r, of "te_l1num ?m"] s by simp
    moreover have "\<forall>a \<in> set (inorder l). te_l1num a < te_l1num ?m"
      using TreeNode.prems m(1) by (auto intro: less_trans)
    ultimately show ?thesis
      unfolding res using TreeNode.prems m 3(1) by auto
  next
    case 4
    then show ?thesis using TreeNode.prems by (auto simp: Let_def)
  qed
qed

section \<open>The tree as an ordered map\<close>

text \<open>What the reorder stage relies on: an ordered map with lookup, insertion of a fresh key, deletion
  and access to the least key.\<close>

locale ordered_map =
  fixes find :: "'k::linorder \<Rightarrow> 't \<Rightarrow> 'e option"
    and ins :: "'e \<Rightarrow> 't \<Rightarrow> 't"
    and del :: "'k \<Rightarrow> 't \<Rightarrow> 't"
    and least :: "'t \<Rightarrow> 'e option"
    and key :: "'e \<Rightarrow> 'k"
    and inv :: "'t \<Rightarrow> bool"
  assumes find_key: "inv t \<Longrightarrow> find k t = Some e \<Longrightarrow> key e = k"
    and inv_ins: "inv t \<Longrightarrow> inv (ins e t)"
    and find_ins: "inv t \<Longrightarrow> find (key e) t = None \<Longrightarrow>
      find k (ins e t) = (if k = key e then Some e else find k t)"
    and ins_present: "inv t \<Longrightarrow> find (key e) t \<noteq> None \<Longrightarrow> find k (ins e t) = find k t"
    and inv_del: "inv t \<Longrightarrow> inv (del j t)"
    and find_del: "inv t \<Longrightarrow> find k (del j t) = (if k = j then None else find k t)"
    and least_None: "inv t \<Longrightarrow> least t = None \<longleftrightarrow> (\<forall>k. find k t = None)"
    and least_find: "inv t \<Longrightarrow> least t = Some e \<Longrightarrow> find (key e) t = Some e"
    and least_le: "inv t \<Longrightarrow> least t = Some e \<Longrightarrow> find k t \<noteq> None \<Longrightarrow> key e \<le> k"
begin

lemma least_eqI:
  assumes "inv t" "find k t = Some e" "\<And>j. find j t \<noteq> None \<Longrightarrow> k \<le> j"
  shows "least t = Some e"
proof -
  obtain e' where e': "least t = Some e'"
    using assms(1,2) least_None by (metis not_None_eq option.distinct(1))
  then have "key e' \<le> k" using assms(1,2) least_le by blast
  moreover have "k \<le> key e'" using assms(3) least_find [OF assms(1) e'] by simp
  ultimately show ?thesis using e' assms(1,2) least_find by (metis order_antisym option.inject)
qed

lemma least_absent: "inv t \<Longrightarrow> least t = Some e \<Longrightarrow> k < key e \<Longrightarrow> find k t = None"
  using least_le not_le by blast

end

interpretation st: ordered_map TreeFind "\<lambda>X T. snd (TreeInsert True X None T)"
  "\<lambda>x T. snd (TreeDelete x None T)" "TreeFindMin None" te_l1num tree_inv
proof unfold_locales
  fix t :: "'q SearchTree" and k j e
  assume inv: "tree_inv t"
  show "TreeFind k t = Some e \<Longrightarrow> te_l1num e = k" using TreeFind_iff [OF inv] by blast
  note ins = inorder_TreeInsert [OF inv, of e]
  show invi: "tree_inv (snd (TreeInsert True e None t))" using ins by blast
  show "TreeFind k (snd (TreeInsert True e None t)) = (if k = te_l1num e then Some e else TreeFind k t)"
    if "TreeFind (te_l1num e) t = None"
    by (rule option_eqI) (use that ins TreeFind_iff [OF inv] TreeFind_iff [OF invi] TreeFind_None_iff [OF inv] in auto)
  show "TreeFind k (snd (TreeInsert True e None t)) = TreeFind k t" if "TreeFind (te_l1num e) t \<noteq> None"
    by (rule option_eqI) (use that ins TreeFind_iff [OF inv] TreeFind_iff [OF invi] TreeFind_None_iff [OF inv] in auto)
  note del = inorder_TreeDelete [OF inv, of j]
  show invd: "tree_inv (snd (TreeDelete j None t))" using del by blast
  show "TreeFind k (snd (TreeDelete j None t)) = (if k = j then None else TreeFind k t)"
    by (rule option_eqI) (use del TreeFind_iff [OF inv] TreeFind_iff [OF invd] in auto)
  show "TreeFindMin None t = None \<longleftrightarrow> (\<forall>k. TreeFind k t = None)"
    using TreeFind_None_iff [OF inv] by (cases t) (auto simp: TreeFindMin_hd)
  assume least: "TreeFindMin None t = Some e"
  then have t: "t \<noteq> TNull" "e = hd (inorder t)" by (auto simp: TreeFindMin_hd split: if_splits)
  show "TreeFind (te_l1num e) t = Some e"
    using t hd_inorder_least(1) [OF inv] TreeFind_iff [OF inv] by blast
  show "te_l1num e \<le> k" if "TreeFind k t \<noteq> None"
    using that t hd_inorder_least(2) [OF inv] TreeFind_iff [OF inv] by auto
qed

section \<open>Refinement of a finite map\<close>

datatype 'q tree_op = TIns "'q tree_element" | TDel u32

fun tree_apply :: "'q Position \<times> 'q SearchTree \<Rightarrow> 'q tree_op \<Rightarrow> 'q Position \<times> 'q SearchTree" where
  "tree_apply (pmin, T) (TIns X) = TreeInsert True X pmin T"
| "tree_apply (pmin, T) (TDel x) = TreeDelete x pmin T"

fun map_apply :: "(u32 \<rightharpoonup> 'q tree_element) \<Rightarrow> 'q tree_op \<Rightarrow> (u32 \<rightharpoonup> 'q tree_element)" where
  "map_apply m (TIns X) = (if te_l1num X \<in> dom m then m else m(te_l1num X \<mapsto> X))"
| "map_apply m (TDel x) = m(x := None)"

definition tree_map :: "'q SearchTree \<Rightarrow> (u32 \<rightharpoonup> 'q tree_element)" where
  "tree_map T = (\<lambda>k. TreeFind k T)"

lemma tree_map_TNull [simp]: "tree_map TNull = (\<lambda>_. None)"
  by (simp add: tree_map_def)

lemma tree_apply_refines:
  assumes "tree_inv T"
  shows "fst (tree_apply (None, T) op) = None \<and> tree_inv (snd (tree_apply (None, T) op))
    \<and> tree_map (snd (tree_apply (None, T) op)) = map_apply (tree_map T) op"
proof (cases op)
  case (TIns X)
  then show ?thesis
    using st.inv_ins [OF assms] st.find_ins [OF assms, of X] st.ins_present [OF assms, of X]
    by (auto simp: tree_map_def TreeInsert_pmin fun_eq_iff domIff)
next
  case (TDel x)
  then show ?thesis
    using st.inv_del [OF assms] st.find_del [OF assms]
    by (auto simp: tree_map_def TreeDelete_pmin fun_eq_iff)
qed

lemma tree_run_refines:
  "tree_inv T \<Longrightarrow> fst (foldl tree_apply (None, T) ops) = None
     \<and> tree_inv (snd (foldl tree_apply (None, T) ops))
     \<and> tree_map (snd (foldl tree_apply (None, T) ops)) = foldl map_apply (tree_map T) ops"
proof (induction ops arbitrary: T)
  case Nil
  then show ?case by simp
next
  case (Cons op ops)
  obtain p T' where T': "tree_apply (None, T) op = (p, T')" by fastforce
  with tree_apply_refines [OF Cons.prems, of op] Cons.IH [of T'] show ?case by simp
qed

lemma TreeFindMin_Min:
  assumes "tree_inv T"
  shows "TreeFindMin None T = (if dom (tree_map T) = {} then None else tree_map T (Min (dom (tree_map T))))"
proof -
  have dom: "dom (tree_map T) = te_l1num ` set (inorder T)"
    using TreeFind_iff [OF assms] by (auto simp: tree_map_def dom_def image_iff)
  show ?thesis
  proof (cases "T = TNull")
    case False
    note m = hd_inorder_least [OF assms False]
    have "Min (dom (tree_map T)) = te_l1num (hd (inorder T))"
      unfolding dom using m by (intro Min_eqI) auto
    moreover have "tree_map T (te_l1num (hd (inorder T))) = Some (hd (inorder T))"
      using m(1) TreeFind_iff [OF assms] by (simp add: tree_map_def)
    ultimately show ?thesis using False dom by (simp add: TreeFindMin_hd)
  qed simp
qed


end
