(* ===== verification/Dedup_Def.thy ===== *)
theory Dedup_Def
  imports Prelude
begin

text \<open>
  The shared definitions of dedup (\<^verbatim>\<open>apps/dedup/src/dedupdef.h\<close>): two-level sequence numbers, chunk
  states and the constants of the file format and of the pipeline.
\<close>

section \<open>Two-level sequence numbers\<close>

datatype sequence_t = Sequence (l1num: u32) (l2num: u32)

definition sequence_eq :: "sequence_t \<Rightarrow> sequence_t \<Rightarrow> bool" where
  "sequence_eq s1 s2 \<longleftrightarrow> l1num s1 = l1num s2 \<and> l2num s1 = l2num s2"

definition sequence_lt :: "sequence_t \<Rightarrow> sequence_t \<Rightarrow> bool" where
  "sequence_lt s1 s2 =
     (if l1num s1 < l1num s2 then True else l1num s1 = l1num s2 \<and> l2num s1 < l2num s2)"

definition sequence_gt :: "sequence_t \<Rightarrow> sequence_t \<Rightarrow> bool" where
  "sequence_gt s1 s2 =
     (if l1num s1 > l1num s2 then True else l1num s1 = l1num s2 \<and> l2num s1 > l2num s2)"

definition sequence_inc :: "sequence_t \<Rightarrow> u32 \<Rightarrow> sequence_t" where
  "sequence_inc s ubound =
     (let l2 = l2num s + 1
      in if l2 \<ge> ubound then Sequence (l1num s + 1) 0 else Sequence (l1num s) l2)"

definition sequence_inc_l1 :: "sequence_t \<Rightarrow> sequence_t" where
  "sequence_inc_l1 s = Sequence (l1num s + 1) 0"

definition sequence_inc_l2 :: "sequence_t \<Rightarrow> sequence_t" where
  "sequence_inc_l2 s = Sequence (l1num s) (l2num s + 1)"

definition sequence_reset :: sequence_t where
  "sequence_reset = Sequence 0 0"

lemma sequence_eq_iff [simp]: "sequence_eq s1 s2 \<longleftrightarrow> s1 = s2"
  by (cases s1; cases s2) (simp add: sequence_eq_def)

text \<open>The comparison functions of the header make sequence numbers a linear order.\<close>

instantiation sequence_t :: linorder
begin

definition less_sequence_t :: "sequence_t \<Rightarrow> sequence_t \<Rightarrow> bool" where
  "less_sequence_t s1 s2 = sequence_lt s1 s2"

definition less_eq_sequence_t :: "sequence_t \<Rightarrow> sequence_t \<Rightarrow> bool" where
  "less_eq_sequence_t s1 s2 \<longleftrightarrow> \<not> sequence_gt s1 s2"

instance
proof
  fix x y z :: sequence_t
  show "x < y \<longleftrightarrow> x \<le> y \<and> \<not> y \<le> x"
    by (cases x; cases y) (auto simp: less_sequence_t_def less_eq_sequence_t_def sequence_lt_def
        sequence_gt_def)
  show "x \<le> x"
    by (simp add: less_eq_sequence_t_def sequence_gt_def)
  show "x \<le> y \<Longrightarrow> y \<le> z \<Longrightarrow> x \<le> z"
    by (cases x; cases y; cases z) (auto simp: less_eq_sequence_t_def sequence_gt_def split: if_splits)
  show "x \<le> y \<Longrightarrow> y \<le> x \<Longrightarrow> x = y"
    by (cases x; cases y) (auto simp: less_eq_sequence_t_def sequence_gt_def split: if_splits)
  show "x \<le> y \<or> y \<le> x"
    by (cases x; cases y) (auto simp: less_eq_sequence_t_def sequence_gt_def split: if_splits)
qed

end

lemma sequence_less_iff:
  "Sequence a b < Sequence c d \<longleftrightarrow> a < c \<or> a = c \<and> b < d"
  by (auto simp: less_sequence_t_def sequence_lt_def)

lemma sequence_le_iff:
  "Sequence a b \<le> Sequence c d \<longleftrightarrow> a < c \<or> a = c \<and> b \<le> d"
  by (auto simp: less_eq_sequence_t_def sequence_gt_def)

section \<open>Chunk states and constants\<close>

datatype chunk_state_t = CHUNK_STATE_UNCOMPRESSED | CHUNK_STATE_COMPRESSED | CHUNK_STATE_FLUSHED

definition CHECKBIT :: u32 where "CHECKBIT = 123456"

definition TYPE_FINGERPRINT :: byte where "TYPE_FINGERPRINT = 0"
definition TYPE_COMPRESS :: byte where "TYPE_COMPRESS = 1"

definition COMPRESS_GZIP :: byte where "COMPRESS_GZIP = 0"
definition COMPRESS_BZIP2 :: byte where "COMPRESS_BZIP2 = 1"
definition COMPRESS_NONE :: byte where "COMPRESS_NONE = 2"

definition SHA1_LEN :: nat where "SHA1_LEN = 20"
definition UNCOMPRESS_BOUND :: nat where "UNCOMPRESS_BOUND = 10000000"
definition MAXBUF :: nat where "MAXBUF = 128 * 1024 * 1024"
definition ANCHOR_JUMP :: nat where "ANCHOR_JUMP = 2 * 1024 * 1024"
definition QUEUE_SIZE :: u64 where "QUEUE_SIZE = 1024 * 1024"
definition ITEM_PER_FETCH :: nat where "ITEM_PER_FETCH = 20"
definition ITEM_PER_INSERT :: nat where "ITEM_PER_INSERT = 20"

end
