(* ===== verification/Hashtable.thy ===== *)
theory Hashtable
  imports Prelude
begin

text \<open>
  The chained hash table of dedup (\<^verbatim>\<open>apps/dedup/src/hashtable.c\<close> and \<^verbatim>\<open>hashtable_private.h\<close>) in the
  configuration the build uses: one lock per bucket and no dynamic expansion. A chain of
  \<^verbatim>\<open>struct hash_entry\<close> linked by \<^verbatim>\<open>next\<close> is a list, first element first. Keys are the values the key
  pointers refer to, and a stored value is never \<^verbatim>\<open>NULL\<close>, so \<open>None\<close> is the \<^verbatim>\<open>NULL\<close> a search returns.
  The interface \<open>keyed_store\<close> says what the encoder and the decoder rely on: a key has a stack of
  bindings, of which a search sees the most recent one.
\<close>

section \<open>State and operations\<close>

record ('k, 'v) hash_entry =
  he_k :: 'k
  he_v :: 'v
  he_h :: u32

record ('k, 'v) hashtable =
  tablelength :: u32
  table :: "('k, 'v) hash_entry list list"
  hashfn :: "'k \<Rightarrow> u32"
  eqfn :: "'k \<Rightarrow> 'k \<Rightarrow> bool"
  free_keys :: bool

definition primes :: "u32 list" where
  "primes =
    [53, 97, 193, 389,
     769, 1543, 3079, 6151,
     12289, 24593, 49157, 98317,
     196613, 393241, 786433, 1572869,
     3145739, 6291469, 12582917, 25165843,
     50331653, 100663319, 201326611, 402653189,
     805306457, 1610612741]"

text \<open>The loop of \<^verbatim>\<open>hashtable_create\<close> that picks the table size; the default is the initial value of \<open>size\<close>.\<close>

fun first_prime_above :: "u32 \<Rightarrow> u32 list \<Rightarrow> u32 \<Rightarrow> u32" where
  "first_prime_above minsize [] sz = sz"
| "first_prime_above minsize (p # ps) sz = (if p > minsize then p else first_prime_above minsize ps sz)"

text \<open>\<open>alloc_ok\<close> tells whether all three allocations succeed.\<close>

definition hashtable_create ::
  "bool \<Rightarrow> u32 \<Rightarrow> ('k \<Rightarrow> u32) \<Rightarrow> ('k \<Rightarrow> 'k \<Rightarrow> bool) \<Rightarrow> bool \<Rightarrow> ('k, 'v) hashtable option" where
  "hashtable_create alloc_ok minsize hashf eqf fkeys =
     (if minsize > push_bit 30 1 then None
      else let sz = first_prime_above minsize primes (primes ! 0)
           in if \<not> alloc_ok then None
              else Some \<lparr>tablelength = sz, table = replicate (unat sz) [],
                         hashfn = hashf, eqfn = eqf, free_keys = fkeys\<rparr>)"

text \<open>The mixing steps of \<^verbatim>\<open>hash\<close>, each wrapping at 32 bits.\<close>

definition hash_mix :: "u32 \<Rightarrow> u32" where
  "hash_mix i0 =
     (let i1 = i0 + NOT (push_bit 9 i0);
          i2 = i1 XOR (drop_bit 14 i1 OR push_bit 18 i1);
          i3 = i2 + push_bit 4 i2;
          i4 = i3 XOR (drop_bit 10 i3 OR push_bit 22 i3)
      in i4)"

definition hash :: "('k, 'v) hashtable \<Rightarrow> 'k \<Rightarrow> u32" where
  "hash h k = hash_mix (hashfn h k)"

definition indexFor :: "u32 \<Rightarrow> u32 \<Rightarrow> u32" where
  "indexFor len hashvalue = hashvalue mod len"

text \<open>The lock of a key, as the index into the array of locks.\<close>

definition hashtable_getlock :: "('k, 'v) hashtable \<Rightarrow> 'k \<Rightarrow> nat" where
  "hashtable_getlock h k = unat (indexFor (tablelength h) (hash h k))"

definition hashtable_insert :: "bool \<Rightarrow> ('k, 'v) hashtable \<Rightarrow> 'k \<Rightarrow> 'v \<Rightarrow> ('k, 'v) hashtable \<times> int" where
  "hashtable_insert alloc_ok h k v =
     (if \<not> alloc_ok then (h, 0)
      else let e = \<lparr>he_k = k, he_v = v, he_h = hash h k\<rparr>;
               index = unat (indexFor (tablelength h) (he_h e))
           in (h\<lparr>table := (table h)[index := e # table h ! index]\<rparr>, - 1))"

fun search_chain :: "('k \<Rightarrow> 'k \<Rightarrow> bool) \<Rightarrow> u32 \<Rightarrow> 'k \<Rightarrow> ('k, 'v) hash_entry list \<Rightarrow> ('k, 'v) hash_entry option" where
  "search_chain eq hashvalue k [] = None"
| "search_chain eq hashvalue k (e # es) =
     (if hashvalue = he_h e \<and> eq k (he_k e) then Some e else search_chain eq hashvalue k es)"

definition hashtable_search :: "('k, 'v) hashtable \<Rightarrow> 'k \<Rightarrow> 'v option" where
  "hashtable_search h k =
     (let hashvalue = hash h k; index = unat (indexFor (tablelength h) hashvalue)
      in map_option he_v (search_chain (eqfn h) hashvalue k (table h ! index)))"

definition hashtable_change :: "('k, 'v) hash_entry \<Rightarrow> 'v \<Rightarrow> ('k, 'v) hash_entry" where
  "hashtable_change e newv = e\<lparr>he_v := newv\<rparr>"

text \<open>Unlinking the first matching entry of a chain: the rest of the chain and the entry.\<close>

fun unlink_chain ::
  "('k \<Rightarrow> 'k \<Rightarrow> bool) \<Rightarrow> u32 \<Rightarrow> 'k \<Rightarrow> ('k, 'v) hash_entry list
    \<Rightarrow> ('k, 'v) hash_entry list \<times> ('k, 'v) hash_entry option" where
  "unlink_chain eq hashvalue k [] = ([], None)"
| "unlink_chain eq hashvalue k (e # es) =
     (if hashvalue = he_h e \<and> eq k (he_k e) then (es, Some e)
      else let (es', r) = unlink_chain eq hashvalue k es in (e # es', r))"

definition hashtable_remove :: "('k, 'v) hashtable \<Rightarrow> 'k \<Rightarrow> ('k, 'v) hashtable \<times> 'v option" where
  "hashtable_remove h k =
     (let hashvalue = hash h k; index = unat (indexFor (tablelength h) (hash h k));
          (es, r) = unlink_chain (eqfn h) hashvalue k (table h ! index)
      in (h\<lparr>table := (table h)[index := es]\<rparr>, map_option he_v r))"

text \<open>
  \<^verbatim>\<open>hashtable_destroy\<close> frees, chain by chain, the keys (when the table owns them) and the values (when
  asked to); the result lists what is freed, in order.
\<close>

definition hashtable_destroy :: "('k, 'v) hashtable \<Rightarrow> bool \<Rightarrow> ('k option \<times> 'v option) list" where
  "hashtable_destroy h free_values =
     (if free_values
      then concat (map (\<lambda>i. map (\<lambda>f. (if free_keys h then Some (he_k f) else None, Some (he_v f))) (table h ! i))
             [0..<unat (tablelength h)])
      else concat (map (\<lambda>i. map (\<lambda>f. (if free_keys h then Some (he_k f) else None, None)) (table h ! i))
             [0..<unat (tablelength h)]))"

section \<open>Invariant and abstraction\<close>

definition ht_inv :: "('k, 'v) hashtable \<Rightarrow> bool" where
  "ht_inv h \<longleftrightarrow> 0 < tablelength h \<and> length (table h) = unat (tablelength h) \<and> eqfn h = (=)
     \<and> (\<forall>i < length (table h). \<forall>e \<in> set (table h ! i).
          he_h e = hash h (he_k e) \<and> unat (indexFor (tablelength h) (he_h e)) = i)"

text \<open>The bindings of a key, most recent first.\<close>

definition ht_bindings :: "('k, 'v) hashtable \<Rightarrow> 'k \<Rightarrow> 'v list" where
  "ht_bindings h k = map he_v (filter (\<lambda>e. he_k e = k) (concat (table h)))"

lemma indexFor_less: "0 < n \<Longrightarrow> unat (indexFor n x) < unat n"
  by (simp add: indexFor_def unat_mod word_less_nat_alt)

lemma ht_inv_entry:
  assumes "ht_inv h" "i < length (table h)" "e \<in> set (table h ! i)"
  shows "he_h e = hash h (he_k e) \<and> hashtable_getlock h (he_k e) = i"
  using assms unfolding ht_inv_def hashtable_getlock_def by metis

lemma concat_one_bucket:
  assumes "j < length bs" "\<And>i. i < length bs \<Longrightarrow> i \<noteq> j \<Longrightarrow> filter P (bs ! i) = []"
  shows "filter P (concat bs) = filter P (bs ! j)"
  using assms
proof (induction bs arbitrary: j)
  case (Cons b bs)
  show ?case
  proof (cases j)
    case 0
    have "\<forall>i < length bs. filter P (bs ! i) = []"
      using Cons.prems(2)[of "Suc _"] 0 by auto
    then have "filter P (concat bs) = []"
      by (auto simp: filter_empty_conv) (metis in_set_conv_nth)
    then show ?thesis using 0 by simp
  next
    case (Suc j')
    have "filter P (concat bs) = filter P (bs ! j')"
    proof (rule Cons.IH)
      show "j' < length bs" using Cons.prems(1) Suc by simp
      show "filter P (bs ! i) = []" if "i < length bs" "i \<noteq> j'" for i
        using Cons.prems(2)[of "Suc i"] that Suc by simp
    qed
    moreover have "filter P b = []" using Cons.prems(2)[of 0] Suc by simp
    ultimately show ?thesis using Suc by simp
  qed
qed simp

lemma getlock_less: "ht_inv h \<Longrightarrow> hashtable_getlock h k < length (table h)"
  unfolding ht_inv_def hashtable_getlock_def by (simp add: indexFor_less)

lemma ht_bindings_bucket:
  assumes "ht_inv h"
  shows "ht_bindings h k = map he_v (filter (\<lambda>e. he_k e = k) (table h ! hashtable_getlock h k))"
proof -
  have "filter (\<lambda>e. he_k e = k) (table h ! i) = []" if "i < length (table h)" "i \<noteq> hashtable_getlock h k" for i
    using ht_inv_entry[OF assms that(1)] that(2) by (auto simp: filter_empty_conv)
  then have "filter (\<lambda>e. he_k e = k) (concat (table h)) = filter (\<lambda>e. he_k e = k) (table h ! hashtable_getlock h k)"
    by (rule concat_one_bucket[OF getlock_less[OF assms]])
  then show ?thesis by (simp add: ht_bindings_def)
qed


lemma search_chain_filter:
  assumes "\<forall>e \<in> set es. he_h e = hash h (he_k e)"
  shows "map_option he_v (search_chain (=) (hash h k) k es)
    = (case map he_v (filter (\<lambda>e. he_k e = k) es) of [] \<Rightarrow> None | v # vs \<Rightarrow> Some v)"
  using assms by (induction es) auto

lemma unlink_chain_filter:
  assumes "\<forall>e \<in> set es. he_h e = hash h (he_k e)"
  shows "filter (\<lambda>e. he_k e = k) (fst (unlink_chain (=) (hash h k) k es)) = tl (filter (\<lambda>e. he_k e = k) es)"
    and "k' \<noteq> k \<Longrightarrow> filter (\<lambda>e. he_k e = k') (fst (unlink_chain (=) (hash h k) k es)) = filter (\<lambda>e. he_k e = k') es"
    and "map_option he_v (snd (unlink_chain (=) (hash h k) k es))
      = (case map he_v (filter (\<lambda>e. he_k e = k) es) of [] \<Rightarrow> None | v # vs \<Rightarrow> Some v)"
    and "set (fst (unlink_chain (=) (hash h k) k es)) \<subseteq> set es"
  using assms by (induction es) (auto split: prod.splits)

lemma hash_table_update [simp]: "hash (h\<lparr>table := t\<rparr>) = hash h"
  by (rule ext) (simp add: hash_def)

lemma getlock_table_update [simp]: "hashtable_getlock (h\<lparr>table := t\<rparr>) = hashtable_getlock h"
  by (rule ext) (simp add: hashtable_getlock_def)

lemma getlock_insert [simp]: "hashtable_getlock (fst (hashtable_insert ok h k v)) = hashtable_getlock h"
  by (simp add: hashtable_insert_def Let_def)

lemma ht_bucket_hash:
  "ht_inv h \<Longrightarrow> \<forall>e \<in> set (table h ! hashtable_getlock h k). he_h e = hash h (he_k e)"
  using getlock_less[of h k] unfolding ht_inv_def by blast

lemma ht_search: 
  assumes "ht_inv h"
  shows "hashtable_search h k = (case ht_bindings h k of [] \<Rightarrow> None | v # vs \<Rightarrow> Some v)"
  using search_chain_filter[OF ht_bucket_hash[OF assms, of k], of k] assms
  unfolding hashtable_search_def Let_def ht_bindings_bucket[OF assms] hashtable_getlock_def
  by (simp add: ht_inv_def)

lemma ht_inv_update:
  assumes "ht_inv h"
    and "\<forall>e \<in> set es. he_h e = hash h (he_k e) \<and> unat (indexFor (tablelength h) (he_h e)) = j"
  shows "ht_inv (h\<lparr>table := (table h)[j := es]\<rparr>)"
proof -
  have "he_h e = hash h (he_k e) \<and> unat (indexFor (tablelength h) (he_h e)) = i"
    if "i < length (table h)" "e \<in> set ((table h)[j := es] ! i)" for i e
    using assms(2) that ht_inv_entry[OF assms(1) that(1), of e]
    by (cases "i = j") (auto simp: hashtable_getlock_def)
  moreover have "0 < tablelength h \<and> length (table h) = unat (tablelength h) \<and> eqfn h = (=)"
    using assms(1) unfolding ht_inv_def by blast
  ultimately show ?thesis unfolding ht_inv_def by simp metis
qed

lemma ht_insert_inv:
  assumes "ht_inv h"
  shows "ht_inv (fst (hashtable_insert ok h k v))"
proof -
  let ?j = "hashtable_getlock h k"
  have "\<forall>e \<in> set (\<lparr>he_k = k, he_v = v, he_h = hash h k\<rparr> # table h ! ?j).
      he_h e = hash h (he_k e) \<and> unat (indexFor (tablelength h) (he_h e)) = ?j"
    using ht_inv_entry[OF assms getlock_less[OF assms, of k]]
    by (auto simp: hashtable_getlock_def)
  from ht_inv_update[OF assms this] assms show ?thesis
    by (simp add: hashtable_insert_def Let_def hashtable_getlock_def)
qed

lemma ht_insert_bindings:
  assumes "ht_inv h"
  shows "ht_bindings (fst (hashtable_insert True h k v)) k' =
    (if k' = k then v # ht_bindings h k else ht_bindings h k')"
  using ht_bindings_bucket[OF ht_insert_inv[OF assms, of True k v], of k'] getlock_less[OF assms]
    ht_bindings_bucket[OF assms]
  by (auto simp: hashtable_insert_def Let_def nth_list_update simp flip: hashtable_getlock_def)

lemma ht_remove_eq:
  assumes "ht_inv h"
  shows "hashtable_remove h k =
    (let r = unlink_chain (=) (hash h k) k (table h ! hashtable_getlock h k)
     in (h\<lparr>table := (table h)[hashtable_getlock h k := fst r]\<rparr>, map_option he_v (snd r)))"
  using assms by (simp add: hashtable_remove_def hashtable_getlock_def ht_inv_def Let_def split_def)

lemma ht_remove_inv:
  assumes "ht_inv h"
  shows "ht_inv (fst (hashtable_remove h k))"
proof -
  let ?j = "hashtable_getlock h k"
  have "set (fst (unlink_chain (=) (hash h k) k (table h ! ?j))) \<subseteq> set (table h ! ?j)"
    by (rule unlink_chain_filter(4)[OF ht_bucket_hash[OF assms]])
  moreover have "\<forall>e \<in> set (table h ! ?j). he_h e = hash h (he_k e) \<and> unat (indexFor (tablelength h) (he_h e)) = ?j"
    using assms getlock_less[OF assms, of k] unfolding ht_inv_def by blast
  ultimately show ?thesis
    unfolding ht_remove_eq[OF assms] Let_def fst_conv by (intro ht_inv_update[OF assms]) blast
qed

lemma ht_remove_bindings:
  assumes "ht_inv h"
  shows "ht_bindings (fst (hashtable_remove h k)) k' = (if k' = k then tl (ht_bindings h k) else ht_bindings h k')"
  using ht_bindings_bucket[OF ht_remove_inv[OF assms, of k], of k'] getlock_less[OF assms]
    ht_bindings_bucket[OF assms] unlink_chain_filter(1,2)[OF ht_bucket_hash[OF assms, of k]]
  by (auto simp: ht_remove_eq[OF assms] Let_def nth_list_update map_tl)

lemma ht_remove_result:
  assumes "ht_inv h"
  shows "snd (hashtable_remove h k) = hashtable_search h k"
  using unlink_chain_filter(3)[OF ht_bucket_hash[OF assms, of k], of k]
  by (simp add: ht_remove_eq[OF assms] Let_def ht_search[OF assms] ht_bindings_bucket[OF assms])

lemma first_prime_above_spec:
  "\<exists>p \<in> set ps. minsize < p \<Longrightarrow>
     first_prime_above minsize ps sz \<in> set ps \<and> minsize < first_prime_above minsize ps sz
     \<and> (sorted ps \<longrightarrow> (\<forall>p \<in> set ps. minsize < p \<longrightarrow> first_prime_above minsize ps sz \<le> p))"
  by (induction ps) auto

lemma ht_empty:
  assumes "0 < sz" "h = \<lparr>tablelength = sz, table = replicate (unat sz) [], hashfn = hf, eqfn = (=), free_keys = fk\<rparr>"
  shows "ht_inv h \<and> ht_bindings h k = []"
  using assms by (simp add: ht_inv_def ht_bindings_def filter_empty_conv)

lemma hashtable_create_inv:
  assumes "hashtable_create ok minsize hf (=) fk = Some h"
  shows "ht_inv h \<and> ht_bindings h k = [] \<and> minsize < tablelength h
    \<and> tablelength h \<in> set primes \<and> (\<forall>p \<in> set primes. minsize < p \<longrightarrow> tablelength h \<le> p)"
proof -
  define sz where "sz = first_prime_above minsize primes (primes ! 0)"
  have le: "minsize \<le> push_bit 30 1" using assms unfolding hashtable_create_def by (auto split: if_splits)
  have "minsize < 1610612741" using le by (rule order.strict_trans1) simp
  then have "\<exists>p \<in> set primes. minsize < p" by (auto simp: primes_def)
  moreover have "sorted primes" by (simp add: primes_def)
  ultimately have sz: "minsize < sz \<and> sz \<in> set primes \<and> (\<forall>p \<in> set primes. minsize < p \<longrightarrow> sz \<le> p)"
    using first_prime_above_spec[of primes minsize "primes ! 0"] unfolding sz_def by blast
  have h: "h = \<lparr>tablelength = sz, table = replicate (unat sz) [], hashfn = hf, eqfn = (=), free_keys = fk\<rparr>"
    using assms le unfolding hashtable_create_def Let_def by (simp add: sz_def split: if_splits)
  have "0 < sz" using sz word_gt_0_no by (metis word_gt_0 word_not_simps(1))
  from ht_empty[OF this h] sz show ?thesis by (simp add: h)
qed

section \<open>The interface of a keyed store\<close>

text \<open>
  The way the encoder and the decoder use the table: look a key up, and add a binding when there is
  none. The result tells which elements were new.
\<close>

fun add_new :: "('s \<Rightarrow> 'k \<Rightarrow> 'v option) \<Rightarrow> ('k \<Rightarrow> 'v \<Rightarrow> 's \<Rightarrow> 's) \<Rightarrow> ('k \<times> 'v) list \<Rightarrow> 's \<Rightarrow> 's \<times> bool list" where
  "add_new search put [] s = (s, [])"
| "add_new search put ((k, v) # xs) s =
     (case search s k of
        None \<Rightarrow> let (s', fs) = add_new search put xs (put k v s) in (s', True # fs)
      | Some _ \<Rightarrow> let (s', fs) = add_new search put xs s in (s', False # fs))"

locale keyed_store =
  fixes search :: "'s \<Rightarrow> 'k \<Rightarrow> 'v option"
    and put :: "'k \<Rightarrow> 'v \<Rightarrow> 's \<Rightarrow> 's"
    and bindings :: "'s \<Rightarrow> 'k \<Rightarrow> 'v list"
    and inv :: "'s \<Rightarrow> bool"
  assumes search_bindings: "inv s \<Longrightarrow> search s k = (case bindings s k of [] \<Rightarrow> None | v # vs \<Rightarrow> Some v)"
    and put_inv: "inv s \<Longrightarrow> inv (put k v s)"
    and put_bindings: "inv s \<Longrightarrow> bindings (put k v s) k' = (if k' = k then v # bindings s k else bindings s k')"
begin

lemma search_put: "inv s \<Longrightarrow> search (put k v s) = (search s)(k \<mapsto> v)"
  by (rule ext) (simp add: search_bindings put_inv put_bindings)

lemma add_new_search:
  "inv s \<Longrightarrow> inv (fst (add_new search put xs s)) \<and> search (fst (add_new search put xs s)) = map_of xs ++ search s"
proof (induction xs arbitrary: s)
  case (Cons x xs)
  obtain k v where x: "x = (k, v)" by (cases x)
  show ?case
  proof (cases "search s k")
    case None
    have "inv (put k v s)" by (rule put_inv[OF Cons.prems])
    from Cons.IH[OF this] show ?thesis
      using None by (auto simp: x split_def Let_def search_put[OF Cons.prems] map_add_def split: option.splits)
  next
    case (Some w)
    with Cons.IH[OF Cons.prems] show ?thesis
      by (auto simp: x split_def Let_def map_add_def split: option.splits)
  qed
qed simp

end


interpretation ht: keyed_store hashtable_search "\<lambda>k v h. fst (hashtable_insert True h k v)" ht_bindings ht_inv
  by unfold_locales (simp_all add: ht_search ht_insert_inv ht_insert_bindings)

section \<open>Properties\<close>

text \<open>
  C5. The table implements a map from keys to stacks of bindings, whatever the hash function and the
  collisions: a table made by \<^verbatim>\<open>hashtable_create\<close> is empty and its size is the first prime of the table
  above the request; a search returns the most recent binding; an insertion pushes one and reports
  failure only when the allocation fails, leaving the table as it was; a removal pops it, returns its
  value, and leaves every other key alone; and all of them keep the invariant.
\<close>

theorem hashtable_refines_map:
  fixes h :: "('k, 'v) hashtable"
  assumes "ht_inv h"
  shows "hashtable_search h k = (case ht_bindings h k of [] \<Rightarrow> None | v # vs \<Rightarrow> Some v)
    \<and> (let (h', r) = hashtable_insert ok h k v
       in ht_inv h' \<and> r = (if ok then - 1 else 0)
          \<and> ht_bindings h' = (if ok then (ht_bindings h)(k := v # ht_bindings h k) else ht_bindings h))
    \<and> (let (h', r) = hashtable_remove h k
       in ht_inv h' \<and> r = hashtable_search h k \<and> ht_bindings h' = (ht_bindings h)(k := tl (ht_bindings h k)))
    \<and> (case hashtable_create ok2 minsize hf (=) fk :: ('k, 'v) hashtable option of
         None \<Rightarrow> \<not> ok2 \<or> 2 ^ 30 < unat minsize
       | Some h0 \<Rightarrow> ht_inv h0 \<and> ht_bindings h0 = (\<lambda>_. []) \<and> minsize < tablelength h0
           \<and> tablelength h0 \<in> set primes \<and> (\<forall>p \<in> set primes. minsize < p \<longrightarrow> tablelength h0 \<le> p))"
proof (intro conjI)
  show "hashtable_search h k = (case ht_bindings h k of [] \<Rightarrow> None | v # vs \<Rightarrow> Some v)"
    by (rule ht_search[OF assms])
  show "let (h', r) = hashtable_insert ok h k v
       in ht_inv h' \<and> r = (if ok then - 1 else 0)
          \<and> ht_bindings h' = (if ok then (ht_bindings h)(k := v # ht_bindings h k) else ht_bindings h)"
    using ht_insert_inv[OF assms, of ok k v] ht_insert_bindings[OF assms, of k v]
    by (cases ok) (auto simp: split_def hashtable_insert_def Let_def fun_eq_iff)
  show "let (h', r) = hashtable_remove h k
       in ht_inv h' \<and> r = hashtable_search h k \<and> ht_bindings h' = (ht_bindings h)(k := tl (ht_bindings h k))"
    using ht_remove_inv[OF assms, of k] ht_remove_bindings[OF assms, of k] ht_remove_result[OF assms, of k]
    by (auto simp: split_def fun_eq_iff)
  show "case hashtable_create ok2 minsize hf (=) fk :: ('k, 'v) hashtable option of
         None \<Rightarrow> \<not> ok2 \<or> 2 ^ 30 < unat minsize
       | Some h0 \<Rightarrow> ht_inv h0 \<and> ht_bindings h0 = (\<lambda>_. []) \<and> minsize < tablelength h0
           \<and> tablelength h0 \<in> set primes \<and> (\<forall>p \<in> set primes. minsize < p \<longrightarrow> tablelength h0 \<le> p)"
  proof (cases "hashtable_create ok2 minsize hf (=) fk :: ('k, 'v) hashtable option")
    case None
    then show ?thesis
      by (auto simp: hashtable_create_def Let_def word_less_nat_alt split: if_splits)
  next
    case (Some h0)
    from hashtable_create_inv[OF this] show ?thesis by (simp add: Some fun_eq_iff)
  qed
qed

theorem hashtable_refines_map_witness:
  "let h0 = the (hashtable_create True 60 id (=) False) :: (u32, char) hashtable;
       h = fst (hashtable_insert True h0 7 CHR ''a'')
   in ht_inv h \<and> hashtable_search h 7 = Some (CHR ''a'') \<and> hashtable_search (fst (hashtable_remove h 7)) 7 = None"
proof -
  obtain h0 :: "(u32, char) hashtable" where h0: "hashtable_create True 60 id (=) False = Some h0"
    by (simp add: hashtable_create_def Let_def)
  define h where "h = fst (hashtable_insert True h0 7 CHR ''a'')"
  have inv0: "ht_inv h0" and emp: "ht_bindings h0 7 = []" using hashtable_create_inv[OF h0] by auto
  have inv: "ht_inv h" and bind: "ht_bindings h 7 = [CHR ''a'']"
    using hashtable_refines_map[OF inv0, of 7 True "CHR ''a''" True 0 id False] emp
    by (simp_all add: h_def split_def Let_def)
  then show ?thesis
    by (simp add: ht_search ht_remove_inv ht_remove_bindings h0 Let_def flip: h_def)
qed



end
