(* ===== verification/Rabin.thy ===== *)
theory Rabin
  imports Prelude
begin

text \<open>
  The rolling Rabin fingerprint of dedup (\<^verbatim>\<open>apps/dedup/src/rabin.c\<close>): the reduction tables and the
  search for a segment boundary. The two 256-entry tables are lists; every index is a byte.
\<close>

section \<open>Tables and segmentation\<close>

definition NWINDOW :: nat where "NWINDOW = 32"
definition RabinMask :: u32 where "RabinMask = 0xfff"
definition irrpoly :: u32 where "irrpoly = 0x45c2b6a1"

definition bswap32 :: "u32 \<Rightarrow> u32" where
  "bswap32 x = (push_bit 24 x AND 0xff000000) OR (push_bit 8 x AND 0x00ff0000)
     OR (drop_bit 8 x AND 0x0000ff00) OR (drop_bit 24 x AND 0x000000ff)"

definition fpstep :: "u32 \<Rightarrow> u32 \<Rightarrow> u32" where
  "fpstep irr x = (if drop_bit 31 x \<noteq> 0 then push_bit 1 x XOR irr else push_bit 1 x)"

definition fpreduce :: "u32 \<Rightarrow> u32 \<Rightarrow> u32" where
  "fpreduce x irr = (fpstep irr ^^ 32) x"

definition fpmkredtab :: "u32 \<Rightarrow> nat \<Rightarrow> u32 list" where
  "fpmkredtab irr s = map (\<lambda>i. fpreduce (push_bit s (word_of_nat i)) irr) [0..<256]"

definition fpwinreduce :: "u32 \<Rightarrow> nat \<Rightarrow> u32 \<Rightarrow> u32 list \<Rightarrow> u32" where
  "fpwinreduce irr winlen x rabintab =
     (let winval = (push_bit 8 0 OR x) XOR rabintab ! unat (drop_bit 24 (0 :: u32))
      in ((\<lambda>winval. push_bit 8 winval XOR rabintab ! unat (drop_bit 24 winval)) ^^ (winlen - 1)) winval)"

definition fpmkwinredtab :: "u32 \<Rightarrow> nat \<Rightarrow> u32 list \<Rightarrow> u32 list" where
  "fpmkwinredtab irr winlen rabintab = map (\<lambda>i. fpwinreduce irr winlen (word_of_nat i) rabintab) [0..<256]"

text \<open>\<^verbatim>\<open>rabininit\<close> fills both tables; \<open>winlen\<close> is non-negative at every call.\<close>

definition rabininit :: "nat \<Rightarrow> u32 list \<times> u32 list" where
  "rabininit winlen =
     (let rabintab = fpmkredtab irrpoly 0 in (rabintab, fpmkwinredtab irrpoly winlen rabintab))"

text \<open>One step of either loop of \<^verbatim>\<open>rabinseg\<close>: shift a byte into the fingerprint.\<close>

definition rabin_append :: "u32 list \<Rightarrow> u32 \<Rightarrow> byte \<Rightarrow> u32" where
  "rabin_append rabintab h b = (let x = drop_bit 24 h in (push_bit 8 h OR ucast b) XOR rabintab ! unat x)"

function rabin_scan :: "byte list \<Rightarrow> nat \<Rightarrow> u32 list \<Rightarrow> u32 list \<Rightarrow> nat \<Rightarrow> u32 \<Rightarrow> nat" where
  "rabin_scan p n rabintab rabinwintab i h =
     (if i < n
      then let x = p ! (i - NWINDOW);
               h = rabin_append rabintab (h XOR rabinwintab ! unat x) (p ! i)
           in if h AND RabinMask = 0 then i + 1 else rabin_scan p n rabintab rabinwintab (i + 1) h
      else n)"
  by pat_completeness auto
termination by (relation "measure (\<lambda>(p, n, t, w, i, h). n - i)") auto

declare rabin_scan.simps [simp del]

definition rabinseg :: "byte list \<Rightarrow> nat \<Rightarrow> nat \<Rightarrow> u32 list \<Rightarrow> u32 list \<Rightarrow> nat" where
  "rabinseg p n winlen rabintab rabinwintab =
     (if n < NWINDOW then n
      else let h = foldl (rabin_append rabintab) 0 (map (\<lambda>i. p ! i) [0..<NWINDOW])
           in if h AND RabinMask = 0 then NWINDOW
              else rabin_scan p n rabintab rabinwintab NWINDOW h)"

lemma rabin_scan_end [simp]: "rabin_scan p n t w n h = n"
  by (subst rabin_scan.simps) simp

section \<open>Bounds\<close>

lemma rabin_scan_bounds:
  "i \<le> n \<Longrightarrow> i \<le> rabin_scan p n t w i h \<and> rabin_scan p n t w i h \<le> n"
proof (induction "n - i" arbitrary: i h)
  case 0
  then show ?case by simp
next
  case (Suc d)
  have IH: "Suc i \<le> rabin_scan p n t w (Suc i) h' \<and> rabin_scan p n t w (Suc i) h' \<le> n" for h'
    using Suc by (intro Suc.hyps(1)) auto
  have "i \<le> rabin_scan p n t w (Suc i) h'" for h'
    using IH[of h'] by linarith
  then show ?case
    using Suc.hyps(2) IH Suc.prems by (simp add: rabin_scan.simps[of p n t w i h] Let_def)
qed

lemma rabinseg_bounds_aux:
  "rabinseg p n winlen t w \<le> n \<and> min n NWINDOW \<le> rabinseg p n winlen t w"
  unfolding rabinseg_def Let_def using rabin_scan_bounds[of NWINDOW n p t w]
  by (simp add: not_less)

lemma rabinseg_le: "rabinseg p n winlen t w \<le> n"
  using rabinseg_bounds_aux by blast

lemma rabinseg_pos: "0 < n \<Longrightarrow> 0 < rabinseg p n winlen t w"
  using rabinseg_bounds_aux[of p n winlen t w] by (simp add: NWINDOW_def min_def split: if_splits)

text \<open>Only the first \<open>n\<close> bytes are read.\<close>

lemma rabin_scan_take:
  "i \<le> n \<Longrightarrow> n \<le> length p \<Longrightarrow> rabin_scan (take n p) n t w i h = rabin_scan p n t w i h"
proof (induction "n - i" arbitrary: i h)
  case 0
  then show ?case by simp
next
  case (Suc d)
  then have "i < n" by simp
  then show ?case
    using Suc.hyps(1)[of "Suc i"] Suc.hyps(2) Suc.prems
    by (simp add: rabin_scan.simps[of p n t w i h] rabin_scan.simps[of "take n p" n t w i h] Let_def)
qed

section \<open>The reduction is linear over GF(2)\<close>

lemma drop_bit_31: "drop_bit 31 (x :: u32) \<noteq> 0 \<longleftrightarrow> bit x 31"
proof -
  have "bit (drop_bit 31 x) n = bit (of_bool (bit x 31) :: u32) n" for n
    using bit_imp_le_length[of x "31 + n"] by (cases n) (auto simp: bit_simps)
  then have "drop_bit 31 x = of_bool (bit x 31)"
    by (intro bit_word_eqI)
  then show ?thesis by simp
qed

lemma fpstep_eq: "fpstep irr x = push_bit 1 x XOR (if bit x 31 then irr else 0)"
  unfolding fpstep_def drop_bit_31 by simp

lemma fpstep_linear: "fpstep irr (x XOR y) = fpstep irr x XOR fpstep irr y"
  unfolding fpstep_eq bit_xor_iff push_bit_xor
  by (cases "bit x 31"; cases "bit y 31") (simp_all add: xor.assoc xor.commute xor.left_commute)

lemma fpstep_pow_linear: "(fpstep irr ^^ k) (x XOR y) = (fpstep irr ^^ k) x XOR (fpstep irr ^^ k) y"
  by (induction k) (simp_all add: fpstep_linear)

lemma fpstep_pow_shift:
  "k + m \<le> 32 \<Longrightarrow> \<forall>i \<ge> m. \<not> bit x i \<Longrightarrow> (fpstep irr ^^ k) x = push_bit k x"
proof (induction k)
  case (Suc k)
  have "\<not> bit (push_bit k x) 31" using Suc.prems by (auto simp: bit_push_bit_iff)
  then show ?case using Suc by (simp add: fpstep_def drop_bit_31)
qed simp

lemma unat_drop_bit_24: "unat (drop_bit 24 (h :: u32)) < 256"
proof -
  have "unat (drop_bit 24 h) = unat h div 2 ^ 24"
    unfolding unsigned_drop_bit_eq using unat_lt2p[of h]
    by (simp add: drop_bit_eq_div take_bit_nat_eq_self)
  also have "\<dots> < 2 ^ 8" using unat_lt2p[of h] by (intro less_mult_imp_div_less) simp
  finally show ?thesis by simp
qed

lemma redtab_nth: "i < 256 \<Longrightarrow> fst (rabininit winlen) ! i = fpreduce (word_of_nat i) irrpoly"
  by (simp add: rabininit_def fpmkredtab_def Let_def)

text \<open>The table-driven shift by a byte is eight bit-serial steps of the division.\<close>

lemma shift_byte:
  "push_bit 8 h XOR fst (rabininit winlen) ! unat (drop_bit 24 h) = (fpstep irrpoly ^^ 8) h"
proof -
  let ?f = "(fpstep irrpoly ^^ 8) :: u32 \<Rightarrow> u32"
  define top where "top = drop_bit 24 h"
  define low where "low = take_bit 24 h"
  have h: "h = push_bit 24 top XOR low"
    unfolding top_def low_def by (rule bit_word_eqI) (auto simp: bit_simps)
  have hi: "\<forall>i \<ge> 8. \<not> bit top i" unfolding top_def
    by (auto simp: bit_drop_bit_eq dest: bit_imp_le_length)
  have "(fpstep irrpoly ^^ 32) top = (fpstep irrpoly ^^ 8) ((fpstep irrpoly ^^ 24) top)"
    using funpow_add[of 8 24 "fpstep irrpoly"] by (simp add: comp_def)
  also have "\<dots> = (fpstep irrpoly ^^ 8) (push_bit 24 top)"
    using fpstep_pow_shift[of 24 8 top] hi by simp
  finally have red: "fpreduce top irrpoly = (fpstep irrpoly ^^ 8) (push_bit 24 top)"
    by (simp add: fpreduce_def)
  have lo: "(fpstep irrpoly ^^ 8) low = push_bit 8 low"
    by (rule fpstep_pow_shift[of 8 24]) (auto simp: low_def bit_take_bit_iff)
  have "push_bit 8 h = push_bit 8 low"
    unfolding low_def by (rule bit_word_eqI) (auto simp: bit_simps)
  moreover have "fst (rabininit winlen) ! unat top = fpreduce top irrpoly"
    using unat_drop_bit_24[of h] by (simp add: redtab_nth top_def)
  ultimately have "push_bit 8 h XOR fst (rabininit winlen) ! unat top = ?f low XOR ?f (push_bit 24 top)"
    using red lo by simp
  also have "\<dots> = ?f h"
    by (subst h) (simp only: fpstep_pow_linear xor.commute)
  finally show ?thesis unfolding top_def .
qed

lemma rabin_append_serial:
  "rabin_append (fst (rabininit winlen)) h b = (fpstep irrpoly ^^ 8) h XOR ucast b"
proof -
  have "push_bit 8 h OR ucast b = push_bit 8 h XOR (ucast b :: u32)"
    by (rule bit_word_eqI) (auto simp: bit_simps dest: bit_imp_le_length)
  then show ?thesis
    using shift_byte[of h winlen] by (simp add: rabin_append_def Let_def xor.assoc xor.commute xor.left_commute)
qed


section \<open>The rolling update keeps the fingerprint of the window\<close>

definition shift8 :: "u32 \<Rightarrow> u32" where
  "shift8 h = (fpstep irrpoly ^^ 8) h"

text \<open>The fingerprint of a byte string, one bit of polynomial division at a time.\<close>

definition fingerprint :: "byte list \<Rightarrow> u32" where
  "fingerprint bs = foldl (\<lambda>h b. shift8 h XOR ucast b) 0 bs"

lemma shift8_pow_linear: "(shift8 ^^ k) (x XOR y) = (shift8 ^^ k) x XOR (shift8 ^^ k) y"
  by (induction k) (simp_all add: shift8_def fpstep_pow_linear)

lemma foldl_shift8: "foldl (\<lambda>h b. shift8 h XOR ucast b) h bs = (shift8 ^^ length bs) h XOR fingerprint bs"
proof (induction bs rule: rev_induct)
  case (snoc b bs)
  then show ?case
    using shift8_pow_linear[of 1 "(shift8 ^^ length bs) h" "fingerprint bs"]
    by (simp add: fingerprint_def xor.assoc)
qed (simp add: fingerprint_def)

lemma shift8_0 [simp]: "shift8 0 = 0"
  by (simp add: shift8_def fpstep_pow_shift[of 8 0])

lemma fingerprint_Cons: "fingerprint (b # bs) = (shift8 ^^ length bs) (ucast b) XOR fingerprint bs"
  using foldl_shift8[of "ucast b" bs] by (simp add: fingerprint_def)

lemma fingerprint_zeros: "fingerprint (replicate k 0) = 0"
  by (induction k) (simp_all add: fingerprint_def)

lemma redtab_0: "fst (rabininit winlen) ! 0 = 0"
  by (simp add: redtab_nth fpreduce_def fpstep_pow_shift[of 32 0])

lemma wintab_nth:
  "i < 256 \<Longrightarrow> snd (rabininit winlen) ! i = (shift8 ^^ (winlen - 1)) (word_of_nat i)"
  using redtab_0[of winlen] shift_byte[where winlen = winlen]
  by (simp add: rabininit_def fpmkwinredtab_def fpwinreduce_def Let_def shift8_def[abs_def])

lemma wintab_byte: "snd (rabininit winlen) ! unat (x :: byte) = (shift8 ^^ (winlen - 1)) (ucast x)"
  using unat_lt2p[of x] by (simp add: wintab_nth)

lemma rolling_update:
  assumes "length bs = NWINDOW - 1"
  shows "rabin_append (fst (rabininit NWINDOW)) (fingerprint (b # bs) XOR snd (rabininit NWINDOW) ! unat b) c
    = fingerprint (bs @ [c])"
proof -
  have "fingerprint (b # bs) XOR snd (rabininit NWINDOW) ! unat b = fingerprint bs"
    using assms by (simp add: wintab_byte fingerprint_Cons xor.assoc xor.commute xor.left_commute)
  then show ?thesis by (simp add: rabin_append_serial fingerprint_def shift8_def)
qed

definition window :: "byte list \<Rightarrow> nat \<Rightarrow> byte list" where
  "window p i = take NWINDOW (drop (i - NWINDOW) p)"

lemma window_Suc:
  assumes "NWINDOW \<le> i" "i < length p"
  shows "\<exists>bs. length bs = NWINDOW - 1 \<and> window p i = p ! (i - NWINDOW) # bs \<and> window p (Suc i) = bs @ [p ! i]"
proof (intro exI conjI)
  let ?bs = "take (NWINDOW - 1) (drop (Suc (i - NWINDOW)) p)"
  show "length ?bs = NWINDOW - 1" using assms by (simp add: NWINDOW_def)
  have "drop (i - NWINDOW) p = p ! (i - NWINDOW) # drop (Suc (i - NWINDOW)) p"
    using assms by (simp add: Cons_nth_drop_Suc)
  then show "window p i = p ! (i - NWINDOW) # ?bs" by (simp add: window_def NWINDOW_def take_Cons')
  have "Suc (i - 32) = i - 31" if "32 \<le> i" using that by simp
  then show "window p (Suc i) = ?bs @ [p ! i]"
    using assms take_Suc_conv_app_nth[of "NWINDOW - 1" "drop (Suc (i - NWINDOW)) p"]
    by (simp add: window_def NWINDOW_def Suc_diff_le)
qed

lemma rabin_scan_find:
  assumes "\<And>j. i \<le> j \<Longrightarrow> j < n \<Longrightarrow> rabin_append t (H j XOR w ! unat (p ! (j - NWINDOW))) (p ! j) = H (Suc j)"
    and "i \<le> n"
  shows "rabin_scan p n t w i (H i) =
    (case find (\<lambda>j. H j AND RabinMask = 0) [Suc i..<Suc n] of None \<Rightarrow> n | Some j \<Rightarrow> j)"
  using assms
proof (induction "n - i" arbitrary: i)
  case 0
  then show ?case by simp
next
  case (Suc d)
  then have "i < n" by simp
  then have "[Suc i..<Suc n] = Suc i # [Suc (Suc i)..<Suc n]" by (simp add: upt_conv_Cons del: upt_Suc)
  moreover have "rabin_scan p n t w (Suc i) (H (Suc i)) =
    (case find (\<lambda>j. H j AND RabinMask = 0) [Suc (Suc i)..<Suc n] of None \<Rightarrow> n | Some j \<Rightarrow> j)"
    using Suc.hyps(2) \<open>i < n\<close> by (intro Suc.hyps(1)) (auto intro: Suc.prems(1))
  ultimately show ?case
    using Suc.prems(1)[of i] \<open>i < n\<close> rabin_scan.simps[of p n t w i "H i"]
    by (simp add: Let_def del: upt_Suc)
qed


section \<open>Properties\<close>

text \<open>
  C7. \<^verbatim>\<open>rabinseg\<close> always makes progress and never runs past its input, whatever the tables hold: for
  \<open>n\<close> bytes it returns a length between \<open>min n NWINDOW\<close> and \<open>n\<close>, positive unless \<open>n\<close> is zero, and it
  reads only the first \<open>n\<close> bytes of the buffer.
\<close>

theorem rabinseg_bounds:
  assumes "n \<le> length p"
  shows "min n NWINDOW \<le> rabinseg p n winlen rabintab rabinwintab
    \<and> rabinseg p n winlen rabintab rabinwintab \<le> n
    \<and> (0 < n \<longrightarrow> 0 < rabinseg p n winlen rabintab rabinwintab)
    \<and> rabinseg (take n p) n winlen rabintab rabinwintab = rabinseg p n winlen rabintab rabinwintab"
proof -
  have "rabinseg (take n p) n winlen rabintab rabinwintab = rabinseg p n winlen rabintab rabinwintab"
  proof (cases "n < NWINDOW")
    case False
    then have eq: "map (\<lambda>i. take n p ! i) [0..<NWINDOW] = map (\<lambda>i. p ! i) [0..<NWINDOW]"
      by (intro map_cong) simp_all
    show ?thesis
      unfolding rabinseg_def eq using False assms rabin_scan_take[of NWINDOW n p] by (simp add: Let_def)
  qed (simp add: rabinseg_def)
  then show ?thesis using rabinseg_bounds_aux[of p n winlen rabintab rabinwintab] rabinseg_pos by blast
qed

theorem rabinseg_bounds_witness:
  "let p = replicate 40 (7 :: byte)
   in (40 :: nat) \<le> length p \<and> NWINDOW \<le> rabinseg p 40 0 (fst (rabininit 0)) (snd (rabininit 0))"
  using rabinseg_bounds[of 40 "replicate 40 7" 0 "fst (rabininit 0)" "snd (rabininit 0)"]
  by (simp add: NWINDOW_def)

text \<open>
  C8. With tables made for a window of \<open>NWINDOW\<close> bytes, the incremental table-driven search returns
  the first position, from \<open>NWINDOW\<close> on, at which the bit-serial fingerprint of the last \<open>NWINDOW\<close>
  bytes vanishes under \<open>RabinMask\<close>, and \<open>n\<close> when there is none: boundaries depend on the content of
  the window only.
\<close>

theorem rabinseg_window:
  assumes "NWINDOW \<le> n" "n \<le> length p"
  shows "rabinseg p n NWINDOW (fst (rabininit NWINDOW)) (snd (rabininit NWINDOW)) =
    (case find (\<lambda>i. fingerprint (window p i) AND RabinMask = 0) [NWINDOW..<Suc n] of
       None \<Rightarrow> n | Some i \<Rightarrow> i)"
proof -
  let ?t = "fst (rabininit NWINDOW)" and ?w = "snd (rabininit NWINDOW)"
  have first: "foldl (rabin_append ?t) 0 (map (\<lambda>i. p ! i) [0..<NWINDOW]) = fingerprint (window p NWINDOW)"
    using assms nth_take_prefix[of NWINDOW p]
    by (simp add: window_def fingerprint_def rabin_append_serial[abs_def] shift8_def)
  have step: "rabin_append ?t (fingerprint (window p j) XOR ?w ! unat (p ! (j - NWINDOW))) (p ! j)
      = fingerprint (window p (Suc j))" if "NWINDOW \<le> j" "j < n" for j
    using window_Suc[of j p] that assms rolling_update by fastforce
  have "[NWINDOW..<Suc n] = NWINDOW # [Suc NWINDOW..<Suc n]"
    using assms by (simp add: upt_conv_Cons del: upt_Suc)
  then show ?thesis
    using assms first rabin_scan_find[where H = "\<lambda>i. fingerprint (window p i)", OF step assms(1)]
    by (simp add: rabinseg_def Let_def del: upt_Suc)
qed

theorem rabinseg_window_witness:
  "let p = replicate 40 (0 :: byte)
   in NWINDOW \<le> 40 \<and> 40 \<le> length p
    \<and> rabinseg p 40 NWINDOW (fst (rabininit NWINDOW)) (snd (rabininit NWINDOW)) = NWINDOW"
  using rabinseg_window[of 40 "replicate 40 0"]
  by (simp add: NWINDOW_def window_def fingerprint_zeros upt_conv_Cons)

text \<open>
  C9. With the window length the encoder really passes to \<^verbatim>\<open>rabininit\<close> (zero, like one) the removal
  table is the identity: the byte that leaves the window is not removed from the fingerprint, its
  contribution having been shifted by \<open>NWINDOW - 1\<close> bytes. The table removes it exactly when made for
  a window of \<open>NWINDOW\<close> bytes.
\<close>

theorem rabinwintab_winlen:
  "snd (rabininit 0) ! unat (x :: byte) = ucast x
    \<and> fingerprint (x # replicate (NWINDOW - 1) 0) XOR snd (rabininit NWINDOW) ! unat x = 0"
  by (simp add: wintab_byte fingerprint_Cons fingerprint_zeros)

end
