(* ===== verification/Mbuffer.thy ===== *)
theory Mbuffer
  imports Prelude
begin

text \<open>
  The reference-counted memory buffers of dedup (\<^verbatim>\<open>apps/dedup/src/mbuffer.c\<close>). The C heap is explicit:
  blocks of bytes and memory control blocks, each under its own address; a pointer into a block is
  the address of the block and an offset. Whether an allocation succeeds and what fresh memory
  holds are arguments. Every counter update runs under the lock of its control block, so an
  operation is one atomic step; the reference counter keeps its 32 bits.
\<close>

section \<open>State\<close>

type_synonym addr = nat

record mcb_t =
  mcb_i :: u32
  mcb_ptr :: addr

record mbuffer_t =
  mb_block :: addr
  mb_off :: nat
  mb_n :: nat
  mb_mcb :: addr

record mheap =
  blocks :: "addr \<rightharpoonup> byte list"
  mcbs :: "addr \<rightharpoonup> mcb_t"
  brk :: addr

text \<open>\<^verbatim>\<open>malloc\<close> of a data block: a fresh address, contents given by \<open>junk\<close>.\<close>

definition malloc_block :: "(nat \<Rightarrow> byte) \<Rightarrow> nat \<Rightarrow> mheap \<Rightarrow> addr \<times> mheap" where
  "malloc_block junk sz hp =
     (brk hp, hp\<lparr>blocks := (blocks hp)(brk hp \<mapsto> map junk [0..<sz]), brk := Suc (brk hp)\<rparr>)"

section \<open>The lock array\<close>

definition NUMBER_OF_LOCKS :: nat where "NUMBER_OF_LOCKS = 1021"

definition lock_hash :: "addr \<Rightarrow> nat" where
  "lock_hash p = p mod NUMBER_OF_LOCKS"

datatype lock_event = Lock_Init nat | Lock_Destroy nat

text \<open>
  Initialisation of the subsystem. \<open>lock_init i\<close> is what \<^verbatim>\<open>pthread_spin_init\<close> returns for lock \<open>i\<close>; the
  result is the return value, whether \<open>locks\<close> is set afterwards, and the lock operations performed.
  On a failure at \<open>i\<close> the cleanup loop runs \<open>i\<close> times and destroys lock \<open>i\<close> each time.
\<close>

fun init_locks :: "(nat \<Rightarrow> int) \<Rightarrow> nat list \<Rightarrow> lock_event list \<Rightarrow> int \<times> bool \<times> lock_event list" where
  "init_locks lock_init [] evs = (0, True, evs)"
| "init_locks lock_init (i # is) evs =
     (if lock_init i \<noteq> 0
      then (- 1, False, evs @ [Lock_Init i] @ map (\<lambda>j. Lock_Destroy i) [0..<i])
      else init_locks lock_init is (evs @ [Lock_Init i]))"

definition mbuffer_system_init ::
  "bool \<Rightarrow> bool \<Rightarrow> (nat \<Rightarrow> int) \<Rightarrow> (int \<times> bool \<times> lock_event list) outcome" where
  "mbuffer_system_init locks alloc_ok lock_init =
     assertR (\<not> locks) ''locks==NULL''
       (if \<not> alloc_ok then Inr (- 1, False, [])
        else Inr (init_locks lock_init [0..<NUMBER_OF_LOCKS] []))"

definition mbuffer_system_destroy :: "(nat \<Rightarrow> int) \<Rightarrow> int \<times> bool" where
  "mbuffer_system_destroy lock_destroy =
     (let rv = sum_list (map lock_destroy [0..<NUMBER_OF_LOCKS])
      in (if rv \<noteq> 0 then - 1 else 0, False))"

section \<open>Operations on buffers\<close>

text \<open>Reading and writing a control block, a fault when it has been freed.\<close>

definition with_mcb :: "mheap \<Rightarrow> addr \<Rightarrow> (mcb_t \<Rightarrow> 'a outcome) \<Rightarrow> 'a outcome" where
  "with_mcb hp a f = (case mcbs hp a of None \<Rightarrow> Inl Invalid_Pointer | Some c \<Rightarrow> f c)"

definition set_mcb :: "mheap \<Rightarrow> addr \<Rightarrow> mcb_t \<Rightarrow> mheap" where
  "set_mcb hp a c = hp\<lparr>mcbs := (mcbs hp)(a \<mapsto> c)\<rparr>"

definition mbuffer_create ::
  "bool \<Rightarrow> bool \<Rightarrow> (nat \<Rightarrow> byte) \<Rightarrow> nat \<Rightarrow> mheap \<Rightarrow> (mheap \<times> mbuffer_t option) outcome" where
  "mbuffer_create ok1 ok2 junk sz hp =
     assertR (sz > 0) ''size > 0''
       (if \<not> ok1 then Inr (hp, None)
        else let (ptr, hp1) = malloc_block junk sz hp
             in if \<not> ok2 then Inr (hp1\<lparr>blocks := (blocks hp1)(ptr := None)\<rparr>, None)
                else let mcb = brk hp1
                     in Inr (hp1\<lparr>mcbs := (mcbs hp1)(mcb \<mapsto> \<lparr>mcb_i = 1, mcb_ptr = ptr\<rparr>), brk := Suc mcb\<rparr>,
                             Some \<lparr>mb_block = ptr, mb_off = 0, mb_n = sz, mb_mcb = mcb\<rparr>))"

definition mbuffer_clone :: "bool \<Rightarrow> mbuffer_t \<Rightarrow> mheap \<Rightarrow> (mheap \<times> mbuffer_t option) outcome" where
  "mbuffer_clone ok m hp =
     (if \<not> ok then Inr (hp, None)
      else with_mcb hp (mb_mcb m) (\<lambda>c.
        assertR (mcb_i c \<ge> 1) ''m->mcb->i>=1''
          (Inr (set_mcb hp (mb_mcb m) (c\<lparr>mcb_i := mcb_i c + 1\<rparr>), Some m))))"

text \<open>\<^verbatim>\<open>memcpy\<close> of a whole source range over the start of a destination block.\<close>

definition read_range :: "mheap \<Rightarrow> addr \<Rightarrow> nat \<Rightarrow> nat \<Rightarrow> byte list outcome" where
  "read_range hp b off n =
     (case blocks hp b of None \<Rightarrow> Inl Invalid_Pointer
      | Some bs \<Rightarrow> if off + n \<le> length bs then Inr (take n (drop off bs)) else Inl Out_Of_Bounds)"

definition write_range :: "mheap \<Rightarrow> addr \<Rightarrow> nat \<Rightarrow> byte list \<Rightarrow> mheap outcome" where
  "write_range hp b off xs =
     (case blocks hp b of None \<Rightarrow> Inl Invalid_Pointer
      | Some bs \<Rightarrow> if off + length xs \<le> length bs
                  then Inr (hp\<lparr>blocks := (blocks hp)(b \<mapsto> take off bs @ xs @ drop (off + length xs) bs)\<rparr>)
                  else Inl Out_Of_Bounds)"

definition mbuffer_copy ::
  "bool \<Rightarrow> bool \<Rightarrow> bool \<Rightarrow> (nat \<Rightarrow> byte) \<Rightarrow> mbuffer_t \<Rightarrow> mheap \<Rightarrow> (mheap \<times> mbuffer_t option) outcome" where
  "mbuffer_copy ok ok1 ok2 junk m hp =
     assertR (mb_n m \<ge> 1) ''m->n >= 1''
       (if \<not> ok then Inr (hp, None)
        else bindR (mbuffer_create ok1 ok2 junk (mb_n m) hp) (\<lambda>(hp, r).
          case r of None \<Rightarrow> Inr (hp, None)
          | Some temp \<Rightarrow>
              bindR (read_range hp (mb_block m) (mb_off m) (mb_n m)) (\<lambda>xs.
              bindR (write_range hp (mb_block temp) (mb_off temp) xs) (\<lambda>hp.
                Inr (hp, Some temp)))))"

definition mbuffer_free :: "mbuffer_t \<Rightarrow> mheap \<Rightarrow> mheap outcome" where
  "mbuffer_free m hp =
     with_mcb hp (mb_mcb m) (\<lambda>c.
       let ref = mcb_i c - 1; hp = set_mcb hp (mb_mcb m) (c\<lparr>mcb_i := ref\<rparr>)
       in if ref = 0
          then (case blocks hp (mcb_ptr c) of
                  None \<Rightarrow> Inl Invalid_Pointer
                | Some _ \<Rightarrow> Inr (hp\<lparr>blocks := (blocks hp)(mcb_ptr c := None),
                                   mcbs := (mcbs hp)(mb_mcb m := None)\<rparr>))
          else Inr hp)"

text \<open>
  \<^verbatim>\<open>realloc\<close> moves the contents to a fresh block of the new size and frees the old one. The result is
  the heap, the buffer and the return value.
\<close>

definition mbuffer_realloc ::
  "bool \<Rightarrow> (nat \<Rightarrow> byte) \<Rightarrow> mbuffer_t \<Rightarrow> nat \<Rightarrow> mheap \<Rightarrow> (mheap \<times> mbuffer_t \<times> int) outcome" where
  "mbuffer_realloc ok junk m sz hp =
     assertR (sz > 0) ''size>0''
       (with_mcb hp (mb_mcb m) (\<lambda>c.
          if mcb_i c > 1 then Inr (hp, m, - 1)
          else if (mb_block m, mb_off m) \<noteq> (mcb_ptr c, 0) then Inr (hp, m, - 1)
          else case blocks hp (mb_block m) of
                 None \<Rightarrow> Inl Invalid_Pointer
               | Some bs \<Rightarrow>
                   if \<not> ok then Inr (hp, m, - 1)
                   else let r = brk hp;
                            bs' = map (\<lambda>i. if i < length bs then bs ! i else junk i) [0..<sz];
                            hp = hp\<lparr>blocks := (blocks hp)(mb_block m := None, r \<mapsto> bs'), brk := Suc r\<rparr>
                        in Inr (set_mcb hp (mb_mcb m) (c\<lparr>mcb_ptr := r\<rparr>),
                                m\<lparr>mb_block := r, mb_n := sz\<rparr>, 0)))"

definition mbuffer_split :: "mbuffer_t \<Rightarrow> nat \<Rightarrow> mheap \<Rightarrow> (mheap \<times> mbuffer_t \<times> mbuffer_t) outcome" where
  "mbuffer_split m1 split hp =
     assertR (split > 0) ''split>0''
       (assertR (split < mb_n m1) ''split < m1->n''
         (with_mcb hp (mb_mcb m1) (\<lambda>c.
            assertR (mcb_i c \<ge> 1) ''m1->mcb->i>=1''
              (Inr (set_mcb hp (mb_mcb m1) (c\<lparr>mcb_i := mcb_i c + 1\<rparr>),
                    m1\<lparr>mb_n := split\<rparr>,
                    m1\<lparr>mb_off := mb_off m1 + split, mb_n := mb_n m1 - split\<rparr>)))))"

section \<open>Invariant\<close>

definition refs :: "mbuffer_t multiset \<Rightarrow> addr \<Rightarrow> nat" where
  "refs L c = size {# m \<in># L. mb_mcb m = c #}"

text \<open>
  The buffers in circulation are a multiset \<open>L\<close>. Each control block counts the buffers that refer to
  it and owns one block; each block has an owner; each buffer lies inside the block of its control
  block.
\<close>

definition mb_inv :: "mheap \<Rightarrow> mbuffer_t multiset \<Rightarrow> bool" where
  "mb_inv hp L \<longleftrightarrow>
     (\<forall>a c. mcbs hp a = Some c \<longrightarrow> unat (mcb_i c) = refs L a \<and> 0 < refs L a
        \<and> mcb_ptr c \<in> dom (blocks hp) \<and> a < brk hp)
   \<and> (\<forall>a a' c c'. mcbs hp a = Some c \<longrightarrow> mcbs hp a' = Some c' \<longrightarrow> mcb_ptr c = mcb_ptr c' \<longrightarrow> a = a')
   \<and> (\<forall>b \<in> dom (blocks hp). b < brk hp \<and> (\<exists>a c. mcbs hp a = Some c \<and> mcb_ptr c = b))
   \<and> (\<forall>m \<in># L. \<exists>c bs. mcbs hp (mb_mcb m) = Some c \<and> mb_block m = mcb_ptr c
        \<and> blocks hp (mb_block m) = Some bs \<and> mb_off m + mb_n m \<le> length bs)"

text \<open>The bytes a buffer denotes.\<close>

definition mb_bytes :: "mheap \<Rightarrow> mbuffer_t \<Rightarrow> byte list" where
  "mb_bytes hp m = (case blocks hp (mb_block m) of None \<Rightarrow> [] | Some bs \<Rightarrow> take (mb_n m) (drop (mb_off m) bs))"


definition placed :: "mheap \<Rightarrow> mbuffer_t \<Rightarrow> bool" where
  "placed hp m \<longleftrightarrow> (\<exists>c bs. mcbs hp (mb_mcb m) = Some c \<and> mb_block m = mcb_ptr c
     \<and> blocks hp (mb_block m) = Some bs \<and> mb_off m + mb_n m \<le> length bs)"

lemma mb_inv_alt:
  "mb_inv hp L \<longleftrightarrow>
     (\<forall>a c. mcbs hp a = Some c \<longrightarrow> unat (mcb_i c) = refs L a \<and> 0 < refs L a
        \<and> mcb_ptr c \<in> dom (blocks hp) \<and> a < brk hp)
   \<and> (\<forall>a a' c c'. mcbs hp a = Some c \<longrightarrow> mcbs hp a' = Some c' \<longrightarrow> mcb_ptr c = mcb_ptr c' \<longrightarrow> a = a')
   \<and> (\<forall>b \<in> dom (blocks hp). b < brk hp \<and> (\<exists>a c. mcbs hp a = Some c \<and> mcb_ptr c = b))
   \<and> (\<forall>m \<in># L. placed hp m)"
  by (simp add: mb_inv_def placed_def)

lemma mb_invI:
  assumes "\<And>a c. mcbs hp a = Some c \<Longrightarrow> unat (mcb_i c) = refs L a \<and> 0 < refs L a
        \<and> mcb_ptr c \<in> dom (blocks hp) \<and> a < brk hp"
    and "\<And>a a' c c'. mcbs hp a = Some c \<Longrightarrow> mcbs hp a' = Some c' \<Longrightarrow> mcb_ptr c = mcb_ptr c' \<Longrightarrow> a = a'"
    and "\<And>b. b \<in> dom (blocks hp) \<Longrightarrow> b < brk hp \<and> (\<exists>a c. mcbs hp a = Some c \<and> mcb_ptr c = b)"
    and "\<And>m. m \<in># L \<Longrightarrow> placed hp m"
  shows "mb_inv hp L"
  using assms unfolding mb_inv_alt by blast

lemma mb_invD:
  assumes "mb_inv hp L"
  shows "mcbs hp a = Some c \<Longrightarrow> unat (mcb_i c) = refs L a \<and> 0 < refs L a \<and> mcb_ptr c \<in> dom (blocks hp) \<and> a < brk hp"
    and "mcbs hp a = Some c \<Longrightarrow> mcbs hp a' = Some c' \<Longrightarrow> mcb_ptr c = mcb_ptr c' \<Longrightarrow> a = a'"
    and "b \<in> dom (blocks hp) \<Longrightarrow> b < brk hp \<and> (\<exists>a c. mcbs hp a = Some c \<and> mcb_ptr c = b)"
    and "m \<in># L \<Longrightarrow> placed hp m"
  using assms unfolding mb_inv_alt by blast+

lemma live_mcb:
  assumes "mb_inv hp L" "m \<in># L"
  obtains c bs where "mcbs hp (mb_mcb m) = Some c" "mb_block m = mcb_ptr c"
    "blocks hp (mb_block m) = Some bs" "mb_off m + mb_n m \<le> length bs"
    "unat (mcb_i c) = refs L (mb_mcb m)" "0 < refs L (mb_mcb m)"
  using mb_invD(4)[OF assms] mb_invD(1)[OF assms(1)] unfolding placed_def by blast

lemma refs_add [simp]: "refs (add_mset m L) a = (if mb_mcb m = a then Suc (refs L a) else refs L a)"
  by (simp add: refs_def)

lemma refs_empty [simp]: "refs {#} a = 0"
  by (simp add: refs_def)

lemma refs_remove: "m \<in># L \<Longrightarrow> refs (L - {#m#}) a = (if mb_mcb m = a then refs L a - 1 else refs L a)"
  using refs_add[of m "L - {#m#}" a] by (auto simp del: refs_add)

lemma refs_le_size: "refs L a \<le> size L"
  by (simp add: refs_def size_filter_mset_lesseq)

lemma refs_fresh: "mb_inv hp L \<Longrightarrow> brk hp \<le> a \<Longrightarrow> refs L a = 0"
proof (rule ccontr)
  assume inv: "mb_inv hp L" and a: "brk hp \<le> a" and "refs L a \<noteq> 0"
  then have "{# m \<in># L. mb_mcb m = a #} \<noteq> {#}" by (simp add: refs_def)
  then obtain m where "m \<in># {# m \<in># L. mb_mcb m = a #}" using multiset_nonemptyE by blast
  then have "m \<in># L" "mb_mcb m = a" by auto
  then show False using live_mcb[OF inv] mb_invD(1)[OF inv] a by (metis leD)
qed

text \<open>Changing one counter to the number of references of the new multiset keeps the invariant.\<close>

lemma mb_inv_recount:
  assumes inv: "mb_inv hp L" and c: "mcbs hp a = Some c"
    and i: "unat i' = refs L' a" "0 < refs L' a"
    and others: "\<And>b. b \<noteq> a \<Longrightarrow> refs L' b = refs L b"
    and L': "\<And>m. m \<in># L' \<Longrightarrow> placed hp m"
  shows "mb_inv (set_mcb hp a (c\<lparr>mcb_i := i'\<rparr>)) L'"
proof (rule mb_invI)
  let ?hp = "set_mcb hp a (c\<lparr>mcb_i := i'\<rparr>)"
  have ptrs: "mcbs ?hp b = Some d \<Longrightarrow> \<exists>d'. mcbs hp b = Some d' \<and> mcb_ptr d' = mcb_ptr d" for b d
    using c by (auto simp: set_mcb_def split: if_splits)
  have ptrs': "mcbs hp b = Some d \<Longrightarrow> \<exists>d'. mcbs ?hp b = Some d' \<and> mcb_ptr d' = mcb_ptr d" for b d
    using c by (auto simp: set_mcb_def)
  show "unat (mcb_i d) = refs L' b \<and> 0 < refs L' b \<and> mcb_ptr d \<in> dom (blocks ?hp) \<and> b < brk ?hp"
    if "mcbs ?hp b = Some d" for b d
    using that i others[of b] mb_invD(1)[OF inv c] mb_invD(1)[OF inv, of b d]
    by (cases "b = a") (auto simp: set_mcb_def)
  show "b = b'" if "mcbs ?hp b = Some d" "mcbs ?hp b' = Some d'" "mcb_ptr d = mcb_ptr d'" for b b' d d'
    using mb_invD(2)[OF inv] ptrs[OF that(1)] ptrs[OF that(2)] that(3) by metis
  show "b < brk ?hp \<and> (\<exists>a c. mcbs ?hp a = Some c \<and> mcb_ptr c = b)" if "b \<in> dom (blocks ?hp)" for b
    using mb_invD(3)[OF inv, of b] that ptrs' by (fastforce simp: set_mcb_def)
  show "placed ?hp m" if "m \<in># L'" for m
    using L'[OF that] ptrs' unfolding placed_def by (fastforce simp: set_mcb_def)
qed

lemma mb_bytes_set_mcb [simp]: "mb_bytes (set_mcb hp a c) m = mb_bytes hp m"
  by (simp add: mb_bytes_def set_mcb_def)

lemma count_fits:
  assumes "mb_inv hp L" "m \<in># L" "size L < 2 ^ 32 - 1" "mcbs hp (mb_mcb m) = Some c"
  shows "unat (mcb_i c + 1) = Suc (refs L (mb_mcb m)) \<and> mcb_i c \<ge> 1"
proof -
  have i: "unat (mcb_i c) = refs L (mb_mcb m)" "0 < refs L (mb_mcb m)"
    using mb_invD(1)[OF assms(1,4)] by auto
  have "Suc (unat (mcb_i c)) < 2 ^ 32" using assms(3) refs_le_size[of L "mb_mcb m"] i by simp
  then show ?thesis using i by (simp add: unat_word_ariths word_le_nat_alt)
qed

lemma placed_take: "placed hp m \<Longrightarrow> mb_block m' = mb_block m \<Longrightarrow> mb_mcb m' = mb_mcb m
    \<Longrightarrow> mb_off m' + mb_n m' \<le> mb_off m + mb_n m \<Longrightarrow> placed hp m'"
  unfolding placed_def by fastforce

lemma mbuffer_clone_spec:
  assumes "mb_inv hp L" "m \<in># L" "size L < 2 ^ 32 - 1"
  shows "\<exists>hp'. mbuffer_clone True m hp = Inr (hp', Some m) \<and> mb_inv hp' (add_mset m L) \<and> mb_bytes hp' = mb_bytes hp"
proof -
  obtain c where c: "mcbs hp (mb_mcb m) = Some c" using live_mcb[OF assms(1,2)] by blast
  note fit = count_fits[OF assms c]
  have "mb_inv (set_mcb hp (mb_mcb m) (c\<lparr>mcb_i := mcb_i c + 1\<rparr>)) (add_mset m L)"
    by (rule mb_inv_recount[OF assms(1) c]) (use fit mb_invD(4)[OF assms(1)] assms(2) in auto)
  then show ?thesis
    using fit by (simp add: mbuffer_clone_def with_mcb_def c assertR_holds fun_eq_iff)
qed

lemma mbuffer_split_spec:
  assumes "mb_inv hp L" "m \<in># L" "size L < 2 ^ 32 - 1" "0 < k" "k < mb_n m"
  shows "\<exists>hp' m1 m2. mbuffer_split m k hp = Inr (hp', m1, m2)
    \<and> mb_inv hp' (add_mset m1 (add_mset m2 (L - {#m#})))
    \<and> mb_bytes hp' = mb_bytes hp
    \<and> mb_bytes hp m1 = take k (mb_bytes hp m) \<and> mb_bytes hp m2 = drop k (mb_bytes hp m)"
proof -
  obtain c bs where c: "mcbs hp (mb_mcb m) = Some c" "blocks hp (mb_block m) = Some bs"
    using live_mcb[OF assms(1,2)] by blast
  define m1 where "m1 = m\<lparr>mb_n := k\<rparr>"
  define m2 where "m2 = m\<lparr>mb_off := mb_off m + k, mb_n := mb_n m - k\<rparr>"
  define L' where "L' = add_mset m1 (add_mset m2 (L - {#m#}))"
  note fit = count_fits[OF assms(1-3) c(1)]
  have pos: "0 < refs L (mb_mcb m)" using mb_invD(1)[OF assms(1) c(1)] by simp
  have pm: "placed hp m" by (rule mb_invD(4)[OF assms(1,2)])
  have "mb_inv (set_mcb hp (mb_mcb m) (c\<lparr>mcb_i := mcb_i c + 1\<rparr>)) L'"
  proof (rule mb_inv_recount[OF assms(1) c(1)])
    show "unat (mcb_i c + 1) = refs L' (mb_mcb m)" "0 < refs L' (mb_mcb m)"
      using fit pos assms(2) by (simp_all add: L'_def m1_def m2_def refs_remove)
    show "refs L' b = refs L b" if "b \<noteq> mb_mcb m" for b
      using that assms(2) by (simp add: L'_def m1_def m2_def refs_remove)
    have "placed hp m1" "placed hp m2"
      using assms(5) by (auto intro!: placed_take[OF pm] simp: m1_def m2_def)
    then show "placed hp x" if "x \<in># L'" for x
      using that mb_invD(4)[OF assms(1)] by (auto simp: L'_def dest: in_diffD)
  qed
  moreover have "mbuffer_split m k hp = Inr (set_mcb hp (mb_mcb m) (c\<lparr>mcb_i := mcb_i c + 1\<rparr>), m1, m2)"
    using fit assms(4,5) by (simp add: mbuffer_split_def with_mcb_def c(1) assertR_holds m1_def m2_def)
  moreover have "mb_bytes hp m1 = take k (mb_bytes hp m) \<and> mb_bytes hp m2 = drop k (mb_bytes hp m)"
    using assms(5) by (simp add: mb_bytes_def m1_def m2_def c(2) drop_take add.commute)
  ultimately show ?thesis by (auto simp: L'_def fun_eq_iff)
qed


text \<open>Freeing the last reference releases the control block and its block, and nothing else.\<close>

lemma mb_inv_release:
  assumes inv: "mb_inv hp L" and m: "m \<in># L" and c: "mcbs hp (mb_mcb m) = Some c"
    and last: "refs L (mb_mcb m) = 1"
  shows "mb_inv (hp\<lparr>blocks := (blocks hp)(mcb_ptr c := None), mcbs := (mcbs hp)(mb_mcb m := None)\<rparr>) (L - {#m#})"
    (is "mb_inv ?hp ?L")
proof (rule mb_invI)
  have no_ref: "refs ?L (mb_mcb m) = 0" using m last by (simp add: refs_remove)
  show "unat (mcb_i d) = refs ?L b \<and> 0 < refs ?L b \<and> mcb_ptr d \<in> dom (blocks ?hp) \<and> b < brk ?hp"
    if "mcbs ?hp b = Some d" for b d
  proof -
    have b: "b \<noteq> mb_mcb m" "mcbs hp b = Some d" using that by (auto split: if_splits)
    have "mcb_ptr d \<noteq> mcb_ptr c" using mb_invD(2)[OF inv b(2) c] b(1) by blast
    then show ?thesis using mb_invD(1)[OF inv b(2)] b(1) m by (auto simp: refs_remove)
  qed
  show "b = b'" if "mcbs ?hp b = Some d" "mcbs ?hp b' = Some d'" "mcb_ptr d = mcb_ptr d'" for b b' d d'
    using mb_invD(2)[OF inv, of b d b' d'] that by (auto split: if_splits)
  show "b < brk ?hp \<and> (\<exists>a c. mcbs ?hp a = Some c \<and> mcb_ptr c = b)" if "b \<in> dom (blocks ?hp)" for b
  proof -
    have b: "b \<in> dom (blocks hp)" "b \<noteq> mcb_ptr c" using that by (auto split: if_splits)
    then obtain a d where "mcbs hp a = Some d" "mcb_ptr d = b" "b < brk hp" using mb_invD(3)[OF inv] by blast
    moreover then have "a \<noteq> mb_mcb m" using b(2) c by auto
    ultimately show ?thesis by auto
  qed
  show "placed ?hp x" if "x \<in># ?L" for x
  proof -
    have "0 < refs ?L (mb_mcb x)" using that by (metis refs_add insert_DiffM zero_less_Suc)
    then have x: "mb_mcb x \<noteq> mb_mcb m" using no_ref by auto
    have "x \<in># L" using that by (rule in_diffD)
    then obtain d bs where d: "mcbs hp (mb_mcb x) = Some d" "mb_block x = mcb_ptr d"
        "blocks hp (mb_block x) = Some bs" "mb_off x + mb_n x \<le> length bs"
      using live_mcb[OF inv] by blast
    have "mcb_ptr d \<noteq> mcb_ptr c" using mb_invD(2)[OF inv d(1) c] x by blast
    then show ?thesis using x d by (simp add: placed_def)
  qed
qed

lemma mbuffer_free_spec:
  assumes "mb_inv hp L" "m \<in># L"
  shows "\<exists>hp'. mbuffer_free m hp = Inr hp' \<and> mb_inv hp' (L - {#m#})
    \<and> (\<forall>m' \<in># L - {#m#}. mb_bytes hp' m' = mb_bytes hp m')"
proof -
  obtain c bs where c: "mcbs hp (mb_mcb m) = Some c" "blocks hp (mcb_ptr c) = Some bs"
    and i: "unat (mcb_i c) = refs L (mb_mcb m)" "0 < refs L (mb_mcb m)"
    using live_mcb[OF assms] by metis
  have dec: "unat (mcb_i c - 1) = refs L (mb_mcb m) - 1"
    using i unat_sub[of 1 "mcb_i c"] by (simp add: word_le_nat_alt Suc_le_eq)
  show ?thesis
  proof (cases "refs L (mb_mcb m) = 1")
    case True
    let ?hp = "hp\<lparr>blocks := (blocks hp)(mcb_ptr c := None), mcbs := (mcbs hp)(mb_mcb m := None)\<rparr>"
    have "mcb_i c - 1 = 0" using dec True by (simp add: unsigned_eq_0_iff)
    then have "mbuffer_free m hp = Inr ?hp"
      using c by (simp add: mbuffer_free_def with_mcb_def set_mcb_def Let_def)
    moreover have inv': "mb_inv ?hp (L - {#m#})" by (rule mb_inv_release[OF assms c(1) True])
    moreover have "mb_bytes ?hp m' = mb_bytes hp m'" if "m' \<in># L - {#m#}" for m'
      using mb_invD(4)[OF inv' that] by (auto simp: placed_def mb_bytes_def split: if_splits)
    ultimately show ?thesis by blast
  next
    case False
    then have "mcb_i c - 1 \<noteq> 0" using dec i(2) by (auto simp: unsigned_eq_0_iff)
    then have "mbuffer_free m hp = Inr (set_mcb hp (mb_mcb m) (c\<lparr>mcb_i := mcb_i c - 1\<rparr>))"
      using c by (simp add: mbuffer_free_def with_mcb_def Let_def)
    moreover have "mb_inv (set_mcb hp (mb_mcb m) (c\<lparr>mcb_i := mcb_i c - 1\<rparr>)) (L - {#m#})"
      by (rule mb_inv_recount[OF assms(1) c(1)])
        (use dec i(2) False assms mb_invD(4)[OF assms(1)] in \<open>auto simp: refs_remove dest: in_diffD\<close>)
    ultimately show ?thesis by auto
  qed
qed

lemma mb_inv_brk:
  assumes inv: "mb_inv hp L"
  shows "mb_inv (hp\<lparr>brk := Suc (brk hp)\<rparr>) L"
proof (rule mb_invI)
  show "unat (mcb_i d) = refs L b \<and> 0 < refs L b \<and> mcb_ptr d \<in> dom (blocks (hp\<lparr>brk := Suc (brk hp)\<rparr>))
      \<and> b < brk (hp\<lparr>brk := Suc (brk hp)\<rparr>)" if "mcbs (hp\<lparr>brk := Suc (brk hp)\<rparr>) b = Some d" for b d
    using mb_invD(1)[OF inv, of b d] that by simp
qed (use mb_invD(2-4)[OF inv] in \<open>auto simp: placed_def less_Suc_eq\<close>)

lemma mbuffer_create_spec:
  assumes inv: "mb_inv hp L" and sz: "0 < sz"
  shows "\<exists>hp' r. mbuffer_create ok1 ok2 junk sz hp = Inr (hp', r)
    \<and> (r = None \<longleftrightarrow> \<not> (ok1 \<and> ok2))
    \<and> mb_inv hp' (case r of None \<Rightarrow> L | Some m \<Rightarrow> add_mset m L)
    \<and> (\<forall>m' \<in># L. mb_bytes hp' m' = mb_bytes hp m')
    \<and> (\<forall>m. r = Some m \<longrightarrow> mb_n m = sz \<and> mb_bytes hp' m = map junk [0..<sz] \<and> mb_off m = 0
         \<and> blocks hp' (mb_block m) = Some (map junk [0..<sz]) \<and> mb_block m = brk hp)"
proof -
  have fresh: "blocks hp (brk hp) = None" using mb_invD(3)[OF inv, of "brk hp"] by auto
  have unchanged: "mb_bytes (hp\<lparr>blocks := (blocks hp)(brk hp := v), mcbs := x, brk := y\<rparr>) m' = mb_bytes hp m'"
    if "m' \<in># L" for m' v x y
    using mb_invD(4)[OF inv that] fresh by (cases "mb_block m' = brk hp") (simp_all add: placed_def mb_bytes_def)
  consider "\<not> ok1" | "ok1" "\<not> ok2" | "ok1" "ok2" by blast
  then show ?thesis
  proof cases
    case 1
    then show ?thesis using inv sz by (simp add: mbuffer_create_def assertR_holds)
  next
    case 2
    have "hp\<lparr>brk := Suc (brk hp), blocks := (blocks hp)(brk hp := None)\<rparr> = hp\<lparr>brk := Suc (brk hp)\<rparr>"
      using fresh by (cases hp) (simp add: fun_upd_idem)
    then show ?thesis using 2 sz mb_inv_brk[OF inv]
      by (simp add: mbuffer_create_def assertR_holds malloc_block_def Let_def mb_bytes_def)
  next
    case 3
    define bs where "bs = map junk [0..<sz]"
    define hp' where "hp' = hp\<lparr>blocks := (blocks hp)(brk hp \<mapsto> bs),
        mcbs := (mcbs hp)(Suc (brk hp) \<mapsto> \<lparr>mcb_i = 1, mcb_ptr = brk hp\<rparr>), brk := Suc (Suc (brk hp))\<rparr>"
    define m where "m = \<lparr>mb_block = brk hp, mb_off = 0, mb_n = sz, mb_mcb = Suc (brk hp)\<rparr>"
    have old: "a < brk hp" "mcb_ptr c < brk hp" if "mcbs hp a = Some c" for a c
      using mb_invD(1)[OF inv that] mb_invD(3)[OF inv] by auto
    have "mb_inv hp' (add_mset m L)"
    proof (rule mb_invI)
      show "unat (mcb_i d) = refs (add_mset m L) b \<and> 0 < refs (add_mset m L) b \<and> mcb_ptr d \<in> dom (blocks hp') \<and> b < brk hp'"
        if "mcbs hp' b = Some d" for b d
        using that old[of b d] mb_invD(1)[OF inv, of b d] refs_fresh[OF inv, of "Suc (brk hp)"]
        by (auto simp: hp'_def m_def split: if_splits)
      show "b = b'" if "mcbs hp' b = Some d" "mcbs hp' b' = Some d'" "mcb_ptr d = mcb_ptr d'" for b b' d d'
        using that old[of b d] old[of b' d'] mb_invD(2)[OF inv, of b d b' d']
        by (auto simp: hp'_def split: if_splits)
      show "b < brk hp' \<and> (\<exists>a c. mcbs hp' a = Some c \<and> mcb_ptr c = b)" if "b \<in> dom (blocks hp')" for b
        
      proof (cases "b = brk hp")
        case False
        then have "b \<in> dom (blocks hp)" using that by (simp add: hp'_def)
        then obtain a c where a: "mcbs hp a = Some c" "mcb_ptr c = b" "b < brk hp"
          using mb_invD(3)[OF inv] by blast
        then have "mcbs hp' a = Some c" "b < brk hp'" using old(1)[OF a(1)] by (simp_all add: hp'_def)
        then show ?thesis using a(2) by blast
      qed (auto simp: hp'_def)
      show "placed hp' x" if "x \<in># add_mset m L" for x

      proof (cases "x = m")
        case False
        then have "x \<in># L" using that by simp
        then obtain c bs where x: "mcbs hp (mb_mcb x) = Some c" "mb_block x = mcb_ptr c"
            "blocks hp (mb_block x) = Some bs" "mb_off x + mb_n x \<le> length bs"
          using live_mcb[OF inv] by blast
        then show ?thesis using old[OF x(1)] by (simp add: hp'_def placed_def)
      qed (simp add: hp'_def m_def bs_def placed_def)
    qed
    then show ?thesis
      using 3 sz unchanged
      by (auto simp: mbuffer_create_def assertR_holds malloc_block_def Let_def hp'_def m_def bs_def mb_bytes_def)
  qed
qed


lemma write_whole_inv:
  assumes inv: "mb_inv hp L" and b: "blocks hp b = Some bs" "length bs' = length bs"
  shows "mb_inv (hp\<lparr>blocks := (blocks hp)(b \<mapsto> bs')\<rparr>) L" (is "mb_inv ?hp L")
proof (rule mb_invI)
  have dom: "dom (blocks ?hp) = dom (blocks hp)" using b by auto
  show "unat (mcb_i d) = refs L a \<and> 0 < refs L a \<and> mcb_ptr d \<in> dom (blocks ?hp) \<and> a < brk ?hp"
    if "mcbs ?hp a = Some d" for a d
    using mb_invD(1)[OF inv, of a d] that unfolding dom by simp
  show "b' < brk ?hp \<and> (\<exists>a c. mcbs ?hp a = Some c \<and> mcb_ptr c = b')" if "b' \<in> dom (blocks ?hp)" for b'
    using mb_invD(3)[OF inv, of b'] that unfolding dom by simp
  show "placed ?hp x" if "x \<in># L" for x
    using mb_invD(4)[OF inv that] b by (auto simp: placed_def)
qed (use mb_invD(2)[OF inv] in simp)

lemma mbuffer_copy_spec:
  assumes inv: "mb_inv hp L" and m: "m \<in># L" "1 \<le> mb_n m"
  shows "\<exists>hp' r. mbuffer_copy ok ok1 ok2 junk m hp = Inr (hp', r)
    \<and> (r = None \<longleftrightarrow> \<not> (ok \<and> ok1 \<and> ok2))
    \<and> mb_inv hp' (case r of None \<Rightarrow> L | Some t \<Rightarrow> add_mset t L)
    \<and> (\<forall>m' \<in># L. mb_bytes hp' m' = mb_bytes hp m')
    \<and> (\<forall>t. r = Some t \<longrightarrow> mb_bytes hp' t = mb_bytes hp m)"
proof (cases ok)
  case True
  obtain hp1 r where cr: "mbuffer_create ok1 ok2 junk (mb_n m) hp = Inr (hp1, r)"
      "r = None \<longleftrightarrow> \<not> (ok1 \<and> ok2)" "mb_inv hp1 (case r of None \<Rightarrow> L | Some t \<Rightarrow> add_mset t L)"
      "\<forall>m' \<in># L. mb_bytes hp1 m' = mb_bytes hp m'"
      "\<forall>t. r = Some t \<longrightarrow> mb_n t = mb_n m \<and> mb_off t = 0
         \<and> blocks hp1 (mb_block t) = Some (map junk [0..<mb_n m]) \<and> mb_block t = brk hp"
    using mbuffer_create_spec[OF inv, of "mb_n m" ok1 ok2 junk] m(2) by auto
  show ?thesis
  proof (cases r)
    case None
    then show ?thesis using cr True m(2) by (auto simp: mbuffer_copy_def assertR_holds)
  next
    case (Some t)
    have t: "mb_n t = mb_n m" "mb_off t = 0" "blocks hp1 (mb_block t) = Some (map junk [0..<mb_n m])" "mb_block t = brk hp"
      using cr(5) Some by auto
    have inv1: "mb_inv hp1 (add_mset t L)" using cr(3) Some by simp
    have "m \<in># add_mset t L" using m(1) by simp
    then obtain bs where m1: "blocks hp1 (mb_block m) = Some bs" "mb_off m + mb_n m \<le> length bs"
      using live_mcb[OF inv1] by blast
    define xs where "xs = take (mb_n m) (drop (mb_off m) bs)"
    have len: "length xs = mb_n m" using m1(2) by (simp add: xs_def)
    define hp2 where "hp2 = hp1\<lparr>blocks := (blocks hp1)(brk hp \<mapsto> xs)\<rparr>"
    have "mbuffer_copy ok ok1 ok2 junk m hp = Inr (hp2, Some t)"
      using m(2) True cr(1) Some m1 len t
      by (simp add: mbuffer_copy_def assertR_holds read_range_def write_range_def hp2_def flip: xs_def)
    moreover have "mb_inv hp2 (add_mset t L)"
      unfolding hp2_def by (rule write_whole_inv[OF inv1, of _ "map junk [0..<mb_n m]"]) (use t len in simp_all)
    moreover have "mb_bytes hp2 m' = mb_bytes hp m'" if "m' \<in># L" for m'
    proof -
      have "mb_block m' \<noteq> brk hp"
        using mb_invD(4)[OF inv that] mb_invD(3)[OF inv, of "mb_block m'"] by (auto simp: placed_def domIff)
      then show ?thesis using cr(4) that by (simp add: hp2_def mb_bytes_def)
    qed
    moreover have "mb_bytes hp2 t = mb_bytes hp m"
    proof -
      have "mb_bytes hp1 m = xs" using m1(1) by (simp add: mb_bytes_def xs_def)
      then have "mb_bytes hp m = xs" using cr(4) m(1) by simp
      then show ?thesis using t len by (simp add: mb_bytes_def hp2_def)
    qed
    ultimately show ?thesis using True cr(2) Some by auto
  qed
qed (use inv m in \<open>simp add: mbuffer_copy_def assertR_holds\<close>)


text \<open>Moving the block of an exclusively owned buffer to a fresh address.\<close>

lemma mb_inv_move:
  assumes inv: "mb_inv hp L" and m: "m \<in># L" and c: "mcbs hp (mb_mcb m) = Some c" "mb_block m = mcb_ptr c"
    and last: "refs L (mb_mcb m) = 1" and len: "length bs' = sz" and off: "mb_off m = 0"
  defines "hp' \<equiv> set_mcb (hp\<lparr>blocks := (blocks hp)(mb_block m := None, brk hp \<mapsto> bs'), brk := Suc (brk hp)\<rparr>)
      (mb_mcb m) (c\<lparr>mcb_ptr := brk hp\<rparr>)"
    and "m' \<equiv> m\<lparr>mb_block := brk hp, mb_n := sz\<rparr>"
  shows "mb_inv hp' (add_mset m' (L - {#m#})) \<and> (\<forall>x \<in># L - {#m#}. mb_bytes hp' x = mb_bytes hp x)"
proof -
  let ?L = "add_mset m' (L - {#m#})"
  have fresh: "b < brk hp" if "b \<in> dom (blocks hp)" for b using mb_invD(3)[OF inv that] by blast
  have old: "mcb_ptr d \<noteq> mcb_ptr c" "mcb_ptr d < brk hp" if "mcbs hp a = Some d" "a \<noteq> mb_mcb m" for a d
    using mb_invD(2)[OF inv that(1) c(1)] that mb_invD(1)[OF inv that(1)] fresh by blast+
  have refs': "refs ?L a = refs L a" for a
    using m last by (auto simp: m'_def refs_remove)
  note [simp del] = refs_add
  have rest: "\<exists>d bs. mcbs hp (mb_mcb x) = Some d \<and> mb_mcb x \<noteq> mb_mcb m \<and> mb_block x = mcb_ptr d
      \<and> blocks hp (mb_block x) = Some bs \<and> mb_off x + mb_n x \<le> length bs" if x: "x \<in># L - {#m#}" for x
  proof -
    have "x \<in># L" using x by (rule in_diffD)
    moreover have "0 < refs (L - {#m#}) (mb_mcb x)" using x by (metis refs_add insert_DiffM zero_less_Suc)
    then have "mb_mcb x \<noteq> mb_mcb m" using last m by (auto simp: refs_remove)
    ultimately show ?thesis using live_mcb[OF inv] by metis
  qed
  have "mb_inv hp' ?L"
  proof (rule mb_invI)
    show "unat (mcb_i d) = refs ?L b \<and> 0 < refs ?L b \<and> mcb_ptr d \<in> dom (blocks hp') \<and> b < brk hp'"
      if b: "mcbs hp' b = Some d" for b d
    proof (cases "b = mb_mcb m")
      case True
      then show ?thesis using mb_invD(1)[OF inv c(1)] b by (auto simp: refs' hp'_def set_mcb_def)
    next
      case False
      then have "mcbs hp b = Some d" using b by (simp add: hp'_def set_mcb_def)
      with mb_invD(1)[OF inv this] old[OF this False] False show ?thesis
        unfolding refs' by (auto simp: hp'_def set_mcb_def c(2))
    qed
    show "b = b'" if b: "mcbs hp' b = Some d" "mcbs hp' b' = Some d'" "mcb_ptr d = mcb_ptr d'" for b b' d d'
      using b old[of b d] old[of b' d'] mb_invD(2)[OF inv, of b d b' d']
      by (auto simp: hp'_def set_mcb_def split: if_splits)
    show "b < brk hp' \<and> (\<exists>a c. mcbs hp' a = Some c \<and> mcb_ptr c = b)" if b: "b \<in> dom (blocks hp')" for b
    proof (cases "b = brk hp")
      case False
      then have b': "b \<in> dom (blocks hp)" "b \<noteq> mcb_ptr c" using b c(2) by (auto simp: hp'_def set_mcb_def split: if_splits)
      then obtain a d where "mcbs hp a = Some d" "mcb_ptr d = b" "b < brk hp" using mb_invD(3)[OF inv] by blast
      moreover then have "a \<noteq> mb_mcb m" using b'(2) c(1) by auto
      ultimately have "mcbs hp' a = Some d" "mcb_ptr d = b" "b < brk hp'" by (simp_all add: hp'_def set_mcb_def)
      then show ?thesis by blast
    qed (simp add: hp'_def set_mcb_def, blast)
    show "placed hp' x" if x: "x \<in># ?L" for x
    proof (cases "x = m'")
      case False
      then obtain d bs where d: "mcbs hp (mb_mcb x) = Some d" "mb_mcb x \<noteq> mb_mcb m" "mb_block x = mcb_ptr d"
          "blocks hp (mb_block x) = Some bs" "mb_off x + mb_n x \<le> length bs"
        using rest[of x] x by auto
      then show ?thesis using old[OF d(1,2)] c(2) by (simp add: placed_def hp'_def set_mcb_def)
    qed (use len off in \<open>simp add: placed_def m'_def hp'_def set_mcb_def\<close>)
  qed
  moreover have "mb_bytes hp' x = mb_bytes hp x" if x: "x \<in># L - {#m#}" for x
  proof -
    obtain d where d: "mcbs hp (mb_mcb x) = Some d" "mb_mcb x \<noteq> mb_mcb m" "mb_block x = mcb_ptr d"
      using rest[OF x] by blast
    then show ?thesis using old[OF d(1,2)] c(2) by (simp add: mb_bytes_def hp'_def set_mcb_def)
  qed
  ultimately show ?thesis by blast
qed

lemma mbuffer_realloc_spec:
  assumes inv: "mb_inv hp L" and m: "m \<in># L" and sz: "0 < sz"
  shows "\<exists>hp' m' r. mbuffer_realloc ok junk m sz hp = Inr (hp', m', r)
    \<and> mb_inv hp' (add_mset m' (L - {#m#}))
    \<and> (\<forall>x \<in># L - {#m#}. mb_bytes hp' x = mb_bytes hp x)
    \<and> (if r = 0 then mb_n m' = sz \<and> take (mb_n m) (mb_bytes hp' m') = take sz (mb_bytes hp m)
       else hp' = hp \<and> m' = m)"
proof -
  obtain c bs where c: "mcbs hp (mb_mcb m) = Some c" "mb_block m = mcb_ptr c" "blocks hp (mb_block m) = Some bs"
    and n: "mb_off m + mb_n m \<le> length bs" and i: "unat (mcb_i c) = refs L (mb_mcb m)" "0 < refs L (mb_mcb m)"
    using live_mcb[OF inv m] by blast
  consider "mcb_i c > 1 \<or> mb_off m \<noteq> 0 \<or> \<not> ok" | "\<not> mcb_i c > 1" "mb_off m = 0" "ok" by blast
  then show ?thesis
  proof cases
    case 1
    then have "mbuffer_realloc ok junk m sz hp = Inr (hp, m, - 1)"
      using sz c by (auto simp: mbuffer_realloc_def assertR_holds with_mcb_def)
    then show ?thesis using inv m by simp
  next
    case 2
    then have last: "refs L (mb_mcb m) = 1" using i by (simp add: word_less_nat_alt)
    define bs' where "bs' = map (\<lambda>i. if i < length bs then bs ! i else junk i) [0..<sz]"
    define hp' where "hp' = set_mcb (hp\<lparr>blocks := (blocks hp)(mb_block m := None, brk hp \<mapsto> bs'), brk := Suc (brk hp)\<rparr>)
      (mb_mcb m) (c\<lparr>mcb_ptr := brk hp\<rparr>)"
    have "mbuffer_realloc ok junk m sz hp = Inr (hp', m\<lparr>mb_block := brk hp, mb_n := sz\<rparr>, 0)"
      using sz c 2 by (simp add: mbuffer_realloc_def assertR_holds with_mcb_def Let_def hp'_def bs'_def)
    moreover have "mb_inv hp' (add_mset (m\<lparr>mb_block := brk hp, mb_n := sz\<rparr>) (L - {#m#}))
        \<and> (\<forall>x \<in># L - {#m#}. mb_bytes hp' x = mb_bytes hp x)"
      unfolding hp'_def by (rule mb_inv_move[OF inv m c(1,2) last _ 2(2)]) (simp add: bs'_def)
    moreover have "take (mb_n m) bs' = take sz (take (mb_n m) bs)"
      using n by (intro nth_equalityI) (auto simp: bs'_def)
    then have "take (mb_n m) (mb_bytes hp' (m\<lparr>mb_block := brk hp, mb_n := sz\<rparr>)) = take sz (mb_bytes hp m)"
      using 2(2) c(3) by (simp add: mb_bytes_def hp'_def set_mcb_def take_take min.commute bs'_def)
    ultimately show ?thesis by simp
  qed
qed


lemma mb_inv_read:
  assumes "mb_inv hp L" "m \<in># L"
  shows "read_range hp (mb_block m) (mb_off m) (mb_n m) = Inr (mb_bytes hp m) \<and> length (mb_bytes hp m) = mb_n m"
proof -
  obtain bs where "blocks hp (mb_block m) = Some bs" "mb_off m + mb_n m \<le> length bs"
    using live_mcb[OF assms] by blast
  then show ?thesis by (simp add: read_range_def mb_bytes_def)
qed

lemma mb_inv_write:
  assumes inv: "mb_inv hp L" and m: "m \<in># L" and xs: "length xs \<le> mb_n m"
  shows "\<exists>hp'. write_range hp (mb_block m) (mb_off m) xs = Inr hp' \<and> mb_inv hp' L"
proof -
  obtain bs where bs: "blocks hp (mb_block m) = Some bs" "mb_off m + mb_n m \<le> length bs"
    using live_mcb[OF inv m] by blast
  have "mb_inv (hp\<lparr>blocks := (blocks hp)(mb_block m \<mapsto> take (mb_off m) bs @ xs @ drop (mb_off m + length xs) bs)\<rparr>) L"
    by (rule write_whole_inv[OF inv bs(1)]) (use bs xs in simp)
  then show ?thesis using bs xs by (simp add: write_range_def)
qed

lemma mb_inv_empty: "mb_inv hp {#} \<Longrightarrow> blocks hp = Map.empty \<and> mcbs hp = Map.empty"
proof -
  assume inv: "mb_inv hp {#}"
  have "mcbs hp a = None" for a using mb_invD(1)[OF inv, of a] by (cases "mcbs hp a") auto
  moreover then have "blocks hp b = None" for b using mb_invD(3)[OF inv, of b] by (cases "blocks hp b") auto
  ultimately show ?thesis by auto
qed

section \<open>Executions\<close>

text \<open>
  The clients of the subsystem, over all threads: each step is one operation on a buffer in
  circulation, or a write through it. The reference counter has 32 bits, so \<^verbatim>\<open>clone\<close> and \<^verbatim>\<open>split\<close>
  steps are bounded by the number of buffers in circulation.
\<close>

inductive mb_step :: "mheap \<times> mbuffer_t multiset \<Rightarrow> mheap \<times> mbuffer_t multiset \<Rightarrow> bool" where
  step_create: "0 < sz \<Longrightarrow> mbuffer_create ok1 ok2 junk sz hp = Inr (hp', r)
    \<Longrightarrow> mb_step (hp, L) (hp', case r of None \<Rightarrow> L | Some m \<Rightarrow> add_mset m L)"
| step_clone: "m \<in># L \<Longrightarrow> size L < 2 ^ 32 - 1 \<Longrightarrow> mbuffer_clone ok m hp = Inr (hp', r)
    \<Longrightarrow> mb_step (hp, L) (hp', case r of None \<Rightarrow> L | Some m' \<Rightarrow> add_mset m' L)"
| step_copy: "m \<in># L \<Longrightarrow> 1 \<le> mb_n m \<Longrightarrow> mbuffer_copy ok ok1 ok2 junk m hp = Inr (hp', r)
    \<Longrightarrow> mb_step (hp, L) (hp', case r of None \<Rightarrow> L | Some m' \<Rightarrow> add_mset m' L)"
| step_split: "m \<in># L \<Longrightarrow> size L < 2 ^ 32 - 1 \<Longrightarrow> mbuffer_split m k hp = Inr (hp', m1, m2)
    \<Longrightarrow> mb_step (hp, L) (hp', add_mset m1 (add_mset m2 (L - {#m#})))"
| step_realloc: "m \<in># L \<Longrightarrow> 0 < sz \<Longrightarrow> mbuffer_realloc ok junk m sz hp = Inr (hp', m', r)
    \<Longrightarrow> mb_step (hp, L) (hp', add_mset m' (L - {#m#}))"
| step_free: "m \<in># L \<Longrightarrow> mbuffer_free m hp = Inr hp' \<Longrightarrow> mb_step (hp, L) (hp', L - {#m#})"
| step_write: "m \<in># L \<Longrightarrow> length xs \<le> mb_n m \<Longrightarrow> write_range hp (mb_block m) (mb_off m) xs = Inr hp'
    \<Longrightarrow> mb_step (hp, L) (hp', L)"

definition empty_heap :: mheap where
  "empty_heap = \<lparr>blocks = Map.empty, mcbs = Map.empty, brk = 0\<rparr>"

lemma mb_step_inv: "mb_step (hp, L) (hp', L') \<Longrightarrow> mb_inv hp L \<Longrightarrow> mb_inv hp' L'"
proof (induction "(hp, L)" "(hp', L')" rule: mb_step.induct)
  case (step_create sz ok1 ok2 junk r)
  then show ?case using mbuffer_create_spec[of hp L sz ok1 ok2 junk] by auto
next
  case (step_clone m ok r)
  then show ?case using mbuffer_clone_spec[of hp L m] by (cases ok) (auto simp: mbuffer_clone_def)
next
  case (step_copy m ok ok1 ok2 junk r)
  then show ?case using mbuffer_copy_spec[of hp L m ok ok1 ok2 junk] by auto
next
  case (step_split m k m1 m2)
  then have "0 < k" "k < mb_n m" by (auto simp: mbuffer_split_def assertR_eq_Inr)
  then show ?case using step_split mbuffer_split_spec[of hp L m k] by auto
next
  case (step_realloc m sz ok junk m' r)
  then show ?case using mbuffer_realloc_spec[of hp L m sz ok junk] by auto
next
  case (step_free m)
  then show ?case using mbuffer_free_spec[of hp L m] by auto
next
  case (step_write m xs)
  then show ?case using mb_inv_write[of hp L m xs] by auto
qed

lemma mb_reach_inv: "mb_step\<^sup>*\<^sup>* (empty_heap, {#}) s \<Longrightarrow> mb_inv (fst s) (snd s)"
proof (induction rule: rtranclp_induct)
  case base
  then show ?case by (simp add: mb_inv_def empty_heap_def)
next
  case (step s s')
  then show ?case using mb_step_inv[of "fst s" "snd s" "fst s'" "snd s'"] by simp
qed

section \<open>Properties\<close>





end
