(* ===== verification/Dedup_Util.thy ===== *)
theory Dedup_Util
  imports Dedup_Def
begin

text \<open>
  The I/O helpers of dedup (\<^verbatim>\<open>apps/dedup/src/util.c\<close>) over a model of the POSIX calls they use. A file
  that is read is the list of bytes still to come together with a script that says what the next
  \<^verbatim>\<open>read\<close> calls do: deliver at most so many bytes, or fail. A file that is written is the list of
  bytes written so far with a script for the next \<^verbatim>\<open>write\<close> calls. When a script is used up, every
  further call transfers all it can.
\<close>

section \<open>System calls\<close>

datatype errno = EINTR | EAGAIN | EIO | EBADF | EFAULT | EINVAL | EISDIR | Other_Error

datatype io_event = Partial nat | Error errno

record rfd =
  r_rest :: "byte list"
  r_script :: "io_event list"

record wfd =
  w_out :: "byte list"
  w_script :: "io_event list"

text \<open>\<^verbatim>\<open>read\<close>: the return value, \<^verbatim>\<open>errno\<close>, the bytes delivered and the file afterwards. \<open>Partial m\<close> delivers at most \<open>m + 1\<close> bytes.\<close>

definition sys_read :: "rfd \<Rightarrow> nat \<Rightarrow> int \<times> errno \<times> byte list \<times> rfd" where
  "sys_read fd n =
     (case r_script fd of
        [] \<Rightarrow> let bs = take n (r_rest fd)
              in (int (length bs), EIO, bs, fd\<lparr>r_rest := drop n (r_rest fd)\<rparr>)
      | Partial m # s \<Rightarrow> let bs = take (min n (Suc m)) (r_rest fd)
              in (int (length bs), EIO, bs, fd\<lparr>r_rest := drop (min n (Suc m)) (r_rest fd), r_script := s\<rparr>)
      | Error e # s \<Rightarrow> (- 1, e, [], fd\<lparr>r_script := s\<rparr>))"

text \<open>\<^verbatim>\<open>write\<close>: the return value, \<^verbatim>\<open>errno\<close> and the file afterwards. \<open>Partial m\<close> accepts at most \<open>m\<close> bytes.\<close>

definition sys_write :: "wfd \<Rightarrow> byte list \<Rightarrow> int \<times> errno \<times> wfd" where
  "sys_write fd bs =
     (case w_script fd of
        [] \<Rightarrow> (int (length bs), EIO, fd\<lparr>w_out := w_out fd @ bs\<rparr>)
      | Partial m # s \<Rightarrow> (int (length (take m bs)), EIO, fd\<lparr>w_out := w_out fd @ take m bs, w_script := s\<rparr>)
      | Error e # s \<Rightarrow> (- 1, e, fd\<lparr>w_script := s\<rparr>))"

section \<open>Reading and writing whole buffers\<close>

text \<open>The conversion of a \<^verbatim>\<open>size_t\<close> to the \<^verbatim>\<open>int\<close> the helpers return.\<close>

definition int_of_size :: "u64 \<Rightarrow> int" where
  "int_of_size n = sint (ucast n :: u32)"

definition overwrite :: "'a list \<Rightarrow> nat \<Rightarrow> 'a list \<Rightarrow> 'a list" where
  "overwrite buf i xs = take i buf @ xs @ drop (i + length xs) buf"

text \<open>
  The loop of \<^verbatim>\<open>xread\<close>. The result of \<^verbatim>\<open>read\<close> is stored in a \<^verbatim>\<open>size_t\<close>, so a failure is \<open>2^64 - 1\<close> and the
  two tests for a negative value never hold; the offset of \<open>p\<close> is \<open>nrecv\<close>.
\<close>

lemma word_of_nat_min_pos: "word_of_nat (min a b) \<noteq> (0 :: u64) \<Longrightarrow> a - b < a"
  by (cases a; cases b) auto

function xread_loop :: "rfd \<Rightarrow> byte list \<Rightarrow> u64 \<Rightarrow> u64 \<Rightarrow> int \<times> byte list \<times> rfd" where
  "xread_loop fd buf len nrecv =
     (if nrecv < len
      then let (r, e, bs, fd') = sys_read fd (unat (len - nrecv)); rv = (word_of_int r :: u64)
           in if rv < 0 \<and> e = EINTR then xread_loop fd' buf len nrecv
              else if rv < 0 then (- 1, buf, fd')
              else if rv = 0 then (0, buf, fd')
              else xread_loop fd' (overwrite buf (unat nrecv) bs) len (nrecv + rv)
      else (int_of_size nrecv, buf, fd))"
  by pat_completeness auto
termination
  by (relation "measures [\<lambda>(fd, buf, len, nrecv). length (r_script fd), \<lambda>(fd, buf, len, nrecv). length (r_rest fd)]")
    (auto simp: sys_read_def Let_def word_of_nat_min_pos split: list.splits io_event.splits)

declare xread_loop.simps [simp del]

definition xread :: "rfd \<Rightarrow> byte list \<Rightarrow> int \<times> byte list \<times> rfd" where
  "xread fd buf = xread_loop fd buf (word_of_nat (length buf)) 0"

text \<open>The loop of \<^verbatim>\<open>xwrite\<close>; here \<open>rv\<close> is signed and an interrupted call is repeated.\<close>

function xwrite_loop :: "wfd \<Rightarrow> byte list \<Rightarrow> nat \<Rightarrow> int \<times> wfd" where
  "xwrite_loop fd buf nsent =
     (if nsent < length buf
      then let (rv, e, fd') = sys_write fd (drop nsent buf)
           in if rv < 0 \<and> (e = EINTR \<or> e = EAGAIN) then xwrite_loop fd' buf nsent
              else if rv < 0 then (- 1, fd')
              else xwrite_loop fd' buf (nsent + nat rv)
      else (int_of_size (word_of_nat nsent), fd))"
  by pat_completeness auto
termination
  by (relation "measures [\<lambda>(fd, buf, nsent). length (w_script fd), \<lambda>(fd, buf, nsent). length buf - nsent]")
    (auto simp: sys_write_def split: list.splits io_event.splits)

declare xwrite_loop.simps [simp del]

definition xwrite :: "wfd \<Rightarrow> byte list \<Rightarrow> int \<times> wfd" where
  "xwrite fd buf = xwrite_loop fd buf 0"

section \<open>The file header\<close>

text \<open>
  \<open>checkbit0\<close> and \<open>type0\<close> are what the uninitialised variables hold before the reads. The result is the
  return value, the compression type and the file.
\<close>

definition read_header :: "u32 \<Rightarrow> byte \<Rightarrow> rfd \<Rightarrow> int \<times> byte \<times> rfd" where
  "read_header checkbit0 type0 fd =
     (let (r, buf, fd) = xread fd (le_bytes 4 checkbit0)
      in if r < 0 then (- 1, type0, fd)
         else if le_word buf \<noteq> CHECKBIT then (- 1, type0, fd)
         else let (r, buf, fd) = xread fd [type0]
              in if r < 0 then (- 1, buf ! 0, fd) else (0, buf ! 0, fd))"

definition write_header :: "wfd \<Rightarrow> byte \<Rightarrow> int \<times> wfd" where
  "write_header fd compress_type =
     (let (r, fd) = xwrite fd (le_bytes 4 CHECKBIT)
      in if r < 0 then (- 1, fd)
         else let (r, fd) = xwrite fd [compress_type]
              in if r < 0 then (- 1, fd) else (0, fd))"

section \<open>Behaviour without errors\<close>

fun is_error :: "io_event \<Rightarrow> bool" where
  "is_error (Partial n) = False"
| "is_error (Error e) = True"

text \<open>Only an error other than \<^verbatim>\<open>EINTR\<close> and \<^verbatim>\<open>EAGAIN\<close> makes a write fail.\<close>

fun is_fatal :: "io_event \<Rightarrow> bool" where
  "is_fatal (Partial n) = False"
| "is_fatal (Error e) = (e \<noteq> EINTR \<and> e \<noteq> EAGAIN)"

lemma unat_word_of_nat_small: "n < 2 ^ 31 \<Longrightarrow> unat (word_of_nat n :: u64) = n"
  by (simp add: unsigned_of_nat take_bit_nat_eq_self)

lemma int_of_size_small: "n < 2 ^ 31 \<Longrightarrow> int_of_size (word_of_nat n) = int n"
  by (simp add: int_of_size_def unsigned_of_nat take_bit_nat_eq_self signed_of_nat signed_take_bit_int_eq_self)

lemma int_of_size_minus_1: "int_of_size (- 1) = - 1"
  by code_simp

lemma take_drop_min: "take m xs @ drop (min (length xs) m) xs = xs"
  by (cases "m \<le> length xs") (simp_all add: min_def)

text \<open>A write that meets no fatal error appends the whole buffer, however often it is cut short or interrupted.\<close>

lemma xwrite_loop_ok:
  assumes "\<forall>e \<in> set (w_script fd). \<not> is_fatal e" "nsent \<le> length buf" "length buf < 2 ^ 31"
  shows "\<exists>fd'. xwrite_loop fd buf nsent = (int (length buf), fd')
    \<and> w_out fd' = w_out fd @ drop nsent buf \<and> set (w_script fd') \<subseteq> set (w_script fd)"
  using assms
proof (induction fd buf nsent rule: xwrite_loop.induct)
  case (1 fd buf nsent)
  show ?case
  proof (cases "nsent < length buf")
    case False
    then show ?thesis using 1 by (simp add: xwrite_loop.simps[of fd] int_of_size_small)
  next
    case True
    show ?thesis
    proof (cases "w_script fd")
      case Nil
      define fd' where "fd' = fd\<lparr>w_out := w_out fd @ drop nsent buf\<rparr>"
      have w: "sys_write fd (drop nsent buf) = (int (length buf - nsent), EIO, fd')"
        by (simp add: sys_write_def Nil fd'_def)
      have "\<exists>fd''. xwrite_loop fd' buf (length buf) = (int (length buf), fd'')
          \<and> w_out fd'' = w_out fd' @ [] \<and> set (w_script fd'') \<subseteq> set (w_script fd')"
        using 1(4,5) by (simp add: xwrite_loop.simps[of fd'] int_of_size_small)
      moreover have "nsent + nat (int (length buf) - int nsent) = length buf" using True by simp
      ultimately show ?thesis using True w by (simp add: xwrite_loop.simps[of fd] fd'_def)
    next
      case (Cons ev s)
      show ?thesis
      proof (cases ev)
        case (Partial m)
        define fd' where "fd' = fd\<lparr>w_out := w_out fd @ take m (drop nsent buf), w_script := s\<rparr>"
        have w: "sys_write fd (drop nsent buf) = (int (min (length buf - nsent) m), EIO, fd')"
          by (simp add: sys_write_def Cons Partial fd'_def)
        have "\<exists>fd''. xwrite_loop fd' buf (nsent + min (length buf - nsent) m) = (int (length buf), fd'')
          \<and> w_out fd'' = w_out fd' @ drop (nsent + min (length buf - nsent) m) buf \<and> set (w_script fd'') \<subseteq> set (w_script fd')"
          using 1(2)[OF True w[symmetric] refl refl] 1(3-5) Cons by (auto simp: fd'_def)
        moreover have "take m (drop nsent buf) @ drop (nsent + min (length buf - nsent) m) buf = drop nsent buf"
          using take_drop_min[of m "drop nsent buf"] by (simp add: add.commute)
        ultimately show ?thesis using True w Cons by (auto simp: xwrite_loop.simps[of fd] fd'_def)
      next
        case (Error e)
        define fd' where "fd' = fd\<lparr>w_script := s\<rparr>"
        have w: "sys_write fd (drop nsent buf) = (- 1, e, fd')"
          by (simp add: sys_write_def Cons Error fd'_def)
        have e: "e = EINTR \<or> e = EAGAIN" using 1(3) Cons Error by (cases e) auto
        have "\<exists>fd''. xwrite_loop fd' buf nsent = (int (length buf), fd'')
          \<and> w_out fd'' = w_out fd' @ drop nsent buf \<and> set (w_script fd'') \<subseteq> set (w_script fd')"
          using 1(1)[OF True w[symmetric] refl refl] 1(3-5) Cons e by (auto simp: fd'_def)
        then show ?thesis using True w e Cons by (auto simp: xwrite_loop.simps[of fd] fd'_def)
      qed
    qed
  qed
qed


lemma xwrite_ok:
  assumes "\<forall>e \<in> set (w_script fd). \<not> is_fatal e" "length buf < 2 ^ 31"
  shows "\<exists>fd'. xwrite fd buf = (int (length buf), fd') \<and> w_out fd' = w_out fd @ buf
    \<and> (\<forall>e \<in> set (w_script fd'). \<not> is_fatal e)"
  using xwrite_loop_ok[OF assms(1) _ assms(2), of 0] assms(1) by (auto simp: xwrite_def)

text \<open>Reading a whole buffer that the file still holds, in pieces of any size.\<close>

lemma word_of_nat_diff_u64: "k \<le> n \<Longrightarrow> n < 2 ^ 31 \<Longrightarrow> unat (word_of_nat n - word_of_nat k :: u64) = n - k"
  by (simp add: unat_word_of_nat_small flip: of_nat_diff)

lemma word_of_nat_less_u64: "n < 2 ^ 31 \<Longrightarrow> k < 2 ^ 31 \<Longrightarrow> (word_of_nat k :: u64) < word_of_nat n \<longleftrightarrow> k < n"
  by (simp add: word_less_nat_alt unat_word_of_nat_small)

lemma overwrite_prefix:
  assumes "length xs \<le> length ys" "k + length ys = length buf"
  shows "take (k + length xs) (overwrite buf k xs) = take k buf @ xs"
    "length (overwrite buf k xs) = length buf"
  using assms by (auto simp: overwrite_def)

lemma xread_loop_ok:
  assumes "\<forall>e \<in> set (r_script fd). \<not> is_error e" "k \<le> length buf" "length buf < 2 ^ 31"
    "length buf - k \<le> length (r_rest fd)"
  shows "\<exists>fd'. xread_loop fd buf (word_of_nat (length buf)) (word_of_nat k)
      = (int (length buf), take k buf @ take (length buf - k) (r_rest fd), fd')
    \<and> r_rest fd' = drop (length buf - k) (r_rest fd) \<and> (\<forall>e \<in> set (r_script fd'). \<not> is_error e)"
  using assms
proof (induction "length (r_script fd) + (length buf - k)" arbitrary: fd buf k rule: less_induct)
  case less
  show ?case
  proof (cases "k < length buf")
    case False
    then show ?thesis
      using less.prems by (simp add: xread_loop.simps[of fd] int_of_size_small)
  next
    case True
    define d where "d = length buf - k"
    obtain j fd' where j: "0 < j" "j \<le> d"
      and rd: "sys_read fd d = (int j, EIO, take j (r_rest fd), fd')"
      and rest: "r_rest fd' = drop j (r_rest fd)" and sc: "\<forall>e \<in> set (r_script fd'). \<not> is_error e"
      and dec: "length (r_script fd') \<le> length (r_script fd)"
    proof (cases "r_script fd")
      case Nil
      then show thesis
        using that[of d "fd\<lparr>r_rest := drop d (r_rest fd)\<rparr>"] less.prems True
        by (simp add: sys_read_def d_def Let_def)
    next
      case (Cons ev s)
      then obtain m where ev: "ev = Partial m" using less.prems(1) by (cases ev) auto
      define j where "j = min d (Suc m)"
      have "sys_read fd d = (int j, EIO, take j (r_rest fd), fd\<lparr>r_rest := drop j (r_rest fd), r_script := s\<rparr>)"
        using less.prems(4) by (simp add: sys_read_def Cons ev Let_def j_def d_def)
      then show thesis
        using that[of j "fd\<lparr>r_rest := drop j (r_rest fd), r_script := s\<rparr>"] less.prems(1) Cons True
        by (simp add: j_def d_def)
    qed
    define buf' where "buf' = overwrite buf k (take j (r_rest fd))"
    have len_j: "length (take j (r_rest fd)) = j" using j less.prems(4) by (simp add: d_def)
    have b: "take (k + j) buf' = take k buf @ take j (r_rest fd)" "length buf' = length buf"
      using overwrite_prefix[of "take j (r_rest fd)" "take d (r_rest fd)" k buf] j len_j less.prems(2,4)
      by (simp_all add: buf'_def d_def)
    have small: "j < 2 ^ 31" "k < 2 ^ 31" using j less.prems(3) True by (auto simp: d_def)
    have rv: "word_of_int (int j) \<noteq> (0 :: u64)"
      using j(1) small unat_word_of_nat_small[of j] by (metis less_numeral_extra(3) of_int_of_nat_eq unat_0)
    have "xread_loop fd buf (word_of_nat (length buf)) (word_of_nat k)
        = xread_loop fd' buf' (word_of_nat (length buf)) (word_of_nat (k + j))"
      using True rd rv less.prems(2,3) small
      by (simp add: xread_loop.simps[of fd] word_of_nat_less_u64 word_of_nat_diff_u64
          unat_word_of_nat_small buf'_def flip: d_def)
    moreover have "\<exists>fd''. xread_loop fd' buf' (word_of_nat (length buf')) (word_of_nat (k + j))
      = (int (length buf'), take (k + j) buf' @ take (length buf' - (k + j)) (r_rest fd'), fd'')
      \<and> r_rest fd'' = drop (length buf' - (k + j)) (r_rest fd') \<and> (\<forall>e \<in> set (r_script fd''). \<not> is_error e)"
      by (rule less.hyps) (use dec j less.prems True rest sc b d_def in auto)
    moreover have "take j (r_rest fd) @ take (length buf - (k + j)) (drop j (r_rest fd)) = take (length buf - k) (r_rest fd)"
      using j take_add[of j "length buf - (k + j)" "r_rest fd"] by (simp add: d_def)
    ultimately show ?thesis
      using b rest j by (auto simp: d_def)
  qed
qed

lemma xread_ok:
  assumes "\<forall>e \<in> set (r_script fd). \<not> is_error e" "length buf < 2 ^ 31" "length buf \<le> length (r_rest fd)"
  shows "\<exists>fd'. xread fd buf = (int (length buf), take (length buf) (r_rest fd), fd')
    \<and> r_rest fd' = drop (length buf) (r_rest fd) \<and> (\<forall>e \<in> set (r_script fd'). \<not> is_error e)"
  using xread_loop_ok[OF assms(1) _ assms(2), of 0] assms(3) by (simp add: xread_def)

lemma xread_eof:
  assumes "\<forall>e \<in> set (r_script fd). \<not> is_error e" "0 < length buf" "length buf < 2 ^ 31" "r_rest fd = []"
  shows "\<exists>fd'. xread fd buf = (0, buf, fd')"
proof -
  have "0 < (word_of_nat (length buf) :: u64)" using assms(2,3) word_of_nat_less_u64[of "length buf" 0] by simp
  moreover obtain fd' where "sys_read fd n = (0, EIO, [], fd')" for n
    using assms(1,4) that by (cases "r_script fd"; cases "hd (r_script fd)") (auto simp: sys_read_def)
  ultimately show ?thesis by (simp add: xread_def xread_loop.simps[of fd])
qed


section \<open>Properties\<close>

lemma write_header_ok:
  assumes "\<forall>e \<in> set (w_script fd). \<not> is_fatal e"
  shows "\<exists>fd'. write_header fd t = (0, fd') \<and> w_out fd' = w_out fd @ le_bytes 4 CHECKBIT @ [t]
    \<and> (\<forall>e \<in> set (w_script fd'). \<not> is_fatal e)"
proof -
  obtain fd1 where 1: "xwrite fd (le_bytes 4 CHECKBIT) = (4, fd1)" "w_out fd1 = w_out fd @ le_bytes 4 CHECKBIT"
      "\<forall>e \<in> set (w_script fd1). \<not> is_fatal e"
    using xwrite_ok[OF assms, of "le_bytes 4 CHECKBIT"] by auto
  obtain fd2 where 2: "xwrite fd1 [t] = (1, fd2)" "w_out fd2 = w_out fd1 @ [t]" "\<forall>e \<in> set (w_script fd2). \<not> is_fatal e"
    using xwrite_ok[OF 1(3), of "[t]"] by auto
  show ?thesis using 1 2 by (simp add: write_header_def)
qed

lemma read_header_ok:
  assumes "\<forall>e \<in> set (r_script fd). \<not> is_error e" "r_rest fd = le_bytes 4 CHECKBIT @ [t] @ rest"
  shows "\<exists>fd'. read_header c0 t0 fd = (0, t, fd') \<and> r_rest fd' = rest \<and> (\<forall>e \<in> set (r_script fd'). \<not> is_error e)"
proof -
  obtain fd1 where 1: "xread fd (le_bytes 4 c0) = (4, le_bytes 4 CHECKBIT, fd1)" "r_rest fd1 = [t] @ rest"
      "\<forall>e \<in> set (r_script fd1). \<not> is_error e"
    using xread_ok[OF assms(1), of "le_bytes 4 c0"] assms(2) by auto
  obtain fd2 where 2: "xread fd1 [t0] = (1, [t], fd2)" "r_rest fd2 = rest" "\<forall>e \<in> set (r_script fd2). \<not> is_error e"
    using xread_ok[OF 1(3), of "[t0]"] 1(2) by auto
  show ?thesis using 1 2 by (simp add: read_header_def)
qed

text \<open>
  C12. Header round trip: whatever partial transfers and interruptions the writes meet (no fatal
  error) and whatever partial transfers the reads meet, \<^verbatim>\<open>read_header\<close> on a file that starts with what
  \<^verbatim>\<open>write_header\<close> wrote succeeds with the same compression type and stops right after the header,
  independently of what its uninitialised variables held.
\<close>

theorem header_roundtrip:
  assumes "\<forall>e \<in> set ws. \<not> is_fatal e" "\<forall>e \<in> set rs. \<not> is_error e"
  shows "\<exists>fd. write_header \<lparr>w_out = [], w_script = ws\<rparr> t = (0, fd)
    \<and> (\<exists>fd'. read_header c0 t0 \<lparr>r_rest = w_out fd @ rest, r_script = rs\<rparr> = (0, t, fd') \<and> r_rest fd' = rest)"
proof -
  obtain fd where fd: "write_header \<lparr>w_out = [], w_script = ws\<rparr> t = (0, fd)" "w_out fd = le_bytes 4 CHECKBIT @ [t]"
    using write_header_ok[of "\<lparr>w_out = [], w_script = ws\<rparr>" t] assms(1) by auto
  then show ?thesis
    using read_header_ok[of "\<lparr>r_rest = w_out fd @ rest, r_script = rs\<rparr>" t rest c0 t0] assms(2) by auto
qed

theorem header_roundtrip_witness:
  "\<exists>fd fd'. write_header \<lparr>w_out = [], w_script = [Partial 1, Error EINTR, Partial 0]\<rparr> COMPRESS_GZIP = (0, fd)
    \<and> read_header 0 7 \<lparr>r_rest = w_out fd @ [9], r_script = [Partial 0]\<rparr> = (0, COMPRESS_GZIP, fd') \<and> r_rest fd' = [9]"
  using header_roundtrip[of "[Partial 1, Error EINTR, Partial 0]" "[Partial 0]" COMPRESS_GZIP 0 7 "[9]"] by auto

lemma xread_first_error:
  assumes "r_script fd = Error e # s" "0 < length buf" "length buf < 2 ^ 31"
  shows "xread fd buf = (- 1, buf, fd\<lparr>r_script := s\<rparr>)"
proof -
  have pos: "0 < (word_of_nat (length buf) :: u64)" using assms word_of_nat_less_u64[of "length buf" 0] by simp
  have m1: "xread_loop fd' buf (word_of_nat (length buf)) (- 1) = (- 1, buf, fd')" for fd'
    by (simp add: xread_loop.simps[of fd'] int_of_size_minus_1)
  have "overwrite buf 0 [] = buf" by (simp add: overwrite_def)
  then show ?thesis using pos assms(1) m1 by (simp add: xread_def xread_loop.simps[of fd] sys_read_def)
qed

text \<open>
  C13. Errors of \<^verbatim>\<open>read\<close> are not handled as \<^verbatim>\<open>xread\<close> means to. An error of the first call makes \<^verbatim>\<open>xread\<close>
  return -1 through the wrap-around of its counter, for \<^verbatim>\<open>EINTR\<close> too, which the code intends to
  retry. An error after \<open>m + 1\<close> bytes goes unnoticed: \<^verbatim>\<open>xread\<close> reports success, but the byte at offset
  \<open>m\<close> of the file is lost and everything after it is shifted by one.
\<close>

theorem xread_errors:
  assumes "0 < length buf" "length buf < 2 ^ 31"
  shows "fst (xread \<lparr>r_rest = rest, r_script = Error e # s\<rparr> buf) = - 1
    \<and> (Suc m < length buf \<and> length buf < length rest \<longrightarrow>
        (\<exists>fd. xread \<lparr>r_rest = rest, r_script = [Partial m, Error e]\<rparr> buf
           = (int (length buf), take m rest @ take (length buf - m) (drop (Suc m) rest), fd)))"
proof (intro conjI impI)
  show "fst (xread \<lparr>r_rest = rest, r_script = Error e # s\<rparr> buf) = - 1"
    using xread_first_error[of "\<lparr>r_rest = rest, r_script = Error e # s\<rparr>" e s buf] assms by simp
next
  assume m: "Suc m < length buf \<and> length buf < length rest"
  let ?n = "word_of_nat (length buf) :: u64"
  define buf1 where "buf1 = overwrite buf 0 (take (Suc m) rest)"
  define fd1 where "fd1 = \<lparr>r_rest = drop (Suc m) rest, r_script = [Error e]\<rparr>"
  define fd2 where "fd2 = \<lparr>r_rest = drop (Suc m) rest, r_script = []\<rparr>"
  have len1: "length buf1 = length buf" "take m buf1 = take m rest"
    using m by (auto simp: buf1_def overwrite_def)
  have lt: "0 < ?n" "(word_of_nat (Suc m) :: u64) < ?n"
    using assms m word_of_nat_less_u64[of "length buf" 0] word_of_nat_less_u64[of "length buf" "Suc m"] by auto
  have rv: "word_of_int (int (Suc m)) \<noteq> (0 :: u64)"
    using m assms unat_word_of_nat_small[of "Suc m"] by (metis of_int_of_nat_eq unat_0 nat.distinct(1) order_less_trans)
  have "xread \<lparr>r_rest = rest, r_script = [Partial m, Error e]\<rparr> buf = xread_loop fd1 buf1 ?n (word_of_nat (Suc m))"
    using lt rv m assms
    by (simp add: xread_def xread_loop.simps[of "\<lparr>r_rest = rest, r_script = [Partial m, Error e]\<rparr>"]
        sys_read_def unat_word_of_nat_small fd1_def buf1_def min_def Let_def)
  also have "\<dots> = xread_loop fd2 buf1 ?n (word_of_nat m)"
    using lt by (simp add: xread_loop.simps[of "\<lparr>r_rest = drop (Suc m) rest, r_script = [Error e]\<rparr>"]
        sys_read_def fd1_def fd2_def overwrite_def)
  also have "\<exists>fd. \<dots> = (int (length buf), take m rest @ take (length buf - m) (drop (Suc m) rest), fd)"
  proof -
    have "length buf - m \<le> length rest - Suc m" using m by linarith
    then show ?thesis using xread_loop_ok[of fd2 m buf1] m len1 assms by (auto simp: fd2_def)
  qed
  finally show "\<exists>fd. xread \<lparr>r_rest = rest, r_script = [Partial m, Error e]\<rparr> buf
      = (int (length buf), take m rest @ take (length buf - m) (drop (Suc m) rest), fd)" .
qed

theorem xread_errors_witness:
  "\<exists>fd. xread \<lparr>r_rest = [1, 2, 3, 4, 5], r_script = [Partial 1, Error EIO]\<rparr> (replicate 3 0) = (3, [1, 3, 4], fd)"
  using xread_errors[of "replicate 3 0" "[1, 2, 3, 4, 5]" EIO "[]" 1] by simp

end
