(* ===== verification/Encoder_Stats.thy ===== *)
theory Encoder_Stats
  imports Dedup_Def
begin

text \<open>
  The statistics of the dedup encoder (\<^verbatim>\<open>stats_t\<close> and its functions in
  \<^verbatim>\<open>apps/dedup/src/pthread/encoder.c\<close>). Sizes are 64-bit and counters 32-bit words; of \<^verbatim>\<open>print_stats\<close> the
  choice of the unit is modelled, not the floating-point formatting.
\<close>

section \<open>Records and operations\<close>

definition CHUNK_GRANULARITY_POW :: nat where "CHUNK_GRANULARITY_POW = 7"
definition CHUNK_MAX_NUM :: nat where "CHUNK_MAX_NUM = 8 * 32"

definition CHUNK_SIZE_TO_SLOT :: "nat \<Rightarrow> nat" where
  "CHUNK_SIZE_TO_SLOT s =
     (if drop_bit CHUNK_GRANULARITY_POW s \<ge> CHUNK_MAX_NUM then CHUNK_MAX_NUM - 1
      else drop_bit CHUNK_GRANULARITY_POW s)"

definition SLOT_TO_CHUNK_SIZE :: "nat \<Rightarrow> nat" where
  "SLOT_TO_CHUNK_SIZE s = s * push_bit CHUNK_GRANULARITY_POW 1 + push_bit (CHUNK_GRANULARITY_POW - 1) 1"

record stats_t =
  total_input :: u64
  total_dedup :: u64
  total_compressed :: u64
  total_output :: u64
  nChunks :: "u32 list"
  nDuplicates :: u32

definition init_stats :: stats_t where
  "init_stats = \<lparr>total_input = 0, total_dedup = 0, total_compressed = 0, total_output = 0,
     nChunks = replicate CHUNK_MAX_NUM 0, nDuplicates = 0\<rparr>"

definition merge_stats :: "stats_t \<Rightarrow> stats_t \<Rightarrow> stats_t" where
  "merge_stats s1 s2 =
     \<lparr>total_input = total_input s1 + total_input s2,
      total_dedup = total_dedup s1 + total_dedup s2,
      total_compressed = total_compressed s1 + total_compressed s2,
      total_output = total_output s1 + total_output s2,
      nChunks = map (\<lambda>i. nChunks s1 ! i + nChunks s2 ! i) [0..<CHUNK_MAX_NUM],
      nDuplicates = nDuplicates s1 + nDuplicates s2\<rparr>"

text \<open>The statistics updates of the stages.\<close>

definition count_chunk :: "nat \<Rightarrow> stats_t \<Rightarrow> stats_t" where
  "count_chunk n s = s\<lparr>nChunks := (nChunks s)[CHUNK_SIZE_TO_SLOT n := nChunks s ! CHUNK_SIZE_TO_SLOT n + 1]\<rparr>"

definition count_dedup :: "bool \<Rightarrow> nat \<Rightarrow> stats_t \<Rightarrow> stats_t" where
  "count_dedup isDup n s =
     (if isDup then s\<lparr>nDuplicates := nDuplicates s + 1\<rparr>
      else s\<lparr>total_dedup := total_dedup s + word_of_nat n\<rparr>)"

definition count_compressed :: "nat \<Rightarrow> stats_t \<Rightarrow> stats_t" where
  "count_compressed n s = s\<lparr>total_compressed := total_compressed s + word_of_nat n\<rparr>"

text \<open>
  The loop of \<^verbatim>\<open>print_stats\<close> that looks for the most suitable unit: the index into \<open>unit_str\<close> and the
  divisor. \<open>unit_div_next\<close> is an \<^verbatim>\<open>unsigned int\<close>.
\<close>

fun unit_loop :: "stats_t \<Rightarrow> u64 \<Rightarrow> nat list \<Rightarrow> (nat \<times> u64) outcome" where
  "unit_loop s unit_div [] = Inr (7, unit_div)"
| "unit_loop s unit_div (unit_idx # idxs) =
     (let unit_div_next = (ucast (unit_div * 1024) :: u32); d = (ucast unit_div_next :: u64)
      in if d = 0 then Inl Division_By_Zero
         else if total_input s div d \<le> 0 then Inr (unit_idx, unit_div)
         else if total_dedup s div d \<le> 0 then Inr (unit_idx, unit_div)
         else if total_compressed s div d \<le> 0 then Inr (unit_idx, unit_div)
         else if total_output s div d \<le> 0 then Inr (unit_idx, unit_div)
         else unit_loop s d idxs)"

definition print_stats_unit :: "stats_t \<Rightarrow> (nat \<times> u64) outcome" where
  "print_stats_unit s = unit_loop s 1 [0..<7]"

section \<open>Properties\<close>

lemma CHUNK_SIZE_TO_SLOT_less: "CHUNK_SIZE_TO_SLOT n < CHUNK_MAX_NUM"
  by (simp add: CHUNK_SIZE_TO_SLOT_def CHUNK_MAX_NUM_def)

definition stats_inv :: "stats_t \<Rightarrow> bool" where
  "stats_inv s \<longleftrightarrow> length (nChunks s) = CHUNK_MAX_NUM"

lemma merge_stats_init: "stats_inv s \<Longrightarrow> merge_stats s init_stats = s"
  by (cases s) (simp add: merge_stats_def init_stats_def stats_inv_def list_eq_iff_nth_eq)

lemma merge_stats_commute: "merge_stats s1 s2 = merge_stats s2 s1"
  by (simp add: merge_stats_def add.commute)

lemma merge_stats_assoc: "merge_stats (merge_stats s1 s2) s3 = merge_stats s1 (merge_stats s2 s3)"
  by (simp add: merge_stats_def add.assoc)

lemma stats_inv_init: "stats_inv init_stats"
  by (simp add: stats_inv_def init_stats_def)

lemma stats_inv_updates:
  "stats_inv s \<Longrightarrow> stats_inv (count_chunk n s)" "stats_inv s \<Longrightarrow> stats_inv (count_dedup b n s)"
  "stats_inv s \<Longrightarrow> stats_inv (count_compressed n s)" "stats_inv (merge_stats s1 s2)"
  by (simp_all add: stats_inv_def count_chunk_def count_dedup_def count_compressed_def merge_stats_def)

lemma merge_count:
  assumes "stats_inv s1" "stats_inv s2"
  shows "merge_stats s1 (count_chunk n s2) = count_chunk n (merge_stats s1 s2)"
    and "merge_stats s1 (count_dedup b n s2) = count_dedup b n (merge_stats s1 s2)"
    and "merge_stats s1 (count_compressed n s2) = count_compressed n (merge_stats s1 s2)"
  using assms CHUNK_SIZE_TO_SLOT_less[of n]
  by (auto simp: merge_stats_def count_chunk_def count_dedup_def count_compressed_def stats_inv_def
      list_eq_iff_nth_eq nth_list_update add.assoc)

text \<open>One counter update of a stage.\<close>

datatype stats_event = Chunk_Seen nat | Chunk_Dedup bool nat | Chunk_Compressed nat

fun stats_apply :: "stats_event \<Rightarrow> stats_t \<Rightarrow> stats_t" where
  "stats_apply (Chunk_Seen n) = count_chunk n"
| "stats_apply (Chunk_Dedup b n) = count_dedup b n"
| "stats_apply (Chunk_Compressed n) = count_compressed n"

lemma stats_inv_fold: "stats_inv s \<Longrightarrow> stats_inv (fold stats_apply evs s)"
proof (induction evs arbitrary: s)
  case (Cons e evs)
  then show ?case by (cases e) (simp_all add: stats_inv_updates)
qed simp

lemma merge_fold:
  assumes "stats_inv s1" "stats_inv s2"
  shows "merge_stats s1 (fold stats_apply evs s2) = fold stats_apply evs (merge_stats s1 s2)"
  using assms
proof (induction evs arbitrary: s2)
  case (Cons e evs)
  have inv: "stats_inv (stats_apply e s2)" using Cons.prems by (cases e) (simp_all add: stats_inv_updates)
  have "merge_stats s1 (stats_apply e s2) = stats_apply e (merge_stats s1 s2)"
    using Cons.prems by (cases e) (simp_all add: merge_count)
  then show ?case using Cons.IH[OF Cons.prems(1) inv] by simp
qed simp

text \<open>
  C14. Merging the records of the threads at the end, as \<^verbatim>\<open>Encode\<close> does, gives what one thread would
  have counted had it performed all their updates one after the other, whatever the split of the work
  over threads; every update stays inside the 256 slots.
\<close>

theorem merge_stats_threads:
  assumes "stats_inv s"
  shows "foldl (\<lambda>acc evs. merge_stats acc (fold stats_apply evs init_stats)) s threads
    = fold stats_apply (concat threads) s \<and> CHUNK_SIZE_TO_SLOT n < length (nChunks (fold stats_apply evs s))"
proof
  show "foldl (\<lambda>acc evs. merge_stats acc (fold stats_apply evs init_stats)) s threads
    = fold stats_apply (concat threads) s"
    using assms
  proof (induction threads arbitrary: s)
    case (Cons evs threads)
    have "merge_stats s (fold stats_apply evs init_stats) = fold stats_apply evs s"
      using merge_fold[OF Cons.prems stats_inv_init] merge_stats_init[OF Cons.prems] by simp
    then show ?case using Cons.IH[OF stats_inv_fold[OF Cons.prems]] by simp
  qed simp
  show "CHUNK_SIZE_TO_SLOT n < length (nChunks (fold stats_apply evs s))"
    using stats_inv_fold[OF assms, of evs] CHUNK_SIZE_TO_SLOT_less[of n] by (simp add: stats_inv_def)
qed

theorem merge_stats_threads_witness:
  "stats_inv init_stats \<and>
   foldl (\<lambda>acc evs. merge_stats acc (fold stats_apply evs init_stats)) init_stats [[Chunk_Seen 300], [Chunk_Dedup True 5]]
    = count_dedup True 5 (count_chunk 300 init_stats)"
  using merge_stats_threads[OF stats_inv_init, of "[[Chunk_Seen 300], [Chunk_Dedup True 5]]" 0 "[]"] stats_inv_init by simp


lemma word_div_le_zero:
  assumes "d \<noteq> 0"
  shows "(x :: u64) div d \<le> 0 \<longleftrightarrow> x < d"
proof -
  have "x div d \<le> 0 \<longleftrightarrow> unat (x div d) = 0" unfolding word_le_nat_alt unat_0 by (rule le_0_eq)
  also have "\<dots> \<longleftrightarrow> unat x div unat d = 0" unfolding unat_div ..
  also have "\<dots> \<longleftrightarrow> unat x < unat d" using assms by (simp add: div_eq_0_iff unsigned_eq_0_iff)
  finally show ?thesis unfolding word_less_nat_alt .
qed

definition all_totals :: "(u64 \<Rightarrow> bool) \<Rightarrow> stats_t \<Rightarrow> bool" where
  "all_totals P s \<longleftrightarrow> P (total_input s) \<and> P (total_dedup s) \<and> P (total_compressed s) \<and> P (total_output s)"

lemma unit_loop_step:
  assumes "(ucast (ucast (unit_div * 1024) :: u32) :: u64) = d" "d \<noteq> 0"
  shows "unit_loop s unit_div (i # idxs) = (if all_totals (\<lambda>x. d \<le> x) s then unit_loop s d idxs else Inr (i, unit_div))"
  unfolding unit_loop.simps Let_def assms(1) word_div_le_zero[OF assms(2)] all_totals_def
  using assms(2) unfolding linorder_not_less[symmetric] by auto

text \<open>
  C15. \<^verbatim>\<open>print_stats\<close> divides by zero exactly when all four totals reach one gigabyte: the next divisor,
  2^40, is stored in an \<^verbatim>\<open>unsigned int\<close>. Otherwise the loop stops within the first three units, with the
  matching divisor, and never reaches the units beyond megabytes.
\<close>

theorem print_stats_unit_overflow:
  "print_stats_unit s =
     (if all_totals (\<lambda>x. 2 ^ 30 \<le> x) s then Inl Division_By_Zero
      else if all_totals (\<lambda>x. 2 ^ 20 \<le> x) s then Inr (2, 2 ^ 20)
      else if all_totals (\<lambda>x. 2 ^ 10 \<le> x) s then Inr (1, 2 ^ 10)
      else Inr (0, 1))"
proof -
  have idx: "[0..<7] = [0, 1, 2, 3, 4, 5, 6 :: nat]" by (simp add: upt_conv_Cons)
  have conv: "(ucast (ucast (1 * 1024 :: u64) :: u32) :: u64) = 2 ^ 10"
    "(ucast (ucast (2 ^ 10 * 1024 :: u64) :: u32) :: u64) = 2 ^ 20"
    "(ucast (ucast (2 ^ 20 * 1024 :: u64) :: u32) :: u64) = 2 ^ 30"
    "(ucast (ucast (2 ^ 30 * 1024 :: u64) :: u32) :: u64) = 0" by simp_all
  have weaker: "all_totals (\<lambda>x. a \<le> x) s" if "all_totals (\<lambda>x. b \<le> x) s" "a \<le> b" for a b
    using that unfolding all_totals_def by (meson order_trans)
  have le: "(2 ^ 10 :: u64) \<le> 2 ^ 20" "(2 ^ 20 :: u64) \<le> 2 ^ 30" by simp_all
  have nz: "(2 ^ 10 :: u64) \<noteq> 0" "(2 ^ 20 :: u64) \<noteq> 0" "(2 ^ 30 :: u64) \<noteq> 0" by simp_all
  have "unit_loop s (2 ^ 30) [3, 4, 5, 6] = Inl Division_By_Zero"
    using conv(4) by (simp add: Let_def)
  then have "print_stats_unit s =
    (if all_totals (\<lambda>x. 2 ^ 10 \<le> x) s
     then if all_totals (\<lambda>x. 2 ^ 20 \<le> x) s
          then if all_totals (\<lambda>x. 2 ^ 30 \<le> x) s then Inl Division_By_Zero else Inr (2, 2 ^ 20)
          else Inr (1, 2 ^ 10)
     else Inr (0, 1))"
    unfolding print_stats_unit_def idx
    by (simp only: unit_loop_step[OF conv(1) nz(1)] unit_loop_step[OF conv(2) nz(2)] unit_loop_step[OF conv(3) nz(3)])
  then show ?thesis using weaker[OF _ le(1)] weaker[OF _ le(2)] by auto
qed

end
