(* ===== verification/Encoder.thy ===== *)
theory Encoder
  imports Dedup_Util Hashtable Encoder_Stats
begin

text \<open>
  The kernels of the dedup encoder (\<^verbatim>\<open>apps/dedup/src/pthread/encoder.c\<close>): deduplication, compression
  and the writing of a chunk. Chunks are shared between the hash table, the queues and the threads,
  so they live in a store, addressed by numbers; a memory buffer is its contents, and \<open>None\<close> once it
  is freed or before it is made. The message digest and zlib's \<^verbatim>\<open>compress\<close> are arguments:
  \<open>digest\<close> maps a buffer to its 20 bytes, \<open>compress n src\<close> gives the compressed bytes when they fit in
  \<open>n\<close> bytes and \<open>None\<close> for any result other than \<^verbatim>\<open>Z_OK\<close>. The executions of the middle stages of the
  pipeline are interleavings of kernel calls.
\<close>

section \<open>Chunks and the state of the encoder\<close>

type_synonym chunk_id = nat

record chunk_t =
  isDuplicate :: bool
  ch_state :: chunk_state_t
  ch_sha1 :: "byte list"
  uncompressed_data :: "byte list option"
  compressed_data :: "byte list option"
  compressed_data_ref :: "chunk_id option"
  ch_sequence :: sequence_t
  isLastL2Chunk :: bool

record encoder =
  store :: "chunk_id \<rightharpoonup> chunk_t"
  cache :: "(byte list, chunk_id) hashtable"
  fd_out :: wfd

definition hash_from_key_fn :: "byte list \<Rightarrow> u32" where
  "hash_from_key_fn k = le_word (take 4 k)"

definition keys_equal_fn :: "byte list \<Rightarrow> byte list \<Rightarrow> bool" where
  "keys_equal_fn key1 key2 \<longleftrightarrow> key1 = key2"

definition with_chunk :: "encoder \<Rightarrow> chunk_id \<Rightarrow> (chunk_t \<Rightarrow> 'a outcome) \<Rightarrow> 'a outcome" where
  "with_chunk e i f = (case store e i of None \<Rightarrow> Inl Invalid_Pointer | Some c \<Rightarrow> f c)"

definition set_chunk :: "encoder \<Rightarrow> chunk_id \<Rightarrow> chunk_t \<Rightarrow> encoder" where
  "set_chunk e i c = e\<lparr>store := (store e)(i \<mapsto> c)\<rparr>"

section \<open>Writing\<close>

definition write_file :: "wfd \<Rightarrow> byte \<Rightarrow> u64 \<Rightarrow> byte list \<Rightarrow> wfd outcome" where
  "write_file fd ty len content =
     (let (r, fd) = xwrite fd [ty]
      in if r < 0 then Inl (Exit_Trace ''xwrite type fails'')
         else let (r, fd) = xwrite fd (le_bytes 8 len)
              in if r < 0 then Inl (Exit_Trace ''xwrite content fails'')
                 else let (r, fd) = xwrite fd content
                      in if r < 0 then Inl (Exit_Trace ''xwrite content fails'') else Inr fd)"

definition create_output_file :: "bool \<Rightarrow> io_event list \<Rightarrow> byte \<Rightarrow> wfd outcome" where
  "create_output_file open_ok script compress_type =
     (if \<not> open_ok then Inl (Exit_Trace ''Cannot open output file.'')
      else let (r, fd) = write_header \<lparr>w_out = [], w_script = script\<rparr> compress_type
           in if r \<noteq> 0 then Inl (Exit_Trace ''Cannot write output file header.'') else Inr fd)"

text \<open>
  \<^verbatim>\<open>write_chunk_to_file\<close> as compiled with threads. \<open>Inr None\<close> means that the call waits for the original
  chunk to be compressed.
\<close>

definition write_chunk_to_file :: "chunk_id \<Rightarrow> encoder \<Rightarrow> encoder option outcome" where
  "write_chunk_to_file i e =
     with_chunk e i (\<lambda>chunk.
       let orig = (if isDuplicate chunk then compressed_data_ref chunk else Some i)
       in case orig of None \<Rightarrow> Inl Invalid_Pointer
          | Some j \<Rightarrow> with_chunk e j (\<lambda>chunk.
              case ch_state chunk of
                CHUNK_STATE_UNCOMPRESSED \<Rightarrow> Inr None
              | CHUNK_STATE_COMPRESSED \<Rightarrow>
                  (case compressed_data chunk of
                     None \<Rightarrow> Inl Invalid_Pointer
                   | Some z \<Rightarrow>
                       bindR (write_file (fd_out e) TYPE_COMPRESS (word_of_nat (length z)) z) (\<lambda>fd.
                         Inr (Some (set_chunk (e\<lparr>fd_out := fd\<rparr>) j
                           (chunk\<lparr>compressed_data := None, ch_state := CHUNK_STATE_FLUSHED\<rparr>)))))
              | CHUNK_STATE_FLUSHED \<Rightarrow>
                  bindR (write_file (fd_out e) TYPE_FINGERPRINT (word_of_nat SHA1_LEN) (ch_sha1 chunk)) (\<lambda>fd.
                    Inr (Some (e\<lparr>fd_out := fd\<rparr>)))))"

text \<open>The caller frees a duplicate once it is written.\<close>

definition write_and_release :: "chunk_id \<Rightarrow> encoder \<Rightarrow> encoder option outcome" where
  "write_and_release i e =
     bindR (write_chunk_to_file i e) (\<lambda>r. case r of
       None \<Rightarrow> Inr None
     | Some e \<Rightarrow> with_chunk e i (\<lambda>chunk.
         Inr (Some (if isDuplicate chunk then e\<lparr>store := (store e)(i := None)\<rparr> else e))))"

section \<open>Compression and deduplication\<close>

definition sub_Compress ::
  "(nat \<Rightarrow> byte list \<Rightarrow> byte list option) \<Rightarrow> byte \<Rightarrow> bool \<Rightarrow> chunk_id \<Rightarrow> encoder \<Rightarrow> encoder outcome" where
  "sub_Compress compress compress_type alloc_ok i e =
     with_chunk e i (\<lambda>chunk.
       assertR (ch_state chunk = CHUNK_STATE_UNCOMPRESSED) ''chunk->header.state == CHUNK_STATE_UNCOMPRESSED''
         (case uncompressed_data chunk of
            None \<Rightarrow> Inl Invalid_Pointer
          | Some src \<Rightarrow>
              bindR
                (if compress_type = COMPRESS_NONE
                 then let n = length src
                      in assertR (n > 0) ''size > 0''
                           (if \<not> alloc_ok then Inl (Exit_Trace ''Creation of compression buffer failed.'')
                            else Inr src)
                 else if compress_type = COMPRESS_GZIP
                 then let n = length src + drop_bit 9 (length src) + 12
                      in if \<not> alloc_ok then Inl (Exit_Trace ''Creation of compression buffer failed.'')
                         else case compress n src of
                                None \<Rightarrow> Inl (Exit_Trace ''Compression failed'')
                              | Some z \<Rightarrow> assertR (length z < n \<longrightarrow> length z > 0) ''size>0'' (Inr z)
                 else Inl (Exit_Trace ''Compression type not implemented.''))
                (\<lambda>z. Inr (set_chunk e i (chunk\<lparr>compressed_data := Some z, uncompressed_data := None,
                       ch_state := CHUNK_STATE_COMPRESSED\<rparr>)))))"

definition sub_Deduplicate :: "(byte list \<Rightarrow> byte list) \<Rightarrow> bool \<Rightarrow> chunk_id \<Rightarrow> encoder \<Rightarrow> (encoder \<times> bool) outcome" where
  "sub_Deduplicate digest alloc_ok i e =
     with_chunk e i (\<lambda>chunk.
       case uncompressed_data chunk of
         None \<Rightarrow> Inl (Assertion ''chunk->uncompressed_data.ptr!=NULL'')
       | Some src \<Rightarrow>
           let chunk = chunk\<lparr>ch_sha1 := digest src\<rparr>
           in case hashtable_search (cache e) (ch_sha1 chunk) of
                None \<Rightarrow>
                  let chunk = chunk\<lparr>isDuplicate := False\<rparr>;
                      (cache', r) = hashtable_insert alloc_ok (cache e) (ch_sha1 chunk) i
                  in if r = 0 then Inl (Exit_Trace ''hashtable_insert failed'')
                     else Inr ((set_chunk e i chunk)\<lparr>cache := cache'\<rparr>, False)
              | Some entry \<Rightarrow>
                  let chunk = chunk\<lparr>isDuplicate := True, compressed_data_ref := Some entry, uncompressed_data := None\<rparr>
                  in Inr (set_chunk e i chunk, True))"

text \<open>The empty cache of \<^verbatim>\<open>Encode\<close>.\<close>

definition encoder_cache :: "bool \<Rightarrow> (byte list, chunk_id) hashtable outcome" where
  "encoder_cache alloc_ok =
     (case hashtable_create alloc_ok 65536 hash_from_key_fn keys_equal_fn False of
        None \<Rightarrow> Inl (Exit_Trace ''ERROR: Out of memory'')
      | Some h \<Rightarrow> Inr h)"

section \<open>Executions\<close>

text \<open>
  The middle stages as a transition system. \<open>ids\<close> lists the chunks in the order in which the reorder
  stage writes them. A chunk is deduplicated once; an original is then compressed; and the next chunk
  of the order is written once its stage has passed it on, which for an original is after compression.
  \<open>D\<close> and \<open>C\<close> are the chunks that have left deduplication and compression, \<open>k\<close> counts those written.
\<close>

record pipeline =
  enc :: encoder
  deduped :: "chunk_id set"
  compressed :: "chunk_id set"
  written :: nat

datatype action = Dedup chunk_id | Compress chunk_id | Write

definition is_original :: "encoder \<Rightarrow> chunk_id \<Rightarrow> bool" where
  "is_original e i \<longleftrightarrow> (case store e i of None \<Rightarrow> False | Some c \<Rightarrow> \<not> isDuplicate c)"

fun enabled :: "chunk_id list \<Rightarrow> pipeline \<Rightarrow> action \<Rightarrow> bool" where
  "enabled ids p (Dedup i) \<longleftrightarrow> i \<in> set ids \<and> i \<notin> deduped p"
| "enabled ids p (Compress i) \<longleftrightarrow> i \<in> deduped p \<and> is_original (enc p) i \<and> i \<notin> compressed p"
| "enabled ids p Write \<longleftrightarrow> written p < length ids \<and> ids ! written p \<in> deduped p
     \<and> (is_original (enc p) (ids ! written p) \<longrightarrow> ids ! written p \<in> compressed p)"

text \<open>The effect of an action; \<open>Inr None\<close> is a write that waits.\<close>

fun perform ::
  "(byte list \<Rightarrow> byte list) \<Rightarrow> (nat \<Rightarrow> byte list \<Rightarrow> byte list option) \<Rightarrow> byte \<Rightarrow> chunk_id list
    \<Rightarrow> action \<Rightarrow> pipeline \<Rightarrow> pipeline option outcome" where
  "perform digest compress ct ids (Dedup i) p =
     bindR (sub_Deduplicate digest True i (enc p)) (\<lambda>(e, dup).
       Inr (Some (p\<lparr>enc := e, deduped := insert i (deduped p)\<rparr>)))"
| "perform digest compress ct ids (Compress i) p =
     bindR (sub_Compress compress ct True i (enc p)) (\<lambda>e.
       Inr (Some (p\<lparr>enc := e, compressed := insert i (compressed p)\<rparr>)))"
| "perform digest compress ct ids Write p =
     bindR (write_and_release (ids ! written p) (enc p)) (\<lambda>r. case r of
       None \<Rightarrow> Inr None
     | Some e \<Rightarrow> Inr (Some (p\<lparr>enc := e, written := Suc (written p)\<rparr>)))"

inductive pipeline_step ::
  "(byte list \<Rightarrow> byte list) \<Rightarrow> (nat \<Rightarrow> byte list \<Rightarrow> byte list option) \<Rightarrow> byte \<Rightarrow> chunk_id list
    \<Rightarrow> pipeline \<Rightarrow> pipeline \<Rightarrow> bool"
  for digest compress ct ids where
  "enabled ids p a \<Longrightarrow> perform digest compress ct ids a p = Inr (Some p') \<Longrightarrow> pipeline_step digest compress ct ids p p'"


section \<open>The archive as a function of the chunks\<close>

definition data_record :: "byte list \<Rightarrow> byte list" where
  "data_record z = TYPE_COMPRESS # le_bytes 8 (word_of_nat (length z) :: u64) @ z"

definition fingerprint_record :: "byte list \<Rightarrow> byte list" where
  "fingerprint_record h = TYPE_FINGERPRINT # le_bytes 8 (word_of_nat SHA1_LEN :: u64) @ h"

text \<open>What compression makes of a chunk.\<close>

definition zipped :: "(nat \<Rightarrow> byte list \<Rightarrow> byte list option) \<Rightarrow> byte \<Rightarrow> byte list \<Rightarrow> byte list option" where
  "zipped compress ct d =
     (if ct = COMPRESS_NONE then Some d
      else if ct = COMPRESS_GZIP then compress (length d + drop_bit 9 (length d) + 12) d
      else None)"

text \<open>A chunk the encoder can process: not empty, and zlib accepts it.\<close>

definition encodable :: "(nat \<Rightarrow> byte list \<Rightarrow> byte list option) \<Rightarrow> byte \<Rightarrow> byte list \<Rightarrow> bool" where
  "encodable compress ct d \<longleftrightarrow> d \<noteq> [] \<and>
     (case zipped compress ct d of None \<Rightarrow> False | Some z \<Rightarrow> z \<noteq> [] \<and> length z < 2 ^ 31)"

text \<open>
  The body of the archive for chunks in order: the data of the first chunk with a given digest, the
  digest for every later one. \<open>seen\<close> holds the digests written so far.
\<close>

fun archive :: "(byte list \<Rightarrow> byte list) \<Rightarrow> (byte list \<Rightarrow> byte list) \<Rightarrow> byte list set \<Rightarrow> byte list list \<Rightarrow> byte list" where
  "archive digest z seen [] = []"
| "archive digest z seen (d # ds) =
     (if digest d \<in> seen then fingerprint_record (digest d) else data_record (z d))
     @ archive digest z (insert (digest d) seen) ds"

lemma archive_snoc:
  "archive digest z seen (ds @ [d]) = archive digest z seen ds @
     (if digest d \<in> seen \<union> digest ` set ds then fingerprint_record (digest d) else data_record (z d))"
  by (induction ds arbitrary: seen) auto

section \<open>Kernels on every branch\<close>

lemma write_file_ok:
  assumes "\<forall>e \<in> set (w_script fd). \<not> is_fatal e" "length content < 2 ^ 31"
  shows "\<exists>fd'. write_file fd ty len content = Inr fd' \<and> w_out fd' = w_out fd @ ty # le_bytes 8 len @ content
    \<and> (\<forall>e \<in> set (w_script fd'). \<not> is_fatal e)"
proof -
  obtain fd1 where 1: "xwrite fd [ty] = (1, fd1)" "w_out fd1 = w_out fd @ [ty]" "\<forall>e \<in> set (w_script fd1). \<not> is_fatal e"
    using xwrite_ok[OF assms(1), of "[ty]"] by auto
  obtain fd2 where 2: "xwrite fd1 (le_bytes 8 len) = (8, fd2)" "w_out fd2 = w_out fd1 @ le_bytes 8 len"
      "\<forall>e \<in> set (w_script fd2). \<not> is_fatal e"
    using xwrite_ok[OF 1(3), of "le_bytes 8 len"] by auto
  obtain fd3 where 3: "xwrite fd2 content = (int (length content), fd3)" "w_out fd3 = w_out fd2 @ content"
      "\<forall>e \<in> set (w_script fd3). \<not> is_fatal e"
    using xwrite_ok[OF 2(3) assms(2)] by auto
  show ?thesis using 1 2 3 by (simp add: write_file_def)
qed

lemma sub_Compress_ok:
  assumes "store e i = Some c" "ch_state c = CHUNK_STATE_UNCOMPRESSED" "uncompressed_data c = Some d"
    "zipped compress ct d = Some z" "d \<noteq> []" "z \<noteq> []"
  shows "sub_Compress compress ct True i e =
    Inr (set_chunk e i (c\<lparr>compressed_data := Some z, uncompressed_data := None, ch_state := CHUNK_STATE_COMPRESSED\<rparr>))"
  using assms
  by (auto simp: sub_Compress_def with_chunk_def assertR_def zipped_def Let_def COMPRESS_NONE_def COMPRESS_GZIP_def
      split: if_splits)

lemma sub_Deduplicate_miss:
  assumes "store e i = Some c" "uncompressed_data c = Some d" "hashtable_search (cache e) (digest d) = None"
  shows "sub_Deduplicate digest True i e =
    Inr ((set_chunk e i (c\<lparr>ch_sha1 := digest d, isDuplicate := False\<rparr>))
           \<lparr>cache := fst (hashtable_insert True (cache e) (digest d) i)\<rparr>, False)"
  using assms by (simp add: sub_Deduplicate_def with_chunk_def Let_def split_def) (simp add: hashtable_insert_def Let_def)

lemma sub_Deduplicate_hit:
  assumes "store e i = Some c" "uncompressed_data c = Some d" "hashtable_search (cache e) (digest d) = Some j"
  shows "sub_Deduplicate digest True i e =
    Inr (set_chunk e i (c\<lparr>ch_sha1 := digest d, isDuplicate := True, compressed_data_ref := Some j,
           uncompressed_data := None\<rparr>), True)"
  using assms by (simp add: sub_Deduplicate_def with_chunk_def Let_def)

section \<open>Invariant of the executions\<close>

text \<open>A chunk that has been through deduplication, when the digests in \<open>done\<close> have been written.\<close>

definition chunk_ok ::
  "(byte list \<Rightarrow> byte list) \<Rightarrow> (byte list \<Rightarrow> byte list) \<Rightarrow> (chunk_id \<Rightarrow> byte list)
    \<Rightarrow> chunk_id set \<Rightarrow> byte list set \<Rightarrow> encoder \<Rightarrow> chunk_id \<Rightarrow> chunk_t \<Rightarrow> bool" where
  "chunk_ok digest z data C done e i c \<longleftrightarrow>
     ch_sha1 c = digest (data i) \<and>
     (if isDuplicate c
      then \<exists>j. j \<noteq> i \<and> compressed_data_ref c = Some j \<and> hashtable_search (cache e) (digest (data i)) = Some j
      else hashtable_search (cache e) (digest (data i)) = Some i \<and>
           (if i \<in> C
            then if digest (data i) \<in> done then ch_state c = CHUNK_STATE_FLUSHED
                 else ch_state c = CHUNK_STATE_COMPRESSED \<and> compressed_data c = Some (z (data i))
            else ch_state c = CHUNK_STATE_UNCOMPRESSED \<and> uncompressed_data c = Some (data i)
                 \<and> digest (data i) \<notin> done))"

definition inv_at ::
  "(byte list \<Rightarrow> byte list) \<Rightarrow> (byte list \<Rightarrow> byte list) \<Rightarrow> (chunk_id \<Rightarrow> byte list) \<Rightarrow> chunk_id list
    \<Rightarrow> byte list \<Rightarrow> encoder \<Rightarrow> chunk_id set \<Rightarrow> chunk_id set \<Rightarrow> nat \<Rightarrow> bool" where
  "inv_at digest z data ids hdr e D C k \<longleftrightarrow>
     ht_inv (cache e) \<and> (\<forall>ev \<in> set (w_script (fd_out e)). \<not> is_fatal ev)
   \<and> D \<subseteq> set ids \<and> C \<subseteq> D \<and> set (take k ids) \<subseteq> D \<and> k \<le> length ids
   \<and> (\<forall>i \<in> set ids - D. \<exists>c. store e i = Some c \<and> uncompressed_data c = Some (data i)
         \<and> ch_state c = CHUNK_STATE_UNCOMPRESSED)
   \<and> (\<forall>i \<in> D. hashtable_search (cache e) (digest (data i)) \<noteq> None
        \<and> (case store e i of
             None \<Rightarrow> i \<in> set (take k ids) \<and> hashtable_search (cache e) (digest (data i)) \<noteq> Some i
           | Some c \<Rightarrow> chunk_ok digest z data C ((\<lambda>i. digest (data i)) ` set (take k ids)) e i c))
   \<and> (\<forall>h j. hashtable_search (cache e) h = Some j \<longrightarrow> j \<in> D \<and> digest (data j) = h \<and> is_original e j)
   \<and> w_out (fd_out e) = hdr @ archive digest z {} (map data (take k ids))"

definition pipe_inv ::
  "(byte list \<Rightarrow> byte list) \<Rightarrow> (byte list \<Rightarrow> byte list) \<Rightarrow> (chunk_id \<Rightarrow> byte list) \<Rightarrow> chunk_id list
    \<Rightarrow> byte list \<Rightarrow> pipeline \<Rightarrow> bool" where
  "pipe_inv digest z data ids hdr p \<longleftrightarrow>
     inv_at digest z data ids hdr (enc p) (deduped p) (compressed p) (written p)"

lemma inv_atD:
  assumes "inv_at digest z data ids hdr e D C k"
  shows "ht_inv (cache e)" "\<forall>ev \<in> set (w_script (fd_out e)). \<not> is_fatal ev"
    "D \<subseteq> set ids" "C \<subseteq> D" "set (take k ids) \<subseteq> D" "k \<le> length ids"
    "\<And>i. i \<in> set ids \<Longrightarrow> i \<notin> D \<Longrightarrow> \<exists>c. store e i = Some c \<and> uncompressed_data c = Some (data i)
         \<and> ch_state c = CHUNK_STATE_UNCOMPRESSED"
    "\<And>i. i \<in> D \<Longrightarrow> hashtable_search (cache e) (digest (data i)) \<noteq> None"
    "\<And>i. i \<in> D \<Longrightarrow> store e i = None \<Longrightarrow> i \<in> set (take k ids) \<and> hashtable_search (cache e) (digest (data i)) \<noteq> Some i"
    "\<And>i c. i \<in> D \<Longrightarrow> store e i = Some c \<Longrightarrow> chunk_ok digest z data C ((\<lambda>i. digest (data i)) ` set (take k ids)) e i c"
    "\<And>h j. hashtable_search (cache e) h = Some j \<Longrightarrow> j \<in> D \<and> digest (data j) = h \<and> is_original e j"
    "w_out (fd_out e) = hdr @ archive digest z {} (map data (take k ids))"
proof -
  note A = assms[unfolded inv_at_def]
  from A have ball: "\<forall>i \<in> D. hashtable_search (cache e) (digest (data i)) \<noteq> None
        \<and> (case store e i of
             None \<Rightarrow> i \<in> set (take k ids) \<and> hashtable_search (cache e) (digest (data i)) \<noteq> Some i
           | Some c \<Rightarrow> chunk_ok digest z data C ((\<lambda>i. digest (data i)) ` set (take k ids)) e i c)"
    by blast
  show "hashtable_search (cache e) (digest (data i)) \<noteq> None" if "i \<in> D" for i
    using ball that by blast
  show "i \<in> set (take k ids) \<and> hashtable_search (cache e) (digest (data i)) \<noteq> Some i"
    if "i \<in> D" "store e i = None" for i
    using bspec[OF ball that(1)] that(2) by simp
  show "chunk_ok digest z data C ((\<lambda>i. digest (data i)) ` set (take k ids)) e i c"
    if "i \<in> D" "store e i = Some c" for i c
    using bspec[OF ball that(1)] that(2) by simp
qed (use assms[unfolded inv_at_def] in blast)+

lemma inv_atI:
  assumes "ht_inv (cache e)" "\<forall>ev \<in> set (w_script (fd_out e)). \<not> is_fatal ev"
    "D \<subseteq> set ids" "C \<subseteq> D" "set (take k ids) \<subseteq> D" "k \<le> length ids"
    "\<And>i. i \<in> set ids \<Longrightarrow> i \<notin> D \<Longrightarrow> \<exists>c. store e i = Some c \<and> uncompressed_data c = Some (data i)
         \<and> ch_state c = CHUNK_STATE_UNCOMPRESSED"
    "\<And>i. i \<in> D \<Longrightarrow> hashtable_search (cache e) (digest (data i)) \<noteq> None"
    "\<And>i. i \<in> D \<Longrightarrow> store e i = None \<Longrightarrow> i \<in> set (take k ids) \<and> hashtable_search (cache e) (digest (data i)) \<noteq> Some i"
    "\<And>i c. i \<in> D \<Longrightarrow> store e i = Some c \<Longrightarrow> chunk_ok digest z data C ((\<lambda>i. digest (data i)) ` set (take k ids)) e i c"
    "\<And>h j. hashtable_search (cache e) h = Some j \<Longrightarrow> j \<in> D \<and> digest (data j) = h \<and> is_original e j"
    "w_out (fd_out e) = hdr @ archive digest z {} (map data (take k ids))"
  shows "inv_at digest z data ids hdr e D C k"
proof -
  have "\<forall>i \<in> D. hashtable_search (cache e) (digest (data i)) \<noteq> None
        \<and> (case store e i of
             None \<Rightarrow> i \<in> set (take k ids) \<and> hashtable_search (cache e) (digest (data i)) \<noteq> Some i
           | Some c \<Rightarrow> chunk_ok digest z data C ((\<lambda>i. digest (data i)) ` set (take k ids)) e i c)"
  proof
    fix i assume i: "i \<in> D"
    show "hashtable_search (cache e) (digest (data i)) \<noteq> None
        \<and> (case store e i of
             None \<Rightarrow> i \<in> set (take k ids) \<and> hashtable_search (cache e) (digest (data i)) \<noteq> Some i
           | Some c \<Rightarrow> chunk_ok digest z data C ((\<lambda>i. digest (data i)) ` set (take k ids)) e i c)"
      using assms(8)[OF i] assms(9)[OF i] assms(10)[OF i] by (cases "store e i") simp_all
  qed
  then show ?thesis using assms(1-7,11,12) unfolding inv_at_def by blast
qed

lemma chunk_ok_cong:
  assumes "chunk_ok digest z data C done e i c"
    and "hashtable_search (cache e') (digest (data i)) = hashtable_search (cache e) (digest (data i))"
    and "i \<in> C' \<longleftrightarrow> i \<in> C" "digest (data i) \<in> done' \<longleftrightarrow> digest (data i) \<in> done"
  shows "chunk_ok digest z data C' done' e' i c"
  using assms unfolding chunk_ok_def by simp

text \<open>Deduplication of a chunk that has not been through it yet.\<close>

lemma Dedup_inv:
  assumes inv: "inv_at digest z data ids hdr e D C k" and i: "i \<in> set ids" "i \<notin> D"
  shows "\<exists>e' dup. sub_Deduplicate digest True i e = Inr (e', dup) \<and> inv_at digest z data ids hdr e' (insert i D) C k"
proof -
  note I = inv_atD[OF inv]
  obtain c where c: "store e i = Some c" "uncompressed_data c = Some (data i)" "ch_state c = CHUNK_STATE_UNCOMPRESSED"
    using I(7)[OF i] by blast
  let ?done = "(\<lambda>i. digest (data i)) ` set (take k ids)"
  have iC: "i \<notin> C" using I(4) i(2) by blast
  show ?thesis
  proof (cases "hashtable_search (cache e) (digest (data i))")
    case None
    define e' where "e' = (set_chunk e i (c\<lparr>ch_sha1 := digest (data i), isDuplicate := False\<rparr>))
           \<lparr>cache := fst (hashtable_insert True (cache e) (digest (data i)) i)\<rparr>"
    have s': "hashtable_search (cache e') = (hashtable_search (cache e))(digest (data i) \<mapsto> i)"
      using ht.search_put[OF I(1), of "digest (data i)" i] by (simp add: e'_def)
    have other: "digest (data x) \<noteq> digest (data i)" if "x \<in> D" for x using I(8)[OF that] None by auto
    have fresh: "digest (data i) \<notin> ?done"
    proof
      assume "digest (data i) \<in> ?done"
      then obtain x where "x \<in> set (take k ids)" "digest (data i) = digest (data x)" by blast
      with other[of x] I(5) show False by auto
    qed
    have "inv_at digest z data ids hdr e' (insert i D) C k"
    proof (rule inv_atI)
      show "ht_inv (cache e')" using ht_insert_inv[OF I(1)] by (simp add: e'_def)
      show "\<exists>c. store e' x = Some c \<and> uncompressed_data c = Some (data x) \<and> ch_state c = CHUNK_STATE_UNCOMPRESSED"
        if "x \<in> set ids" "x \<notin> insert i D" for x
        using I(7)[OF that(1)] that(2) by (simp add: e'_def set_chunk_def)
      show "hashtable_search (cache e') (digest (data x)) \<noteq> None" if "x \<in> insert i D" for x
        using I(8) that by (auto simp: s')
      show "x \<in> set (take k ids) \<and> hashtable_search (cache e') (digest (data x)) \<noteq> Some x"
        if "x \<in> insert i D" "store e' x = None" for x
      proof -
        have "x \<noteq> i" "store e x = None" using that(2) by (auto simp: e'_def set_chunk_def split: if_splits)
        then show ?thesis using that(1) I(9)[of x] other[of x] by (simp add: s')
      qed
      show "chunk_ok digest z data C ?done e' x cx" if "x \<in> insert i D" "store e' x = Some cx" for x cx
      proof (cases "x = i")
        case True
        then have "cx = c\<lparr>ch_sha1 := digest (data i), isDuplicate := False\<rparr>"
          using that(2) by (simp add: e'_def set_chunk_def)
        then show ?thesis using True c iC fresh by (simp add: chunk_ok_def s')
      next
        case False
        then have x: "x \<in> D" "store e x = Some cx" using that by (auto simp: e'_def set_chunk_def)
        then show ?thesis using chunk_ok_cong[OF I(10)[OF x]] other[OF x(1)] by (simp add: s')
      qed
      show "j \<in> insert i D \<and> digest (data j) = h \<and> is_original e' j" if "hashtable_search (cache e') h = Some j" for h j
      proof (cases "h = digest (data i)")
        case True
        then show ?thesis using that by (simp add: s') (simp add: e'_def set_chunk_def is_original_def)
      next
        case False
        then have "j \<in> D \<and> digest (data j) = h \<and> is_original e j" using that I(11)[of h j] by (simp add: s')
        then show ?thesis by (auto simp: e'_def set_chunk_def is_original_def)
      qed
    qed (use I i in \<open>auto simp: e'_def set_chunk_def\<close>)
    then show ?thesis using sub_Deduplicate_miss[where digest = digest, OF c(1,2) None] by (auto simp: e'_def)
  next
    case (Some j)
    define e' where "e' = set_chunk e i (c\<lparr>ch_sha1 := digest (data i), isDuplicate := True, compressed_data_ref := Some j,
           uncompressed_data := None\<rparr>)"
    have j: "j \<in> D" "j \<noteq> i" using I(11)[OF Some] i(2) by auto
    have s': "cache e' = cache e" by (simp add: e'_def set_chunk_def)
    have "inv_at digest z data ids hdr e' (insert i D) C k"
    proof (rule inv_atI)
      show "\<exists>c. store e' x = Some c \<and> uncompressed_data c = Some (data x) \<and> ch_state c = CHUNK_STATE_UNCOMPRESSED"
        if "x \<in> set ids" "x \<notin> insert i D" for x
        using I(7)[OF that(1)] that(2) by (simp add: e'_def set_chunk_def)
      show "hashtable_search (cache e') (digest (data x)) \<noteq> None" if "x \<in> insert i D" for x
        using I(8) that Some by (auto simp: s')
      show "x \<in> set (take k ids) \<and> hashtable_search (cache e') (digest (data x)) \<noteq> Some x"
        if "x \<in> insert i D" "store e' x = None" for x
        using that I(9)[of x] by (auto simp: s' e'_def set_chunk_def split: if_splits)
      show "chunk_ok digest z data C ?done e' x cx" if "x \<in> insert i D" "store e' x = Some cx" for x cx
      proof (cases "x = i")
        case True
        then show ?thesis
          using that Some j by (auto simp: chunk_ok_def s' e'_def set_chunk_def)
      next
        case False
        then have x: "x \<in> D" "store e x = Some cx" using that by (auto simp: e'_def set_chunk_def)
        then show ?thesis using chunk_ok_cong[OF I(10)[OF x]] by (simp add: s')
      qed
      show "j' \<in> insert i D \<and> digest (data j') = h \<and> is_original e' j'" if "hashtable_search (cache e') h = Some j'" for h j'
        using that I(11)[of h j'] i(2) by (auto simp: s' e'_def set_chunk_def is_original_def split: option.splits)
    qed (use I i in \<open>auto simp: e'_def set_chunk_def\<close>)
    then show ?thesis using sub_Deduplicate_hit[where digest = digest, OF c(1,2) Some] by (auto simp: e'_def)
  qed
qed

text \<open>Compression of an original.\<close>

lemma Compress_inv:
  assumes inv: "inv_at digest z data ids hdr e D C k" and i: "i \<in> D" "is_original e i" "i \<notin> C"
    and enc: "zipped compress ct (data i) = Some (z (data i))" "data i \<noteq> []" "z (data i) \<noteq> []"
  shows "\<exists>e'. sub_Compress compress ct True i e = Inr e' \<and> inv_at digest z data ids hdr e' D (insert i C) k"
proof -
  note I = inv_atD[OF inv]
  let ?done = "(\<lambda>i. digest (data i)) ` set (take k ids)"
  obtain c where c: "store e i = Some c" "\<not> isDuplicate c" using i(2) by (auto simp: is_original_def split: option.splits)
  have ok: "chunk_ok digest z data C ?done e i c" by (rule I(10)[OF i(1) c(1)])
  then have st: "ch_state c = CHUNK_STATE_UNCOMPRESSED" "uncompressed_data c = Some (data i)" "digest (data i) \<notin> ?done"
    and own: "hashtable_search (cache e) (digest (data i)) = Some i"
    using c(2) i(3) by (auto simp: chunk_ok_def)
  define e' where "e' = set_chunk e i (c\<lparr>compressed_data := Some (z (data i)), uncompressed_data := None,
      ch_state := CHUNK_STATE_COMPRESSED\<rparr>)"
  have s': "cache e' = cache e" by (simp add: e'_def set_chunk_def)
  have "inv_at digest z data ids hdr e' D (insert i C) k"
  proof (rule inv_atI)
    show "\<exists>c. store e' x = Some c \<and> uncompressed_data c = Some (data x) \<and> ch_state c = CHUNK_STATE_UNCOMPRESSED"
      if "x \<in> set ids" "x \<notin> D" for x
      using I(7)[OF that] that i(1) by (auto simp: e'_def set_chunk_def)
    show "x \<in> set (take k ids) \<and> hashtable_search (cache e') (digest (data x)) \<noteq> Some x"
      if "x \<in> D" "store e' x = None" for x
      using that I(9)[of x] by (auto simp: s' e'_def set_chunk_def split: if_splits)
    show "chunk_ok digest z data (insert i C) ?done e' x cx" if "x \<in> D" "store e' x = Some cx" for x cx
    proof (cases "x = i")
      case True
      have "ch_sha1 c = digest (data i)" using ok by (simp add: chunk_ok_def)
      then show ?thesis
        using True that c(2) st own by (auto simp: chunk_ok_def s' e'_def set_chunk_def)
    next
      case False
      then have "store e x = Some cx" using that by (auto simp: e'_def set_chunk_def)
      then show ?thesis using chunk_ok_cong[OF I(10)[OF that(1)]] False by (simp add: s')
    qed
    show "j \<in> D \<and> digest (data j) = h \<and> is_original e' j" if "hashtable_search (cache e') h = Some j" for h j
      using that I(11)[of h j] c(2) by (auto simp: s' e'_def set_chunk_def is_original_def split: option.splits)
  qed (use I i in \<open>auto simp: e'_def set_chunk_def\<close>)
  then show ?thesis using sub_Compress_ok[OF c(1) st(1,2) enc] by (auto simp: e'_def)
qed


text \<open>
  Writing the next chunk: it waits when its original is still to be compressed; otherwise it appends
  the record the archive prescribes.
\<close>

lemma Write_inv:
  assumes inv: "inv_at digest z data ids hdr e D C k" and dist: "distinct ids"
    and inj: "inj_on digest (data ` set ids)"
    and k: "k < length ids" "ids ! k \<in> D" "is_original e (ids ! k) \<longrightarrow> ids ! k \<in> C"
    and len: "length (z (data (ids ! k))) < 2 ^ 31" "length (digest (data (ids ! k))) < 2 ^ 31"
  shows "(\<exists>e'. write_and_release (ids ! k) e = Inr (Some e') \<and> inv_at digest z data ids hdr e' D C (Suc k))
    \<or> (write_and_release (ids ! k) e = Inr None \<and> (\<exists>j. j \<in> D \<and> is_original e j \<and> j \<notin> C))"
proof -
  note I = inv_atD[OF inv]
  define i where "i = ids ! k"
  define W where "W = (\<lambda>i. digest (data i)) ` set (take k ids)"
  have iD: "i \<in> D" and iids: "i \<in> set ids" using k by (auto simp: i_def)
  have "i \<notin> set (take k ids)" using dist k(1) by (simp add: i_def in_set_conv_nth nth_eq_iff_index_eq)
  then obtain c where c: "store e i = Some c" using I(9)[OF iD] by (cases "store e i") auto
  have ok: "chunk_ok digest z data C W e i c" unfolding W_def by (rule I(10)[OF iD c])
  obtain j where j: "hashtable_search (cache e) (digest (data i)) = Some j"
    and orig: "(if isDuplicate c then compressed_data_ref c else Some i) = Some j"
    and ji: "j = i \<longleftrightarrow> \<not> isDuplicate c"
    using ok by (auto simp: chunk_ok_def split: if_splits)
  obtain cj where jD: "j \<in> D" and dj: "digest (data j) = digest (data i)"
    and cj: "store e j = Some cj" "\<not> isDuplicate cj"
    using I(11)[OF j] by (auto simp: is_original_def split: option.splits)
  have data: "data j = data i" using inj dj jD iids I(3) by (auto dest: inj_onD)
  have okj: "chunk_ok digest z data C W e j cj" unfolding W_def by (rule I(10)[OF jD cj(1)])
  have jC: "j \<in> C" if "j = i" using that k(3) c ji by (auto simp: i_def is_original_def)
  have take_Suc: "take (Suc k) ids = take k ids @ [i]" using k(1) by (simp add: take_Suc_conv_app_nth i_def)
  have W': "(\<lambda>i. digest (data i)) ` set (take (Suc k) ids) = insert (digest (data i)) W"
    by (simp add: take_Suc W_def)
  have wr: "write_chunk_to_file i e =
      (case ch_state cj of
         CHUNK_STATE_UNCOMPRESSED \<Rightarrow> Inr None
       | CHUNK_STATE_COMPRESSED \<Rightarrow>
           (case compressed_data cj of
              None \<Rightarrow> Inl Invalid_Pointer
            | Some zz \<Rightarrow>
                bindR (write_file (fd_out e) TYPE_COMPRESS (word_of_nat (length zz)) zz) (\<lambda>fd.
                  Inr (Some (set_chunk (e\<lparr>fd_out := fd\<rparr>) j
                    (cj\<lparr>compressed_data := None, ch_state := CHUNK_STATE_FLUSHED\<rparr>)))))
       | CHUNK_STATE_FLUSHED \<Rightarrow>
           bindR (write_file (fd_out e) TYPE_FINGERPRINT (word_of_nat SHA1_LEN) (ch_sha1 cj)) (\<lambda>fd.
             Inr (Some (e\<lparr>fd_out := fd\<rparr>))))"
    using c cj orig by (simp add: write_chunk_to_file_def with_chunk_def)
  show ?thesis
  proof (cases "j \<in> C")
    case False
    then have "ch_state cj = CHUNK_STATE_UNCOMPRESSED" using okj cj(2) by (simp add: chunk_ok_def)
    then have "write_and_release i e = Inr None" using wr by (simp add: write_and_release_def)
    moreover have "is_original e j" using cj by (simp add: is_original_def)
    ultimately show ?thesis using False jD by (auto simp: i_def)
  next
    case True
    define cj' where "cj' = (if digest (data i) \<in> W then cj
      else cj\<lparr>compressed_data := None, ch_state := CHUNK_STATE_FLUSHED\<rparr>)"
    define rec where "rec = (if digest (data i) \<in> W then fingerprint_record (digest (data i)) else data_record (z (data i)))"
    have stj: "if digest (data i) \<in> W then ch_state cj = CHUNK_STATE_FLUSHED
        else ch_state cj = CHUNK_STATE_COMPRESSED \<and> compressed_data cj = Some (z (data i))"
      and shaj: "ch_sha1 cj = digest (data i)"
      using okj cj(2) True dj data by (auto simp: chunk_ok_def)
    obtain fd where fd: "w_out fd = w_out (fd_out e) @ rec" "\<forall>ev \<in> set (w_script fd). \<not> is_fatal ev"
      and w: "write_chunk_to_file i e = Inr (Some ((e\<lparr>fd_out := fd\<rparr>)\<lparr>store := (store e)(j \<mapsto> cj')\<rparr>))"
    proof (cases "digest (data i) \<in> W")
      case hit: True
      obtain fd where "write_file (fd_out e) TYPE_FINGERPRINT (word_of_nat SHA1_LEN) (digest (data i)) = Inr fd"
          "w_out fd = w_out (fd_out e) @ rec" "\<forall>ev \<in> set (w_script fd). \<not> is_fatal ev"
        using write_file_ok[OF I(2) len(2), of TYPE_FINGERPRINT "word_of_nat SHA1_LEN"] hit
        by (auto simp: rec_def fingerprint_record_def i_def)
      then show thesis using that[of fd] wr stj hit shaj cj(1) by (simp add: cj'_def fun_upd_idem)
    next
      case miss: False
      obtain fd where "write_file (fd_out e) TYPE_COMPRESS (word_of_nat (length (z (data i)))) (z (data i)) = Inr fd"
          "w_out fd = w_out (fd_out e) @ rec" "\<forall>ev \<in> set (w_script fd). \<not> is_fatal ev"
        using write_file_ok[OF I(2) len(1), of TYPE_COMPRESS "word_of_nat (length (z (data i)))"] miss
        by (auto simp: rec_def data_record_def i_def)
      then show thesis using that[of fd] wr stj miss by (simp add: cj'_def set_chunk_def)
    qed
    define e' where "e' = (e\<lparr>fd_out := fd\<rparr>)\<lparr>store := (if isDuplicate c then ((store e)(j \<mapsto> cj'))(i := None) else (store e)(j \<mapsto> cj'))\<rparr>"
    have dup': "isDuplicate cj' = False" using cj(2) by (simp add: cj'_def)
    have wrel: "write_and_release i e = Inr (Some e')"
      using w c cj ji dup' by (auto simp: write_and_release_def with_chunk_def e'_def)
    have s': "cache e' = cache e" by (simp add: e'_def)
    have "inv_at digest z data ids hdr e' D C (Suc k)"
    proof (rule inv_atI)
      show "set (take (Suc k) ids) \<subseteq> D" using I(5) iD by (simp add: take_Suc)
      show "\<exists>c. store e' x = Some c \<and> uncompressed_data c = Some (data x) \<and> ch_state c = CHUNK_STATE_UNCOMPRESSED"
        if "x \<in> set ids" "x \<notin> D" for x
        using I(7)[OF that] that jD iD by (auto simp: e'_def)
      show "x \<in> set (take (Suc k) ids) \<and> hashtable_search (cache e') (digest (data x)) \<noteq> Some x"
        if x: "x \<in> D" "store e' x = None" for x
      proof (cases "x = i \<and> isDuplicate c")
        case True
        then show ?thesis using j ji by (auto simp: s' take_Suc)
      next
        case False
        then have "store e x = None" using x(2) by (auto simp: e'_def split: if_splits)
        then show ?thesis using I(9)[OF x(1)] by (auto simp: s' take_Suc)
      qed
      show "chunk_ok digest z data C ((\<lambda>i. digest (data i)) ` set (take (Suc k) ids)) e' x cx"
        if x: "x \<in> D" "store e' x = Some cx" for x cx
      proof (cases "x = j")
        case True
        then have "cx = cj'" using x(2) ji by (auto simp: e'_def split: if_splits)
        moreover have "ch_state cj' = CHUNK_STATE_FLUSHED" "ch_sha1 cj' = digest (data i)"
          using stj shaj by (auto simp: cj'_def)
        ultimately show ?thesis
          using True dup' \<open>j \<in> C\<close> j dj by (simp add: chunk_ok_def s' W')
      next
        case False
        then have sx: "store e x = Some cx" using x(2) by (auto simp: e'_def split: if_splits)
        have ox: "chunk_ok digest z data C W e x cx" unfolding W_def by (rule I(10)[OF x(1) sx])
        show ?thesis
        proof (cases "isDuplicate cx")
          case True
          then show ?thesis using ox by (simp add: chunk_ok_def s')
        next
          case nd: False
          then have "hashtable_search (cache e) (digest (data x)) = Some x" using ox by (simp add: chunk_ok_def)
          then have "digest (data x) \<noteq> digest (data i)" using j False by auto
          then show ?thesis using chunk_ok_cong[OF ox, of e' C] by (simp add: s' W')
        qed
      qed
      show "j' \<in> D \<and> digest (data j') = h \<and> is_original e' j'" if "hashtable_search (cache e') h = Some j'" for h j'
      proof -
        have "j' \<in> D \<and> digest (data j') = h \<and> is_original e j'" using that I(11) by (simp add: s')
        moreover have "j' \<noteq> i" if "isDuplicate c" using calculation that c by (auto simp: is_original_def)
        ultimately show ?thesis using dup' by (auto simp: e'_def is_original_def split: option.splits)
      qed
      have "rec = (if digest (data i) \<in> digest ` set (map data (take k ids)) then fingerprint_record (digest (data i))
          else data_record (z (data i)))"
        by (simp add: rec_def W_def image_image)
      then show "w_out (fd_out e') = hdr @ archive digest z {} (map data (take (Suc k) ids))"
        using fd(1) I(12) by (simp add: e'_def take_Suc archive_snoc)
    qed (use I k fd in \<open>auto simp: s' e'_def\<close>)
    then show ?thesis using wrel by (auto simp: i_def)
  qed
qed


section \<open>Properties\<close>

definition chunks_ready :: "chunk_id list \<Rightarrow> (chunk_id \<Rightarrow> byte list) \<Rightarrow> encoder \<Rightarrow> bool" where
  "chunks_ready ids data e \<longleftrightarrow> (\<forall>i \<in> set ids. case store e i of None \<Rightarrow> False
     | Some c \<Rightarrow> uncompressed_data c = Some (data i) \<and> ch_state c = CHUNK_STATE_UNCOMPRESSED)"

definition pipeline_start :: "encoder \<Rightarrow> pipeline" where
  "pipeline_start e = \<lparr>enc = e, deduped = {}, compressed = {}, written = 0\<rparr>"

definition zip_of :: "(nat \<Rightarrow> byte list \<Rightarrow> byte list option) \<Rightarrow> byte \<Rightarrow> byte list \<Rightarrow> byte list" where
  "zip_of compress ct d = the (zipped compress ct d)"

lemma encodable_zip:
  "encodable compress ct d \<Longrightarrow> zipped compress ct d = Some (zip_of compress ct d) \<and> d \<noteq> [] \<and> zip_of compress ct d \<noteq> []
     \<and> length (zip_of compress ct d) < 2 ^ 31"
  by (auto simp: encodable_def zip_of_def split: option.splits)

lemma encoder_cache_empty:
  "encoder_cache ok = Inr h \<Longrightarrow> ht_inv h \<and> hashtable_search h k = None"
proof -
  assume "encoder_cache ok = Inr h"
  moreover have "keys_equal_fn = (=)" by (intro ext) (simp add: keys_equal_fn_def)
  ultimately have "hashtable_create ok 65536 hash_from_key_fn (=) False = Some h"
    by (auto simp: encoder_cache_def split: option.splits)
  from hashtable_create_inv[OF this] show ?thesis by (simp add: ht_search)
qed

lemma pipe_inv_start:
  assumes "encoder_cache True = Inr (cache e)" "chunks_ready ids data e"
    "\<forall>ev \<in> set (w_script (fd_out e)). \<not> is_fatal ev"
  shows "pipe_inv digest z data ids (w_out (fd_out e)) (pipeline_start e)"
proof -
  have "\<exists>c. store e i = Some c \<and> uncompressed_data c = Some (data i) \<and> ch_state c = CHUNK_STATE_UNCOMPRESSED"
    if "i \<in> set ids" for i
    using bspec[OF assms(2)[unfolded chunks_ready_def] that] by (auto split: option.splits)
  then show ?thesis using assms(3) encoder_cache_empty[OF assms(1)]
    unfolding pipe_inv_def pipeline_start_def inv_at_def by simp
qed

text \<open>Every enabled action succeeds, or is a write that waits for an enabled compression.\<close>

lemma perform_inv:
  assumes inv: "pipe_inv digest (zip_of compress ct) data ids hdr p" and en: "enabled ids p a"
    and dist: "distinct ids" and inj: "inj_on digest (data ` set ids)"
    and enc: "\<forall>i \<in> set ids. encodable compress ct (data i) \<and> length (digest (data i)) = SHA1_LEN"
  shows "(\<exists>p'. perform digest compress ct ids a p = Inr (Some p') \<and> pipe_inv digest (zip_of compress ct) data ids hdr p'
        \<and> card (deduped p') + card (compressed p') + written p' = Suc (card (deduped p) + card (compressed p) + written p))
    \<or> (perform digest compress ct ids a p = Inr None \<and> (\<exists>j. enabled ids p (Compress j)))"
proof -
  note inv' = inv[unfolded pipe_inv_def]
  note I = inv_atD[OF inv']
  have fin1: "finite (deduped p)" by (rule finite_subset[OF I(3)]) simp
  have fin: "finite (deduped p)" "finite (compressed p)" using fin1 finite_subset[OF I(4) fin1] by auto
  show ?thesis
  proof (cases a)
    case (Dedup i)
    then have i: "i \<in> set ids" "i \<notin> deduped p" using en by auto
    obtain e' dup where "sub_Deduplicate digest True i (enc p) = Inr (e', dup)"
        "inv_at digest (zip_of compress ct) data ids hdr e' (insert i (deduped p)) (compressed p) (written p)"
      using Dedup_inv[OF inv' i] by blast
    then show ?thesis using fin i by (auto simp: Dedup pipe_inv_def)
  next
    case (Compress i)
    then have i: "i \<in> deduped p" "is_original (enc p) i" "i \<notin> compressed p" using en by auto
    then have "encodable compress ct (data i)" using I(3) enc by blast
    then obtain e' where "sub_Compress compress ct True i (enc p) = Inr e'"
        "inv_at digest (zip_of compress ct) data ids hdr e' (deduped p) (insert i (compressed p)) (written p)"
      using Compress_inv[OF inv' i] encodable_zip[of compress ct "data i"] by blast
    then show ?thesis using fin i by (auto simp: Compress pipe_inv_def)
  next
    case Write
    then have w: "written p < length ids" "ids ! written p \<in> deduped p"
        "is_original (enc p) (ids ! written p) \<longrightarrow> ids ! written p \<in> compressed p" using en by auto
    have "ids ! written p \<in> set ids" using w(1) by simp
    then have "length (zip_of compress ct (data (ids ! written p))) < 2 ^ 31" "length (digest (data (ids ! written p))) < 2 ^ 31"
      using enc encodable_zip[of compress ct "data (ids ! written p)"] by (auto simp: SHA1_LEN_def)
    from Write_inv[OF inv' dist inj w this] consider
        e' where "write_and_release (ids ! written p) (enc p) = Inr (Some e')"
          "inv_at digest (zip_of compress ct) data ids hdr e' (deduped p) (compressed p) (Suc (written p))"
      | j where "write_and_release (ids ! written p) (enc p) = Inr None"
          "j \<in> deduped p" "is_original (enc p) j" "j \<notin> compressed p" by blast
    then show ?thesis
    proof cases
      case 1
      then show ?thesis by (simp add: Write pipe_inv_def)
    next
      case 2
      then show ?thesis by (auto simp: Write)
    qed
  qed
qed

lemma enabled_some:
  assumes inv: "pipe_inv digest z data ids hdr p" and k: "written p < length ids"
  shows "\<exists>a. enabled ids p a"
proof (cases "ids ! written p \<in> deduped p")
  case False
  then have "enabled ids p (Dedup (ids ! written p))" using k by simp
  then show ?thesis ..
next
  case True
  show ?thesis
  proof (cases "is_original (enc p) (ids ! written p) \<and> ids ! written p \<notin> compressed p")
    case c: True
    then have "enabled ids p (Compress (ids ! written p))" using True by simp
    then show ?thesis ..
  next
    case False
    then have "enabled ids p Write" using True k by simp
    then show ?thesis ..
  qed
qed

text \<open>The invariant in every state the pipeline reaches, and the number of calls made so far.\<close>

lemma pipeline_reach_inv:
  assumes "distinct ids" "inj_on digest (data ` set ids)"
    "\<forall>i \<in> set ids. encodable compress ct (data i) \<and> length (digest (data i)) = SHA1_LEN"
    "encoder_cache True = Inr (cache e)" "chunks_ready ids data e"
    "\<forall>ev \<in> set (w_script (fd_out e)). \<not> is_fatal ev"
    "(pipeline_step digest compress ct ids ^^ n) (pipeline_start e) p"
  shows "pipe_inv digest (zip_of compress ct) data ids (w_out (fd_out e)) p"
    and "card (deduped p) + card (compressed p) + written p = n"
proof -
  let ?inv = "pipe_inv digest (zip_of compress ct) data ids (w_out (fd_out e))"
  have "?inv p \<and> card (deduped p) + card (compressed p) + written p = n"
    using assms(7)
  proof (induction n arbitrary: p)
    case 0
    then have "p = pipeline_start e" by simp
    then show ?case using pipe_inv_start[OF assms(4-6)] by (simp add: pipeline_start_def)
  next
    case (Suc n)
    then obtain q where q: "(pipeline_step digest compress ct ids ^^ n) (pipeline_start e) q"
        "pipeline_step digest compress ct ids q p" by auto
    obtain a where a: "enabled ids q a" "perform digest compress ct ids a q = Inr (Some p)"
      using q(2) by cases
    from perform_inv[OF _ a(1) assms(1-3)] Suc.IH[OF q(1)] a(2) show ?case by auto
  qed
  then show "?inv p" "card (deduped p) + card (compressed p) + written p = n" by auto
qed

lemma pipe_inv_archive:
  "pipe_inv digest z data ids out p \<Longrightarrow> written p = length ids
     \<Longrightarrow> w_out (fd_out (enc p)) = out @ archive digest z {} (map data ids)"
  using inv_atD(12)[of digest z data ids out "enc p" "deduped p" "compressed p" "written p"]
  by (auto simp: pipe_inv_def)

text \<open>Calls that can be made, and that a schedule that keeps making them writes every chunk.\<close>

lemma pipe_inv_progress:
  assumes inv: "pipe_inv digest (zip_of compress ct) data ids out p"
    and pre: "distinct ids" "inj_on digest (data ` set ids)"
      "\<forall>i \<in> set ids. encodable compress ct (data i) \<and> length (digest (data i)) = SHA1_LEN"
    and w: "written p < length ids"
  shows "\<exists>p'. pipeline_step digest compress ct ids p p'"
proof -
  obtain a where a: "enabled ids p a" using enabled_some[OF inv w] by blast
  from perform_inv[OF inv a pre] consider
      p' where "perform digest compress ct ids a p = Inr (Some p')" | j where "enabled ids p (Compress j)" by blast
  then show ?thesis
  proof cases
    case 1
    then show ?thesis using a pipeline_step.intros by blast
  next
    case 2
    then obtain p' where "perform digest compress ct ids (Compress j) p = Inr (Some p')"
      using perform_inv[OF inv 2 pre] by (auto simp: bindR_eq_Inr)
    then show ?thesis using 2 pipeline_step.intros by blast
  qed
qed

lemma pipe_inv_bound:
  assumes "pipe_inv digest z data ids out p"
  shows "card (deduped p) + card (compressed p) + written p \<le> 3 * length ids"
proof -
  note I = inv_atD[OF assms[unfolded pipe_inv_def]]
  have "card (deduped p) \<le> length ids" using card_mono[OF _ I(3)] card_length[of ids] by (meson finite_set le_trans)
  moreover have "card (compressed p) \<le> card (deduped p)" using I(3,4) by (meson card_mono finite_set finite_subset)
  ultimately show ?thesis using I(6) by linarith
qed

lemma pipeline_completes:
  assumes "distinct ids" "inj_on digest (data ` set ids)"
    "\<forall>i \<in> set ids. encodable compress ct (data i) \<and> length (digest (data i)) = SHA1_LEN"
    "encoder_cache True = Inr (cache e)" "chunks_ready ids data e"
    "\<forall>ev \<in> set (w_script (fd_out e)). \<not> is_fatal ev"
  shows "\<exists>n p. (pipeline_step digest compress ct ids ^^ n) (pipeline_start e) p \<and> written p = length ids"
proof (rule ccontr)
  assume never: "\<not> ?thesis"
  have "\<exists>p. (pipeline_step digest compress ct ids ^^ n) (pipeline_start e) p" for n
  proof (induction n)
    case (Suc n)
    then obtain p where p: "(pipeline_step digest compress ct ids ^^ n) (pipeline_start e) p" by blast
    note inv = pipeline_reach_inv(1)[OF assms p]
    have "written p < length ids" using inv_atD(6)[OF inv[unfolded pipe_inv_def]] never p by fastforce
    then show ?case using pipe_inv_progress[OF inv assms(1-3)] p by auto
  qed auto
  then obtain p where p: "(pipeline_step digest compress ct ids ^^ Suc (3 * length ids)) (pipeline_start e) p" by blast
  show False using pipe_inv_bound[OF pipeline_reach_inv(1)[OF assms p]] pipeline_reach_inv(2)[OF assms p] by simp
qed

text \<open>
  C16. The middle stages of the pipeline under every interleaving of the threads. Start with chunks
  in the store, an empty cache and an output file without fatal errors; let zlib accept the chunks
  and let no two of them collide under the digest. Then in every reachable state every enabled kernel
  call succeeds without fault, or is a write that waits while a compression is enabled; as long as
  chunks are left to write some call makes progress; no execution is longer than three calls per
  chunk; and when all chunks are written the file is the archive of the chunks in order, so the
  output does not depend on the schedule, on which of several equal chunks was found first, or on
  which was compressed first.
\<close>

theorem pipeline_output:
  assumes "distinct ids" "inj_on digest (data ` set ids)"
    "\<forall>i \<in> set ids. encodable compress ct (data i) \<and> length (digest (data i)) = SHA1_LEN"
    "encoder_cache True = Inr (cache e)" "chunks_ready ids data e"
    "\<forall>ev \<in> set (w_script (fd_out e)). \<not> is_fatal ev"
    "(pipeline_step digest compress ct ids ^^ n) (pipeline_start e) p"
  shows "n \<le> 3 * length ids
    \<and> (\<forall>a. enabled ids p a \<longrightarrow> (\<exists>r. perform digest compress ct ids a p = Inr r))
    \<and> (written p < length ids \<longrightarrow> (\<exists>p'. pipeline_step digest compress ct ids p p'))
    \<and> (written p = length ids \<longrightarrow> w_out (fd_out (enc p)) =
         w_out (fd_out e) @ archive digest (zip_of compress ct) {} (map data ids))"
proof -
  let ?inv = "pipe_inv digest (zip_of compress ct) data ids (w_out (fd_out e))"
  have inv: "?inv p" and n: "card (deduped p) + card (compressed p) + written p = n"
    by (rule pipeline_reach_inv[OF assms])+
  have bound: "n \<le> 3 * length ids" using pipe_inv_bound[OF inv] n by simp
  have enabled_ok: "\<exists>r. perform digest compress ct ids a p = Inr r" if "enabled ids p a" for a
    using perform_inv[OF inv that assms(1-3)] by blast
  have progress: "written p < length ids \<Longrightarrow> \<exists>p'. pipeline_step digest compress ct ids p p'"
    by (rule pipe_inv_progress[OF inv assms(1-3)])
  show ?thesis using bound enabled_ok progress pipe_inv_archive[OF inv] by blast
qed


theorem pipeline_output_witness:
  "\<exists>e p'. encoder_cache True = Inr (cache e) \<and> chunks_ready [0, 1] (\<lambda>_. [7]) e
    \<and> pipeline_step (\<lambda>_. replicate 20 0) (\<lambda>n d. Some d) COMPRESS_NONE [0, 1] (pipeline_start e) p'"
proof -
  obtain h where h: "encoder_cache True = Inr h"
    by (simp add: encoder_cache_def hashtable_create_def Let_def)
  define c where "c = \<lparr>isDuplicate = False, ch_state = CHUNK_STATE_UNCOMPRESSED, ch_sha1 = [], uncompressed_data = Some [7],
      compressed_data = None, compressed_data_ref = None, ch_sequence = sequence_reset, isLastL2Chunk = False\<rparr>"
  define e where "e = \<lparr>store = (\<lambda>i. Some c), cache = h, fd_out = \<lparr>w_out = [], w_script = [Partial 3]\<rparr>\<rparr>"
  have pre: "encoder_cache True = Inr (cache e)" "chunks_ready [0, 1] (\<lambda>_. [7]) e"
    using h by (simp_all add: e_def c_def chunks_ready_def)
  have enc: "encodable (\<lambda>n d. Some d) COMPRESS_NONE [7]" by (simp add: encodable_def zipped_def)
  have "\<exists>p'. pipeline_step (\<lambda>_. replicate 20 0) (\<lambda>n d. Some d) COMPRESS_NONE [0, 1] (pipeline_start e) p'"
    using pipeline_output[of "[0, 1]" "\<lambda>_. replicate 20 0" "\<lambda>_. [7]" "\<lambda>n d. Some d" COMPRESS_NONE e 0 "pipeline_start e"]
      pre enc by (simp add: SHA1_LEN_def e_def pipeline_start_def)
  then show ?thesis using pre by blast
qed

end
