(* ===== verification/Decoder.thy ===== *)
theory Decoder
  imports Encoder
begin

text \<open>
  The decoder of dedup (\<^verbatim>\<open>apps/dedup/src/decoder.c\<close>): reading a chunk record, decompression, and the
  loop that rebuilds the stream. zlib's \<^verbatim>\<open>uncompress\<close> is an argument: \<open>uncompress n src\<close> gives the
  decompressed bytes when the result is \<^verbatim>\<open>Z_OK\<close> and fits in \<open>n\<close> bytes. \<open>junk\<close> is what fresh memory holds.
  The cache keeps, for each digest, the uncompressed data of its chunk.
\<close>

section \<open>Reading and decompressing a chunk\<close>

datatype chunk_in = Chunk_End | Chunk_Fingerprint "byte list" | Chunk_Data "byte list"

text \<open>\<^verbatim>\<open>read_chunk\<close>: the returned length (as an \<^verbatim>\<open>int\<close>), what was read, and the file.\<close>

definition read_chunk :: "(nat \<Rightarrow> byte) \<Rightarrow> bool \<Rightarrow> rfd \<Rightarrow> (int \<times> chunk_in \<times> rfd) outcome" where
  "read_chunk junk alloc_ok fd =
     (let (r, buf, fd) = xread fd [junk 0]
      in if r < 0 then Inl (Exit_Trace ''xread type fails'')
         else if r = 0 then Inr (0, Chunk_End, fd)
         else let ty = buf ! 0; (r, buf, fd) = xread fd (map junk [0..<8])
              in if r < 0 then Inl (Exit_Trace ''xread length fails'')
                 else if r = 0 then Inl (Exit_Trace ''incomplete chunk'')
                 else let len = (le_word buf :: u64)
                      in if ty = TYPE_FINGERPRINT
                         then if len \<noteq> word_of_nat SHA1_LEN then Inl (Exit_Trace ''incorrect size of SHA1 sum'')
                              else let (r, buf, fd) = xread fd (map junk [0..<SHA1_LEN])
                                   in if r < 0 then Inl (Exit_Trace ''xread SHA1 sum fails'')
                                      else if r = 0 then Inl (Exit_Trace ''incomplete chunk'')
                                      else Inr (int_of_size len, Chunk_Fingerprint buf, fd)
                         else if ty = TYPE_COMPRESS
                         then if len \<le> 0 then Inl (Exit_Trace ''illegal size of data chunk'')
                              else if \<not> alloc_ok then Inl (Exit_Trace ''Creation of input buffer failed.'')
                              else let (r, buf, fd) = xread fd (map junk [0..<unat len])
                                   in if r < 0 then Inl (Exit_Trace ''xread data chunk fails'')
                                      else if r = 0 then Inl (Exit_Trace ''incomplete chunk'')
                                      else Inr (int_of_size len, Chunk_Data buf, fd)
                         else Inl (Exit_Trace ''unknown chunk type''))"

text \<open>\<^verbatim>\<open>uncompress_chunk\<close>: the size of the data, as an \<^verbatim>\<open>int\<close>, and the data.\<close>

definition uncompress_chunk ::
  "(nat \<Rightarrow> byte list \<Rightarrow> byte list option) \<Rightarrow> byte \<Rightarrow> bool \<Rightarrow> byte list \<Rightarrow> (int \<times> byte list) outcome" where
  "uncompress_chunk uncompress compress_type alloc_ok z =
     bindR
       (if compress_type = COMPRESS_NONE
        then assertR (length z > 0) ''size > 0''
               (if \<not> alloc_ok then Inl (Exit_Trace ''Creation of decompression buffer failed.'') else Inr z)
        else if compress_type = COMPRESS_GZIP
        then if \<not> alloc_ok then Inl (Exit_Trace ''Creation of decompression buffer failed.'')
             else (case uncompress UNCOMPRESS_BOUND z of
                     None \<Rightarrow> Inl (Exit_Trace ''error uncompressing chunk data'')
                   | Some d \<Rightarrow> assertR (length d < UNCOMPRESS_BOUND \<longrightarrow> length d > 0) ''size>0'' (Inr d))
        else if compress_type = COMPRESS_BZIP2
        then Inl (Exit_Trace ''Bzip2 compression used by input file not supported.'')
        else Inl (Exit_Trace ''unknown compression type''))
       (\<lambda>d. Inr (int_of_size (word_of_nat (length d)), d))"

text \<open>
  Writing the data of an entry. The \<^verbatim>\<open>int\<close> that \<^verbatim>\<open>xwrite\<close> returns is compared with a \<^verbatim>\<open>size_t\<close>, hence as
  an unsigned 64-bit number.
\<close>

definition write_entry :: "wfd \<Rightarrow> byte list \<Rightarrow> wfd outcome" where
  "write_entry fd d =
     (let (r, fd) = xwrite fd d
      in if (word_of_int r :: u64) < word_of_nat (length d) then Inl (Exit_Trace ''error writing to output file'')
         else Inr fd)"

section \<open>Reading always consumes input\<close>

lemma xread_loop_rest_le: "length (r_rest (snd (snd (xread_loop fd buf len nrecv)))) \<le> length (r_rest fd)"
proof (induction fd buf len nrecv rule: xread_loop.induct)
  case (1 fd buf len nrecv)
  obtain r e bs fd' where rd: "sys_read fd (unat (len - nrecv)) = (r, e, bs, fd')" by (metis prod_cases4)
  have le: "length (r_rest fd') \<le> length (r_rest fd)"
    using rd by (auto simp: sys_read_def Let_def split: list.splits io_event.splits)
  show ?case
    using 1(2)[OF _ rd[symmetric] refl refl refl] rd le
    by (auto simp: xread_loop.simps[of fd] Let_def split: if_splits intro: le_trans)
qed

lemma xread_rest_le: "xread fd buf = (r, buf', fd') \<Longrightarrow> length (r_rest fd') \<le> length (r_rest fd)"
  using xread_loop_rest_le[of fd buf "word_of_nat (length buf)" 0] by (simp add: xread_def)

lemma xread_byte_consumes:
  assumes "xread fd [b] = (r, buf', fd')" "r > 0"
  shows "length (r_rest fd') < length (r_rest fd)"
proof -
  obtain rv e bs fd1 where rd: "sys_read fd 1 = (rv, e, bs, fd1)" by (metis prod_cases4)
  have stop: "xread_loop fd1 x 1 w = (int_of_size w, x, fd1)" if "\<not> w < 1" for x w
    using that by (simp add: xread_loop.simps[of fd1])
  consider "rv = - 1" | "rv = 0" | "rv = 1" "length (r_rest fd1) < length (r_rest fd)"
    using rd by (auto simp: sys_read_def Let_def split: list.splits io_event.splits) (cases "r_rest fd"; force)+
  then show ?thesis
  proof cases
    case 1
    then show ?thesis
      using assms rd stop[of "- 1"] by (simp add: xread_def xread_loop.simps[of fd] int_of_size_minus_1)
  next
    case 2
    then show ?thesis using assms rd by (simp add: xread_def xread_loop.simps[of fd])
  next
    case 3
    then show ?thesis using assms rd stop[of 1] by (simp add: xread_def xread_loop.simps[of fd])
  qed
qed

lemma read_chunk_consumes:
  assumes "read_chunk junk ok fd = Inr (r, ch, fd')" "r \<noteq> 0"
  shows "length (r_rest fd') < length (r_rest fd)"
proof -
  obtain r1 buf1 fd1 where 1: "xread fd [junk 0] = (r1, buf1, fd1)" by (metis prod_cases3)
  obtain r2 buf2 fd2 where 2: "xread fd1 (map junk [0..<8]) = (r2, buf2, fd2)" by (metis prod_cases3)
  have "\<exists>buf r3 buf3. r1 > 0 \<and> xread fd2 buf = (r3, buf3, fd')"
    using assms 1 2 by (auto simp: read_chunk_def Let_def split: if_splits prod.splits)
  then have "r1 > 0" "length (r_rest fd') \<le> length (r_rest fd2)" using xread_rest_le by blast+
  then show ?thesis using xread_byte_consumes[OF 1] xread_rest_le[OF 2] by linarith
qed

section \<open>The decoding loop\<close>

text \<open>One chunk after the other until the end of the input.\<close>

function decode_loop ::
  "(byte list \<Rightarrow> byte list) \<Rightarrow> (nat \<Rightarrow> byte list \<Rightarrow> byte list option) \<Rightarrow> (nat \<Rightarrow> byte) \<Rightarrow> bool \<Rightarrow> byte
    \<Rightarrow> (byte list, byte list) hashtable \<Rightarrow> rfd \<Rightarrow> wfd \<Rightarrow> wfd outcome" where
  "decode_loop digest uncompress junk alloc_ok ct tbl fd_in fdo =
     (case read_chunk junk alloc_ok fd_in of
        Inl e \<Rightarrow> Inl e
      | Inr (r, chunk, fd_in') \<Rightarrow>
          if r < 0 then Inl (Exit_Trace ''error reading from input file'')
          else if r = 0 then Inr fdo
          else (case chunk of
                  Chunk_End \<Rightarrow> Inr fdo
                | Chunk_Data z \<Rightarrow>
                    (case uncompress_chunk uncompress ct alloc_ok z of
                       Inl e \<Rightarrow> Inl e
                     | Inr (n, d) \<Rightarrow>
                         if n \<le> 0 then Inl (Exit_Trace ''error uncompressing data'')
                         else let (tbl', r) = hashtable_insert alloc_ok tbl (digest d) d
                              in if r = 0 then Inl (Exit_Trace ''hashtable_insert failed'')
                                 else (case write_entry fdo d of
                                         Inl e \<Rightarrow> Inl e
                                       | Inr fdo' \<Rightarrow>
                                           decode_loop digest uncompress junk alloc_ok ct tbl' fd_in' fdo'))
                | Chunk_Fingerprint sha1 \<Rightarrow>
                    (case hashtable_search tbl sha1 of
                       None \<Rightarrow> Inl (Exit_Trace ''Encountered a duplicate chunk in input file but not its unique counterpart.'')
                     | Some d \<Rightarrow>
                         (case write_entry fdo d of
                            Inl e \<Rightarrow> Inl e
                          | Inr fdo' \<Rightarrow>
                              decode_loop digest uncompress junk alloc_ok ct tbl fd_in' fdo'))))"
  by pat_completeness auto
termination
  by (relation "measure (\<lambda>(digest, uncompress, junk, ok, ct, tbl, fd_in, fdo). length (r_rest fd_in))")
    (auto intro: read_chunk_consumes)

declare decode_loop.simps [simp del]

text \<open>\<^verbatim>\<open>Decode\<close>: create the cache, open both files, read the header, decode.\<close>

definition Decode ::
  "(byte list \<Rightarrow> byte list) \<Rightarrow> (nat \<Rightarrow> byte list \<Rightarrow> byte list option) \<Rightarrow> (nat \<Rightarrow> byte) \<Rightarrow> bool \<Rightarrow> bool \<Rightarrow> bool
    \<Rightarrow> u32 \<Rightarrow> byte \<Rightarrow> rfd \<Rightarrow> io_event list \<Rightarrow> byte list outcome" where
  "Decode digest uncompress junk alloc_ok open_in open_out checkbit0 type0 fd_in out_script =
     (case hashtable_create alloc_ok 65536 hash_from_key_fn keys_equal_fn False of
        None \<Rightarrow> Inl (Exit_Trace ''ERROR: Out of memory'')
      | Some tbl \<Rightarrow>
          if \<not> open_in then Inl (Exit_Trace ''infile open'')
          else let (r, compress_type, fd_in) = read_header checkbit0 type0 fd_in
               in if r \<noteq> 0 then Inl (Exit_Trace ''Cannot read input file header.'')
                  else if \<not> open_out then Inl (Exit_Trace ''outfile open'')
                  else bindR (decode_loop digest uncompress junk alloc_ok compress_type tbl fd_in
                                \<lparr>w_out = [], w_script = out_script\<rparr>) (\<lambda>fd. Inr (w_out fd)))"


section \<open>Decoding an archive\<close>

lemma read_record:
  assumes "\<forall>e \<in> set (r_script fd). \<not> is_error e"
    and "r_rest fd = ty # le_bytes 8 (word_of_nat n :: u64) @ body @ rest" "length body = n" "0 < n" "n < 2 ^ 31"
    and "ty = TYPE_FINGERPRINT \<and> n = SHA1_LEN \<or> ty = TYPE_COMPRESS"
  shows "\<exists>fd'. read_chunk junk True fd =
      Inr (int n, if ty = TYPE_FINGERPRINT then Chunk_Fingerprint body else Chunk_Data body, fd')
    \<and> r_rest fd' = rest \<and> (\<forall>e \<in> set (r_script fd'). \<not> is_error e)"
proof -
  obtain fd1 where 1: "xread fd [junk 0] = (1, [ty], fd1)" "r_rest fd1 = le_bytes 8 (word_of_nat n :: u64) @ body @ rest"
      "\<forall>e \<in> set (r_script fd1). \<not> is_error e"
    using xread_ok[OF assms(1), of "[junk 0]"] assms(2) by auto
  obtain fd2 where 2: "xread fd1 (map junk [0..<8]) = (8, le_bytes 8 (word_of_nat n :: u64), fd2)" "r_rest fd2 = body @ rest"
      "\<forall>e \<in> set (r_script fd2). \<not> is_error e"
    using xread_ok[OF 1(3), of "map junk [0..<8]"] 1(2) by auto
  obtain fd3 where 3: "xread fd2 (map junk [0..<n]) = (int n, body, fd3)" "r_rest fd3 = rest"
      "\<forall>e \<in> set (r_script fd3). \<not> is_error e"
    using xread_ok[OF 2(3), of "map junk [0..<n]"] 2(2) assms(3,5) by auto
  have n: "unat (word_of_nat n :: u64) = n" "int_of_size (word_of_nat n) = int n"
    using assms(5) by (simp_all add: unat_word_of_nat_small int_of_size_small)
  have pos: "\<not> (word_of_nat n :: u64) \<le> 0"
    using n(1) assms(4) by (metis less_numeral_extra(3) unat_0 word_le_0_iff)
  have ty: "TYPE_FINGERPRINT \<noteq> TYPE_COMPRESS" by (simp add: TYPE_FINGERPRINT_def TYPE_COMPRESS_def)
  have len: "le_word (le_bytes 8 (word_of_nat n :: u64)) = (word_of_nat n :: u64)" by (rule le_word_le_bytes_u64)
  show ?thesis
  proof (cases "ty = TYPE_FINGERPRINT")
    case True
    then have sha: "n = SHA1_LEN" using assms(6) ty by blast
    have "read_chunk junk True fd = Inr (int n, Chunk_Fingerprint body, fd3)"
      unfolding read_chunk_def 1(1) Let_def prod.case nth_Cons_0 2(1) len using True assms(4) n 3(1)
      unfolding sha by simp
    then show ?thesis using True 3(2,3) by simp
  next
    case False
    then have c: "ty = TYPE_COMPRESS" using assms(6) by blast
    have "read_chunk junk True fd = Inr (int n, Chunk_Data body, fd3)"
      unfolding read_chunk_def 1(1) Let_def prod.case nth_Cons_0 2(1) len n 3(1) c using ty pos assms(4) by simp
    then show ?thesis using False 3(2,3) by simp
  qed
qed

lemma read_chunk_end:
  assumes "\<forall>e \<in> set (r_script fd). \<not> is_error e" "r_rest fd = []"
  shows "\<exists>fd'. read_chunk junk True fd = Inr (0, Chunk_End, fd')"
  using xread_eof[OF assms(1) _ _ assms(2), of "[junk 0]"] by (auto simp: read_chunk_def)

lemma write_entry_ok:
  assumes "\<forall>e \<in> set (w_script fd). \<not> is_fatal e" "length d < 2 ^ 31"
  shows "\<exists>fd'. write_entry fd d = Inr fd' \<and> w_out fd' = w_out fd @ d \<and> (\<forall>e \<in> set (w_script fd'). \<not> is_fatal e)"
  using xwrite_ok[OF assms] by (auto simp: write_entry_def)

text \<open>What is documented of zlib: \<^verbatim>\<open>uncompress\<close> inverts \<^verbatim>\<open>compress\<close> when its buffer is large enough.\<close>

definition zlib_contract ::
  "(nat \<Rightarrow> byte list \<Rightarrow> byte list option) \<Rightarrow> (nat \<Rightarrow> byte list \<Rightarrow> byte list option) \<Rightarrow> bool" where
  "zlib_contract compress uncompress \<longleftrightarrow>
     (\<forall>m n d z. compress m d = Some z \<longrightarrow> length d \<le> n \<longrightarrow> uncompress n z = Some d)"

lemma uncompress_chunk_ok:
  assumes "zlib_contract compress uncompress" "zipped compress ct d = Some z" "d \<noteq> []" "length d < 2 ^ 31"
    "ct = COMPRESS_GZIP \<longrightarrow> length d \<le> UNCOMPRESS_BOUND"
  shows "uncompress_chunk uncompress ct True z = Inr (int (length d), d)"
proof -
  have "ct = COMPRESS_NONE \<and> z = d \<or> ct = COMPRESS_GZIP \<and> uncompress UNCOMPRESS_BOUND z = Some d"
  proof (cases "ct = COMPRESS_NONE")
    case True
    then show ?thesis using assms(2) by (simp add: zipped_def)
  next
    case False
    then have "ct = COMPRESS_GZIP" "compress (length d + drop_bit 9 (length d) + 12) d = Some z"
      using assms(2) by (auto simp: zipped_def split: if_splits)
    then show ?thesis using assms(1,5) unfolding zlib_contract_def by blast
  qed
  moreover have "COMPRESS_GZIP \<noteq> COMPRESS_NONE" by (simp add: COMPRESS_NONE_def COMPRESS_GZIP_def)
  moreover have "length d > 0" using assms(3) by simp
  moreover have "int_of_size (word_of_nat (length d)) = int (length d)" by (rule int_of_size_small[OF assms(4)])
  ultimately show ?thesis
    unfolding uncompress_chunk_def assertR_def by (elim disjE conjE) simp_all
qed

definition decodable ::
  "(byte list \<Rightarrow> byte list) \<Rightarrow> (nat \<Rightarrow> byte list \<Rightarrow> byte list option) \<Rightarrow> byte \<Rightarrow> byte list \<Rightarrow> bool" where
  "decodable digest compress ct d \<longleftrightarrow> encodable compress ct d \<and> length (digest d) = SHA1_LEN \<and> length d < 2 ^ 31
     \<and> (ct = COMPRESS_GZIP \<longrightarrow> length d \<le> UNCOMPRESS_BOUND)"

lemma decode_loop_archive:
  assumes "zlib_contract compress uncompress" "\<forall>d \<in> set ds. decodable digest compress ct d"
    and "inj_on digest (P \<union> set ds)"
    and "ht_inv tbl" "\<And>h. hashtable_search tbl h = (if h \<in> digest ` P then Some (the_inv_into P digest h) else None)"
    and "\<forall>e \<in> set (r_script fd). \<not> is_error e" "\<forall>e \<in> set (w_script fdo). \<not> is_fatal e"
    and "r_rest fd = archive digest (zip_of compress ct) (digest ` P) ds"
  shows "\<exists>fdo'. decode_loop digest uncompress junk True ct tbl fd fdo = Inr fdo' \<and> w_out fdo' = w_out fdo @ concat ds"
  using assms(2-)
proof (induction ds arbitrary: P tbl fd fdo)
  case Nil
  obtain fd' where "read_chunk junk True fd = Inr (0, Chunk_End, fd')"
    using read_chunk_end[OF Nil(5)] Nil(7) by auto
  then show ?case by (simp add: decode_loop.simps[of digest uncompress junk True ct tbl fd fdo])
next
  case (Cons d ds)
  have d: "zipped compress ct d = Some (zip_of compress ct d)" "d \<noteq> []" "zip_of compress ct d \<noteq> []"
      "length (zip_of compress ct d) < 2 ^ 31" "length (digest d) = SHA1_LEN" "length d < 2 ^ 31"
      "ct = COMPRESS_GZIP \<longrightarrow> length d \<le> UNCOMPRESS_BOUND"
    using Cons.prems(1) encodable_zip[of compress ct d] by (auto simp: decodable_def)
  obtain fdo1 where w: "write_entry fdo d = Inr fdo1" "w_out fdo1 = w_out fdo @ d" "\<forall>e \<in> set (w_script fdo1). \<not> is_fatal e"
    using write_entry_ok[OF Cons.prems(6) d(6)] by blast
  have dec: "\<forall>d \<in> set ds. decodable digest compress ct d" using Cons.prems(1) by simp
  have ins: "insert d P \<union> set ds = P \<union> set (d # ds)" by auto
  have ty: "TYPE_COMPRESS \<noteq> TYPE_FINGERPRINT" by (simp add: TYPE_FINGERPRINT_def TYPE_COMPRESS_def)
  show ?case
  proof (cases "digest d \<in> digest ` P")
    case True
    have "d \<in> P" using True Cons.prems(2) by (auto dest!: inj_onD)
    have injP: "inj_on digest P" using Cons.prems(2) by (rule inj_on_subset) auto
    have look: "hashtable_search tbl (digest d) = Some d"
      using True Cons.prems(4)[of "digest d"] the_inv_into_f_f[OF injP \<open>d \<in> P\<close>] by simp
    have "insert (digest d) (digest ` P) = digest ` P" using True by auto
    then have rest: "r_rest fd = TYPE_FINGERPRINT # le_bytes 8 (word_of_nat SHA1_LEN :: u64) @ digest d
        @ archive digest (zip_of compress ct) (digest ` P) ds"
      using Cons.prems(7) True by (simp add: fingerprint_record_def)
    obtain fd1 where r: "read_chunk junk True fd = Inr (int SHA1_LEN, Chunk_Fingerprint (digest d), fd1)"
        "r_rest fd1 = archive digest (zip_of compress ct) (digest ` P) ds" "\<forall>e \<in> set (r_script fd1). \<not> is_error e"
      using read_record[OF Cons.prems(5) rest d(5)] by (auto simp: SHA1_LEN_def)
    have "inj_on digest (P \<union> set ds)" using Cons.prems(2) by (rule inj_on_subset) auto
    from Cons.IH[OF dec this Cons.prems(3,4) r(3) w(3) r(2)] show ?thesis
      using r(1) look w(1,2) d(2)
      by (auto simp: decode_loop.simps[of digest uncompress junk True ct tbl fd fdo] SHA1_LEN_def)
  next
    case False
    define tbl1 where "tbl1 = fst (hashtable_insert True tbl (digest d) d)"
    have ht1: "ht_inv tbl1" using ht_insert_inv[OF Cons.prems(3)] by (simp add: tbl1_def)
    have inj1: "inj_on digest (insert d P)" using Cons.prems(2) by (rule inj_on_subset) auto
    have look1: "hashtable_search tbl1 h = (if h \<in> digest ` insert d P then Some (the_inv_into (insert d P) digest h) else None)" for h
    proof -
      have "hashtable_search tbl1 h = ((hashtable_search tbl)(digest d \<mapsto> d)) h"
        using ht.search_put[OF Cons.prems(3), of "digest d" d] by (simp add: tbl1_def)
      moreover have "the_inv_into P digest h = the_inv_into (insert d P) digest h" if "h \<in> digest ` P"
        using that inj1 by (auto simp: the_inv_into_f_f inj_on_insert)
      moreover have "the_inv_into (insert d P) digest (digest d) = d" using inj1 by (simp add: the_inv_into_f_f)
      ultimately show ?thesis using Cons.prems(4)[of h] False by auto
    qed
    have rest: "r_rest fd = TYPE_COMPRESS # le_bytes 8 (word_of_nat (length (zip_of compress ct d)) :: u64) @ zip_of compress ct d
        @ archive digest (zip_of compress ct) (digest ` insert d P) ds"
      using Cons.prems(7) False by (simp add: data_record_def)
    obtain fd1 where r: "read_chunk junk True fd = Inr (int (length (zip_of compress ct d)), Chunk_Data (zip_of compress ct d), fd1)"
        "r_rest fd1 = archive digest (zip_of compress ct) (digest ` insert d P) ds" "\<forall>e \<in> set (r_script fd1). \<not> is_error e"
      using read_record[OF Cons.prems(5) rest refl _ d(4)] d(3) ty by auto
    have unz: "uncompress_chunk uncompress ct True (zip_of compress ct d) = Inr (int (length d), d)"
      by (rule uncompress_chunk_ok[OF assms(1) d(1,2,6,7)])
    have ins_ok: "hashtable_insert True tbl (digest d) d = (tbl1, - 1)" by (simp add: tbl1_def hashtable_insert_def Let_def)
    have "inj_on digest (insert d P \<union> set ds)" using Cons.prems(2) unfolding ins .
    from Cons.IH[OF dec this ht1 look1 r(3) w(3) r(2)] show ?thesis
      using r(1) unz ins_ok w(1,2) d(2,3)
      by (auto simp: decode_loop.simps[of digest uncompress junk True ct tbl fd fdo])
  qed
qed


section \<open>Properties\<close>

lemma Decode_data:
  assumes "zlib_contract compress uncompress" "\<forall>d \<in> set ds. decodable digest compress ct d" "inj_on digest (set ds)"
    and "\<forall>e \<in> set (r_script fd). \<not> is_error e" "\<forall>e \<in> set ws. \<not> is_fatal e"
    and "r_rest fd = le_bytes 4 CHECKBIT @ [ct] @ archive digest (zip_of compress ct) {} ds"
  shows "Decode digest uncompress junk True True True checkbit0 type0 fd ws = Inr (concat ds)"
proof -
  have eq: "keys_equal_fn = (=)" by (intro ext) (simp add: keys_equal_fn_def)
  obtain tbl where tbl: "hashtable_create True 65536 hash_from_key_fn (=) False = Some (tbl :: (byte list, byte list) hashtable)"
    by (simp add: hashtable_create_def Let_def)
  have emp: "ht_inv tbl" "\<And>h. hashtable_search tbl h = (if h \<in> digest ` {} then Some (the_inv_into {} digest h) else None)"
    using hashtable_create_inv[OF tbl] by (auto simp: ht_search)
  obtain fd1 where fd1: "read_header checkbit0 type0 fd = (0, ct, fd1)"
      "r_rest fd1 = archive digest (zip_of compress ct) {} ds" "\<forall>e \<in> set (r_script fd1). \<not> is_error e"
    using read_header_ok[OF assms(4,6)] by blast
  obtain fdo' where "decode_loop digest uncompress junk True ct tbl fd1 \<lparr>w_out = [], w_script = ws\<rparr> = Inr fdo'"
      "w_out fdo' = concat ds"
    using decode_loop_archive[OF assms(1,2) _ emp fd1(3), of "\<lparr>w_out = [], w_script = ws\<rparr>"] assms(3,5) fd1(2) by auto
  then show ?thesis using tbl fd1(1) by (simp add: Decode_def eq)
qed

text \<open>
  C17. Decoding inverts encoding. For a file that holds the header and the archive of chunks \<open>ds\<close>, read
  in pieces of any size, \<^verbatim>\<open>Decode\<close> ends without fault and writes the concatenation of the chunks, when
  no two chunks collide under the digest and every chunk is non-empty, accepted by zlib and, for
  gzip, within the fixed size of the decompression buffer.
\<close>

theorem Decode_archive:
  assumes "zlib_contract compress uncompress" "\<forall>d \<in> set ds. decodable digest compress ct d" "inj_on digest (set ds)"
    and "\<forall>e \<in> set (r_script fd). \<not> is_error e" "\<forall>e \<in> set ws. \<not> is_fatal e"
    and "r_rest fd = le_bytes 4 CHECKBIT @ [ct] @ archive digest (zip_of compress ct) {} ds"
  shows "Decode digest uncompress junk True True True checkbit0 type0 fd ws = Inr (concat ds)"
  by (rule Decode_data[OF assms])

theorem Decode_archive_witness:
  "let digest = (\<lambda>d. take 20 (d @ replicate 20 0)); compress = (\<lambda>n d. Some (7 # d));
       uncompress = (\<lambda>n z. if length (tl z) \<le> n then Some (tl z) else None);
       ds = [[1, 2], [3], [1, 2 :: byte]]
   in zlib_contract compress uncompress \<and>
      Decode digest uncompress (\<lambda>_. 0) True True True 0 0
        \<lparr>r_rest = le_bytes 4 CHECKBIT @ [COMPRESS_GZIP] @ archive digest (zip_of compress COMPRESS_GZIP) {} ds,
         r_script = [Partial 2]\<rparr> [Error EINTR] = Inr [1, 2, 3, 1, 2]"
proof -
  define digest :: "byte list \<Rightarrow> byte list" where "digest = (\<lambda>d. take 20 (d @ replicate 20 0))"
  define compress :: "nat \<Rightarrow> byte list \<Rightarrow> byte list option" where "compress = (\<lambda>n d. Some (7 # d))"
  define uncompress :: "nat \<Rightarrow> byte list \<Rightarrow> byte list option" where
    "uncompress = (\<lambda>n z. if length (tl z) \<le> n then Some (tl z) else None)"
  have z: "zlib_contract compress uncompress" by (simp add: zlib_contract_def compress_def uncompress_def)
  have dec: "\<forall>d \<in> set [[1, 2], [3], [1, 2]]. decodable digest compress COMPRESS_GZIP d"
    by (simp add: decodable_def encodable_def zipped_def compress_def digest_def SHA1_LEN_def UNCOMPRESS_BOUND_def
        COMPRESS_GZIP_def COMPRESS_NONE_def)
  have inj: "inj_on digest (set [[1, 2], [3], [1, 2]])"
    by (simp add: digest_def inj_on_def)
  have "Decode digest uncompress (\<lambda>_. 0) True True True 0 0
        \<lparr>r_rest = le_bytes 4 CHECKBIT @ [COMPRESS_GZIP] @ archive digest (zip_of compress COMPRESS_GZIP) {} [[1, 2], [3], [1, 2]],
         r_script = [Partial 2]\<rparr> [Error EINTR] = Inr (concat [[1, 2], [3], [1, 2]])"
    by (rule Decode_archive[OF z dec inj]) simp_all
  then show ?thesis using z unfolding digest_def compress_def uncompress_def Let_def by simp
qed

lemma take_drop_cap:
  "length xs \<le> d \<Longrightarrow> take (min d m) xs = take (min (length xs) m) xs \<and> drop (min d m) xs = drop (min (length xs) m) xs"
  by (cases "m \<le> length xs") auto

text \<open>A read that meets the end of the file before the buffer is full returns zero.\<close>

lemma xread_loop_short:
  assumes "\<forall>e \<in> set (r_script fd). \<not> is_error e" "k < length buf" "length buf < 2 ^ 31"
    "length (r_rest fd) < length buf - k"
  shows "fst (xread_loop fd buf (word_of_nat (length buf)) (word_of_nat k)) = 0"
  using assms
proof (induction "length (r_script fd) + length (r_rest fd)" arbitrary: fd buf k rule: less_induct)
  case less
  define d where "d = length buf - k"
  obtain j fd' where j: "j \<le> length (r_rest fd)" "j = 0 \<longrightarrow> r_rest fd = []"
    and rd: "sys_read fd d = (int j, EIO, take j (r_rest fd), fd')"
    and rest: "r_rest fd' = drop j (r_rest fd)" and sc: "\<forall>e \<in> set (r_script fd'). \<not> is_error e"
    and dec: "length (r_script fd') \<le> length (r_script fd)"
  proof (cases "r_script fd")
    case Nil
    then show thesis
      using that[of "length (r_rest fd)" "fd\<lparr>r_rest := []\<rparr>"] less.prems
      by (simp add: sys_read_def d_def Let_def)
  next
    case (Cons ev s)
    then obtain m where ev: "ev = Partial m" using less.prems(1) by (cases ev) auto
    define j where "j = min (length (r_rest fd)) (Suc m)"
    have "length (r_rest fd) \<le> d" using less.prems(4) by (simp add: d_def)
    from take_drop_cap[OF this, of "Suc m"]
    have cap: "take (min d (Suc m)) (r_rest fd) = take j (r_rest fd)" "drop (min d (Suc m)) (r_rest fd) = drop j (r_rest fd)"
      unfolding j_def by blast+
    have "length (take j (r_rest fd)) = j" by (simp add: j_def)
    then have "sys_read fd d = (int j, EIO, take j (r_rest fd), fd\<lparr>r_rest := drop j (r_rest fd), r_script := s\<rparr>)"
      unfolding sys_read_def Cons ev list.case io_event.case Let_def cap by (simp only:)
    then show thesis
    proof (rule that[rotated 2])
      show "j \<le> length (r_rest fd)" "j = 0 \<longrightarrow> r_rest fd = []" by (simp_all add: j_def min_def)
      show "\<forall>e \<in> set (r_script (fd\<lparr>r_rest := drop j (r_rest fd), r_script := s\<rparr>)). \<not> is_error e"
        using less.prems(1) Cons by simp
    qed (use Cons in simp_all)
  qed
  have lt: "(word_of_nat k :: u64) < word_of_nat (length buf)"
    using less.prems(2,3) by (simp add: word_of_nat_less_u64)
  have d': "unat (word_of_nat (length buf) - word_of_nat k :: u64) = d"
    using less.prems(2,3) by (simp add: word_of_nat_diff_u64 d_def)
  show ?case
  proof (cases "j = 0")
    case True
    then show ?thesis using lt rd by (simp add: xread_loop.simps[of fd] d')
  next
    case False
    define buf' where "buf' = overwrite buf k (take j (r_rest fd))"
    have jd: "j < d" using j(1) less.prems(4) by (simp add: d_def)
    have len: "length buf' = length buf" using j(1) jd less.prems(2) by (simp add: buf'_def overwrite_def d_def)
    have rv: "word_of_int (int j) \<noteq> (0 :: u64)"
    proof
      assume "word_of_int (int j) = (0 :: u64)"
      then have "unat (word_of_nat j :: u64) = 0" by simp
      moreover have "j < 2 ^ 31" using jd less.prems(3) by (simp add: d_def)
      ultimately show False using False unat_word_of_nat_small[of j] by simp
    qed
    have "xread_loop fd buf (word_of_nat (length buf)) (word_of_nat k)
        = xread_loop fd' buf' (word_of_nat (length buf')) (word_of_nat (k + j))"
      using lt rd rv less.prems(2,3)
      by (simp add: xread_loop.simps[of fd] d' unat_word_of_nat_small buf'_def len[unfolded buf'_def])
    moreover have "fst (xread_loop fd' buf' (word_of_nat (length buf')) (word_of_nat (k + j))) = 0"
      by (rule less.hyps) (use dec False j less.prems rest sc len jd d_def in auto)
    ultimately show ?thesis by simp
  qed
qed

lemma xread_short:
  assumes "\<forall>e \<in> set (r_script fd). \<not> is_error e" "length buf < 2 ^ 31" "length (r_rest fd) < length buf"
  shows "fst (xread fd buf) = 0"
  using xread_loop_short[OF assms(1) _ assms(2), of 0] assms(3) by (cases buf) (simp_all add: xread_def)




text \<open>
  C19. A fatal error of the output file goes unnoticed: \<^verbatim>\<open>xwrite\<close> returns -1, which the comparison with
  the unsigned buffer size takes for a huge count, so the decoder carries on although not one byte
  of the entry was written. Only a short count would be reported, and \<^verbatim>\<open>xwrite\<close> never returns one.
\<close>

theorem write_error_unnoticed:
  assumes "d \<noteq> []" "length d < 2 ^ 31"
  shows "write_entry \<lparr>w_out = out, w_script = Error EIO # s\<rparr> d = Inr \<lparr>w_out = out, w_script = s\<rparr>
    \<and> xwrite \<lparr>w_out = out, w_script = Error EIO # s\<rparr> d = (- 1, \<lparr>w_out = out, w_script = s\<rparr>)"
proof -
  have "xwrite \<lparr>w_out = out, w_script = Error EIO # s\<rparr> d = (- 1, \<lparr>w_out = out, w_script = s\<rparr>)"
    using assms(1)
    by (simp add: xwrite_def xwrite_loop.simps[of "\<lparr>w_out = out, w_script = Error EIO # s\<rparr>"] sys_write_def)
  moreover have "\<not> (- 1 :: u64) < x" for x by simp
  ultimately show ?thesis by (simp add: write_entry_def)
qed

theorem write_error_unnoticed_witness:
  "write_entry \<lparr>w_out = [], w_script = [Error EIO]\<rparr> [1, 2, 3] = Inr \<lparr>w_out = [], w_script = []\<rparr>"
  using write_error_unnoticed[of "[1, 2, 3]" "[]" "[]"] by simp

end
