(* ===== verification/Fragment.thy ===== *)
theory Fragment
  imports Rabin Encoder
begin

text \<open>
  The two chunking stages of the dedup encoder (\<^verbatim>\<open>Fragment\<close> and \<^verbatim>\<open>FragmentRefine\<close> in
  \<^verbatim>\<open>apps/dedup/src/pthread/encoder.c\<close>). A stage is the function from what it receives to the chunks it
  sends; the buffers it splits are their contents, the assertions of \<^verbatim>\<open>mbuffer_split\<close> included. The
  fields of a new chunk that the stages do not set hold placeholders.
\<close>

section \<open>Chunks under construction\<close>

definition new_chunk :: "sequence_t \<Rightarrow> bool \<Rightarrow> byte list \<Rightarrow> chunk_t" where
  "new_chunk sq is_last d =
     \<lparr>isDuplicate = False, ch_state = CHUNK_STATE_UNCOMPRESSED, ch_sha1 = [], uncompressed_data = Some d,
      compressed_data = None, compressed_data_ref = None, ch_sequence = sq, isLastL2Chunk = is_last\<rparr>"

definition chunk_data :: "chunk_t \<Rightarrow> byte list" where
  "chunk_data c = (case uncompressed_data c of None \<Rightarrow> [] | Some d \<Rightarrow> d)"

lemma new_chunk_simps [simp]:
  "chunk_data (new_chunk sq l d) = d" "ch_sequence (new_chunk sq l d) = sq" "isLastL2Chunk (new_chunk sq l d) = l"
  "ch_state (new_chunk sq l d) = CHUNK_STATE_UNCOMPRESSED" "uncompressed_data (new_chunk sq l d) = Some d"
  by (simp_all add: new_chunk_def chunk_data_def)

text \<open>\<^verbatim>\<open>mbuffer_split\<close> on contents: both parts, or the failed assertion.\<close>

definition split_data :: "byte list \<Rightarrow> nat \<Rightarrow> (byte list \<times> byte list) outcome" where
  "split_data d k =
     assertR (k > 0) ''split>0'' (assertR (k < length d) ''split < m1->n'' (Inr (take k d, drop k d)))"

section \<open>FragmentRefine\<close>

text \<open>
  The loop over one coarse chunk: what it puts into the send buffer, and the statistics. \<open>win\<close> is the
  global \<open>rf_win\<close>.
\<close>

function refine_loop :: "nat \<Rightarrow> u32 \<Rightarrow> u32 \<Rightarrow> byte list \<Rightarrow> stats_t \<Rightarrow> (chunk_t list \<times> stats_t) outcome" where
  "refine_loop win l1 chcount d st =
     (let offset = rabinseg d (length d) win (fst (rabininit win)) (snd (rabininit win))
      in if offset < length d
         then (case split_data d offset of
                 Inl e \<Rightarrow> Inl e
               | Inr (d1, d2) \<Rightarrow>
                   bindR (refine_loop win l1 (chcount + 1) d2 (count_chunk (length d1) st)) (\<lambda>(cs, st).
                     Inr (new_chunk (Sequence l1 chcount) False d1 # cs, st)))
         else Inr ([new_chunk (Sequence l1 chcount) True d], count_chunk (length d) st))"
  by pat_completeness auto
termination
  by (relation "measure (\<lambda>(win, l1, chcount, d, st). length d)")
    (auto simp: split_data_def assertR_def split: if_splits)

declare refine_loop.simps [simp del]

text \<open>The stage: every coarse chunk it dequeues, in order, with one record of statistics.\<close>

fun FragmentRefine :: "nat \<Rightarrow> chunk_t list \<Rightarrow> stats_t \<Rightarrow> (chunk_t list \<times> stats_t) outcome" where
  "FragmentRefine win [] st = Inr ([], st)"
| "FragmentRefine win (c # cs) st =
     (case uncompressed_data c of
        None \<Rightarrow> Inl Invalid_Pointer
      | Some d \<Rightarrow> bindR (refine_loop win (l1num (ch_sequence c)) 0 d st) (\<lambda>(out, st).
          bindR (FragmentRefine win cs st) (\<lambda>(out', st). Inr (out @ out', st))))"

text \<open>The fine chunks of one coarse chunk as pieces of data.\<close>

function pieces :: "nat \<Rightarrow> byte list \<Rightarrow> byte list list" where
  "pieces win d =
     (let offset = rabinseg d (length d) win (fst (rabininit win)) (snd (rabininit win))
      in if 0 < offset \<and> offset < length d then take offset d # pieces win (drop offset d) else [d])"
  by pat_completeness auto
termination by (relation "measure (\<lambda>(win, d). length d)") auto

declare pieces.simps [simp del]

lemma pieces_concat: "concat (pieces win d) = d"
proof (induction win d rule: pieces.induct)
  case (1 win d)
  show ?case
    using 1 by (subst pieces.simps) (auto simp: Let_def)
qed

lemma pieces_not_Nil: "pieces win d \<noteq> []"
  by (subst pieces.simps) (simp add: Let_def)

lemma pieces_nonempty: "d \<noteq> [] \<Longrightarrow> x \<in> set (pieces win d) \<Longrightarrow> x \<noteq> []"
proof (induction win d rule: pieces.induct)
  case (1 win d)
  then show ?case
    by (subst (asm) (2) pieces.simps) (auto simp: Let_def split: if_splits)
qed

text \<open>Numbering: second-level numbers count up, only the last piece is marked.\<close>

definition number_pieces :: "u32 \<Rightarrow> u32 \<Rightarrow> byte list list \<Rightarrow> chunk_t list" where
  "number_pieces l1 c0 ds =
     map (\<lambda>i. new_chunk (Sequence l1 (c0 + word_of_nat i)) (Suc i = length ds) (ds ! i)) [0..<length ds]"

lemma number_pieces_Cons:
  assumes "ds \<noteq> []"
  shows "number_pieces l1 c0 (d # ds) = new_chunk (Sequence l1 c0) False d # number_pieces l1 (c0 + 1) ds"
proof -
  have "[0..<length (d # ds)] = 0 # map Suc [0..<length ds]" by (simp add: map_Suc_upt upt_conv_Cons del: upt_Suc)
  then show ?thesis using assms by (simp add: number_pieces_def comp_def ac_simps)
qed

lemma refine_loop_pieces:
  "d \<noteq> [] \<Longrightarrow> \<exists>st'. refine_loop win l1 c0 d st = Inr (number_pieces l1 c0 (pieces win d), st')
     \<and> st' = fold (\<lambda>x. count_chunk (length x)) (pieces win d) st"
proof (induction win d arbitrary: c0 st rule: pieces.induct)
  case (1 win d)
  define k where "k = rabinseg d (length d) win (fst (rabininit win)) (snd (rabininit win))"
  have k: "0 < k" "k \<le> length d" using rabinseg_pos rabinseg_le 1(2) unfolding k_def by auto
  show ?case
  proof (cases "k < length d")
    case True
    then have p: "pieces win d = take k d # pieces win (drop k d)"
      using k by (subst pieces.simps) (simp add: Let_def k_def)
    have "refine_loop win l1 (c0 + 1) (drop k d) (count_chunk k st) =
        Inr (number_pieces l1 (c0 + 1) (pieces win (drop k d)), fold (\<lambda>x. count_chunk (length x)) (pieces win (drop k d)) (count_chunk k st))"
      using 1(1)[OF k_def, of "c0 + 1" "count_chunk k st"] True k by simp
    then show ?thesis
      using True k by (subst refine_loop.simps)
        (simp add: Let_def split_data_def assertR_holds p number_pieces_Cons pieces_not_Nil flip: k_def)
  next
    case False
    then have "pieces win d = [d]" by (subst pieces.simps) (simp add: Let_def k_def)
    then show ?thesis
      using False by (subst refine_loop.simps) (simp add: Let_def number_pieces_def flip: k_def)
  qed
qed


section \<open>Fragment\<close>

text \<open>
  Filling the input buffer: \<^verbatim>\<open>read\<close> until \<open>n\<close> bytes have arrived or the file ends; an error ends the
  program.
\<close>

definition read_error :: "errno \<Rightarrow> string" where
  "read_error e =
     (case e of EAGAIN \<Rightarrow> ''I/O error: No data available''
      | EBADF \<Rightarrow> ''I/O error: Invalid file descriptor''
      | EFAULT \<Rightarrow> ''I/O error: Buffer out of range''
      | EINTR \<Rightarrow> ''I/O error: Interruption''
      | EINVAL \<Rightarrow> ''I/O error: Unable to read from file descriptor''
      | EIO \<Rightarrow> ''I/O error: Generic I/O error''
      | EISDIR \<Rightarrow> ''I/O error: Cannot read from a directory''
      | Other_Error \<Rightarrow> ''I/O error: Unrecognized error'')"

lemma length_shrinks: "xs \<noteq> [] \<Longrightarrow> a < n \<Longrightarrow> length xs + a - n < length xs"
  by (cases xs) auto

function fill_loop :: "rfd \<Rightarrow> nat \<Rightarrow> byte list \<Rightarrow> (byte list \<times> rfd) outcome" where
  "fill_loop fd n got =
     (if length got < n
      then (case sys_read fd (n - length got) of
              (r, e, bs, fd') \<Rightarrow>
                if r < 0 then Inl (Exit_Trace (read_error e))
                else if r = 0 then Inr (got, fd')
                else fill_loop fd' n (got @ bs))
      else Inr (got, fd))"
  by pat_completeness auto
termination
  by (relation "measures [\<lambda>(fd, n, got). length (r_script fd), \<lambda>(fd, n, got). length (r_rest fd)]")
    (auto simp: sys_read_def Let_def length_shrinks split: list.splits io_event.splits)

declare fill_loop.simps [simp del]

lemma sys_read_split:
  "sys_read fd n = (r, e, bs, fd') \<Longrightarrow> r_rest fd = bs @ r_rest fd' \<and> length bs \<le> n \<and> (r \<ge> 0 \<longrightarrow> r = int (length bs))
     \<and> set (r_script fd') \<subseteq> set (r_script fd) \<and> (bs = [] \<and> r \<ge> 0 \<and> 0 < n \<longrightarrow> r_rest fd = [])"
  by (auto simp: sys_read_def Let_def split: list.splits io_event.splits)

lemma fill_loop_split:
  "fill_loop fd n got = Inr (bs, fd') \<Longrightarrow> \<exists>new. bs = got @ new \<and> r_rest fd = new @ r_rest fd'
     \<and> set (r_script fd') \<subseteq> set (r_script fd) \<and> (length got < n \<and> new = [] \<longrightarrow> r_rest fd = [])"
proof (induction fd n got rule: fill_loop.induct)
  case (1 fd n got)
  show ?case
  proof (cases "length got < n")
    case False
    then show ?thesis using 1(2) by (simp add: fill_loop.simps[of fd])
  next
    case True
    obtain r e bs1 fd1 where rd: "sys_read fd (n - length got) = (r, e, bs1, fd1)" by (metis prod_cases4)
    note sp = sys_read_split[OF rd]
    have r: "r \<ge> 0" using 1(2) True rd by (auto simp: fill_loop.simps[of fd] split: if_splits)
    show ?thesis
    proof (cases "r = 0")
      case r0: True
      then have "bs = got" "fd' = fd1" using 1(2) True rd by (auto simp: fill_loop.simps[of fd])
      then show ?thesis using sp r0 r True by auto
    next
      case False
      then have "fill_loop fd1 n (got @ bs1) = Inr (bs, fd')"
        using 1(2) True rd r by (simp add: fill_loop.simps[of fd])
      from 1(1)[OF True rd[symmetric] refl refl _ False this] r
      obtain new where "bs = (got @ bs1) @ new" "r_rest fd1 = new @ r_rest fd'" "set (r_script fd') \<subseteq> set (r_script fd1)" by auto
      then show ?thesis using sp r False by (intro exI[of _ "bs1 @ new"]) auto
    qed
  qed
qed

text \<open>
  The state of the stage: the left-over chunk \<open>temp\<close> with its first-level number, the next number, the
  next queue, and the chunks sent so far with the queue each went to.
\<close>

record fragment =
  fr_temp :: "(u32 \<times> byte list) option"
  fr_anchorcount :: u32
  fr_qid :: nat
  fr_sent :: "(nat \<times> chunk_t) list"

text \<open>The send buffer holds one element, so every chunk goes to the next queue at once, round robin.\<close>

definition send_chunk :: "nat \<Rightarrow> chunk_t \<Rightarrow> fragment \<Rightarrow> fragment" where
  "send_chunk nqueues c s = s\<lparr>fr_sent := fr_sent s @ [(fr_qid s, c)], fr_qid := (fr_qid s + 1) mod nqueues\<rparr>"

text \<open>Partitioning a block into coarse chunks; what is left over becomes \<open>temp\<close>.\<close>

function coarse_loop :: "nat \<Rightarrow> nat \<Rightarrow> u32 \<Rightarrow> byte list \<Rightarrow> fragment \<Rightarrow> fragment outcome" where
  "coarse_loop win nqueues l1 d s =
     (if ANCHOR_JUMP < length d
      then let offset = rabinseg (drop ANCHOR_JUMP d) (length d - ANCHOR_JUMP) win (fst (rabininit win)) (snd (rabininit win))
           in if offset = 0 then Inl (Assertion ''0'')
              else if offset + ANCHOR_JUMP < length d
              then (case split_data d (offset + ANCHOR_JUMP) of
                      Inl e \<Rightarrow> Inl e
                    | Inr (d1, d2) \<Rightarrow>
                        let l1' = fr_anchorcount s;
                            s = send_chunk nqueues (new_chunk (Sequence l1 0) False d1) (s\<lparr>fr_anchorcount := l1' + 1\<rparr>)
                        in coarse_loop win nqueues l1' d2 s)
              else Inr (s\<lparr>fr_temp := Some (l1, d)\<rparr>)
      else Inr (s\<lparr>fr_temp := Some (l1, d)\<rparr>))"
  by pat_completeness auto
termination
  by (relation "measure (\<lambda>(win, nqueues, l1, d, s). length d)")
    (auto simp: split_data_def assertR_def split: if_splits)

declare coarse_loop.simps [simp del]

definition SSIZE_MAX :: nat where "SSIZE_MAX = 2 ^ 63 - 1"

text \<open>
  The stage. \<open>preloading\<close> selects the copy from the preloaded buffer, which delivers the next \<open>MAXBUF\<close>
  bytes; otherwise the file is read.
\<close>

definition next_block :: "bool \<Rightarrow> rfd \<Rightarrow> (byte list \<times> rfd) outcome" where
  "next_block preloading fd =
     (if preloading
      then let max_read = min MAXBUF (length (r_rest fd))
           in Inr (take max_read (r_rest fd), fd\<lparr>r_rest := drop max_read (r_rest fd)\<rparr>)
      else fill_loop fd MAXBUF [])"

lemma next_block_split:
  "next_block pre fd = Inr (bs, fd') \<Longrightarrow> r_rest fd = bs @ r_rest fd' \<and> set (r_script fd') \<subseteq> set (r_script fd)
     \<and> (bs = [] \<longrightarrow> r_rest fd = [])"
proof (cases pre)
  case True
  moreover have "0 < MAXBUF" by (simp add: MAXBUF_def)
  moreover assume "next_block pre fd = Inr (bs, fd')"
  ultimately show ?thesis by (auto simp: next_block_def Let_def min_def split: if_splits)
next
  case False
  moreover have "0 < MAXBUF" by (simp add: MAXBUF_def)
  moreover assume "next_block pre fd = Inr (bs, fd')"
  ultimately show ?thesis using fill_loop_split[of fd MAXBUF "[]" bs fd'] by (auto simp: next_block_def)
qed

function Fragment_loop :: "bool \<Rightarrow> nat \<Rightarrow> nat \<Rightarrow> rfd \<Rightarrow> fragment \<Rightarrow> fragment outcome" where
  "Fragment_loop preloading win nqueues fd s =
     (let bytes_left = (case fr_temp s of None \<Rightarrow> 0 | Some (l1, d) \<Rightarrow> length d)
      in if MAXBUF + bytes_left > SSIZE_MAX then Inl (Exit_Trace ''Input buffer size exceeds system maximum.'')
         else let (l1, left, s) =
                    (case fr_temp s of
                       Some (l1, d) \<Rightarrow>
                         if length d > 0 then (l1, d, s\<lparr>fr_temp := None\<rparr>)
                         else (fr_anchorcount s, [], s\<lparr>fr_anchorcount := fr_anchorcount s + 1\<rparr>)
                     | None \<Rightarrow> (fr_anchorcount s, [], s\<lparr>fr_anchorcount := fr_anchorcount s + 1\<rparr>))
              in case next_block preloading fd of
                   Inl e \<Rightarrow> Inl e
                 | Inr (bs, fd') \<Rightarrow>
                     if bytes_left + length bs = 0 then Inr s
                     else if length bs = 0 then Inr (send_chunk nqueues (new_chunk (Sequence l1 0) False left) s)
                     else (case coarse_loop win nqueues l1 (left @ bs) s of
                             Inl e \<Rightarrow> Inl e
                           | Inr s \<Rightarrow> Fragment_loop preloading win nqueues fd' s))"
  by pat_completeness auto
termination
  by (relation "measure (\<lambda>(pre, win, nqueues, fd, s). length (r_rest fd))") (auto dest!: next_block_split)

declare Fragment_loop.simps [simp del]

definition Fragment :: "bool \<Rightarrow> nat \<Rightarrow> rfd \<Rightarrow> ((nat \<times> chunk_t) list) outcome" where
  "Fragment preloading nqueues fd =
     (let rf_win_dataprocess = 0
      in bindR (Fragment_loop preloading rf_win_dataprocess nqueues fd
                  \<lparr>fr_temp = None, fr_anchorcount = 0, fr_qid = 0, fr_sent = []\<rparr>)
           (\<lambda>s. Inr (fr_sent s)))"


section \<open>What the stage sends\<close>

definition coarse_chunks :: "nat \<Rightarrow> byte list list \<Rightarrow> (nat \<times> chunk_t) list" where
  "coarse_chunks nqueues ds =
     map (\<lambda>i. (i mod nqueues, new_chunk (Sequence (word_of_nat i) 0) False (ds ! i))) [0..<length ds]"

lemma coarse_chunks_snoc:
  "coarse_chunks nqueues (ds @ [d]) = coarse_chunks nqueues ds
     @ [(length ds mod nqueues, new_chunk (Sequence (word_of_nat (length ds)) 0) False d)]"
  by (simp add: coarse_chunks_def nth_append)

lemma send_chunk_coarse:
  assumes "fr_sent s = coarse_chunks nqueues ds" "fr_qid s = length ds mod nqueues"
  shows "fr_sent (send_chunk nqueues (new_chunk (Sequence (word_of_nat (length ds)) 0) False d) s) = coarse_chunks nqueues (ds @ [d])"
    "fr_qid (send_chunk nqueues (new_chunk (Sequence (word_of_nat (length ds)) 0) False d) s) = length (ds @ [d]) mod nqueues"
  using assms by (simp_all add: send_chunk_def coarse_chunks_snoc mod_Suc_eq)

lemma send_chunk_fields [simp]:
  "fr_temp (send_chunk nqueues c s) = fr_temp s" "fr_anchorcount (send_chunk nqueues c s) = fr_anchorcount s"
  by (simp_all add: send_chunk_def)

lemma coarse_loop_ok:
  assumes "d \<noteq> []" "fr_sent s = coarse_chunks nqueues ds" "fr_qid s = length ds mod nqueues"
    "l1 = word_of_nat (length ds)" "fr_anchorcount s = word_of_nat (Suc (length ds))"
  shows "\<exists>s' ds' d'. coarse_loop win nqueues l1 d s = Inr s' \<and> fr_sent s' = coarse_chunks nqueues (ds @ ds')
    \<and> fr_qid s' = length (ds @ ds') mod nqueues \<and> fr_anchorcount s' = word_of_nat (Suc (length (ds @ ds')))
    \<and> fr_temp s' = Some (word_of_nat (length (ds @ ds')), d') \<and> d' \<noteq> [] \<and> concat ds' @ d' = d
    \<and> (\<forall>x \<in> set ds'. ANCHOR_JUMP < length x)"
  using assms
proof (induction "length d" arbitrary: d s ds l1 rule: less_induct)
  case less
  let ?stop = "Inr (s\<lparr>fr_temp := Some (l1, d)\<rparr>)"
  define k where "k = rabinseg (drop ANCHOR_JUMP d) (length d - ANCHOR_JUMP) win (fst (rabininit win)) (snd (rabininit win))"
  consider (stop) "coarse_loop win nqueues l1 d s = ?stop" | (split) "ANCHOR_JUMP < length d" "0 < k" "k + ANCHOR_JUMP < length d"
    using rabinseg_pos[of "length d - ANCHOR_JUMP" "drop ANCHOR_JUMP d" win "fst (rabininit win)" "snd (rabininit win)"]
    by (cases "ANCHOR_JUMP < length d"; cases "k + ANCHOR_JUMP < length d")
      (auto simp: coarse_loop.simps[of win nqueues l1 d s] Let_def k_def)
  then show ?case
  proof cases
    case stop
    then show ?thesis using less.prems by (intro exI[of _ "s\<lparr>fr_temp := Some (l1, d)\<rparr>"] exI[of _ "[]"] exI[of _ d]) simp
  next
    case split
    define d1 where "d1 = take (k + ANCHOR_JUMP) d"
    define d2 where "d2 = drop (k + ANCHOR_JUMP) d"
    define s1 where "s1 = send_chunk nqueues (new_chunk (Sequence l1 0) False d1) (s\<lparr>fr_anchorcount := fr_anchorcount s + 1\<rparr>)"
    have step: "coarse_loop win nqueues l1 d s = coarse_loop win nqueues (fr_anchorcount s) d2 s1"
      using split by (simp add: coarse_loop.simps[of win nqueues l1 d s] Let_def split_data_def assertR_holds d1_def d2_def s1_def flip: k_def)
    have sent: "fr_sent s1 = coarse_chunks nqueues (ds @ [d1])" "fr_qid s1 = length (ds @ [d1]) mod nqueues"
      using send_chunk_coarse[of "s\<lparr>fr_anchorcount := fr_anchorcount s + 1\<rparr>" nqueues ds d1] less.prems
      by (simp_all add: s1_def)
    have len: "length d2 < length d" "d2 \<noteq> []" using split by (auto simp: d2_def)
    have "\<exists>s' ds' d'. coarse_loop win nqueues (fr_anchorcount s) d2 s1 = Inr s' \<and> fr_sent s' = coarse_chunks nqueues ((ds @ [d1]) @ ds')
      \<and> fr_qid s' = length ((ds @ [d1]) @ ds') mod nqueues \<and> fr_anchorcount s' = word_of_nat (Suc (length ((ds @ [d1]) @ ds')))
      \<and> fr_temp s' = Some (word_of_nat (length ((ds @ [d1]) @ ds')), d') \<and> d' \<noteq> [] \<and> concat ds' @ d' = d2
      \<and> (\<forall>x \<in> set ds'. ANCHOR_JUMP < length x)"
      using less.prems(5) sent by (intro less.hyps[OF len]) (simp_all add: s1_def add.commute)
    then obtain s' ds' d' where IH: "coarse_loop win nqueues (fr_anchorcount s) d2 s1 = Inr s'" "fr_sent s' = coarse_chunks nqueues (ds @ d1 # ds')"
      "fr_qid s' = length (ds @ d1 # ds') mod nqueues" "fr_anchorcount s' = word_of_nat (Suc (length (ds @ d1 # ds')))"
      "fr_temp s' = Some (word_of_nat (length (ds @ d1 # ds')), d')" "d' \<noteq> []" "concat ds' @ d' = d2"
      "\<forall>x \<in> set ds'. ANCHOR_JUMP < length x" by auto
    have "concat (d1 # ds') @ d' = d" using IH(7) by (simp add: d1_def d2_def)
    moreover have "ANCHOR_JUMP < length d1" using split by (simp add: d1_def)
    ultimately show ?thesis using step IH by (intro exI[of _ s'] exI[of _ "d1 # ds'"] exI[of _ d']) auto
  qed
qed

lemma fill_loop_total:
  "\<forall>e \<in> set (r_script fd). \<not> is_error e \<Longrightarrow> \<exists>bs fd'. fill_loop fd n got = Inr (bs, fd')"
proof (induction fd n got rule: fill_loop.induct)
  case (1 fd n got)
  obtain r e bs1 fd1 where rd: "sys_read fd (n - length got) = (r, e, bs1, fd1)" by (metis prod_cases4)
  have r: "\<not> r < 0" using rd 1(2) by (auto simp: sys_read_def Let_def split: list.splits io_event.splits)
  have "\<forall>e \<in> set (r_script fd1). \<not> is_error e" using sys_read_split[OF rd] 1(2) by blast
  then show ?case
    using 1(1)[OF _ rd[symmetric] refl refl r] rd r by (cases "length got < n"; cases "r = 0") (simp_all add: fill_loop.simps[of fd])
qed

lemma next_block_total:
  "\<forall>e \<in> set (r_script fd). \<not> is_error e \<Longrightarrow> \<exists>bs fd'. next_block pre fd = Inr (bs, fd')"
  using fill_loop_total[of fd MAXBUF "[]"] by (simp add: next_block_def Let_def)


definition left_over :: "fragment \<Rightarrow> byte list" where
  "left_over s = (case fr_temp s of None \<Rightarrow> [] | Some (l1, d) \<Rightarrow> d)"

definition frag_inv :: "nat \<Rightarrow> byte list list \<Rightarrow> fragment \<Rightarrow> bool" where
  "frag_inv nqueues ds s \<longleftrightarrow> fr_sent s = coarse_chunks nqueues ds \<and> fr_qid s = length ds mod nqueues
     \<and> (case fr_temp s of None \<Rightarrow> fr_anchorcount s = word_of_nat (length ds)
        | Some (l1, d) \<Rightarrow> l1 = word_of_nat (length ds) \<and> d \<noteq> [] \<and> fr_anchorcount s = word_of_nat (Suc (length ds)))"

text \<open>The chunk an iteration starts with: its number, the left-over data and the state.\<close>

lemma frag_start:
  assumes "frag_inv nqueues ds s"
  shows "\<exists>s1. (case fr_temp s of
                       Some (l1, d) \<Rightarrow>
                         if length d > 0 then (l1, d, s\<lparr>fr_temp := None\<rparr>)
                         else (fr_anchorcount s, [], s\<lparr>fr_anchorcount := fr_anchorcount s + 1\<rparr>)
                     | None \<Rightarrow> (fr_anchorcount s, [], s\<lparr>fr_anchorcount := fr_anchorcount s + 1\<rparr>))
      = (word_of_nat (length ds), left_over s, s1)
    \<and> fr_sent s1 = coarse_chunks nqueues ds \<and> fr_qid s1 = length ds mod nqueues
    \<and> fr_anchorcount s1 = word_of_nat (Suc (length ds))"
  using assms by (cases "fr_temp s") (auto simp: frag_inv_def left_over_def add.commute)

lemma Fragment_loop_ok:
  assumes "frag_inv nqueues ds s" "\<forall>e \<in> set (r_script fd). \<not> is_error e"
    "MAXBUF + length (left_over s) + length (r_rest fd) \<le> SSIZE_MAX"
  shows "\<exists>s' ds'. Fragment_loop pre win nqueues fd s = Inr s' \<and> fr_sent s' = coarse_chunks nqueues (ds @ ds')
    \<and> concat ds' = left_over s @ r_rest fd \<and> (\<forall>x \<in> set ds'. x \<noteq> []) \<and> (\<forall>x \<in> set (butlast ds'). ANCHOR_JUMP < length x)"
  using assms
proof (induction "length (r_rest fd)" arbitrary: fd s ds rule: less_induct)
  case less
  define left where "left = left_over s"
  obtain s1 where s1: "(case fr_temp s of
                       Some (l1, d) \<Rightarrow>
                         if length d > 0 then (l1, d, s\<lparr>fr_temp := None\<rparr>)
                         else (fr_anchorcount s, [], s\<lparr>fr_anchorcount := fr_anchorcount s + 1\<rparr>)
                     | None \<Rightarrow> (fr_anchorcount s, [], s\<lparr>fr_anchorcount := fr_anchorcount s + 1\<rparr>))
      = (word_of_nat (length ds), left, s1)"
    and sent: "fr_sent s1 = coarse_chunks nqueues ds" "fr_qid s1 = length ds mod nqueues"
    and anchor: "fr_anchorcount s1 = word_of_nat (Suc (length ds))"
    using frag_start[OF less.prems(1)] by (auto simp: left_def)
  obtain bs fd' where nb: "next_block pre fd = Inr (bs, fd')" using next_block_total[OF less.prems(2)] by blast
  note sp = next_block_split[OF nb]
  have bl: "(case fr_temp s of None \<Rightarrow> 0 | Some (l1, d) \<Rightarrow> length d) = length left"
    by (simp add: left_def left_over_def split: option.splits)
  have fits: "\<not> SSIZE_MAX < MAXBUF + length left" using less.prems(3) by (simp add: left_def)
  have unfold: "Fragment_loop pre win nqueues fd s =
     (if length left + length bs = 0 then Inr s1
      else if length bs = 0 then Inr (send_chunk nqueues (new_chunk (Sequence (word_of_nat (length ds)) 0) False left) s1)
      else case coarse_loop win nqueues (word_of_nat (length ds)) (left @ bs) s1 of
             Inl e \<Rightarrow> Inl e | Inr s \<Rightarrow> Fragment_loop pre win nqueues fd' s)"
    unfolding Fragment_loop.simps[of pre win nqueues fd s] Let_def bl s1 prod.case nb sum.case using fits by (simp only: if_False)
  show ?case
  proof (cases "bs = []")
    case True
    then have rest: "r_rest fd = []" using sp by blast
    show ?thesis
    proof (cases "left = []")
      case l: True
      then show ?thesis using True unfold sent rest by (intro exI[of _ s1] exI[of _ "[]"]) (simp add: left_def)
    next
      case l: False
      let ?s = "send_chunk nqueues (new_chunk (Sequence (word_of_nat (length ds)) 0) False left) s1"
      have "fr_sent ?s = coarse_chunks nqueues (ds @ [left])" by (rule send_chunk_coarse(1)[OF sent])
      then show ?thesis using True l unfold rest by (intro exI[of _ ?s] exI[of _ "[left]"]) (simp add: left_def)
    qed
  next
    case False
    obtain s2 ds1 d' where c: "coarse_loop win nqueues (word_of_nat (length ds)) (left @ bs) s1 = Inr s2"
      "fr_sent s2 = coarse_chunks nqueues (ds @ ds1)" "fr_qid s2 = length (ds @ ds1) mod nqueues"
      "fr_anchorcount s2 = word_of_nat (Suc (length (ds @ ds1)))"
      "fr_temp s2 = Some (word_of_nat (length (ds @ ds1)), d')" "d' \<noteq> []" "concat ds1 @ d' = left @ bs"
      "\<forall>x \<in> set ds1. ANCHOR_JUMP < length x"
      using coarse_loop_ok[OF _ sent refl anchor, of "left @ bs" win] False by blast
    have inv2: "frag_inv nqueues (ds @ ds1) s2" using c(2-6) by (simp add: frag_inv_def)
    have lo: "left_over s2 = d'" using c(5) by (simp add: left_over_def)
    have d'_len: "length d' \<le> length left + length bs"
    proof -
      have "length (concat ds1) + length d' = length left + length bs" using arg_cong[OF c(7), of length] by simp
      then show ?thesis by linarith
    qed
    have "length (r_rest fd') < length (r_rest fd)" using sp False by (cases bs) auto
    moreover have "\<forall>e \<in> set (r_script fd'). \<not> is_error e" using sp less.prems(2) by blast
    moreover have "MAXBUF + length (left_over s2) + length (r_rest fd') \<le> SSIZE_MAX"
    proof -
      have "length (r_rest fd) = length bs + length (r_rest fd')" using sp by (metis length_append)
      then show ?thesis using less.prems(3) d'_len unfolding lo left_def by linarith
    qed
    ultimately obtain s' ds2 where IH: "Fragment_loop pre win nqueues fd' s2 = Inr s'"
      "fr_sent s' = coarse_chunks nqueues ((ds @ ds1) @ ds2)" "concat ds2 = d' @ r_rest fd'"
      "\<forall>x \<in> set ds2. x \<noteq> []" "\<forall>x \<in> set (butlast ds2). ANCHOR_JUMP < length x"
      using less.hyps[of fd' "ds @ ds1" s2] inv2 lo by blast
    have "concat (ds1 @ ds2) = left @ r_rest fd" using IH(3) c(7) sp by (metis append.assoc concat_append)
    moreover have "x \<noteq> []" if "x \<in> set (ds1 @ ds2)" for x using that c(8) IH(4) by auto
    moreover have "ds2 \<noteq> []" using IH(3) c(6) by auto
    then have "\<forall>x \<in> set (butlast (ds1 @ ds2)). ANCHOR_JUMP < length x" using c(8) IH(5) by (auto simp: butlast_append)
    ultimately show ?thesis using unfold False c(1) IH(1,2)
      by (intro exI[of _ s'] exI[of _ "ds1 @ ds2"]) (simp add: left_def)
  qed
qed

section \<open>Properties\<close>

lemma Fragment_sends:
  assumes "\<forall>e \<in> set (r_script fd). \<not> is_error e" "MAXBUF + length (r_rest fd) \<le> SSIZE_MAX"
  shows "\<exists>ds. Fragment preloading nqueues fd = Inr (coarse_chunks nqueues ds) \<and> concat ds = r_rest fd
    \<and> (\<forall>x \<in> set ds. x \<noteq> []) \<and> (\<forall>x \<in> set (butlast ds). ANCHOR_JUMP < length x)"
proof -
  let ?s0 = "\<lparr>fr_temp = None, fr_anchorcount = 0, fr_qid = 0, fr_sent = []\<rparr>"
  have inv: "frag_inv nqueues [] ?s0" by (simp add: frag_inv_def coarse_chunks_def)
  have lo: "left_over ?s0 = []" by (simp add: left_over_def)
  obtain s' ds where "Fragment_loop preloading 0 nqueues fd ?s0 = Inr s'" "fr_sent s' = coarse_chunks nqueues ds"
      "concat ds = r_rest fd" "\<forall>x \<in> set ds. x \<noteq> []" "\<forall>x \<in> set (butlast ds). ANCHOR_JUMP < length x"
    using Fragment_loop_ok[OF inv assms(1), of preloading 0] assms(2) unfolding lo by auto
  then show ?thesis by (auto simp: Fragment_def Let_def)
qed





end
