(* ===== verification/Reorder.thy ===== *)
theory Reorder
  imports Binheap Search_Tree Encoder
begin

text \<open>
  The last stage of the dedup encoder (\<^verbatim>\<open>Reorder\<close> in \<^verbatim>\<open>apps/dedup/src/pthread/encoder.c\<close>): chunks arrive
  in any order and are written in the order of their two-level sequence numbers. Chunks that arrive
  early wait in a search tree of priority queues. A tree node refers to its queue by a number in a
  store of queues; the array \<open>chunks_per_anchor\<close> is a list, and an access outside it is a fault. The
  loops that empty the cache take fuel; \<open>None\<close> means that it ran out, which the theorems exclude.
\<close>

section \<open>State and operations\<close>

definition INITIAL_SEARCH_TREE_SIZE :: int where "INITIAL_SEARCH_TREE_SIZE = 4096"

abbreviation seq_of :: "chunk_t \<Rightarrow> sequence_t" where "seq_of \<equiv> ch_sequence"
abbreviation l1_of :: "chunk_t \<Rightarrow> u32" where "l1_of c \<equiv> l1num (ch_sequence c)"
abbreviation l2_of :: "chunk_t \<Rightarrow> u32" where "l2_of c \<equiv> l2num (ch_sequence c)"

record reorder =
  ro_T :: "nat SearchTree"
  ro_pmin :: "nat Position"
  ro_queues :: "nat \<rightharpoonup> chunk_t HeapStruct"
  ro_nqueues :: nat
  ro_next :: sequence_t
  ro_chunks_per_anchor :: "u32 list"
  ro_written :: "chunk_t list"

definition Reorder_start :: reorder where
  "Reorder_start =
     (let (pmin, T) = TreeMakeEmpty None TNull
      in \<lparr>ro_T = T, ro_pmin = pmin, ro_queues = Map.empty, ro_nqueues = 0, ro_next = sequence_reset,
          ro_chunks_per_anchor = replicate 1024 0, ro_written = []\<rparr>)"

definition read_anchor :: "reorder \<Rightarrow> u32 \<Rightarrow> u32 outcome" where
  "read_anchor s l1 =
     (if unat l1 < length (ro_chunks_per_anchor s) then Inr (ro_chunks_per_anchor s ! unat l1) else Inl Out_Of_Bounds)"

text \<open>Doubling the array, once, and recording the number of chunks of a finished coarse chunk.\<close>

definition update_anchor :: "bool \<Rightarrow> chunk_t \<Rightarrow> reorder \<Rightarrow> reorder outcome" where
  "update_anchor mem_ok chunk s =
     bindR
       (if unat (l1_of chunk) \<ge> length (ro_chunks_per_anchor s)
        then if \<not> mem_ok then Inl (Exit_Trace ''Error allocating memory'')
             else Inr (s\<lparr>ro_chunks_per_anchor :=
                    ro_chunks_per_anchor s @ replicate (length (ro_chunks_per_anchor s)) 0\<rparr>)
        else Inr s)
       (\<lambda>s. if isLastL2Chunk chunk
            then bindR (read_anchor s (l1_of chunk)) (\<lambda>n.
                   assertR (n = 0) ''chunks_per_anchor[chunk->sequence.l1num] == 0''
                     (Inr (s\<lparr>ro_chunks_per_anchor :=
                        (ro_chunks_per_anchor s)[unat (l1_of chunk) := l2_of chunk + 1]\<rparr>)))
            else Inr s)"

text \<open>Putting a chunk that is not next into the cache.\<close>

definition cache_chunk :: "bool \<Rightarrow> chunk_t \<Rightarrow> reorder \<Rightarrow> reorder outcome" where
  "cache_chunk mem_ok chunk s =
     (case TreeFind (l1_of chunk) (ro_T s) of
        None \<Rightarrow>
          bindR (Initialize mem_ok mem_ok INITIAL_SEARCH_TREE_SIZE) (\<lambda>H.
          bindR (Insert l2_of mem_ok chunk H) (\<lambda>H.
            let q = ro_nqueues s;
                (pmin, T) = TreeInsert mem_ok (TreeElement (l1_of chunk) q) (ro_pmin s) (ro_T s)
            in Inr (s\<lparr>ro_T := T, ro_pmin := pmin, ro_queues := (ro_queues s)(q \<mapsto> H), ro_nqueues := Suc q\<rparr>)))
      | Some e \<Rightarrow>
          (case ro_queues s (te_queue e) of
             None \<Rightarrow> Inl Invalid_Pointer
           | Some H \<Rightarrow> bindR (Insert l2_of mem_ok chunk H) (\<lambda>H.
               Inr (s\<lparr>ro_queues := (ro_queues s)(te_queue e \<mapsto> H)\<rparr>))))"

text \<open>Advancing \<open>next\<close> after a chunk has been written.\<close>

definition advance :: "reorder \<Rightarrow> reorder outcome" where
  "advance s =
     (let next = sequence_inc_l2 (ro_next s)
      in bindR (read_anchor s (l1num next)) (\<lambda>n.
           Inr (s\<lparr>ro_next := (if n \<noteq> 0 \<and> l2num next = n then sequence_inc_l1 next else next)\<rparr>)))"

text \<open>Removing the chunk at the head of a queue, and the queue with it when it becomes empty.\<close>

definition take_cached :: "nat tree_element \<Rightarrow> chunk_t HeapStruct \<Rightarrow> reorder \<Rightarrow> (nat Position \<times> reorder) outcome" where
  "take_cached e H s =
     bindR (DeleteMin l2_of H) (\<lambda>(_, H).
       if IsEmpty H
       then let (pmin, T) = TreeDelete (te_l1num e) (ro_pmin s) (ro_T s)
            in Inr (TreeFindMin pmin T, s\<lparr>ro_T := T, ro_pmin := pmin, ro_queues := (ro_queues s)(te_queue e := None)\<rparr>)
       else Inr (Some e, s\<lparr>ro_queues := (ro_queues s)(te_queue e \<mapsto> H)\<rparr>))"

text \<open>The loop that writes as many chunks as possible.\<close>

fun write_loop :: "nat \<Rightarrow> chunk_t \<Rightarrow> nat Position \<Rightarrow> reorder \<Rightarrow> reorder outcome option" where
  "write_loop 0 chunk pos s = None"
| "write_loop (Suc fuel) chunk pos s =
     (case advance (s\<lparr>ro_written := ro_written s @ [chunk]\<rparr>) of
        Inl err \<Rightarrow> Some (Inl err)
      | Inr s \<Rightarrow>
          (case pos of
             None \<Rightarrow> Some (Inr s)
           | Some e \<Rightarrow>
               if te_l1num e = l1num (ro_next s)
               then (case ro_queues s (te_queue e) of
                       None \<Rightarrow> Some (Inl Invalid_Pointer)
                     | Some H \<Rightarrow>
                         (case FindMin H of
                            None \<Rightarrow> Some (Inl Invalid_Pointer)
                          | Some chunk \<Rightarrow>
                              if sequence_eq (seq_of chunk) (ro_next s)
                              then (case take_cached e H s of
                                      Inl err \<Rightarrow> Some (Inl err)
                                    | Inr (pos, s) \<Rightarrow> write_loop fuel chunk pos s)
                              else Some (Inr s)))
               else Some (Inr s)))"

text \<open>The body of the main loop for one chunk.\<close>

definition receive :: "bool \<Rightarrow> nat \<Rightarrow> chunk_t \<Rightarrow> reorder \<Rightarrow> reorder outcome option" where
  "receive mem_ok fuel chunk s =
     (case update_anchor mem_ok chunk s of
        Inl err \<Rightarrow> Some (Inl err)
      | Inr s \<Rightarrow>
          if \<not> sequence_eq (seq_of chunk) (ro_next s)
          then Some (cache_chunk mem_ok chunk s)
          else write_loop fuel chunk (TreeFindMin (ro_pmin s) (ro_T s)) s)"

fun receive_all :: "bool \<Rightarrow> nat \<Rightarrow> chunk_t list \<Rightarrow> reorder \<Rightarrow> reorder outcome option" where
  "receive_all mem_ok fuel [] s = Some (Inr s)"
| "receive_all mem_ok fuel (c # cs) s =
     (case receive mem_ok fuel c s of
        None \<Rightarrow> None
      | Some (Inl err) \<Rightarrow> Some (Inl err)
      | Some (Inr s) \<Rightarrow> receive_all mem_ok fuel cs s)"

text \<open>The final loop, which writes what is left in the cache.\<close>

fun flush_loop :: "nat \<Rightarrow> nat Position \<Rightarrow> reorder \<Rightarrow> reorder outcome option" where
  "flush_loop fuel None s = Some (Inr s)"
| "flush_loop 0 (Some e) s = None"
| "flush_loop (Suc fuel) (Some e) s =
     (if te_l1num e = l1num (ro_next s)
      then (case ro_queues s (te_queue e) of
              None \<Rightarrow> Some (Inl Invalid_Pointer)
            | Some H \<Rightarrow>
                (case FindMin H of
                   None \<Rightarrow> Some (Inl Invalid_Pointer)
                 | Some chunk \<Rightarrow>
                     if sequence_eq (seq_of chunk) (ro_next s)
                     then (case take_cached e H s of
                             Inl err \<Rightarrow> Some (Inl err)
                           | Inr (pos, s) \<Rightarrow>
                               (case advance (s\<lparr>ro_written := ro_written s @ [chunk]\<rparr>) of
                                  Inl err \<Rightarrow> Some (Inl err)
                                | Inr s \<Rightarrow> flush_loop fuel pos s))
                     else Some (Inl (Exit_Trace ''L2 sequence number mismatch.''))))
      else Some (Inl (Exit_Trace ''L1 sequence number mismatch.'')))"

text \<open>
  The stage on the sequence of chunks it dequeues: the chunks in the order in which it writes them.
\<close>

definition Reorder :: "bool \<Rightarrow> nat \<Rightarrow> chunk_t list \<Rightarrow> chunk_t list outcome option" where
  "Reorder mem_ok fuel arrivals =
     (case receive_all mem_ok fuel arrivals Reorder_start of
        None \<Rightarrow> None
      | Some (Inl err) \<Rightarrow> Some (Inl err)
      | Some (Inr s) \<Rightarrow>
          map_option (\<lambda>r. bindR r (\<lambda>s. Inr (ro_written s)))
            (flush_loop fuel (TreeFindMin (ro_pmin s) (ro_T s)) s))"

section \<open>Numbered chunks\<close>

text \<open>The sequence number that follows a chunk, and the number expected after \<open>k\<close> chunks.\<close>

definition after :: "chunk_t \<Rightarrow> sequence_t" where
  "after c = (if isLastL2Chunk c then Sequence (l1_of c + 1) 0 else Sequence (l1_of c) (l2_of c + 1))"

fun expected :: "chunk_t list \<Rightarrow> nat \<Rightarrow> sequence_t" where
  "expected os 0 = Sequence 0 0"
| "expected os (Suc k) = after (os ! k)"

text \<open>
  What the stage relies on about the whole set of chunks, listed in order: numbers follow each other
  without a gap or a wrap-around, each coarse chunk has at most one last chunk, and the counters do
  not overflow.
\<close>

definition numbered :: "chunk_t list \<Rightarrow> bool" where
  "numbered os \<longleftrightarrow>
     sorted_wrt (<) (map seq_of os)
   \<and> (\<forall>k < length os. seq_of (os ! k) = expected os k)
   \<and> (\<forall>c \<in> set os. isLastL2Chunk c \<longrightarrow> l2_of c + 1 \<noteq> 0
        \<and> (\<forall>c' \<in> set os. isLastL2Chunk c' \<and> l1_of c' = l1_of c \<longrightarrow> c' = c))"

text \<open>Arrivals for which doubling the array once is enough each time.\<close>

fun fits :: "nat \<Rightarrow> chunk_t list \<Rightarrow> bool" where
  "fits cap [] = True"
| "fits cap (c # cs) =
     (let cap' = (if unat (l1_of c) \<ge> cap then 2 * cap else cap) in unat (l1_of c) < cap' \<and> fits cap' cs)"


section \<open>The cache as a set of chunks\<close>

text \<open>The chunks of a set that belong to one coarse chunk.\<close>

definition level :: "chunk_t set \<Rightarrow> u32 \<Rightarrow> chunk_t set" where
  "level P x = {c \<in> P. l1_of c = x}"

lemma in_level [simp]: "c \<in> level P x \<longleftrightarrow> c \<in> P \<and> l1_of c = x"
  by (simp add: level_def)

lemma finite_level [simp]: "finite P \<Longrightarrow> finite (level P x)"
  by (simp add: level_def)

definition cache_ok :: "reorder \<Rightarrow> chunk_t set \<Rightarrow> bool" where
  "cache_ok s P \<longleftrightarrow> finite P \<and> tree_inv (ro_T s) \<and> ro_pmin s = None
     \<and> (\<forall>x. TreeFind x (ro_T s) = None \<longrightarrow> level P x = {})
     \<and> (\<forall>x e. TreeFind x (ro_T s) = Some e \<longrightarrow> te_queue e < ro_nqueues s
          \<and> (\<exists>H. ro_queues s (te_queue e) = Some H \<and> BinHeap_inv l2_of H
               \<and> heap_contents H = mset_set (level P x) \<and> level P x \<noteq> {}))
     \<and> (\<forall>x y e e'. TreeFind x (ro_T s) = Some e \<longrightarrow> TreeFind y (ro_T s) = Some e' \<longrightarrow> te_queue e = te_queue e' \<longrightarrow> x = y)"

lemma cache_okD:
  assumes "cache_ok s P"
  shows "finite P" "tree_inv (ro_T s)" "ro_pmin s = None"
    "\<And>x. TreeFind x (ro_T s) = None \<Longrightarrow> level P x = {}"
    "\<And>x e. TreeFind x (ro_T s) = Some e \<Longrightarrow> te_queue e < ro_nqueues s"
    "\<And>x e. TreeFind x (ro_T s) = Some e \<Longrightarrow> \<exists>H. ro_queues s (te_queue e) = Some H \<and> BinHeap_inv l2_of H
               \<and> heap_contents H = mset_set (level P x) \<and> level P x \<noteq> {}"
    "\<And>x y e e'. TreeFind x (ro_T s) = Some e \<Longrightarrow> TreeFind y (ro_T s) = Some e' \<Longrightarrow> te_queue e = te_queue e' \<Longrightarrow> x = y"
  using assms unfolding cache_ok_def by blast+

lemma cache_okI:
  assumes "finite P" "tree_inv (ro_T s)" "ro_pmin s = None"
    "\<And>x. TreeFind x (ro_T s) = None \<Longrightarrow> level P x = {}"
    "\<And>x e. TreeFind x (ro_T s) = Some e \<Longrightarrow> te_queue e < ro_nqueues s"
    "\<And>x e. TreeFind x (ro_T s) = Some e \<Longrightarrow> \<exists>H. ro_queues s (te_queue e) = Some H \<and> BinHeap_inv l2_of H
               \<and> heap_contents H = mset_set (level P x) \<and> level P x \<noteq> {}"
    "\<And>x y e e'. TreeFind x (ro_T s) = Some e \<Longrightarrow> TreeFind y (ro_T s) = Some e' \<Longrightarrow> te_queue e = te_queue e' \<Longrightarrow> x = y"
  shows "cache_ok s P"
  using assms unfolding cache_ok_def by blast

text \<open>The fields of the state that the cache operations leave alone.\<close>

definition same_progress :: "reorder \<Rightarrow> reorder \<Rightarrow> bool" where
  "same_progress s s' \<longleftrightarrow> ro_next s' = ro_next s \<and> ro_chunks_per_anchor s' = ro_chunks_per_anchor s
     \<and> ro_written s' = ro_written s"

lemma level_insert:
  "level (insert c P) x = (if l1_of c = x then insert c (level P x) else level P x)"
  by auto

lemma cache_chunk_ok:
  assumes inv: "cache_ok s P" and c: "c \<notin> P"
  shows "\<exists>s'. cache_chunk True c s = Inr s' \<and> cache_ok s' (insert c P) \<and> same_progress s s'"
proof (cases "TreeFind (l1_of c) (ro_T s)")
  case None
  note I = cache_okD[OF inv]
  have "MinPQSize \<le> INITIAL_SEARCH_TREE_SIZE" by (simp add: MinPQSize_def INITIAL_SEARCH_TREE_SIZE_def)
  then obtain H0 :: "chunk_t HeapStruct" where H0: "Initialize True True INITIAL_SEARCH_TREE_SIZE = Inr H0"
      "BinHeap_inv l2_of H0" "heap_contents H0 = {#}"
    using Initialize_spec by blast
  obtain H where H: "Insert l2_of True c H0 = Inr H" "BinHeap_inv l2_of H" "heap_contents H = {#c#}"
    using bh.put_ok[OF H0(2), of c] H0(3) by auto
  define q where "q = ro_nqueues s"
  define e where "e = TreeElement (l1_of c) q"
  obtain p T where T: "TreeInsert True e None (ro_T s) = (p, T)" by (cases "TreeInsert True e None (ro_T s)")
  have p: "p = None" using TreeInsert_pmin[of True e "ro_T s"] T by simp
  have invT: "tree_inv T" using st.inv_ins[OF I(2), of e] T by simp
  have find: "TreeFind x T = (if x = l1_of c then Some e else TreeFind x (ro_T s))" for x
    using st.find_ins[OF I(2), of e x] T None by (simp add: e_def)
  define s' where "s' = s\<lparr>ro_T := T, ro_pmin := p, ro_queues := (ro_queues s)(q \<mapsto> H), ro_nqueues := Suc q\<rparr>"
  have empty: "level P (l1_of c) = {}" by (rule I(4)[OF None])
  have "cache_ok s' (insert c P)"
  proof (rule cache_okI)
    show "level (insert c P) x = {}" if "TreeFind x (ro_T s') = None" for x
      using that I(4)[of x] by (auto simp: s'_def find split: if_splits)
    show "te_queue e' < ro_nqueues s'" if "TreeFind x (ro_T s') = Some e'" for x e'
      using that I(5)[of x e'] by (auto simp: s'_def find e_def q_def less_Suc_eq split: if_splits)
    show "\<exists>H. ro_queues s' (te_queue e') = Some H \<and> BinHeap_inv l2_of H
        \<and> heap_contents H = mset_set (level (insert c P) x) \<and> level (insert c P) x \<noteq> {}"
      if "TreeFind x (ro_T s') = Some e'" for x e'
    proof (cases "x = l1_of c")
      case True
      then have "e' = e" using that by (simp add: s'_def find)
      moreover have lv: "level (insert c P) (l1_of c) = {c}" using empty by auto
      ultimately show ?thesis unfolding True lv using H(2,3) by (simp add: s'_def e_def)
    next
      case False
      then have f: "TreeFind x (ro_T s) = Some e'" using that by (simp add: s'_def find)
      have "te_queue e' \<noteq> q" using I(5)[OF f] by (simp add: q_def)
      then show ?thesis using I(6)[OF f] False by (simp add: s'_def level_insert)
    qed
    show "x = y" if "TreeFind x (ro_T s') = Some e1" "TreeFind y (ro_T s') = Some e2" "te_queue e1 = te_queue e2" for x y e1 e2
    proof -
      have old: "te_queue e' \<noteq> q" if "TreeFind z (ro_T s) = Some e'" for z e' using I(5)[OF that] by (simp add: q_def)
      show ?thesis using that I(7)[of x e1 y e2] old[of x e1] old[of y e2]
        by (auto simp: s'_def find e_def split: if_splits)
    qed
  qed (use I p invT in \<open>simp_all add: s'_def\<close>)
  moreover have "cache_chunk True c s = Inr s'"
    using None H0(1) H(1) I(3) T by (simp add: cache_chunk_def s'_def e_def q_def Let_def)
  ultimately show ?thesis by (auto simp: same_progress_def s'_def)
next
  case (Some e)
  note I = cache_okD[OF inv]
  obtain H where H: "ro_queues s (te_queue e) = Some H" "BinHeap_inv l2_of H"
      "heap_contents H = mset_set (level P (l1_of c))" using I(6)[OF Some] by blast
  obtain H' where H': "Insert l2_of True c H = Inr H'" "BinHeap_inv l2_of H'" "heap_contents H' = add_mset c (heap_contents H)"
    using bh.put_ok[OF H(2), of c] by auto
  define s' where "s' = s\<lparr>ro_queues := (ro_queues s)(te_queue e \<mapsto> H')\<rparr>"
  have "cache_ok s' (insert c P)"
  proof (rule cache_okI)
    show "level (insert c P) x = {}" if "TreeFind x (ro_T s') = None" for x
      using that I(4)[of x] Some by (cases "l1_of c = x") (simp_all add: s'_def level_insert)
    show "\<exists>H. ro_queues s' (te_queue e') = Some H \<and> BinHeap_inv l2_of H
        \<and> heap_contents H = mset_set (level (insert c P) x) \<and> level (insert c P) x \<noteq> {}"
      if "TreeFind x (ro_T s') = Some e'" for x e'
    proof (cases "x = l1_of c")
      case True
      then have "e' = e" using that Some by (simp add: s'_def)
      moreover have "heap_contents H' = mset_set (insert c (level P (l1_of c)))" using H'(3) H(3) c I(1) by simp
      ultimately show ?thesis using H'(2) True by (simp add: s'_def level_insert)
    next
      case False
      then have f: "TreeFind x (ro_T s) = Some e'" using that by (simp add: s'_def)
      have "te_queue e' \<noteq> te_queue e" using I(7)[OF f Some] False by auto
      then show ?thesis using I(6)[OF f] False by (simp add: s'_def level_insert)
    qed
  qed (use I in \<open>simp_all add: s'_def\<close>)
  moreover have "cache_chunk True c s = Inr s'" using Some H(1) H'(1) by (simp add: cache_chunk_def s'_def)
  ultimately show ?thesis by (auto simp: same_progress_def s'_def)
qed

lemma cache_find:
  assumes "cache_ok s P" "c \<in> P"
  shows "TreeFind (l1_of c) (ro_T s) \<noteq> None"
proof
  assume "TreeFind (l1_of c) (ro_T s) = None"
  then have "level P (l1_of c) = {}" by (rule cache_okD(4)[OF assms(1)])
  moreover have "c \<in> level P (l1_of c)" using assms(2) by simp
  ultimately show False by blast
qed

text \<open>The head of the cache: the least first-level number, and in its queue the least second-level number.\<close>

lemma cache_head:
  assumes inv: "cache_ok s P" and e: "TreeFindMin None (ro_T s) = Some e"
  shows "\<exists>H c. ro_queues s (te_queue e) = Some H \<and> FindMin H = Some c \<and> c \<in> P \<and> l1_of c = te_l1num e
    \<and> (\<forall>c' \<in> P. te_l1num e \<le> l1_of c' \<and> (l1_of c' = te_l1num e \<longrightarrow> l2_of c \<le> l2_of c'))"
proof -
  note I = cache_okD[OF inv]
  have f: "TreeFind (te_l1num e) (ro_T s) = Some e" by (rule st.least_find[OF I(2) e])
  obtain H where H: "ro_queues s (te_queue e) = Some H" "BinHeap_inv l2_of H"
      "heap_contents H = mset_set (level P (te_l1num e))" "level P (te_l1num e) \<noteq> {}"
    using I(6)[OF f] by blast
  have fin: "finite (level P (te_l1num e))" using I(1) by simp
  have "heap_contents H \<noteq> {#}" using H(3,4) fin by (simp add: mset_set_empty_iff)
  then obtain c where c: "FindMin H = Some c" "c \<in># heap_contents H" "\<forall>y \<in># heap_contents H. l2_of c \<le> l2_of y"
    using bh.find_min_least[OF H(2)] by blast
  have "te_l1num e \<le> l1_of c'" if "c' \<in> P" for c'
    by (rule st.least_le[OF I(2) e cache_find[OF inv that]])
  then show ?thesis using H c fin by (auto simp: finite_set_mset_mset_set)
qed

lemma cache_empty_iff:
  assumes "cache_ok s P"
  shows "TreeFindMin None (ro_T s) = None \<longleftrightarrow> P = {}"
proof
  assume "TreeFindMin None (ro_T s) = None"
  then have "\<forall>k. TreeFind k (ro_T s) = None" using st.least_None[OF cache_okD(2)[OF assms]] by blast
  then show "P = {}" using cache_find[OF assms] by blast
next
  assume P: "P = {}"
  show "TreeFindMin None (ro_T s) = None"
  proof (cases "TreeFindMin None (ro_T s)")
    case (Some e)
    then show ?thesis using cache_head[OF assms Some] P by blast
  qed
qed

lemma level_remove: "level (P - {c}) x = level P x - {c}"
  by auto

lemma take_cached_ok:
  assumes inv: "cache_ok s P" and e: "TreeFindMin None (ro_T s) = Some e"
    and H: "ro_queues s (te_queue e) = Some H" "FindMin H = Some c"
  shows "\<exists>s'. take_cached e H s = Inr (TreeFindMin None (ro_T s'), s') \<and> cache_ok s' (P - {c}) \<and> same_progress s s'"
proof -
  note I = cache_okD[OF inv]
  have f: "TreeFind (te_l1num e) (ro_T s) = Some e" by (rule st.least_find[OF I(2) e])
  have hinv: "BinHeap_inv l2_of H" and hc: "heap_contents H = mset_set (level P (te_l1num e))"
    using I(6)[OF f] H(1) by auto
  have fin: "finite (level P x)" for x using I(1) by simp
  have cP: "c \<in> P" "l1_of c = te_l1num e" using bh.find_min_SomeD(1)[OF hinv H(2)] hc fin by auto
  obtain H' where H': "DeleteMin l2_of H = Inr (c, H')" "BinHeap_inv l2_of H'" "heap_contents H' = heap_contents H - {#c#}"
    using bh.delete_min_ok[OF hinv H(2)] by auto
  have hc': "heap_contents H' = mset_set (level (P - {c}) (te_l1num e))"
  proof -
    have "mset_set A - {#c#} = mset_set (A - {c})" if "finite A" "c \<in> A" for A :: "chunk_t set"
      using that by (simp add: mset_set_Diff)
    from this[OF fin[of "te_l1num e"]] cP show ?thesis unfolding H'(3) hc level_remove by simp
  qed
  have empty: "IsEmpty H' \<longleftrightarrow> level (P - {c}) (te_l1num e) = {}"
  proof -
    have "FindMin H' = None \<longleftrightarrow> heap_contents H' = {#}" by (rule bh.find_min_None_iff[OF H'(2)])
    moreover have "FindMin H' = None \<longleftrightarrow> IsEmpty H'"
      using H'(2) by (auto simp: FindMin_def BinHeap_inv_def IsEmpty_def)
    ultimately show ?thesis using hc' fin[of "te_l1num e"] by (simp add: mset_set_empty_iff level_remove)
  qed
  have other: "level (P - {c}) x = level P x" if "x \<noteq> te_l1num e" for x using that cP by auto
  show ?thesis
  proof (cases "IsEmpty H'")
    case True
    obtain p T where T: "TreeDelete (te_l1num e) None (ro_T s) = (p, T)" by (cases "TreeDelete (te_l1num e) None (ro_T s)")
    have p: "p = None" using TreeDelete_pmin[of "te_l1num e" "ro_T s"] T by simp
    have invT: "tree_inv T" using st.inv_del[OF I(2), of "te_l1num e"] T by simp
    have find: "TreeFind x T = (if x = te_l1num e then None else TreeFind x (ro_T s))" for x
      using st.find_del[OF I(2), of x "te_l1num e"] T by simp
    define s' where "s' = s\<lparr>ro_T := T, ro_pmin := p, ro_queues := (ro_queues s)(te_queue e := None)\<rparr>"
    have "cache_ok s' (P - {c})"
    proof (rule cache_okI)
      show "level (P - {c}) x = {}" if "TreeFind x (ro_T s') = None" for x
        using that I(4)[of x] empty True other[of x] by (cases "x = te_l1num e") (simp_all add: s'_def find)
      show "te_queue e' < ro_nqueues s'" if "TreeFind x (ro_T s') = Some e'" for x e'
        using that I(5)[of x e'] by (auto simp: s'_def find split: if_splits)
      show "\<exists>H. ro_queues s' (te_queue e') = Some H \<and> BinHeap_inv l2_of H
        \<and> heap_contents H = mset_set (level (P - {c}) x) \<and> level (P - {c}) x \<noteq> {}"
        if "TreeFind x (ro_T s') = Some e'" for x e'
      proof -
        have x: "x \<noteq> te_l1num e" "TreeFind x (ro_T s) = Some e'" using that by (auto simp: s'_def find split: if_splits)
        have "te_queue e' \<noteq> te_queue e" using I(7)[OF x(2) f] x(1) by auto
        then show ?thesis using I(6)[OF x(2)] other[OF x(1)] by (simp add: s'_def)
      qed
      show "x = y" if "TreeFind x (ro_T s') = Some e1" "TreeFind y (ro_T s') = Some e2" "te_queue e1 = te_queue e2" for x y e1 e2
        using that I(7)[of x e1 y e2] by (auto simp: s'_def find split: if_splits)
    qed (use I p invT in \<open>simp_all add: s'_def\<close>)
    moreover have "take_cached e H s = Inr (TreeFindMin None (ro_T s'), s')"
      using H'(1) True I(3) T p by (simp add: take_cached_def s'_def)
    ultimately show ?thesis by (auto simp: same_progress_def s'_def)
  next
    case False
    define s' where "s' = s\<lparr>ro_queues := (ro_queues s)(te_queue e \<mapsto> H')\<rparr>"
    have "cache_ok s' (P - {c})"
    proof (rule cache_okI)
      show "level (P - {c}) x = {}" if "TreeFind x (ro_T s') = None" for x
        using that I(4)[of x] by (auto simp: s'_def)
      show "\<exists>H. ro_queues s' (te_queue e') = Some H \<and> BinHeap_inv l2_of H
        \<and> heap_contents H = mset_set (level (P - {c}) x) \<and> level (P - {c}) x \<noteq> {}"
        if "TreeFind x (ro_T s') = Some e'" for x e'
      proof (cases "x = te_l1num e")
        case True
        then have "e' = e" using that f by (simp add: s'_def)
        then show ?thesis using True H'(2) hc' empty False by (simp add: s'_def)
      next
        case x: False
        then have fx: "TreeFind x (ro_T s) = Some e'" using that by (simp add: s'_def)
        have "te_queue e' \<noteq> te_queue e" using I(7)[OF fx f] x by auto
        then show ?thesis using I(6)[OF fx] other[OF x] by (simp add: s'_def)
      qed
    qed (use I in \<open>simp_all add: s'_def\<close>)
    moreover have "take_cached e H s = Inr (TreeFindMin None (ro_T s'), s')"
      using H'(1) False e by (simp add: take_cached_def s'_def)
    ultimately show ?thesis by (auto simp: same_progress_def s'_def)
  qed
qed


section \<open>Invariant of the stage\<close>

lemma numberedD:
  assumes "numbered os"
  shows "sorted_wrt (<) (map seq_of os)" "\<And>k. k < length os \<Longrightarrow> seq_of (os ! k) = expected os k"
    "\<And>c. c \<in> set os \<Longrightarrow> isLastL2Chunk c \<Longrightarrow> l2_of c + 1 \<noteq> 0"
    "\<And>c c'. c \<in> set os \<Longrightarrow> c' \<in> set os \<Longrightarrow> isLastL2Chunk c \<Longrightarrow> isLastL2Chunk c' \<Longrightarrow> l1_of c' = l1_of c \<Longrightarrow> c' = c"
  using assms unfolding numbered_def by blast+

lemma numbered_less: "numbered os \<Longrightarrow> i < j \<Longrightarrow> j < length os \<Longrightarrow> seq_of (os ! i) < seq_of (os ! j)"
  using numberedD(1)[of os] by (simp add: sorted_wrt_iff_nth_less)

lemma numbered_seq_inj: "numbered os \<Longrightarrow> i < length os \<Longrightarrow> j < length os \<Longrightarrow> seq_of (os ! i) = seq_of (os ! j) \<Longrightarrow> i = j"
  using numbered_less[of os i j] numbered_less[of os j i] by (metis linorder_neqE_nat order_less_irrefl)

lemma numbered_distinct: "numbered os \<Longrightarrow> distinct os"
  using numbered_seq_inj by (metis distinct_conv_nth)

lemma numbered_seq_eq: "numbered os \<Longrightarrow> c \<in> set os \<Longrightarrow> c' \<in> set os \<Longrightarrow> seq_of c = seq_of c' \<Longrightarrow> c = c'"
  using numbered_seq_inj by (metis in_set_conv_nth)

lemma numbered_not_in_take:
  assumes "numbered os" "k \<le> j" "j < length os"
  shows "os ! j \<notin> set (take k os)"
proof
  assume "os ! j \<in> set (take k os)"
  then obtain i where "i < k" "i < length os" "os ! i = os ! j" by (auto simp: in_set_conv_nth)
  then show False using numbered_seq_inj[OF assms(1), of i j] assms(2,3) by simp
qed

text \<open>What has been received (\<open>R\<close>), and the counts recorded for finished coarse chunks.\<close>

definition anchors_ok :: "chunk_t set \<Rightarrow> u32 list \<Rightarrow> bool" where
  "anchors_ok R cpa \<longleftrightarrow> (\<forall>c \<in> R. unat (l1_of c) < length cpa)
     \<and> (\<forall>c \<in> R. isLastL2Chunk c \<longrightarrow> cpa ! unat (l1_of c) = l2_of c + 1)
     \<and> (\<forall>i < length cpa. cpa ! i \<noteq> 0 \<longrightarrow> (\<exists>c \<in> R. isLastL2Chunk c \<and> unat (l1_of c) = i))"

definition ro_inv :: "chunk_t list \<Rightarrow> chunk_t set \<Rightarrow> nat \<Rightarrow> reorder \<Rightarrow> bool" where
  "ro_inv os R k s \<longleftrightarrow> R \<subseteq> set os \<and> k \<le> length os \<and> set (take k os) \<subseteq> R
     \<and> (k < length os \<longrightarrow> os ! k \<notin> R)
     \<and> ro_written s = take k os \<and> ro_next s = expected os k
     \<and> anchors_ok R (ro_chunks_per_anchor s) \<and> cache_ok s (R - set (take k os))"

lemma advance_ok:
  assumes num: "numbered os" and k: "k < length os" "os ! k \<in> R" "R \<subseteq> set os"
    and anchors: "anchors_ok R (ro_chunks_per_anchor s)" and nx: "ro_next s = seq_of (os ! k)"
  shows "advance s = Inr (s\<lparr>ro_next := expected os (Suc k)\<rparr>)"
proof -
  define c where "c = os ! k"
  let ?cpa = "ro_chunks_per_anchor s"
  have c: "c \<in> R" "c \<in> set os" using k by (auto simp: c_def)
  have len: "unat (l1_of c) < length ?cpa" using anchors c(1) by (simp add: anchors_ok_def)
  have nxt: "sequence_inc_l2 (ro_next s) = Sequence (l1_of c) (l2_of c + 1)" by (simp add: sequence_inc_l2_def nx c_def)
  have "(?cpa ! unat (l1_of c) \<noteq> 0 \<and> l2_of c + 1 = ?cpa ! unat (l1_of c)) \<longleftrightarrow> isLastL2Chunk c"
  proof
    assume a: "?cpa ! unat (l1_of c) \<noteq> 0 \<and> l2_of c + 1 = ?cpa ! unat (l1_of c)"
    then obtain c' where c': "c' \<in> R" "isLastL2Chunk c'" "unat (l1_of c') = unat (l1_of c)"
      using anchors len unfolding anchors_ok_def by blast
    then have "?cpa ! unat (l1_of c) = l2_of c' + 1" using anchors unfolding anchors_ok_def by metis
    then have "l2_of c' = l2_of c" using a by simp
    moreover have "l1_of c' = l1_of c" using c'(3) by (simp add: word_unat_eq_iff)
    ultimately have "seq_of c' = seq_of c" by (metis sequence_t.expand)
    then have "c' = c" using numbered_seq_eq[OF num] c(2) c'(1) k(3) by blast
    then show "isLastL2Chunk c" using c'(2) by simp
  next
    assume l: "isLastL2Chunk c"
    then have "?cpa ! unat (l1_of c) = l2_of c + 1" using anchors c(1) unfolding anchors_ok_def by blast
    then show "?cpa ! unat (l1_of c) \<noteq> 0 \<and> l2_of c + 1 = ?cpa ! unat (l1_of c)"
      using numberedD(3)[OF num c(2) l] by simp
  qed
  then show ?thesis
    using len unfolding advance_def nxt Let_def
    by (simp add: read_anchor_def after_def sequence_inc_l1_def c_def)
qed

text \<open>The write loop, entered with the next chunk in hand.\<close>

lemma write_loop_ok:
  assumes num: "numbered os" and R: "R \<subseteq> set os"
    and k: "k < length os" "set (take (Suc k) os) \<subseteq> R"
    and "ro_written s = take k os" "ro_next s = seq_of (os ! k)"
    and "anchors_ok R (ro_chunks_per_anchor s)" "cache_ok s (R - set (take (Suc k) os))"
    and "card (R - set (take (Suc k) os)) < fuel"
  shows "\<exists>k' s'. write_loop fuel (os ! k) (TreeFindMin None (ro_T s)) s = Some (Inr s') \<and> ro_inv os R k' s'"
  using k assms(5-)
proof (induction fuel arbitrary: k s)
  case 0
  then show ?case by simp
next
  case (Suc fuel)
  define P where "P = R - set (take (Suc k) os)"
  have take_k: "take (Suc k) os = take k os @ [os ! k]" using Suc.prems(1) by (simp add: take_Suc_conv_app_nth)
  have kR: "os ! k \<in> R" using Suc.prems(2) take_k by simp
  define s1 where "s1 = s\<lparr>ro_written := take (Suc k) os, ro_next := expected os (Suc k)\<rparr>"
  have adv: "advance (s\<lparr>ro_written := ro_written s @ [os ! k]\<rparr>) = Inr s1"
    using advance_ok[OF num Suc.prems(1) kR R, of "s\<lparr>ro_written := ro_written s @ [os ! k]\<rparr>"] Suc.prems(3-5)
    by (simp add: s1_def take_k)
  have T1: "ro_T s1 = ro_T s" "ro_queues s1 = ro_queues s" by (simp_all add: s1_def)
  have cache1: "cache_ok s1 P" using Suc.prems(6) by (simp add: cache_ok_def s1_def P_def)
  have in_P: "c \<in> P \<Longrightarrow> \<exists>j. c = os ! j \<and> Suc k \<le> j \<and> j < length os" for c
  proof -
    assume c: "c \<in> P"
    then have "c \<in> set os" using R by (auto simp: P_def)
    then obtain j where j: "j < length os" "c = os ! j" by (auto simp: in_set_conv_nth)
    have "\<not> j < Suc k"
    proof
      assume "j < Suc k"
      then have "c \<in> set (take (Suc k) os)" using j by (auto simp: in_set_conv_nth intro!: exI[of _ j])
      then show False using c by (simp add: P_def)
    qed
    then show ?thesis using j by auto
  qed
  have stop: "ro_inv os R (Suc k) s1" if "Suc k < length os \<longrightarrow> os ! Suc k \<notin> R"
    using that Suc.prems(1,2,5) R cache1 by (simp add: ro_inv_def s1_def P_def)
  show ?case
  proof (cases "TreeFindMin None (ro_T s)")
    case None
    then have "R \<subseteq> set (take (Suc k) os)" using cache_empty_iff[OF cache1] T1 by (simp add: P_def)
    then have "Suc k < length os \<longrightarrow> os ! Suc k \<notin> R" using numbered_not_in_take[OF num, of "Suc k" "Suc k"] by blast
    from stop[OF this] show ?thesis using None adv by auto
  next
    case (Some e)
    obtain H c where h: "ro_queues s (te_queue e) = Some H" "FindMin H = Some c" "c \<in> P" "l1_of c = te_l1num e"
      "\<forall>c' \<in> P. te_l1num e \<le> l1_of c' \<and> (l1_of c' = te_l1num e \<longrightarrow> l2_of c \<le> l2_of c')"
      using cache_head[OF cache1, of e] Some T1 by auto
    obtain j where j: "c = os ! j" "Suc k \<le> j" "j < length os" using in_P[OF h(3)] by blast
    have Sk: "Suc k < length os" using j by simp
    have nxt: "ro_next s1 = seq_of (os ! Suc k)" using numberedD(2)[OF num Sk] by (simp add: s1_def)
    show ?thesis
    proof (cases "os ! Suc k \<in> R")
      case True
      have inP: "os ! Suc k \<in> P"
        using True numbered_not_in_take[OF num _ Sk, of "Suc k"] by (simp add: P_def)
      have "seq_of (os ! Suc k) \<le> seq_of c"
        using numbered_less[OF num, of "Suc k" j] j by (cases "j = Suc k") auto
      moreover have "seq_of c \<le> seq_of (os ! Suc k)"
        using h(4,5) inP by (cases "seq_of c"; cases "seq_of (os ! Suc k)") (force simp: sequence_le_iff)
      ultimately have sc: "seq_of c = seq_of (os ! Suc k)" by simp
      then have c: "c = os ! Suc k" using numbered_seq_inj[OF num j(3) Sk] j(1) by simp
      have "TreeFindMin None (ro_T s1) = Some e" using Some T1 by simp
      from take_cached_ok[OF cache1 this, of H c] h(1,2) T1
      obtain s2 where s2: "take_cached e H s1 = Inr (TreeFindMin None (ro_T s2), s2)" "cache_ok s2 (P - {c})"
          "same_progress s1 s2" by auto
      have take2: "take (Suc (Suc k)) os = take (Suc k) os @ [os ! Suc k]" using Sk by (simp add: take_Suc_conv_app_nth)
      have P': "P - {c} = R - set (take (Suc (Suc k)) os)" by (auto simp: P_def c take2)
      have fin: "finite P" using cache_okD(1)[OF cache1] .
      have step: "write_loop (Suc fuel) (os ! k) (TreeFindMin None (ro_T s)) s
          = write_loop fuel (os ! Suc k) (TreeFindMin None (ro_T s2)) s2"
        using adv Some h(1,2,4) T1 nxt sc s2(1) c by simp
      have "\<exists>k' s'. write_loop fuel (os ! Suc k) (TreeFindMin None (ro_T s2)) s2 = Some (Inr s') \<and> ro_inv os R k' s'"
      proof (rule Suc.IH[OF Sk])
        show "set (take (Suc (Suc k)) os) \<subseteq> R" using Suc.prems(2) True by (simp add: take2)
        show "ro_written s2 = take (Suc k) os" "ro_next s2 = seq_of (os ! Suc k)" "anchors_ok R (ro_chunks_per_anchor s2)"
          using s2(3) nxt Suc.prems(5) by (simp_all add: same_progress_def s1_def)
        show "cache_ok s2 (R - set (take (Suc (Suc k)) os))" using s2(2) unfolding P' .
        have "card (P - {c}) < card P" using fin h(3) by (rule card_Diff1_less)
        moreover have "card P < Suc fuel" using Suc.prems(7) by (simp add: P_def)
        ultimately show "card (R - set (take (Suc (Suc k)) os)) < fuel" unfolding P' by simp
      qed
      then show ?thesis unfolding step .
    next
      case False
      have "seq_of c \<noteq> ro_next s1"
      proof
        assume "seq_of c = ro_next s1"
        then have "c = os ! Suc k" using numbered_seq_inj[OF num j(3) Sk] j(1) nxt by simp
        then show False using False h(3) by (simp add: P_def)
      qed
      then have "write_loop (Suc fuel) (os ! k) (TreeFindMin None (ro_T s)) s = Some (Inr s1)"
        using adv Some h(1,2) T1 by simp
      then show ?thesis using stop False by blast
    qed
  qed
qed


section \<open>Receiving a chunk\<close>

lemma advance_anchors: "advance s = Inr s' \<Longrightarrow> ro_chunks_per_anchor s' = ro_chunks_per_anchor s"
  by (auto simp: advance_def Let_def bindR_eq_Inr)

lemma take_cached_anchors: "take_cached e H s = Inr (pos, s') \<Longrightarrow> ro_chunks_per_anchor s' = ro_chunks_per_anchor s"
  by (auto simp: take_cached_def bindR_eq_Inr Let_def split: prod.splits if_splits)

lemma write_loop_anchors:
  "write_loop fuel c pos s = Some (Inr s') \<Longrightarrow> ro_chunks_per_anchor s' = ro_chunks_per_anchor s"
proof (induction fuel c pos s rule: write_loop.induct)
  case (2 fuel chunk pos s)
  obtain s1 where s1: "advance (s\<lparr>ro_written := ro_written s @ [chunk]\<rparr>) = Inr s1"
    using 2(2) by (cases "advance (s\<lparr>ro_written := ro_written s @ [chunk]\<rparr>)") auto
  have a1: "ro_chunks_per_anchor s1 = ro_chunks_per_anchor s" using advance_anchors[OF s1] by simp
  show ?case
  proof (cases pos)
    case None
    then show ?thesis using 2(2) s1 a1 by simp
  next
    case (Some e)
    show ?thesis
    proof (cases "s1 = s'")
      case False
      obtain H c where h: "te_l1num e = l1num (ro_next s1)" "ro_queues s1 (te_queue e) = Some H" "FindMin H = Some c"
          "sequence_eq (seq_of c) (ro_next s1)"
        using 2(2) s1 Some False by (auto split: if_splits option.splits)
      obtain pos' s2 where t: "take_cached e H s1 = Inr (pos', s2)" "write_loop fuel c pos' s2 = Some (Inr s')"
        using 2(2) s1 Some h by (auto split: sum.splits prod.splits)
      have "ro_chunks_per_anchor s' = ro_chunks_per_anchor s2"
        by (rule 2(1)[OF s1 Some h t(1) refl t(2)])
      then show ?thesis using take_cached_anchors[OF t(1)] a1 by simp
    qed (use a1 in simp)
  qed
qed simp

lemma update_anchor_ok:
  assumes num: "numbered os" and R: "R \<subseteq> set os" and c: "c \<in> set os" "c \<notin> R"
    and anchors: "anchors_ok R (ro_chunks_per_anchor s)"
    and fit: "unat (l1_of c) < (if length (ro_chunks_per_anchor s) \<le> unat (l1_of c)
        then 2 * length (ro_chunks_per_anchor s) else length (ro_chunks_per_anchor s))"
  shows "\<exists>cpa. update_anchor True c s = Inr (s\<lparr>ro_chunks_per_anchor := cpa\<rparr>) \<and> anchors_ok (insert c R) cpa
    \<and> length cpa = (if length (ro_chunks_per_anchor s) \<le> unat (l1_of c)
        then 2 * length (ro_chunks_per_anchor s) else length (ro_chunks_per_anchor s))"
proof -
  define cpa0 where "cpa0 = ro_chunks_per_anchor s"
  define cpa1 where "cpa1 = (if length cpa0 \<le> unat (l1_of c) then cpa0 @ replicate (length cpa0) 0 else cpa0)"
  have len1: "unat (l1_of c) < length cpa1" "length cpa0 \<le> length cpa1"
    using fit by (auto simp: cpa1_def cpa0_def split: if_splits)
  have nth1: "cpa1 ! i = (if i < length cpa0 then cpa0 ! i else 0)" if "i < length cpa1" for i
    using that by (auto simp: cpa1_def nth_append)
  have ok1: "anchors_ok R cpa1"
    unfolding anchors_ok_def
  proof (intro conjI ballI allI impI)
    fix x assume x: "x \<in> R"
    then have l: "unat (l1_of x) < length cpa0" using anchors by (simp add: anchors_ok_def cpa0_def)
    then show "unat (l1_of x) < length cpa1" using len1(2) by simp
    then show "cpa1 ! unat (l1_of x) = l2_of x + 1" if "isLastL2Chunk x"
      using that anchors x l nth1 by (simp add: anchors_ok_def cpa0_def)
  next
    fix i assume "i < length cpa1" "cpa1 ! i \<noteq> 0"
    then have "i < length cpa0" "cpa0 ! i \<noteq> 0" using nth1[of i] by (auto split: if_splits)
    then show "\<exists>c \<in> R. isLastL2Chunk c \<and> unat (l1_of c) = i" using anchors by (simp add: anchors_ok_def cpa0_def)
  qed
  show ?thesis
  proof (cases "isLastL2Chunk c")
    case False
    then have "update_anchor True c s = Inr (s\<lparr>ro_chunks_per_anchor := cpa1\<rparr>)"
      by (simp add: update_anchor_def cpa1_def cpa0_def)
    moreover have "anchors_ok (insert c R) cpa1" using ok1 len1(1) False by (simp add: anchors_ok_def)
    moreover have "length cpa1 = (if length cpa0 \<le> unat (l1_of c) then 2 * length cpa0 else length cpa0)"
      by (simp add: cpa1_def)
    ultimately show ?thesis unfolding cpa0_def by blast
  next
    case True
    have zero: "cpa1 ! unat (l1_of c) = 0"
    proof (rule ccontr)
      assume "cpa1 ! unat (l1_of c) \<noteq> 0"
      then obtain x where x: "x \<in> R" "isLastL2Chunk x" "unat (l1_of x) = unat (l1_of c)"
        using ok1 len1(1) unfolding anchors_ok_def by blast
      then have "l1_of x = l1_of c" by (simp add: word_unat_eq_iff)
      then have "x = c" using numberedD(4)[OF num c(1) _ True x(2)] x(1) R by blast
      then show False using x(1) c(2) by simp
    qed
    define cpa2 where "cpa2 = cpa1[unat (l1_of c) := l2_of c + 1]"
    have "update_anchor True c s = Inr (s\<lparr>ro_chunks_per_anchor := cpa2\<rparr>)"
    proof -
      have g: "(if unat (l1_of c) \<ge> length (ro_chunks_per_anchor s)
        then if \<not> True then Inl (Exit_Trace ''Error allocating memory'')
             else Inr (s\<lparr>ro_chunks_per_anchor :=
                    ro_chunks_per_anchor s @ replicate (length (ro_chunks_per_anchor s)) 0\<rparr>)
        else Inr s) = Inr (s\<lparr>ro_chunks_per_anchor := cpa1\<rparr>)"
        by (simp add: cpa1_def cpa0_def)
      show ?thesis
        unfolding update_anchor_def g using True zero len1(1)
        by (simp add: read_anchor_def assertR_def cpa2_def)
    qed
    moreover have "anchors_ok (insert c R) cpa2"
      unfolding anchors_ok_def
    proof (intro conjI ballI allI impI)
      fix x assume x: "x \<in> insert c R"
      show "unat (l1_of x) < length cpa2" using x ok1 len1(1) by (auto simp: anchors_ok_def cpa2_def)
      show "cpa2 ! unat (l1_of x) = l2_of x + 1" if l: "isLastL2Chunk x"
      proof (cases "x = c")
        case False
        then have xR: "x \<in> R" using x by simp
        have "l1_of x \<noteq> l1_of c" using numberedD(4)[OF num c(1) _ True l] xR R False by blast
        then have "unat (l1_of x) \<noteq> unat (l1_of c)" by (simp add: word_unat_eq_iff)
        then show ?thesis using ok1 xR l by (simp add: anchors_ok_def cpa2_def)
      qed (simp add: cpa2_def len1(1))
    next
      fix i assume i: "i < length cpa2" "cpa2 ! i \<noteq> 0"
      show "\<exists>x \<in> insert c R. isLastL2Chunk x \<and> unat (l1_of x) = i"
      proof (cases "i = unat (l1_of c)")
        case False
        then have "cpa1 ! i \<noteq> 0" "i < length cpa1" using i by (auto simp: cpa2_def)
        then show ?thesis using ok1 unfolding anchors_ok_def by blast
      qed (use True in auto)
    qed
    moreover have "length cpa2 = (if length cpa0 \<le> unat (l1_of c) then 2 * length cpa0 else length cpa0)"
      by (simp add: cpa2_def cpa1_def)
    ultimately show ?thesis unfolding cpa0_def by blast
  qed
qed

lemma receive_ok:
  assumes num: "numbered os" and inv: "ro_inv os R k s" and c: "c \<in> set os" "c \<notin> R"
    and fit: "unat (l1_of c) < (if length (ro_chunks_per_anchor s) \<le> unat (l1_of c)
        then 2 * length (ro_chunks_per_anchor s) else length (ro_chunks_per_anchor s))"
    and fuel: "length os < fuel"
  shows "\<exists>k' s'. receive True fuel c s = Some (Inr s') \<and> ro_inv os (insert c R) k' s'
    \<and> length (ro_chunks_per_anchor s') = (if length (ro_chunks_per_anchor s) \<le> unat (l1_of c)
        then 2 * length (ro_chunks_per_anchor s) else length (ro_chunks_per_anchor s))"
proof -
  have I: "R \<subseteq> set os" "k \<le> length os" "set (take k os) \<subseteq> R" "k < length os \<longrightarrow> os ! k \<notin> R"
    "ro_written s = take k os" "ro_next s = expected os k"
    "anchors_ok R (ro_chunks_per_anchor s)" "cache_ok s (R - set (take k os))"
    using inv by (auto simp: ro_inv_def)
  obtain cpa where u: "update_anchor True c s = Inr (s\<lparr>ro_chunks_per_anchor := cpa\<rparr>)" "anchors_ok (insert c R) cpa"
    "length cpa = (if length (ro_chunks_per_anchor s) \<le> unat (l1_of c)
        then 2 * length (ro_chunks_per_anchor s) else length (ro_chunks_per_anchor s))"
    using update_anchor_ok[OF num I(1) c I(7) fit] by blast
  define s1 where "s1 = s\<lparr>ro_chunks_per_anchor := cpa\<rparr>"
  have cache1: "cache_ok s1 (R - set (take k os))" using I(8) by (simp add: cache_ok_def s1_def)
  have pmin: "ro_pmin s1 = None" using cache_okD(3)[OF cache1] .
  have notin: "c \<notin> set (take k os)" using I(3) c(2) by blast
  show ?thesis
  proof (cases "seq_of c = expected os k")
    case False
    obtain s2 where s2: "cache_chunk True c s1 = Inr s2" "cache_ok s2 (insert c (R - set (take k os)))" "same_progress s1 s2"
      using cache_chunk_ok[OF cache1, of c] c(2) by auto
    have "receive True fuel c s = Some (Inr s2)"
      using u(1) False I(6) s2(1) by (simp add: receive_def s1_def)
    moreover have "insert c (R - set (take k os)) = insert c R - set (take k os)" using notin by auto
    then have "ro_inv os (insert c R) k s2"
      using I s2(2,3) c u(2) False numberedD(2)[OF num, of k]
      by (auto simp: ro_inv_def same_progress_def s1_def)
    ultimately show ?thesis using s2(3) u(3) by (auto simp: same_progress_def s1_def)
  next
    case True
    have k: "k < length os" and ck: "c = os ! k"
    proof -
      obtain j where j: "j < length os" "c = os ! j" using c(1) by (auto simp: in_set_conv_nth)
      show "k < length os"
      proof (rule ccontr)
        assume "\<not> k < length os"
        then have "take k os = os" by simp
        then show False using I(3) c by auto
      qed
      then have "seq_of (os ! k) = seq_of (os ! j)" using True j(2) numberedD(2)[OF num] by simp
      then show "c = os ! k" using numbered_seq_inj[OF num \<open>k < length os\<close> j(1)] j(2) by simp
    qed
    have P: "insert c R - set (take (Suc k) os) = R - set (take k os)"
      using c(2) k by (auto simp: take_Suc_conv_app_nth ck)
    have "\<exists>k' s'. write_loop fuel (os ! k) (TreeFindMin None (ro_T s1)) s1 = Some (Inr s') \<and> ro_inv os (insert c R) k' s'"
    proof (rule write_loop_ok[OF num _ k])
      show "insert c R \<subseteq> set os" "set (take (Suc k) os) \<subseteq> insert c R"
        using I(1,3) c(1) k by (auto simp: take_Suc_conv_app_nth ck)
      show "ro_written s1 = take k os" "ro_next s1 = seq_of (os ! k)" "anchors_ok (insert c R) (ro_chunks_per_anchor s1)"
        using I(5,6) u(2) True ck by (simp_all add: s1_def)
      show "cache_ok s1 (insert c R - set (take (Suc k) os))" unfolding P by (rule cache1)
      have "card (R - set (take k os)) \<le> card (set os)" using I(1) by (intro card_mono) auto
      then show "card (insert c R - set (take (Suc k) os)) < fuel"
        unfolding P using card_length[of os] fuel by linarith
    qed
    then obtain k' s' where w: "write_loop fuel (os ! k) (TreeFindMin None (ro_T s1)) s1 = Some (Inr s')" "ro_inv os (insert c R) k' s'"
      by blast
    moreover have "receive True fuel c s = Some (Inr s')"
      using u(1) True I(6) w(1) pmin by (simp add: receive_def s1_def ck)
    moreover have "ro_chunks_per_anchor s' = cpa" using write_loop_anchors[OF w(1)] by (simp add: s1_def)
    ultimately show ?thesis using u(3) by auto
  qed
qed


section \<open>The whole stage\<close>

lemma receive_all_ok:
  assumes "numbered os" "ro_inv os R k s" "set arr \<subseteq> set os - R" "distinct arr"
    "fits (length (ro_chunks_per_anchor s)) arr" "length os < fuel"
  shows "\<exists>k' s'. receive_all True fuel arr s = Some (Inr s') \<and> ro_inv os (R \<union> set arr) k' s'"
  using assms(2-5)
proof (induction arr arbitrary: R k s)
  case (Cons c cs)
  define cap where "cap = (if length (ro_chunks_per_anchor s) \<le> unat (l1_of c)
        then 2 * length (ro_chunks_per_anchor s) else length (ro_chunks_per_anchor s))"
  have fit: "unat (l1_of c) < cap" "fits cap cs" using Cons.prems(4) by (simp_all add: cap_def Let_def)
  obtain k1 s1 where s1: "receive True fuel c s = Some (Inr s1)" "ro_inv os (insert c R) k1 s1"
      "length (ro_chunks_per_anchor s1) = cap"
    using receive_ok[OF assms(1) Cons.prems(1) _ _ fit(1)[unfolded cap_def] assms(6)] Cons.prems(2) cap_def by auto
  have "\<exists>k' s'. receive_all True fuel cs s1 = Some (Inr s') \<and> ro_inv os (insert c R \<union> set cs) k' s'"
    using Cons.IH[OF s1(2)] Cons.prems(2,3) fit(2) s1(3) by auto
  then show ?case using s1(1) by simp
qed auto

lemma Reorder_start_inv: "ro_inv os {} 0 Reorder_start"
proof -
  have "cache_ok Reorder_start {}"
    by (auto simp: cache_ok_def Reorder_start_def level_def)
  moreover have "anchors_ok {} (ro_chunks_per_anchor Reorder_start)"
    by (simp add: anchors_ok_def Reorder_start_def)
  ultimately show ?thesis
    by (simp add: ro_inv_def Reorder_start_def sequence_reset_def)
qed

section \<open>Properties\<close>

lemma Reorder_sorts:
  assumes "numbered os" "mset arrivals = mset os" "fits 1024 arrivals" "length os < fuel"
  shows "Reorder True fuel arrivals = Some (Inr os)"
proof -
  have sets: "set arrivals = set os" using assms(2) by (metis set_mset_mset)
  have dist: "distinct arrivals" using numbered_distinct[OF assms(1)] assms(2) by (metis mset_eq_imp_distinct_iff)
  have "length (ro_chunks_per_anchor Reorder_start) = 1024" by (simp add: Reorder_start_def)
  then obtain k s where s: "receive_all True fuel arrivals Reorder_start = Some (Inr s)" "ro_inv os (set os) k s"
    using receive_all_ok[OF assms(1) Reorder_start_inv _ dist _ assms(4)] assms(3) sets by auto
  have "k \<le> length os" "k < length os \<longrightarrow> os ! k \<notin> set os" using s(2) by (simp_all add: ro_inv_def)
  then have k: "k = length os" using nth_mem[of k os] by linarith
  then have written: "ro_written s = os" and cache: "cache_ok s {}" using s(2) by (simp_all add: ro_inv_def)
  have "TreeFindMin (ro_pmin s) (ro_T s) = None"
    using cache_empty_iff[OF cache] cache_okD(3)[OF cache] by simp
  then show ?thesis using s(1) written by (simp add: Reorder_def)
qed


definition sample_chunk :: "u32 \<Rightarrow> u32 \<Rightarrow> bool \<Rightarrow> chunk_t" where
  "sample_chunk l1 l2 is_last =
     \<lparr>isDuplicate = False, ch_state = CHUNK_STATE_UNCOMPRESSED, ch_sha1 = [], uncompressed_data = Some [7],
      compressed_data = None, compressed_data_ref = None, ch_sequence = Sequence l1 l2, isLastL2Chunk = is_last\<rparr>"


text \<open>
  C23. The array of chunk counts is doubled once and not until it is large enough: a chunk that closes
  a coarse chunk whose number is at least twice the length of the array is recorded outside it.
\<close>

theorem Reorder_single_doubling:
  assumes "isLastL2Chunk c" "2 * 1024 \<le> unat (l1_of c)"
  shows "Reorder True fuel (c # cs) = Some (Inl Out_Of_Bounds)"
proof -
  have "update_anchor True c Reorder_start = Inl Out_Of_Bounds"
    using assms by (simp add: update_anchor_def read_anchor_def Reorder_start_def)
  then show ?thesis by (simp add: Reorder_def receive_def)
qed

theorem Reorder_single_doubling_witness:
  "Reorder True 1 [sample_chunk 2048 0 True] = Some (Inl Out_Of_Bounds)"
  by (rule Reorder_single_doubling) (simp_all add: sample_chunk_def)

end
