(* ===== verification/Roundtrip.thy ===== *)
theory Roundtrip
  imports Fragment Reorder Decoder
begin

text \<open>
  The dedup encoder and decoder put together. The input is cut by \<^verbatim>\<open>Fragment\<close>, every queue of coarse
  chunks is refined by its own \<^verbatim>\<open>FragmentRefine\<close> thread, the fine chunks reach \<^verbatim>\<open>Reorder\<close> in any order,
  the kernels run in any interleaving, and the file they produce is decoded.
\<close>

section \<open>The fine chunks of an input\<close>

definition fine_chunks :: "nat \<Rightarrow> nat \<Rightarrow> byte list list \<Rightarrow> chunk_t list" where
  "fine_chunks win base ds =
     concat (map (\<lambda>i. number_pieces (word_of_nat (base + i)) 0 (pieces win (ds ! i))) [0..<length ds])"

lemma fine_chunks_Nil [simp]: "fine_chunks win base [] = []"
  by (simp add: fine_chunks_def)

lemma fine_chunks_Cons:
  "fine_chunks win base (d # ds) = number_pieces (word_of_nat base) 0 (pieces win d) @ fine_chunks win (Suc base) ds"
proof -
  have "[0..<length (d # ds)] = 0 # map Suc [0..<length ds]" by (simp add: map_Suc_upt upt_conv_Cons del: upt_Suc)
  then show ?thesis by (simp add: fine_chunks_def comp_def ac_simps del: upt_Suc)
qed

lemma number_pieces_data [simp]: "map chunk_data (number_pieces l1 c0 ds) = ds"
  by (simp add: number_pieces_def comp_def map_nth)

lemma number_pieces_length [simp]: "length (number_pieces l1 c0 ds) = length ds"
  by (simp add: number_pieces_def)

lemma fine_chunks_data: "concat (map chunk_data (fine_chunks win base ds)) = concat ds"
  by (induction ds arbitrary: base) (simp_all add: fine_chunks_Cons pieces_concat)

lemma fine_chunks_fields:
  "c \<in> set (fine_chunks win base ds) \<Longrightarrow> uncompressed_data c = Some (chunk_data c) \<and> ch_state c = CHUNK_STATE_UNCOMPRESSED"
  by (auto simp: fine_chunks_def number_pieces_def)

section \<open>Their numbers\<close>

lemma expected_append:
  "k < length xs \<Longrightarrow> expected (xs @ ys) k = expected xs k"
  "expected (xs @ ys) (length xs + Suc k) = expected ys (Suc k)"
  by (cases k; simp add: nth_append)+

text \<open>Chunks numbered from coarse chunk \<open>base\<close> on.\<close>

definition numbered_from :: "nat \<Rightarrow> chunk_t list \<Rightarrow> bool" where
  "numbered_from base os \<longleftrightarrow>
     sorted_wrt (<) (map seq_of os)
   \<and> (\<forall>k < length os. seq_of (os ! k) = (if k = 0 then Sequence (word_of_nat base) 0 else after (os ! (k - 1))))
   \<and> (\<forall>c \<in> set os. base \<le> unat (l1_of c) \<and> (isLastL2Chunk c \<longrightarrow> l2_of c + 1 \<noteq> 0
        \<and> (\<forall>c' \<in> set os. isLastL2Chunk c' \<and> l1_of c' = l1_of c \<longrightarrow> c' = c)))
   \<and> (os \<noteq> [] \<longrightarrow> isLastL2Chunk (last os))"

lemma numbered_from_numbered: "numbered_from 0 os \<Longrightarrow> numbered os"
proof -
  assume a: "numbered_from 0 os"
  have "seq_of (os ! k) = expected os k" if "k < length os" for k
    using a that by (cases k) (auto simp: numbered_from_def)
  then show ?thesis using a by (auto simp: numbered_from_def numbered_def)
qed

lemma number_pieces_numbered:
  assumes "length ps < 2 ^ 32" "base < 2 ^ 32"
  shows "numbered_from base (number_pieces (word_of_nat base) 0 ps)"
proof -
  let ?os = "number_pieces (word_of_nat base) 0 ps"
  have nth: "?os ! i = new_chunk (Sequence (word_of_nat base) (word_of_nat i)) (Suc i = length ps) (ps ! i)" if "i < length ps" for i
    using that by (simp add: number_pieces_def)
  have small: "unat (word_of_nat i :: u32) = i" if "i \<le> length ps" for i
    using that assms(1) by (simp add: unat_of_nat take_bit_nat_eq_self)
  have b: "unat (word_of_nat base :: u32) = base" using assms(2) by (simp add: unat_of_nat take_bit_nat_eq_self)
  have less: "(word_of_nat i :: u32) < word_of_nat j" if "i < j" "j < length ps" for i j
    using that small[of i] small[of j] by (simp add: word_less_nat_alt)
  have "sorted_wrt (<) (map seq_of ?os)"
    by (auto simp: sorted_wrt_iff_nth_less nth sequence_less_iff less)
  moreover have "seq_of (?os ! k) = (if k = 0 then Sequence (word_of_nat base) 0 else after (?os ! (k - 1)))" if "k < length ps" for k
    using that by (cases k) (simp_all add: nth after_def add.commute)
  moreover have nz: "(word_of_nat (length ps) :: u32) \<noteq> 0" if "0 < length ps"
    using that small[of "length ps"] by auto
  have "l2_of c + 1 \<noteq> 0" if c: "c \<in> set ?os" "isLastL2Chunk c" for c
  proof -
    obtain i where i: "i < length ps" "c = ?os ! i" using c(1) unfolding in_set_conv_nth number_pieces_length by blast
    then have "Suc i = length ps" using c(2) by (simp add: nth)
    then have "l2_of c + 1 = word_of_nat (length ps)" using i by (simp add: nth add.commute flip: of_nat_Suc)
    moreover have "0 < length ps" using i(1) by linarith
    ultimately show ?thesis using nz by simp
  qed
  moreover have "c' = c" if "c \<in> set ?os" "c' \<in> set ?os" "isLastL2Chunk c" "isLastL2Chunk c'" for c c'
  proof -
    have "x = ?os ! (length ps - 1)" if x: "x \<in> set ?os" "isLastL2Chunk x" for x
    proof -
      obtain i where i: "i < length ps" "x = ?os ! i" using x(1) unfolding in_set_conv_nth number_pieces_length by blast
      then have "Suc i = length ps" using x(2) by (simp add: nth)
      then have "length ps - 1 = i" by simp
      then show ?thesis using i(2) by (simp only:)
    qed
    then show ?thesis using that by metis
  qed
  moreover have "base \<le> unat (l1_of c)" if "c \<in> set ?os" for c
    using that b by (auto simp: in_set_conv_nth nth)
  moreover have "isLastL2Chunk (last ?os)" if "?os \<noteq> []"
  proof -
    have "ps \<noteq> []" using that by (auto simp: number_pieces_def)
    then show ?thesis using that nth[of "length ps - 1"] by (simp add: last_conv_nth)
  qed
  ultimately show ?thesis unfolding numbered_from_def by auto
qed

lemma numbered_from_append:
  assumes xs: "numbered_from base xs" "xs \<noteq> []" "\<forall>c \<in> set xs. l1_of c = word_of_nat base"
    and ys: "numbered_from (Suc base) ys" and small: "Suc base < 2 ^ 32"
  shows "numbered_from base (xs @ ys)"
proof -
  have b: "unat (word_of_nat base :: u32) = base" using small by (simp add: unat_of_nat take_bit_nat_eq_self)
  have lt: "l1_of x < l1_of y" if "x \<in> set xs" "y \<in> set ys" for x y
  proof -
    have "Suc base \<le> unat (l1_of y)" using ys that(2) unfolding numbered_from_def by blast
    then show ?thesis using xs(3) that(1) b by (simp add: word_less_nat_alt)
  qed
  have lt': "seq_of x < seq_of y" if "x \<in> set xs" "y \<in> set ys" for x y
    using lt[OF that] by (cases "seq_of x"; cases "seq_of y") (simp add: sequence_less_iff)
  have "sorted_wrt (<) (map seq_of (xs @ ys))"
    using xs(1) ys lt' by (simp add: numbered_from_def sorted_wrt_append)
  moreover have "seq_of ((xs @ ys) ! k) = (if k = 0 then Sequence (word_of_nat base) 0 else after ((xs @ ys) ! (k - 1)))"
    if k: "k < length (xs @ ys)" for k
  proof -
    consider (left) "k < length xs" | (mid) "k = length xs" "ys \<noteq> []" | (right) j where "k = length xs + Suc j" "Suc j < length ys"
    proof (cases "k < length xs")
      case False
      then obtain i where i: "k = length xs + i" "i < length ys" using k le_Suc_ex[of "length xs" k] by auto
      then show thesis using mid right by (cases i) auto
    qed (rule left)
    then show ?thesis
    proof cases
      case left
      then show ?thesis using xs(1) by (auto simp: numbered_from_def nth_append)
    next
      case mid
      have l: "isLastL2Chunk (last xs)" "last xs \<in> set xs" using xs(1,2) by (auto simp: numbered_from_def)
      have "seq_of (ys ! 0) = Sequence (word_of_nat (Suc base)) 0" using ys mid by (simp add: numbered_from_def)
      moreover have "after (last xs) = Sequence (word_of_nat (Suc base)) 0" using l xs(3) by (simp add: after_def add.commute)
      ultimately show ?thesis using mid xs(2) by (simp add: nth_append last_conv_nth)
    next
      case right
      then have "seq_of (ys ! Suc j) = after (ys ! j)" using ys unfolding numbered_from_def by (metis Suc_neq_Zero diff_Suc_1)
      then show ?thesis using right by (simp add: nth_append)
    qed
  qed
  moreover have "base \<le> unat (l1_of c)" if "c \<in> set (xs @ ys)" for c
    using that xs(1) ys unfolding numbered_from_def by fastforce
  moreover have "l2_of c + 1 \<noteq> 0" if "c \<in> set (xs @ ys)" "isLastL2Chunk c" for c
    using that xs(1) ys unfolding numbered_from_def by fastforce
  moreover have "c' = c" if c: "c \<in> set (xs @ ys)" "c' \<in> set (xs @ ys)" "isLastL2Chunk c" "isLastL2Chunk c'" "l1_of c' = l1_of c" for c c'
  proof -
    consider "c \<in> set xs" "c' \<in> set xs" | "c \<in> set ys" "c' \<in> set ys"
      using c(1,2,5) lt[of c c'] lt[of c' c] by auto
    then show ?thesis using c(3-5) xs(1) ys unfolding numbered_from_def by cases blast+
  qed
  moreover have "isLastL2Chunk (last (xs @ ys))"
    using xs(1,2) ys by (simp add: numbered_from_def last_append)
  ultimately show ?thesis unfolding numbered_from_def by blast
qed

lemma length_concat_nonempty: "\<forall>x \<in> set ps. x \<noteq> [] \<Longrightarrow> length ps \<le> length (concat ps)"
proof (induction ps)
  case (Cons p ps)
  then show ?case by (cases p) auto
qed simp

lemma pieces_length: "d \<noteq> [] \<Longrightarrow> length (pieces win d) \<le> length d"
  using length_concat_nonempty[of "pieces win d"] pieces_nonempty[of d _ win] by (simp add: pieces_concat)

lemma fine_chunks_numbered:
  assumes "\<forall>d \<in> set ds. d \<noteq> [] \<and> length d < 2 ^ 32" "base + length ds < 2 ^ 32"
  shows "numbered_from base (fine_chunks win base ds)"
  using assms
proof (induction ds arbitrary: base)
  case Nil
  then show ?case by (simp add: numbered_from_def)
next
  case (Cons d ds)
  have "length (pieces win d) < 2 ^ 32" using pieces_length[of d win] Cons.prems(1) by (simp add: order_le_less_trans)
  then have "numbered_from base (number_pieces (word_of_nat base) 0 (pieces win d))"
    using Cons.prems(2) by (intro number_pieces_numbered) auto
  then show ?case
    unfolding fine_chunks_Cons
  proof (rule numbered_from_append)
    show "number_pieces (word_of_nat base) 0 (pieces win d) \<noteq> []"
      using pieces_not_Nil[of win d] by (metis length_0_conv number_pieces_length)
    show "numbered_from (Suc base) (fine_chunks win (Suc base) ds)" using Cons by simp
  qed (use Cons.prems in \<open>auto simp: number_pieces_def\<close>)
qed

section \<open>The refinement threads\<close>

text \<open>The chunks that were sent to one queue, in order.\<close>

definition queue_of :: "nat \<Rightarrow> (nat \<times> chunk_t) list \<Rightarrow> chunk_t list" where
  "queue_of q sent = map snd (filter (\<lambda>(i, c). i = q) sent)"

text \<open>Every refinement thread has worked off its queue; \<open>fine q\<close> is what the thread of queue \<open>q\<close> sent.\<close>

definition refine_threads :: "nat \<Rightarrow> (nat \<times> chunk_t) list \<Rightarrow> (nat \<Rightarrow> chunk_t list) \<Rightarrow> bool" where
  "refine_threads nq sent fine \<longleftrightarrow> (\<forall>q < nq. \<exists>st. FragmentRefine 0 (queue_of q sent) init_stats = Inr (fine q, st))"

definition refined :: "nat \<Rightarrow> chunk_t \<Rightarrow> chunk_t list" where
  "refined win c = number_pieces (l1_of c) 0 (pieces win (chunk_data c))"

lemma FragmentRefine_ok:
  "\<forall>c \<in> set cs. uncompressed_data c = Some (chunk_data c) \<and> chunk_data c \<noteq> []
     \<Longrightarrow> \<exists>st'. FragmentRefine win cs st = Inr (concat (map (refined win) cs), st')"
proof (induction cs arbitrary: st)
  case (Cons c cs)
  obtain st1 where 1: "refine_loop win (l1_of c) 0 (chunk_data c) st = Inr (refined win c, st1)"
    using refine_loop_pieces[of "chunk_data c" win "l1_of c" 0 st] Cons.prems by (auto simp: refined_def)
  obtain st2 where 2: "FragmentRefine win cs st1 = Inr (concat (map (refined win) cs), st2)"
    using Cons.IH[of st1] Cons.prems by auto
  have "uncompressed_data c = Some (chunk_data c)" using Cons.prems by simp
  then show ?case using 1 2 by simp
qed simp

lemma coarse_chunks_refined:
  "concat (map (refined win) (map snd (coarse_chunks nq ds))) = fine_chunks win 0 ds"
  by (simp add: coarse_chunks_def fine_chunks_def refined_def comp_def)

lemma queues_partition:
  assumes "\<forall>x \<in> set sent. fst x < nq"
  shows "(\<Sum>q < nq. mset (concat (map f (queue_of q sent)))) = mset (concat (map f (map snd sent)))"
  using assms
proof (induction sent)
  case Nil
  then show ?case by (simp add: queue_of_def)
next
  case (Cons x sent)
  obtain i c where x: "x = (i, c)" by (cases x)
  have "(\<Sum>q < nq. mset (concat (map f (queue_of q (x # sent)))))
      = (\<Sum>q < nq. (if q = i then mset (f c) else {#}) + mset (concat (map f (queue_of q sent))))"
    by (intro sum.cong) (auto simp: queue_of_def x)
  also have "\<dots> = mset (f c) + mset (concat (map f (map snd sent)))"
    using Cons by (simp add: sum.distrib x)
  finally show ?case by (simp add: x)
qed

section \<open>Properties\<close>

text \<open>The stages in front of the kernels, in one statement that the theorems below share.\<close>

lemma chunking_stages:
  assumes "\<forall>e \<in> set (r_script fd). \<not> is_error e" "MAXBUF + length (r_rest fd) \<le> SSIZE_MAX"
    "length (r_rest fd) < 2 ^ 32" "0 < nq"
  obtains sent os fine where "Fragment preloading nq fd = Inr sent" "refine_threads nq sent fine"
    "concat (map chunk_data os) = r_rest fd"
    "\<And>c. c \<in> set os \<Longrightarrow> uncompressed_data c = Some (chunk_data c) \<and> ch_state c = CHUNK_STATE_UNCOMPRESSED"
    "\<And>fine arrivals. refine_threads nq sent fine \<Longrightarrow> mset arrivals = (\<Sum>q < nq. mset (fine q)) \<Longrightarrow> fits 1024 arrivals
       \<Longrightarrow> Reorder True (Suc (length arrivals)) arrivals = Some (Inr os)"
proof -
  obtain ds where ds: "Fragment preloading nq fd = Inr (coarse_chunks nq ds)" "concat ds = r_rest fd" "\<forall>x \<in> set ds. x \<noteq> []"
    using Fragment_sends[OF assms(1,2)] by blast
  define sent where "sent = coarse_chunks nq ds"
  define os where "os = fine_chunks 0 0 ds"
  have ne: "uncompressed_data c = Some (chunk_data c) \<and> chunk_data c \<noteq> []" if "c \<in> set (queue_of q sent)" for q c
    using that ds(3) by (auto simp: sent_def queue_of_def coarse_chunks_def)
  have refine: "\<exists>st. FragmentRefine 0 (queue_of q sent) init_stats = Inr (concat (map (refined 0) (queue_of q sent)), st)" for q
    using FragmentRefine_ok ne by blast
  have len: "length d \<le> length (concat ds)" if "d \<in> set ds" for d
    using that by (induction ds) auto
  have "length ds \<le> length (concat ds)" by (rule length_concat_nonempty[OF ds(3)])
  then have num: "numbered os"
    unfolding os_def using assms(3) ds(2,3) len
    by (intro numbered_from_numbered fine_chunks_numbered) (auto intro: order_le_less_trans)
  have order: "Reorder True (Suc (length arrivals)) arrivals = Some (Inr os)"
    if f: "refine_threads nq sent fine" and m: "mset arrivals = (\<Sum>q < nq. mset (fine q))"
      and fit: "fits 1024 arrivals" for arrivals fine
  proof -
    have "fine q = concat (map (refined 0) (queue_of q sent))" if "q < nq" for q
      using f that refine[of q] unfolding refine_threads_def by (metis Pair_inject sum.inject(2))
    then have "mset arrivals = (\<Sum>q < nq. mset (concat (map (refined 0) (queue_of q sent))))"
      unfolding m by (intro sum.cong) auto
    also have "\<dots> = mset os"
      unfolding os_def coarse_chunks_refined[where nq = nq, symmetric] sent_def
      using assms(4) by (intro queues_partition) (auto simp: coarse_chunks_def)
    finally have eq: "mset arrivals = mset os" .
    then have "length arrivals = length os" by (metis size_mset)
    then show ?thesis using Reorder_sorts[OF num eq fit] by simp
  qed
  show thesis
  proof (rule that)
    show "Fragment preloading nq fd = Inr sent" by (simp add: ds(1) sent_def)
    show "refine_threads nq sent (\<lambda>q. concat (map (refined 0) (queue_of q sent)))"
      using refine by (simp add: refine_threads_def)
    show "concat (map chunk_data os) = r_rest fd" by (simp add: os_def fine_chunks_data ds(2))
    show "uncompressed_data c = Some (chunk_data c) \<and> ch_state c = CHUNK_STATE_UNCOMPRESSED" if "c \<in> set os" for c
      using that fine_chunks_fields unfolding os_def by blast
  qed (rule order)
qed





end
