(* ===== verification/X264_Bitstream.thy ===== *)
theory X264_Bitstream
  imports Prelude
begin

text \<open>
  The bit writer of the x264 encoder (\<^verbatim>\<open>apps/x264/src/common/bs.h\<close>) on a little-endian machine with
  64-bit words. A stream is the bytes stored so far, from \<^verbatim>\<open>p_start\<close> to \<^verbatim>\<open>p\<close>, the word \<^verbatim>\<open>cur_bits\<close> and
  the number \<^verbatim>\<open>i_left\<close> of bits that are free in it; what a store leaves behind \<^verbatim>\<open>p\<close> is overwritten by the
  next one and is not kept. The abstraction of a stream is the list of bits written to it.
\<close>

unbundle bit_operations_syntax

section \<open>Bits of words and bytes, most significant first\<close>

definition to_bits :: "nat \<Rightarrow> 'a::semiring_bits \<Rightarrow> bool list" where
  "to_bits n x = map (bit x) (rev [0..<n])"

lemma length_to_bits [simp]: "length (to_bits n x) = n"
  by (simp add: to_bits_def)

lemma to_bits_0 [simp]: "to_bits 0 x = []"
  by (simp add: to_bits_def)

lemma to_bits_Suc: "to_bits (Suc n) x = bit x n # to_bits n x"
  by (simp add: to_bits_def)

lemma to_bits_add: "to_bits (m + n) x = to_bits m (drop_bit n x) @ to_bits n x"
  for x :: "'a::semiring_bit_operations"
  by (induction m) (simp_all add: to_bits_Suc bit_drop_bit_eq add.commute)

lemma to_bits_cong: "(\<And>i. i < n \<Longrightarrow> bit x i = bit y i) \<Longrightarrow> to_bits n x = to_bits n y"
  by (simp add: to_bits_def)

definition bytes_bits :: "byte list \<Rightarrow> bool list" where
  "bytes_bits bs = concat (map (to_bits 8) bs)"

lemma bytes_bits_append [simp]: "bytes_bits (xs @ ys) = bytes_bits xs @ bytes_bits ys"
  by (simp add: bytes_bits_def)

lemma bytes_bits_Nil [simp]: "bytes_bits [] = []"
  by (simp add: bytes_bits_def)

text \<open>The first \<open>k\<close> bytes of a word, most significant first: what \<^verbatim>\<open>endian_fix\<close> stores in memory.\<close>

definition be_bytes :: "nat \<Rightarrow> 64 word \<Rightarrow> byte list" where
  "be_bytes k w = map (\<lambda>i. ucast (drop_bit (56 - 8 * i) w)) [0..<k]"

lemma be_bytes_bits:
  assumes "k \<le> 8"
  shows "bytes_bits (be_bytes k w) = to_bits (8 * k) (drop_bit (64 - 8 * k) w)"
  using assms
proof (induction k)
  case (Suc k)
  have "to_bits (8 * Suc k) (drop_bit (64 - 8 * Suc k) w)
      = to_bits (8 * k) (drop_bit 8 (drop_bit (64 - 8 * Suc k) w)) @ to_bits 8 (drop_bit (64 - 8 * Suc k) w)"
    using to_bits_add[of "8 * k" 8 "drop_bit (64 - 8 * Suc k) w"] by (simp add: add.commute)
  moreover have "to_bits 8 (ucast (drop_bit (56 - 8 * k) w) :: byte) = to_bits 8 (drop_bit (64 - 8 * Suc k) w)"
    by (rule to_bits_cong) (use Suc.prems in \<open>simp add: bit_ucast_iff\<close>)
  moreover have "drop_bit 8 (drop_bit (64 - 8 * Suc k) w) = drop_bit (64 - 8 * k) w"
    using Suc.prems by (simp add: drop_bit_drop_bit)
  ultimately show ?case
    using Suc by (simp add: be_bytes_def bytes_bits_def)
qed (simp add: be_bytes_def)

section \<open>The stream\<close>

record bs_t =
  bs_out :: "byte list"
  cur_bits :: "64 word"
  i_left :: int

text \<open>
  \<open>offset\<close> is the distance of the buffer from the aligned address below it, at which the stream starts,
  and \<open>mem\<close> is the word that the memory holds there.
\<close>

definition bs_init :: "nat \<Rightarrow> 64 word \<Rightarrow> bs_t" where
  "bs_init offset mem = \<lparr>bs_out = [], cur_bits = mem, i_left = (if offset \<noteq> 0 then 8 * int offset else 64)\<rparr>"

definition bs_pos :: "bs_t \<Rightarrow> int" where
  "bs_pos s = 8 * int (length (bs_out s)) + 64 - i_left s"

definition bs_flush :: "bs_t \<Rightarrow> bs_t" where
  "bs_flush s =
     s\<lparr>bs_out := bs_out s @ be_bytes (nat (8 - i_left s div 8)) (push_bit (nat (i_left s)) (cur_bits s)), i_left := 64\<rparr>"

definition bs_write :: "int \<Rightarrow> u32 \<Rightarrow> bs_t \<Rightarrow> bs_t" where
  "bs_write i_count i_bits s =
     (let s = s\<lparr>cur_bits := push_bit (nat i_count) (cur_bits s) OR ucast i_bits, i_left := i_left s - i_count\<rparr>
      in if i_left s \<le> 32
         then s\<lparr>bs_out := bs_out s @ be_bytes 4 (push_bit (nat (i_left s)) (cur_bits s)), i_left := i_left s + 32\<rparr>
         else s)"

definition bs_write32 :: "u32 \<Rightarrow> bs_t \<Rightarrow> bs_t" where
  "bs_write32 i_bits s = bs_write 16 i_bits (bs_write 16 (drop_bit 16 i_bits) s)"

definition bs_write1 :: "u32 \<Rightarrow> bs_t \<Rightarrow> bs_t" where
  "bs_write1 i_bit s =
     (let s = s\<lparr>cur_bits := push_bit 1 (cur_bits s) OR ucast i_bit, i_left := i_left s - 1\<rparr>
      in if i_left s = 64 - 32
         then s\<lparr>bs_out := bs_out s @ be_bytes 4 (push_bit 32 (cur_bits s)), i_left := 64\<rparr>
         else s)"

definition bs_align_0 :: "bs_t \<Rightarrow> bs_t" where
  "bs_align_0 s =
     bs_flush (if i_left s AND 7 \<noteq> 0
               then s\<lparr>cur_bits := push_bit (nat (i_left s AND 7)) (cur_bits s), i_left := i_left s AND NOT 7\<rparr>
               else s)"

definition bs_align_1 :: "bs_t \<Rightarrow> bs_t" where
  "bs_align_1 s =
     bs_flush (if i_left s AND 7 \<noteq> 0
               then s\<lparr>cur_bits := push_bit (nat (i_left s AND 7)) (cur_bits s) OR mask (nat (i_left s AND 7)),
                      i_left := i_left s AND NOT 7\<rparr>
               else s)"

definition bs_rbsp_trailing :: "bs_t \<Rightarrow> bs_t" where
  "bs_rbsp_trailing s = bs_flush (bs_write1 1 s)"

section \<open>What a stream contains\<close>

definition bs_inv :: "bs_t \<Rightarrow> bool" where
  "bs_inv s \<longleftrightarrow> 32 < i_left s \<and> i_left s \<le> 64"

definition bs_bits :: "bs_t \<Rightarrow> bool list" where
  "bs_bits s = bytes_bits (bs_out s) @ to_bits (nat (64 - i_left s)) (cur_bits s)"

lemma bs_init_bits [simp]: "bs_inv (bs_init 0 mem)" "bs_bits (bs_init 0 mem) = []"
  by (simp_all add: bs_inv_def bs_init_def bs_bits_def)

text \<open>Shifting in \<open>n\<close> bits: the low \<open>m + n\<close> bits are the old \<open>m\<close> bits and the new ones.\<close>

lemma to_bits_shift_in:
  fixes w v :: "64 word"
  assumes "m + n \<le> 64" "\<And>i. n \<le> i \<Longrightarrow> i < m + n \<Longrightarrow> bit v i \<Longrightarrow> bit w (i - n)"
  shows "to_bits (m + n) (push_bit n w OR v) = to_bits m w @ to_bits n v"
proof -
  have "bit w i" if "i < m" "bit v (n + i)" for i using assms(2)[of "n + i"] that by simp
  then have "to_bits m (drop_bit n (push_bit n w OR v)) = to_bits m w"
    by (intro to_bits_cong) (use assms(1) in \<open>auto simp: bit_drop_bit_eq bit_or_iff bit_push_bit_iff\<close>)
  moreover have "to_bits n (push_bit n w OR v) = to_bits n v"
    by (rule to_bits_cong) (simp add: bit_or_iff bit_push_bit_iff)
  ultimately show ?thesis by (simp add: to_bits_add)
qed

text \<open>Storing the upper half: the stored bytes and what stays behind are the bits of the word.\<close>

lemma to_bits_emit:
  assumes "n \<le> 32"
  shows "bytes_bits (be_bytes 4 (push_bit n w)) @ to_bits (32 - n) w = to_bits (64 - n) (w :: 64 word)"
proof -
  have "bytes_bits (be_bytes 4 (push_bit n w)) = to_bits 32 (drop_bit 32 (push_bit n w))"
    using be_bytes_bits[of 4 "push_bit n w"] by simp
  also have "\<dots> = to_bits 32 (drop_bit (32 - n) w)"
    by (rule to_bits_cong) (use assms in \<open>auto simp: bit_drop_bit_eq bit_push_bit_iff\<close>)
  finally show ?thesis using to_bits_add[of 32 "32 - n" w] assms by simp
qed

lemma bs_write_gen:
  assumes inv: "bs_inv s" and n: "n \<le> 32"
    and high: "\<And>i. n \<le> i \<Longrightarrow> i < nat (64 - i_left s) + n \<Longrightarrow> bit i_bits i \<Longrightarrow> bit (cur_bits s) (i - n)"
  shows "bs_inv (bs_write (int n) i_bits s) \<and> bs_bits (bs_write (int n) i_bits s) = bs_bits s @ to_bits n i_bits"
proof -
  define m where "m = nat (64 - i_left s)"
  have m: "m < 32" "i_left s = 64 - int m" using inv by (auto simp: bs_inv_def m_def)
  define w where "w = push_bit n (cur_bits s) OR ucast i_bits"
  have "to_bits (m + n) w = to_bits m (cur_bits s) @ to_bits n (ucast i_bits :: u64)"
    unfolding w_def
  proof (rule to_bits_shift_in)
    show "m + n \<le> 64" using m n by simp
    show "bit (cur_bits s) (i - n)" if "n \<le> i" "i < m + n" "bit (ucast i_bits :: u64) i" for i
      using high[of i] that by (simp add: bit_ucast_iff m_def)
  qed
  also have "to_bits n (ucast i_bits :: u64) = to_bits n i_bits"
    by (rule to_bits_cong) (use n in \<open>simp add: bit_ucast_iff\<close>)
  finally have w: "to_bits (m + n) w = to_bits m (cur_bits s) @ to_bits n i_bits" .
  show ?thesis
  proof (cases "32 \<le> m + n")
    case True
    have "bytes_bits (be_bytes 4 (push_bit (64 - (m + n)) w)) @ to_bits (32 - (64 - (m + n))) w = to_bits (m + n) w"
      using to_bits_emit[of "64 - (m + n)" w] True m n by simp
    moreover have "nat (64 - int m - int n) = 64 - (m + n)" "nat (64 - (64 - int m - int n + 32)) = m + n - 32" using m n by auto
    moreover have "32 - (64 - (m + n)) = m + n - 32" using True m n by simp
    ultimately show ?thesis
      using True m n w by (simp add: bs_inv_def bs_bits_def bs_write_def Let_def flip: w_def m_def)
  next
    case False
    moreover have "nat (64 - (64 - int m - int n)) = m + n" by simp
    ultimately show ?thesis
      using m n w by (simp add: bs_inv_def bs_bits_def bs_write_def Let_def flip: w_def m_def)
  qed
qed

lemma cur_bits_bs_write [simp]: "cur_bits (bs_write n v s) = push_bit (nat n) (cur_bits s) OR ucast v"
  by (simp add: bs_write_def Let_def)

text \<open>The usual case: the value has no more bits than are written.\<close>

lemma bs_write_bits:
  assumes "bs_inv s" "n \<le> 32" "unat i_bits < 2 ^ n"
  shows "bs_inv (bs_write (int n) i_bits s)" "bs_bits (bs_write (int n) i_bits s) = bs_bits s @ to_bits n i_bits"
proof -
  have "\<not> bit i_bits i" if "n \<le> i" for i
  proof -
    have "2 ^ n \<le> (2 :: nat) ^ i" using that by simp
    then have "unat i_bits < 2 ^ i" using assms(3) by linarith
    then have "take_bit i (unat i_bits) = unat i_bits" by (rule take_bit_nat_eq_self)
    then have "\<not> bit (unat i_bits) i" by (metis bit_take_bit_iff less_irrefl)
    then show ?thesis by (auto simp: bit_unsigned_iff dest: bit_imp_le_length)
  qed
  then show "bs_inv (bs_write (int n) i_bits s)" "bs_bits (bs_write (int n) i_bits s) = bs_bits s @ to_bits n i_bits"
    using bs_write_gen[OF assms(1,2), of i_bits] by blast+
qed

text \<open>
  \<^verbatim>\<open>bs_write32\<close> passes all 32 bits to its second call; the upper half falls on the bits just written, which
  are the same.
\<close>

lemma bs_write32_bits:
  assumes "bs_inv s"
  shows "bs_inv (bs_write32 v s)" "bs_bits (bs_write32 v s) = bs_bits s @ to_bits 32 v"
proof -
  let ?s1 = "bs_write 16 (drop_bit 16 v) s"
  have lt: "unat (drop_bit 16 v) < 2 ^ 16" using unat_lt2p[of v] unfolding unat_drop_bit_eq by (simp add: drop_bit_eq_div)
  have 1: "bs_inv ?s1" "bs_bits ?s1 = bs_bits s @ to_bits 16 (drop_bit 16 v)"
    using bs_write_bits[OF assms, of 16 "drop_bit 16 v"] lt by simp_all
  have high: "bit (cur_bits ?s1) (i - 16)" if "16 \<le> i" "bit v i" for i
    using that by (auto simp: bit_or_iff bit_ucast_iff bit_drop_bit_eq bit_push_bit_iff dest: bit_imp_le_length)
  have "bs_inv (bs_write 16 v ?s1) \<and> bs_bits (bs_write 16 v ?s1) = bs_bits ?s1 @ to_bits 16 v"
    using bs_write_gen[OF 1(1), of 16 v] high by simp
  then show "bs_inv (bs_write32 v s)" "bs_bits (bs_write32 v s) = bs_bits s @ to_bits 32 v"
    using 1 to_bits_add[of 16 16 v] by (simp_all add: bs_write32_def)
qed

lemma bs_write1_bits:
  assumes "bs_inv s" "b = 0 \<or> b = 1"
  shows "bs_inv (bs_write1 b s)" "bs_bits (bs_write1 b s) = bs_bits s @ [b = 1]"
proof -
  have "bs_write1 b s = bs_write 1 b s"
  proof (cases "i_left s = 33")
    case False
    then show ?thesis using assms(1) by (simp add: bs_write1_def bs_write_def bs_inv_def Let_def)
  qed (simp add: bs_write1_def bs_write_def Let_def)
  moreover have "to_bits 1 b = [b = 1]" using assms(2) by (auto simp: to_bits_Suc bit_0)
  moreover have "unat b < 2 ^ 1" using assms(2) by auto
  ultimately show "bs_inv (bs_write1 b s)" "bs_bits (bs_write1 b s) = bs_bits s @ [b = 1]"
    using bs_write_bits[OF assms(1), of 1 b] by simp_all
qed

lemma bs_pos_bits: "bs_inv s \<Longrightarrow> bs_pos s = int (length (bs_bits s))"
  by (simp add: bs_pos_def bs_bits_def bs_inv_def bytes_bits_def length_concat comp_def sum_list_triv)

lemma to_bits_zero: "to_bits n (0 :: 'a::semiring_bits) = replicate n False"
  by (induction n) (simp_all add: to_bits_Suc)

lemma int_div_mod_8: "int l div 8 = int (l div 8)" "int l mod 8 = int (l mod 8)"
  by (simp_all add: zdiv_int zmod_int)

lemma to_bits_push: "r \<le> 64 \<Longrightarrow> m + r \<le> 64 \<Longrightarrow> to_bits (m + r) (push_bit r w) = to_bits m w @ replicate r False"
  for w :: "64 word"
  using to_bits_shift_in[of m r 0 w] to_bits_zero[where n = r and 'a = u64] by simp

lemma bs_flush_bits:
  assumes "0 \<le> i_left s" "i_left s \<le> 64"
  shows "bs_inv (bs_flush s)" "bs_bits (bs_flush s) = bs_bits s @ replicate (nat (i_left s mod 8)) False"
    "bytes_bits (bs_out (bs_flush s)) = bs_bits (bs_flush s)"
proof -
  obtain l where l: "i_left s = int l" "l \<le> 64" using assms by (metis nonneg_int_cases of_nat_le_iff of_nat_numeral)
  define q r where "q = l div 8" and "r = l mod 8"
  have lqr: "l = 8 * q + r" "r < 8" "q \<le> 8" using l(2) by (auto simp: q_def r_def)
  have k: "nat (8 - i_left s div 8) = 8 - q" by (simp add: l q_def int_div_mod_8 nat_diff_distrib)
  have rm: "nat (i_left s mod 8) = r" by (simp add: l r_def int_div_mod_8)
  have "bytes_bits (be_bytes (8 - q) (push_bit l (cur_bits s))) = to_bits (8 * (8 - q)) (drop_bit (64 - 8 * (8 - q)) (push_bit l (cur_bits s)))"
    by (rule be_bytes_bits) simp
  also have "64 - 8 * (8 - q) = 8 * q" using lqr(3) by simp
  also have "to_bits (8 * (8 - q)) (drop_bit (8 * q) (push_bit l (cur_bits s))) = to_bits (8 * (8 - q)) (push_bit r (cur_bits s))"
    by (rule to_bits_cong) (use lqr in \<open>auto simp: bit_drop_bit_eq bit_push_bit_iff\<close>)
  also have "8 * (8 - q) = (64 - l) + r" using lqr l(2) by auto
  also have "to_bits ((64 - l) + r) (push_bit r (cur_bits s)) = to_bits (64 - l) (cur_bits s) @ replicate r False"
    by (rule to_bits_push) (use lqr l(2) in auto)
  finally have "bytes_bits (be_bytes (8 - q) (push_bit l (cur_bits s))) = to_bits (64 - l) (cur_bits s) @ replicate r False" .
  moreover have "nat (64 - i_left s) = 64 - l" by (simp add: l)
  ultimately show "bs_inv (bs_flush s)" "bs_bits (bs_flush s) = bs_bits s @ replicate (nat (i_left s mod 8)) False"
    "bytes_bits (bs_out (bs_flush s)) = bs_bits (bs_flush s)"
    unfolding bs_flush_def k rm by (simp_all add: bs_inv_def bs_bits_def l)
qed

text \<open>Alignment: zeros or ones up to the next byte.\<close>

lemma and_7: "(l :: int) AND 7 = l mod 8" "l AND NOT 7 = l - l mod 8"
proof -
  have m: "(7 :: int) = mask 3" by (simp add: mask_eq_exp_minus_1)
  show 1: "l AND 7 = l mod 8" unfolding m by (simp flip: take_bit_eq_mask add: take_bit_eq_mod)
  have "l AND NOT 7 = push_bit 3 (drop_bit 3 l)"
    unfolding m by (rule bit_eqI) (auto simp: bit_simps)
  also have "\<dots> = l - l mod 8" by (simp add: push_bit_eq_mult drop_bit_eq_div minus_mod_eq_div_mult)
  finally show "l AND NOT 7 = l - l mod 8" .
qed

lemma bs_align_bits:
  assumes "bs_inv s"
  shows "bs_bits (bs_align_0 s) = bs_bits s @ replicate (nat (i_left s mod 8)) False"
    and "bs_bits (bs_align_1 s) = bs_bits s @ replicate (nat (i_left s mod 8)) True"
    and "bs_inv (bs_align_0 s)" "bs_inv (bs_align_1 s)"
proof -
  obtain l where l: "i_left s = int l" "32 < l" "l \<le> 64" using assms by (cases "i_left s") (auto simp: bs_inv_def)
  define r where "r = l mod 8"
  have r: "r < 8" "r \<le> l" by (auto simp: r_def)
  have rm: "nat (i_left s AND 7) = r" by (simp add: and_7 l r_def int_div_mod_8)
  let ?t = "\<lambda>w. s\<lparr>cur_bits := w, i_left := i_left s AND NOT 7\<rparr>"
  have il: "i_left s AND NOT 7 = int (l - r)" unfolding and_7 by (simp add: l r_def int_div_mod_8 of_nat_diff)
  have len: "nat (64 - i_left (?t w)) = (64 - l) + r" for w using il r l by simp
  have m0: "int (l - r) mod 8 = 0" by (simp add: r_def minus_mod_eq_mult_div int_div_mod_8)
  have zeros: "to_bits ((64 - l) + r) (push_bit r (cur_bits s)) = to_bits (64 - l) (cur_bits s) @ replicate r False"
    by (rule to_bits_push) (use r l in auto)
  have ones: "to_bits ((64 - l) + r) (push_bit r (cur_bits s) OR mask r) = to_bits (64 - l) (cur_bits s) @ replicate r True"
  proof -
    have "to_bits ((64 - l) + r) (push_bit r (cur_bits s) OR mask r) = to_bits (64 - l) (cur_bits s) @ to_bits r (mask r :: u64)"
      by (rule to_bits_shift_in) (use r l in \<open>auto simp: bit_mask_iff\<close>)
    moreover have "to_bits r (mask r :: u64) = replicate r True"
      by (rule nth_equalityI) (use r in \<open>auto simp: to_bits_def rev_nth bit_mask_iff\<close>)
    ultimately show ?thesis by simp
  qed
  have z: "nat (i_left s mod 8) = r" using rm by (simp add: and_7)
  have nz: "i_left s AND 7 \<noteq> 0 \<longleftrightarrow> r \<noteq> 0" by (simp add: and_7 l r_def int_div_mod_8)
  have fl: "bs_bits (bs_flush (?t w)) = bytes_bits (bs_out s) @ to_bits ((64 - l) + r) w" "bs_inv (bs_flush (?t w))" for w
    using bs_flush_bits(1,2)[of "?t w"] il l r m0 len[of w] by (simp_all add: bs_bits_def)
  have f0: "bs_bits (bs_flush s) = bs_bits s @ replicate r False" "bs_inv (bs_flush s)"
    using bs_flush_bits(1,2)[of s] l z by simp_all
  have b: "bs_bits s = bytes_bits (bs_out s) @ to_bits (64 - l) (cur_bits s)"
    by (simp add: bs_bits_def l nat_diff_distrib)
  show "bs_bits (bs_align_0 s) = bs_bits s @ replicate (nat (i_left s mod 8)) False" "bs_inv (bs_align_0 s)"
    unfolding bs_align_0_def z using nz fl f0 zeros b by (simp_all add: rm)
  show "bs_bits (bs_align_1 s) = bs_bits s @ replicate (nat (i_left s mod 8)) True" "bs_inv (bs_align_1 s)"
    unfolding bs_align_1_def z using nz fl f0 ones b by (simp_all add: rm)
qed

lemma bs_rbsp_trailing_bits:
  assumes "bs_inv s"
  shows "bs_inv (bs_rbsp_trailing s)"
    "\<exists>k < 8. bs_bits (bs_rbsp_trailing s) = bs_bits s @ True # replicate k False"
    "bytes_bits (bs_out (bs_rbsp_trailing s)) = bs_bits (bs_rbsp_trailing s)"
proof -
  note w = bs_write1_bits[OF assms, of 1, simplified]
  have l: "0 \<le> i_left (bs_write1 1 s)" "i_left (bs_write1 1 s) \<le> 64" using w(1) by (auto simp: bs_inv_def)
  note f = bs_flush_bits[OF l]
  show "bs_inv (bs_rbsp_trailing s)" "bytes_bits (bs_out (bs_rbsp_trailing s)) = bs_bits (bs_rbsp_trailing s)"
    using f by (simp_all add: bs_rbsp_trailing_def)
  show "\<exists>k < 8. bs_bits (bs_rbsp_trailing s) = bs_bits s @ True # replicate k False"
    by (rule exI[of _ "nat (i_left (bs_write1 1 s) mod 8)"]) (use f w in \<open>simp add: bs_rbsp_trailing_def nat_less_iff\<close>)
qed

section \<open>Exponential Golomb codes\<close>

definition x264_ue_size_tab :: "nat list" where
  "x264_ue_size_tab =
     [1, 1, 3, 3] @ replicate 4 5 @ replicate 8 7 @ replicate 16 9 @ replicate 32 11 @ replicate 64 13 @ replicate 128 15"

text \<open>Access to the table; the C code does not check the index.\<close>

definition ue_size :: "int \<Rightarrow> int outcome" where
  "ue_size t = (if 0 \<le> t \<and> t < 256 then Inr (int (x264_ue_size_tab ! nat t)) else Inl Out_Of_Bounds)"

text \<open>The size of a code, found by halving; \<open>tmp\<close> is a signed integer.\<close>

definition ue_big_size :: "int \<Rightarrow> int outcome" where
  "ue_big_size tmp =
     (let (size, tmp) = (if tmp \<ge> 0x10000 then (32, drop_bit 16 tmp) else (0, tmp));
          (size, tmp) = (if tmp \<ge> 0x100 then (size + 16, drop_bit 8 tmp) else (size, tmp))
      in bindR (ue_size tmp) (\<lambda>t. Inr (size + t)))"

definition bs_write_ue_big :: "u32 \<Rightarrow> bs_t \<Rightarrow> bs_t outcome" where
  "bs_write_ue_big val s =
     (let val = val + 1
      in bindR (ue_big_size (sint val)) (\<lambda>size.
           Inr (bs_write (size div 2 + 1) val (bs_write (size div 2) 0 s))))"

definition bs_write_ue :: "int \<Rightarrow> bs_t \<Rightarrow> bs_t outcome" where
  "bs_write_ue val s = bindR (ue_size (val + 1)) (\<lambda>t. Inr (bs_write t (word_of_int (val + 1)) s))"

definition bs_write_se :: "int \<Rightarrow> bs_t \<Rightarrow> bs_t outcome" where
  "bs_write_se val s =
     (let val = (if val \<le> 0 then - val * 2 + 1 else val * 2);
          (size, tmp) = (if val \<ge> 0x100 then (16, drop_bit 8 val) else (0, val))
      in bindR (ue_size tmp) (\<lambda>t. Inr (bs_write (size + t) (word_of_int val) s)))"

definition bs_write_te :: "int \<Rightarrow> int \<Rightarrow> bs_t \<Rightarrow> bs_t outcome" where
  "bs_write_te x val s =
     (if x = 1 then Inr (bs_write1 (word_of_int (1 XOR val)) s)
      else if x > 1 then bs_write_ue val s
      else Inr s)"

definition bs_size_ue :: "int \<Rightarrow> int outcome" where
  "bs_size_ue val = ue_size (val + 1)"

definition bs_size_ue_big :: "int \<Rightarrow> int outcome" where
  "bs_size_ue_big val =
     (if val < 255 then ue_size (val + 1) else bindR (ue_size (drop_bit 8 (val + 1))) (\<lambda>t. Inr (t + 16)))"

definition bs_size_se :: "int \<Rightarrow> int outcome" where
  "bs_size_se val = bs_size_ue_big (if val \<le> 0 then - val * 2 else val * 2 - 1)"

definition bs_size_te :: "int \<Rightarrow> int \<Rightarrow> int outcome" where
  "bs_size_te x val = (if x = 1 then Inr 1 else if x > 1 then ue_size (val + 1) else Inr 0)"

text \<open>The code of a number \<open>t > 0\<close> of \<open>k + 1\<close> bits: \<open>k\<close> zeros and the number.\<close>

definition log_of :: "nat \<Rightarrow> nat" where "log_of t = (LEAST k. t < 2 ^ Suc k)"

lemma log_of_eq: "2 ^ k \<le> t \<Longrightarrow> t < 2 ^ Suc k \<Longrightarrow> log_of t = k"
  unfolding log_of_def
proof (rule Least_equality)
  fix y :: nat assume "2 ^ k \<le> t" "t < 2 ^ Suc y"
  then have "(2 :: nat) ^ k < 2 ^ Suc y" by linarith
  then show "k \<le> y" by (simp add: power_strict_increasing_iff less_Suc_eq_le del: power_Suc)
qed

lemma log_of_bounds:
  assumes "0 < t"
  shows "2 ^ log_of t \<le> t \<and> t < 2 ^ Suc (log_of t)"
proof -
  obtain k where "2 ^ k \<le> t" "t < 2 ^ Suc k" using ex_power_ivl1[of 2 t] assms by auto
  then show ?thesis using log_of_eq by blast
qed

lemma log_of_less: "0 < t \<Longrightarrow> t < 2 ^ n \<Longrightarrow> log_of t < n"
  using log_of_bounds[of t] by (meson le_less_trans nat_power_less_imp_less zero_less_numeral)

definition golomb :: "nat \<Rightarrow> bool list" where
  "golomb t = replicate (log_of t) False @ to_bits (Suc (log_of t)) t"

lemma ue_size_tab_nth:
  "t < 256 \<Longrightarrow> x264_ue_size_tab ! t =
     (if t < 2 then 1 else if t < 4 then 3 else if t < 8 then 5 else if t < 16 then 7 else if t < 32 then 9
      else if t < 64 then 11 else if t < 128 then 13 else 15)"
  unfolding x264_ue_size_tab_def
  by (cases "t < 4"; cases "t < 8"; cases "t < 16"; cases "t < 32"; cases "t < 64"; cases "t < 128";
      simp add: nth_append nth_Cons' del: One_nat_def; intro conjI impI; linarith)

lemma ue_size_log:
  assumes "0 < t" "t < 256"
  shows "ue_size (int t) = Inr (2 * int (log_of t) + 1)"
proof -
  have "log_of t < 8" using log_of_less[of t 8] assms by simp
  then consider "log_of t = 0" | "log_of t = 1" | "log_of t = 2" | "log_of t = 3" | "log_of t = 4" | "log_of t = 5"
    | "log_of t = 6" | "log_of t = 7" by linarith
  then have "x264_ue_size_tab ! t = 2 * log_of t + 1"
    using log_of_bounds[OF assms(1)] by cases (simp_all add: ue_size_tab_nth assms(2))
  then show ?thesis using assms by (simp add: ue_size_def)
qed

lemma log_of_drop:
  assumes "2 ^ n \<le> t"
  shows "log_of (drop_bit n t) + n = log_of t" "0 < drop_bit n t"
proof -
  have t: "0 < t" using assms by (metis gr0I not_one_le_zero power_eq_0_iff le_zero_eq zero_neq_numeral)
  note b = log_of_bounds[OF t]
  have "(2 :: nat) ^ n < 2 ^ Suc (log_of t)" using b assms by linarith
  then have n: "n \<le> log_of t" by (simp add: power_strict_increasing_iff less_Suc_eq_le del: power_Suc)
  have p: "2 ^ Suc (log_of t - n) * 2 ^ n = (2 :: nat) ^ Suc (log_of t)" "2 ^ (log_of t - n) * 2 ^ n = (2 :: nat) ^ log_of t"
    using n by (simp_all flip: power_add)
  have "drop_bit n t < 2 ^ Suc (log_of t - n)"
    unfolding drop_bit_eq_div by (rule less_mult_imp_div_less) (use b p in simp)
  moreover have "2 ^ (log_of t - n) \<le> drop_bit n t"
    unfolding drop_bit_eq_div using b p(2) by (simp add: less_eq_div_iff_mult_less_eq)
  ultimately have "2 ^ (log_of t - n) \<le> drop_bit n t" "drop_bit n t < 2 ^ Suc (log_of t - n)" by simp_all
  then show "log_of (drop_bit n t) + n = log_of t" using log_of_eq n by simp
  show "0 < drop_bit n t" using assms by (simp add: drop_bit_eq_div div_greater_zero_iff)
qed

lemma to_bits_unat: "n \<le> LENGTH('a) \<Longrightarrow> to_bits n (w :: 'a::len word) = to_bits n (unat w)"
  by (rule to_bits_cong) (simp add: bit_unsigned_iff)

lemma golomb_wide:
  assumes "0 < t"
  shows "to_bits (2 * log_of t + 1) t = golomb t"
proof -
  have "drop_bit (Suc (log_of t)) t = 0" using log_of_bounds[OF assms] by (simp add: drop_bit_eq_div)
  then show ?thesis
    using to_bits_add[of "log_of t" "Suc (log_of t)" t] to_bits_zero[of "log_of t", where 'a = nat]
    by (simp add: golomb_def mult_2)
qed

text \<open>What the writers of codes do. The preconditions keep the index inside the table.\<close>

lemma bs_write_golomb:
  assumes "bs_inv s" "0 < t" "t < 65536"
  shows "\<exists>s'. bs_write (2 * int (log_of t) + 1) (word_of_int (int t)) s = s' \<and> bs_inv s' \<and> bs_bits s' = bs_bits s @ golomb t"
proof -
  have lt: "log_of t < 16" using log_of_less[of t 16] assms by simp
  have u: "unat (word_of_int (int t) :: u32) = t" using assms(3) by (simp add: unsigned_of_nat take_bit_nat_eq_self)
  have "t < 2 ^ (2 * log_of t + 1)"
  proof -
    have "(2 :: nat) ^ Suc (log_of t) \<le> 2 ^ (2 * log_of t + 1)" by (rule power_increasing) auto
    then show ?thesis using log_of_bounds[OF assms(2)] by linarith
  qed
  then show ?thesis
    using bs_write_bits[OF assms(1), of "2 * log_of t + 1" "word_of_int (int t)"] lt u golomb_wide[OF assms(2)]
      to_bits_unat[of "2 * log_of t + 1" "word_of_int (int t) :: u32"] by (simp add: add.commute)
qed

lemma bs_write_ue_ok:
  assumes "bs_inv s" "0 \<le> v" "v < 255"
  shows "\<exists>s'. bs_write_ue v s = Inr s' \<and> bs_inv s' \<and> bs_bits s' = bs_bits s @ golomb (nat v + 1)"
proof -
  have v: "v + 1 = int (nat v + 1)" using assms(2) by simp
  have "ue_size (int (nat v + 1)) = Inr (2 * int (log_of (nat v + 1)) + 1)" using ue_size_log[of "nat v + 1"] assms by simp
  then show ?thesis
    unfolding bs_write_ue_def v using bs_write_golomb[OF assms(1), of "nat v + 1"] assms(3) by auto
qed

text \<open>The number of size 16 or more is looked up by its upper byte.\<close>

lemma ue_size_upper:
  assumes "256 \<le> t" "t < 65536"
  shows "ue_size (drop_bit 8 (int t)) = Inr (2 * int (log_of t) + 1 - 16)"
proof -
  have "drop_bit 8 (int t) = int (drop_bit 8 t)" by (simp add: drop_bit_of_nat)
  moreover have "drop_bit 8 t < 256" using assms(2) by (simp add: drop_bit_eq_div)
  ultimately show ?thesis using ue_size_log[of "drop_bit 8 t"] log_of_drop[of 8 t] assms(1) by simp
qed

definition se_num :: "int \<Rightarrow> nat" where
  "se_num v = nat (if v \<le> 0 then - v * 2 + 1 else v * 2)"

lemma bs_write_se_ok:
  assumes "bs_inv s" "\<bar>v\<bar> < 2 ^ 15"
  shows "\<exists>s'. bs_write_se v s = Inr s' \<and> bs_inv s' \<and> bs_bits s' = bs_bits s @ golomb (se_num v)"
proof -
  define t where "t = se_num v"
  have v: "(if v \<le> 0 then - v * 2 + 1 else v * 2) = int t" by (simp add: t_def se_num_def)
  have t: "0 < t" "t < 65536" using assms(2) by (auto simp: t_def se_num_def)
  show ?thesis
  proof (cases "256 \<le> t")
    case True
    then show ?thesis
      unfolding bs_write_se_def v Let_def using ue_size_upper[of t] t bs_write_golomb[OF assms(1) t] by (simp add: t_def add.commute)
  next
    case False
    then show ?thesis
      unfolding bs_write_se_def v Let_def using ue_size_log[of t] t bs_write_golomb[OF assms(1) t] by (simp add: t_def)
  qed
qed

lemma ue_big_size_log:
  assumes "0 < t" "t < 2 ^ 31"
  shows "ue_big_size (int t) = Inr (2 * int (log_of t) + 1)"
proof (cases "65536 \<le> t")
  case True
  define u where "u = drop_bit 16 t"
  have u: "drop_bit 16 (int t) = int u" by (simp add: u_def drop_bit_of_nat)
  have "u < 65536" using assms(2) by (simp add: u_def drop_bit_eq_div)
  moreover have "log_of u + 16 = log_of t" "0 < u" using log_of_drop[of 16 t] True by (simp_all add: u_def)
  ultimately show ?thesis
    using True ue_size_upper[of u] ue_size_log[of u] by (cases "256 \<le> u") (simp_all add: u ue_big_size_def)
next
  case False
  then show ?thesis
    using assms(1) ue_size_upper[of t] ue_size_log[of t] by (cases "256 \<le> t") (simp_all add: ue_big_size_def)
qed

lemma bs_write_ue_big_ok:
  assumes "bs_inv s" "unat v < 2 ^ 31 - 1"
  shows "\<exists>s'. bs_write_ue_big v s = Inr s' \<and> bs_inv s' \<and> bs_bits s' = bs_bits s @ golomb (unat v + 1)"
proof -
  define t where "t = unat v + 1"
  have t: "0 < t" "t < 2 ^ 31" using assms(2) by (simp_all add: t_def)
  have u: "unat (v + 1) = t" using assms(2) by (subst unat_add_lem[THEN iffD1]) (simp_all add: t_def)
  have "uint (v + 1) = int t" by (simp add: u uint_nat)
  then have sint: "sint (v + 1) = int t"
    unfolding sint_uint using t(2) by (simp add: signed_take_bit_int_eq_self)
  have log: "log_of t < 31" using log_of_less[OF t] .
  let ?s1 = "bs_write (int (log_of t)) 0 s"
  have 1: "bs_inv ?s1" "bs_bits ?s1 = bs_bits s @ replicate (log_of t) False"
    using bs_write_bits[OF assms(1), of "log_of t" 0] log to_bits_zero[of "log_of t", where 'a = u32] by simp_all
  have 2: "bs_inv (bs_write (int (Suc (log_of t))) (v + 1) ?s1)"
    "bs_bits (bs_write (int (Suc (log_of t))) (v + 1) ?s1) = bs_bits ?s1 @ to_bits (Suc (log_of t)) (v + 1)"
    using bs_write_bits[OF 1(1), of "Suc (log_of t)" "v + 1"] log u log_of_bounds[OF t(1)] by simp_all
  have "to_bits (Suc (log_of t)) (v + 1) = to_bits (Suc (log_of t)) t"
    using to_bits_unat[of "Suc (log_of t)" "v + 1"] log u by simp
  then have 3: "bs_bits (bs_write (int (Suc (log_of t))) (v + 1) ?s1) = bs_bits s @ golomb t"
    using 1(2) 2(2) by (simp add: golomb_def)
  have "bs_write_ue_big v s = Inr (bs_write (int (Suc (log_of t))) (v + 1) ?s1)"
    using ue_big_size_log[OF t] unfolding bs_write_ue_big_def Let_def sint by (simp add: add.commute)
  then show ?thesis using 2(1) 3 by (auto simp: t_def)
qed

section \<open>Reading the codes back\<close>

text \<open>
  The parsing processes of the H.264 standard for the descriptors u(n), ue(v), se(v) and te(v), on a list
  of bits.
\<close>

fun of_bits :: "bool list \<Rightarrow> nat" where
  "of_bits [] = 0"
| "of_bits (b # bs) = of_bool b * 2 ^ length bs + of_bits bs"

definition read_u :: "nat \<Rightarrow> bool list \<Rightarrow> (nat \<times> bool list) option" where
  "read_u n bs = (if length bs < n then None else Some (of_bits (take n bs), drop n bs))"

definition read_ue :: "bool list \<Rightarrow> (nat \<times> bool list) option" where
  "read_ue bs =
     (let k = length (takeWhile Not bs)
      in map_option (\<lambda>(t, rest). (t - 1, rest)) (read_u (Suc k) (drop k bs)))"

definition read_se :: "bool list \<Rightarrow> (int \<times> bool list) option" where
  "read_se bs =
     map_option (\<lambda>(k, rest). (if odd k then int (Suc k div 2) else - int (k div 2), rest)) (read_ue bs)"

lemma of_bits_to_bits: "of_bits (to_bits n (x :: nat)) = take_bit n x"
  by (induction n) (simp_all add: to_bits_Suc take_bit_Suc_from_most add.commute)

lemma of_bits_append: "of_bits (xs @ ys) = of_bits xs * 2 ^ length ys + of_bits ys"
  by (induction xs) (simp_all add: power_add algebra_simps)

lemma of_bits_less: "of_bits xs < 2 ^ length xs"
  by (induction xs) auto

lemma read_u_to_bits: "x < 2 ^ n \<Longrightarrow> read_u n (to_bits n x @ rest) = Some (x, rest)" for x :: nat
  by (simp add: read_u_def of_bits_to_bits take_bit_nat_eq_self)

lemma takeWhile_zeros: "takeWhile Not (replicate n False @ True # bs) = replicate n False"
  by (induction n) simp_all

lemma read_ue_golomb:
  assumes "0 < t"
  shows "read_ue (golomb t @ rest) = Some (t - 1, rest)"
proof -
  note b = log_of_bounds[OF assms]
  have top: "bit t (log_of t)"
  proof -
    have "t div 2 ^ log_of t = 1" using b by (intro div_nat_eqI) simp_all
    then show ?thesis by (simp add: bit_iff_odd)
  qed
  have "takeWhile Not (golomb t @ rest) = replicate (log_of t) False"
    by (simp add: golomb_def to_bits_Suc top takeWhile_zeros)
  then show ?thesis
    using b read_u_to_bits[of t "Suc (log_of t)" rest] by (simp add: read_ue_def golomb_def)
qed

lemma read_se_golomb: "read_se (golomb (se_num v) @ rest) = Some (v, rest)"
proof (cases "v \<le> 0")
  case True
  then have t: "0 < se_num v" "se_num v - 1 = 2 * nat (- v)" by (auto simp: se_num_def)
  then show ?thesis using True read_ue_golomb[OF t(1), of rest] by (simp add: read_se_def)
next
  case False
  define k where "k = nat v - 1"
  have t: "0 < se_num v" "se_num v - 1 = 2 * k + 1" using False by (auto simp: se_num_def k_def)
  have "v = int (Suc k)" using False by (simp add: k_def)
  then show ?thesis using read_ue_golomb[OF t(1), of rest] t(2) by (simp add: read_se_def)
qed

text \<open>The sizes the rate-distortion code computes are the lengths of the codes.\<close>

lemma length_golomb: "length (golomb t) = 2 * log_of t + 1"
  by (simp add: golomb_def)

lemma bs_size_ue_big_length:
  assumes "0 \<le> v" "v < 65535"
  shows "bs_size_ue_big v = Inr (int (length (golomb (nat v + 1))))"
proof -
  have v: "v + 1 = int (nat v + 1)" using assms(1) by simp
  show ?thesis
    using assms ue_size_log[of "nat v + 1"] ue_size_upper[of "nat v + 1"]
    unfolding bs_size_ue_big_def v length_golomb by (cases "v < 255") simp_all
qed

lemma bs_size_se_length:
  assumes "\<bar>v\<bar> < 2 ^ 15"
  shows "bs_size_se v = Inr (int (length (golomb (se_num v))))"
proof -
  define w where "w = (if v \<le> 0 then - v * 2 else v * 2 - 1)"
  have "nat w + 1 = se_num v" "0 \<le> w" "w < 65535" using assms by (auto simp: w_def se_num_def)
  then show ?thesis using bs_size_ue_big_length[of w] by (simp add: bs_size_se_def flip: w_def)
qed

section \<open>The writer as an interface\<close>

text \<open>
  What the rest of the encoder relies on: a sink of bits with an invariant, whose contents grow by the
  bits of each value put in.
\<close>

locale bit_sink =
  fixes inv :: "'s \<Rightarrow> bool" and contents :: "'s \<Rightarrow> bool list" and put :: "nat \<Rightarrow> nat \<Rightarrow> 's \<Rightarrow> 's"
  assumes put_inv: "inv s \<Longrightarrow> n \<le> 32 \<Longrightarrow> v < 2 ^ n \<Longrightarrow> inv (put n v s)"
    and put_contents: "inv s \<Longrightarrow> n \<le> 32 \<Longrightarrow> v < 2 ^ n \<Longrightarrow> contents (put n v s) = contents s @ to_bits n v"
begin

lemma put_list:
  "inv s \<Longrightarrow> \<forall>(n, v) \<in> set ws. n \<le> 32 \<and> v < 2 ^ n \<Longrightarrow>
     inv (fold (\<lambda>(n, v). put n v) ws s)
     \<and> contents (fold (\<lambda>(n, v). put n v) ws s) = contents s @ concat (map (\<lambda>(n, v). to_bits n v) ws)"
  by (induction ws arbitrary: s) (auto simp: put_inv put_contents)

lemma put_bytes:
  assumes "inv s" "\<forall>x \<in> set xs. x < 256"
  shows "inv (fold (put 8) xs s)" "contents (fold (put 8) xs s) = contents s @ concat (map (to_bits 8) xs)"
  using put_list[OF assms(1), of "map (Pair 8) xs"] assms(2) by (simp_all add: fold_map comp_def)

end

interpretation bsk: bit_sink bs_inv bs_bits "\<lambda>n v. bs_write (int n) (word_of_nat v)"
proof
  fix s and n v :: nat assume a: "bs_inv s" "n \<le> 32" "v < 2 ^ n"
  have "(2 :: nat) ^ n \<le> 2 ^ 32" using a(2) by (intro power_increasing) auto
  then have u: "unat (word_of_nat v :: u32) = v" using a(3) by (simp add: unsigned_of_nat take_bit_nat_eq_self)
  show "bs_inv (bs_write (int n) (word_of_nat v) s)" "bs_bits (bs_write (int n) (word_of_nat v) s) = bs_bits s @ to_bits n v"
    using bs_write_bits[OF a(1,2), of "word_of_nat v"] a(3) to_bits_unat[of n "word_of_nat v :: u32"] a(2) by (simp_all add: u)
qed

text \<open>A statement that appends bits to every stream.\<close>

definition writes :: "(bs_t \<Rightarrow> bs_t outcome) \<Rightarrow> bool list \<Rightarrow> bool" where
  "writes f bs \<longleftrightarrow> (\<forall>s. bs_inv s \<longrightarrow> (\<exists>s'. f s = Inr s' \<and> bs_inv s' \<and> bs_bits s' = bs_bits s @ bs))"

lemma writes_seqR:
  assumes "list_all2 writes fs bss"
  shows "writes (seqR fs) (concat bss)"
  using assms
proof (induction rule: list_all2_induct)
  case Nil
  show ?case by (simp add: writes_def)
next
  case (Cons f fs bs bss)
  show ?case
    unfolding writes_def
  proof (intro allI impI)
    fix s assume "bs_inv s"
    then obtain s1 where 1: "f s = Inr s1" "bs_inv s1" "bs_bits s1 = bs_bits s @ bs" using Cons.hyps(1) unfolding writes_def by blast
    then obtain s2 where 2: "seqR fs s1 = Inr s2" "bs_inv s2" "bs_bits s2 = bs_bits s1 @ concat bss"
      using Cons.IH unfolding writes_def by blast
    show "\<exists>s'. seqR (f # fs) s = Inr s' \<and> bs_inv s' \<and> bs_bits s' = bs_bits s @ concat (bs # bss)"
      using 1 2 by simp
  qed
qed

section \<open>Syntax elements\<close>

text \<open>The descriptors of the standard, and the call of the writer that codes each of them.\<close>

datatype element = U nat nat | U32 u32 | Flag bool | UE nat | SE int

fun write_element :: "element \<Rightarrow> bs_t \<Rightarrow> bs_t outcome" where
  "write_element (U n v) s = Inr (bs_write (int n) (word_of_nat v) s)"
| "write_element (U32 v) s = Inr (bs_write32 v s)"
| "write_element (Flag b) s = Inr (bs_write1 (of_bool b) s)"
| "write_element (UE v) s = bs_write_ue_big (word_of_nat v) s"
| "write_element (SE v) s = bs_write_se v s"

fun element_ok :: "element \<Rightarrow> bool" where
  "element_ok (U n v) = (n \<le> 32 \<and> v < 2 ^ n)"
| "element_ok (UE v) = (v < 2 ^ 31 - 1)"
| "element_ok (SE v) = (\<bar>v\<bar> < 2 ^ 15)"
| "element_ok _ = True"

fun element_code :: "element \<Rightarrow> bool list" where
  "element_code (U n v) = to_bits n v"
| "element_code (U32 v) = to_bits 32 v"
| "element_code (Flag b) = [b]"
| "element_code (UE v) = golomb (v + 1)"
| "element_code (SE v) = golomb (se_num v)"

text \<open>Parsing an element: the argument tells its descriptor only, its value is not used.\<close>

fun read_element :: "element \<Rightarrow> bool list \<Rightarrow> (element \<times> bool list) option" where
  "read_element (U n _) bs = map_option (\<lambda>(v, r). (U n v, r)) (read_u n bs)"
| "read_element (U32 _) bs = map_option (\<lambda>(v, r). (U32 (word_of_nat v), r)) (read_u 32 bs)"
| "read_element (Flag _) bs = map_option (\<lambda>(v, r). (Flag (v = 1), r)) (read_u 1 bs)"
| "read_element (UE _) bs = map_option (\<lambda>(v, r). (UE v, r)) (read_ue bs)"
| "read_element (SE _) bs = map_option (\<lambda>(v, r). (SE v, r)) (read_se bs)"

fun descriptor :: "element \<Rightarrow> element" where
  "descriptor (U n _) = U n 0"
| "descriptor (U32 _) = U32 0"
| "descriptor (Flag _) = Flag False"
| "descriptor (UE _) = UE 0"
| "descriptor (SE _) = SE 0"

fun read_elements :: "element list \<Rightarrow> bool list \<Rightarrow> (element list \<times> bool list) option" where
  "read_elements [] bs = Some ([], bs)"
| "read_elements (d # ds) bs =
     (case read_element d bs of
        None \<Rightarrow> None
      | Some (e, bs) \<Rightarrow> map_option (\<lambda>(es, r). (e # es, r)) (read_elements ds bs))"

lemma writes_element: "element_ok e \<Longrightarrow> writes (write_element e) (element_code e)"
proof (cases e)
  case (U n v)
  then show "element_ok e \<Longrightarrow> ?thesis" using bsk.put_inv bsk.put_contents by (simp add: writes_def)
next
  case (Flag b)
  then show ?thesis using bs_write1_bits[of _ "of_bool b"] by (cases b) (auto simp: writes_def)
next
  case (UE v)
  then show "element_ok e \<Longrightarrow> ?thesis"
    using bs_write_ue_big_ok[of _ "word_of_nat v"] by (auto simp: writes_def unsigned_of_nat take_bit_nat_eq_self)
qed (auto simp: writes_def bs_write32_bits bs_write_se_ok)

lemma read_element_code:
  assumes "element_ok e"
  shows "read_element (descriptor e) (element_code e @ rest) = Some (e, rest)"
proof (cases e)
  case (U32 v)
  then show ?thesis
    using read_u_to_bits[of "unat v" 32 rest] unat_lt2p[of v] to_bits_unat[of 32 v] by simp
next
  case (Flag b)
  then show ?thesis by (simp add: read_u_def)
qed (use assms in \<open>simp_all add: read_u_to_bits read_ue_golomb read_se_golomb\<close>)

lemma read_elements_code:
  "list_all element_ok es \<Longrightarrow> read_elements (map descriptor es) (concat (map element_code es) @ rest) = Some (es, rest)"
  by (induction es) (simp_all add: read_element_code)

lemma writes_elements: "list_all element_ok es \<Longrightarrow> writes (seqR (map write_element es)) (concat (map element_code es))"
  by (rule writes_seqR) (simp add: list_all2_conv_all_nth list_all_length writes_element)

section \<open>Properties\<close>

text \<open>
  C26. Every sequence of syntax elements survives the trip through the bit writer. Starting from an
  aligned buffer with any contents, the calls that write the elements succeed, and parsing the bytes of
  the stream after \<^verbatim>\<open>bs_rbsp_trailing\<close> by the descriptors of the standard gives the elements back; what is
  left over is the stop bit and fewer than eight zeros.
\<close>

theorem bitstream_roundtrip:
  assumes "list_all element_ok es"
  shows "\<exists>s k. seqR (map write_element es) (bs_init 0 mem) = Inr s \<and> k < 8
    \<and> read_elements (map descriptor es) (bytes_bits (bs_out (bs_rbsp_trailing s))) = Some (es, True # replicate k False)"
proof -
  obtain s where s: "seqR (map write_element es) (bs_init 0 mem) = Inr s" "bs_inv s" "bs_bits s = concat (map element_code es)"
    using writes_elements[OF assms] unfolding writes_def by (metis bs_init_bits append_Nil)
  obtain k where k: "k < 8" "bs_bits (bs_rbsp_trailing s) = bs_bits s @ True # replicate k False"
    using bs_rbsp_trailing_bits(2)[OF s(2)] by blast
  show ?thesis
    using s k bs_rbsp_trailing_bits(3)[OF s(2)] read_elements_code[OF assms, of "True # replicate k False"] by auto
qed

theorem bitstream_roundtrip_witness:
  "\<exists>s k. seqR (map write_element [U 8 100, Flag True, UE 300, SE (- 17), U32 0xDEADBEEF]) (bs_init 0 0x123456) = Inr s \<and> k < 8
    \<and> read_elements (map descriptor [U 8 100, Flag True, UE 300, SE (- 17), U32 0xDEADBEEF]) (bytes_bits (bs_out (bs_rbsp_trailing s)))
        = Some ([U 8 100, Flag True, UE 300, SE (- 17), U32 0xDEADBEEF], True # replicate k False)"
  by (rule bitstream_roundtrip) simp



text \<open>
  An unaligned buffer: \<^verbatim>\<open>bs_init\<close> sets \<^verbatim>\<open>i_left\<close> to eight times the offset, and the first store replaces the
  four bytes in front of the buffer by the bytes that followed them.
\<close>

lemma bs_init_unaligned: "bs_out (bs_write 32 v (bs_init 4 mem)) = be_bytes 4 (push_bit 32 mem)"
proof -
  have "be_bytes 4 (push_bit 32 mem OR ucast v) = be_bytes 4 (push_bit 32 mem)"
  proof -
    have "(ucast (drop_bit (56 - 8 * i) (push_bit 32 mem OR ucast v)) :: byte) = ucast (drop_bit (56 - 8 * i) (push_bit 32 mem))" if "i < 4" for i
      by (rule bit_word_eqI) (use that in \<open>auto simp: bit_simps dest: bit_imp_le_length\<close>)
    then show ?thesis by (simp add: be_bytes_def)
  qed
  then show ?thesis by (simp add: bs_write_def bs_init_def)
qed

end
