(* ===== verification/X264_Nal.thy ===== *)
theory X264_Nal
  imports X264_Bitstream "HOL-Library.Signed_Division"
begin

text \<open>
  Network abstraction layer units of the x264 encoder: \<^verbatim>\<open>x264_nal_encode\<close> and \<^verbatim>\<open>x264_reduce_fraction\<close> of
  \<^verbatim>\<open>apps/x264/src/common/common.c\<close>, and the loop of \<^verbatim>\<open>Encode_frame\<close> in \<^verbatim>\<open>apps/x264/src/x264.c\<close> that puts
  units into the multiplexing buffer.
\<close>

section \<open>Encoding a unit\<close>

record x264_nal_t =
  i_ref_idc :: int
  i_type :: int
  p_payload :: "byte list"

text \<open>The copy loop: \<open>i_count\<close> is the number of zeros just copied.\<close>

fun nal_loop :: "nat \<Rightarrow> byte list \<Rightarrow> byte list" where
  "nal_loop i_count [] = []"
| "nal_loop i_count (src # rest) =
     (let (escape, i_count) = (if i_count = 2 \<and> src \<le> 0x03 then ([0x03], 0) else ([], i_count));
          i_count = (if src = 0 then i_count + 1 else 0)
      in escape @ src # nal_loop i_count rest)"

definition nal_header :: "x264_nal_t \<Rightarrow> byte" where
  "nal_header nal = word_of_int (push_bit 5 (i_ref_idc nal) OR i_type nal)"

definition x264_nal_encode :: "bool \<Rightarrow> x264_nal_t \<Rightarrow> byte list" where
  "x264_nal_encode b_annexeb nal =
     (if b_annexeb then [0, 0, 0, 1] else []) @ nal_header nal # nal_loop 0 (p_payload nal)"

section \<open>Decoding\<close>

text \<open>
  The decoding process of the standard: the emulation prevention byte after two zeros is dropped.
\<close>

fun unescape :: "nat \<Rightarrow> byte list \<Rightarrow> byte list" where
  "unescape c [] = []"
| "unescape c (x # xs) =
     (if c = 2 \<and> x = 0x03 then unescape 0 xs else x # unescape (if x = 0 then c + 1 else 0) xs)"

definition nal_decode :: "byte list \<Rightarrow> (byte \<times> byte list) option" where
  "nal_decode bs = (case bs of [] \<Rightarrow> None | h # xs \<Rightarrow> Some (h, unescape 0 xs))"

lemma nal_loop_escape: "x \<le> 3 \<Longrightarrow> nal_loop 2 (x # xs) = 3 # x # nal_loop (if x = 0 then 1 else 0) xs"
  by simp

lemma nal_loop_plain: "\<not> (c = 2 \<and> x \<le> 3) \<Longrightarrow> nal_loop c (x # xs) = x # nal_loop (if x = 0 then c + 1 else 0) xs"
  by auto

declare nal_loop.simps(2) [simp del]

lemma unescape_nal_loop: "c \<le> 2 \<Longrightarrow> unescape c (nal_loop c xs) = xs"
proof (induction xs arbitrary: c)
  case (Cons x xs)
  show ?case
  proof (cases "c = 2 \<and> x \<le> 3")
    case True
    then show ?thesis using Cons.IH[of 0] Cons.IH[of 1] by (simp add: nal_loop_escape)
  next
    case False
    then have "x \<noteq> 0 \<or> c < 2" "\<not> (c = 2 \<and> x = 3)" using Cons.prems by auto
    then show ?thesis using Cons.IH[of 0] Cons.IH[of "Suc c"] by (auto simp: nal_loop_plain[OF False])
  qed
qed simp

section \<open>No start code inside a unit\<close>

text \<open>Two zeros are never followed by a byte below three.\<close>

definition emulation_free :: "byte list \<Rightarrow> bool" where
  "emulation_free zs \<longleftrightarrow>
     (\<forall>i. i + 2 < length zs \<longrightarrow> zs ! i = 0 \<longrightarrow> zs ! (i + 1) = 0 \<longrightarrow> 2 < zs ! (i + 2))"

lemma emulation_free_Cons:
  "emulation_free (x # zs) \<longleftrightarrow>
     emulation_free zs \<and> (case zs of y # z # _ \<Rightarrow> x = 0 \<longrightarrow> y = 0 \<longrightarrow> 2 < z | _ \<Rightarrow> True)"
proof
  assume a: "emulation_free (x # zs)"
  have "2 < zs ! (i + 2)" if "i + 2 < length zs" "zs ! i = 0" "zs ! (i + 1) = 0" for i
    using a[unfolded emulation_free_def, rule_format, of "Suc i"] that by simp
  moreover have "case zs of y # z # _ \<Rightarrow> x = 0 \<longrightarrow> y = 0 \<longrightarrow> 2 < z | _ \<Rightarrow> True"
    using a[unfolded emulation_free_def, rule_format, of 0] by (auto split: list.split)
  ultimately show "emulation_free zs \<and> (case zs of y # z # _ \<Rightarrow> x = 0 \<longrightarrow> y = 0 \<longrightarrow> 2 < z | _ \<Rightarrow> True)"
    by (simp add: emulation_free_def)
next
  assume a: "emulation_free zs \<and> (case zs of y # z # _ \<Rightarrow> x = 0 \<longrightarrow> y = 0 \<longrightarrow> 2 < z | _ \<Rightarrow> True)"
  show "emulation_free (x # zs)"
    unfolding emulation_free_def
  proof (intro allI impI)
    fix i assume i: "i + 2 < length (x # zs)" "(x # zs) ! i = 0" "(x # zs) ! (i + 1) = 0"
    show "2 < (x # zs) ! (i + 2)"
    proof (cases i)
      case 0
      then show ?thesis using a i by (auto split: list.splits)
    next
      case (Suc j)
      then show ?thesis using a i by (simp add: emulation_free_def)
    qed
  qed
qed

lemma replicate_2: "replicate 2 x = [x, x]"
  by (simp add: numeral_2_eq_2)

lemma nal_loop_emulation: "c \<le> 2 \<Longrightarrow> emulation_free (replicate c 0 @ nal_loop c xs)"
proof (induction xs arbitrary: c)
  case Nil
  then show ?case by (simp add: emulation_free_def)
next
  case (Cons x xs)
  have nz: "emulation_free (x # nal_loop 0 xs)" if "x \<noteq> 0"
    using Cons.IH[of 0] that by (simp add: emulation_free_Cons split: list.split)
  show ?case
  proof (cases "c = 2 \<and> x \<le> 3")
    case True
    then have "emulation_free (x # nal_loop (if x = 0 then 1 else 0) xs)" using nz Cons.IH[of 1] by auto
    then show ?thesis
      using True by (simp add: nal_loop_escape emulation_free_Cons[of 0] emulation_free_Cons[of 3] replicate_2
          split: list.split)
  next
    case False
    show ?thesis
    proof (cases "x = 0")
      case True
      then have "replicate c 0 @ nal_loop c (x # xs) = replicate (Suc c) 0 @ nal_loop (Suc c) xs"
        using nal_loop_plain[OF False] by (simp add: replicate_app_Cons_same)
      then show ?thesis using Cons.IH[of "Suc c"] Cons.prems False True by auto
    next
      case x: False
      consider "c = 0" | "c = 1" | "c = 2" "3 < x" using Cons.prems False by fastforce
      moreover have "nal_loop c (x # xs) = x # nal_loop 0 xs" using nal_loop_plain[OF False] x by simp
      moreover have "2 < x" if "3 < x" using that by (rule order.strict_trans[rotated]) simp
      ultimately show ?thesis
        using nz[OF x] x by cases (simp_all add: emulation_free_Cons[of 0] replicate_2 split: list.split)
    qed
  qed
qed

section \<open>Size\<close>

lemma nal_loop_length: "length (nal_loop c xs) \<le> length xs + (length xs + c - 1) div 2"
proof (induction xs arbitrary: c)
  case (Cons x xs)
  show ?case
  proof (cases "c = 2 \<and> x \<le> 3")
    case True
    then show ?thesis using Cons.IH[of 0] Cons.IH[of 1] by (auto simp: nal_loop_escape)
  next
    case False
    then show ?thesis using Cons.IH[of 0] Cons.IH[of "Suc c"] by (auto simp: nal_loop_plain[OF False])
  qed
qed simp

text \<open>The multiplexing buffer of \<^verbatim>\<open>Encode_frame\<close>: its size before a unit is written, and the loop over the units.\<close>

definition mux_buffer_size :: "nat \<Rightarrow> nat \<Rightarrow> nat" where
  "mux_buffer_size cap i_payload = (if cap < i_payload * 3 div 2 + 4 then i_payload * 2 + 4 else cap)"

fun mux_loop :: "nat \<Rightarrow> x264_nal_t list \<Rightarrow> (nat \<times> byte list list) outcome" where
  "mux_loop cap [] = Inr (cap, [])"
| "mux_loop cap (nal # nals) =
     (let cap = mux_buffer_size cap (length (p_payload nal));
          out = x264_nal_encode True nal
      in if cap < length out then Inl Out_Of_Bounds
         else bindR (mux_loop cap nals) (\<lambda>(cap, outs). Inr (cap, out # outs)))"

section \<open>Fractions\<close>

function reduce_loop :: "int \<Rightarrow> int \<Rightarrow> int \<Rightarrow> int" where
  "reduce_loop a b c = (if c \<noteq> 0 then reduce_loop b c (b smod c) else b)"
  by pat_completeness auto
termination
proof (relation "measure (\<lambda>(a, b, c). nat \<bar>c\<bar>)")
  fix b c :: int assume "c \<noteq> 0"
  then have "\<bar>b smod c\<bar> < \<bar>c\<bar>" using smod_int_range[of c b] by auto
  then show "((b, c, b smod c), (a, b, c)) \<in> measure (\<lambda>(a, b, c). nat \<bar>c\<bar>)" for a by simp
qed simp

declare reduce_loop.simps [simp del]

definition x264_reduce_fraction :: "int \<Rightarrow> int \<Rightarrow> int \<times> int" where
  "x264_reduce_fraction n d =
     (if n = 0 \<or> d = 0 then (n, d)
      else let b = reduce_loop n d (n smod d) in (n sdiv b, d sdiv b))"

lemma reduce_loop_gcd: "0 \<le> a \<Longrightarrow> 0 < b \<Longrightarrow> c = a smod b \<Longrightarrow> reduce_loop a b c = gcd a b"
proof (induction a b c rule: reduce_loop.induct)
  case (1 a b c)
  have c: "c = a mod b" using 1(2-4) by (simp add: smod_mod_positive)
  show ?case
  proof (cases "c = 0")
    case True
    then have "gcd a b = b" using c 1(3) by (metis gcd.commute gcd_red_int gcd_0_int abs_of_pos)
    then show ?thesis using True by (simp add: reduce_loop.simps)
  next
    case False
    then have "0 < c" using c 1(3) by (simp add: le_neq_trans pos_mod_sign)
    then have "reduce_loop b c (b smod c) = gcd b c" using 1(1)[OF False] 1(3) by simp
    also have "\<dots> = gcd a b" using c by (metis gcd.commute gcd_red_int)
    finally show ?thesis using False by (simp add: reduce_loop.simps[of a b c])
  qed
qed

section \<open>Properties\<close>

text \<open>
  C28. Emulation prevention. What \<^verbatim>\<open>x264_nal_encode\<close> makes of a payload is decoded to the same header and
  payload, and neither the escaped payload nor the header in front of it contains two zeros followed by
  a byte below three, so no start code appears inside a unit.
\<close>

theorem nal_encode_roundtrip:
  assumes "nal_header nal \<noteq> 0"
  shows "nal_decode (x264_nal_encode False nal) = Some (nal_header nal, p_payload nal)
    \<and> emulation_free (x264_nal_encode False nal)
    \<and> x264_nal_encode True nal = [0, 0, 0, 1] @ x264_nal_encode False nal"
  using assms unescape_nal_loop[of 0 "p_payload nal"] nal_loop_emulation[of 0 "p_payload nal"]
  by (auto simp: x264_nal_encode_def nal_decode_def emulation_free_Cons[of "nal_header nal"] split: list.split)

theorem nal_encode_roundtrip_witness:
  "let nal = \<lparr>i_ref_idc = 3, i_type = 7, p_payload = [0, 0, 1, 0, 0, 0, 3]\<rparr>
   in nal_decode (x264_nal_encode False nal) = Some (0x67, [0, 0, 1, 0, 0, 0, 3])"
  using nal_encode_roundtrip[of "\<lparr>i_ref_idc = 3, i_type = 7, p_payload = [0, 0, 1, 0, 0, 0, 3]\<rparr>"]
  by (simp add: nal_header_def)



text \<open>
  \<^verbatim>\<open>x264_reduce_fraction\<close> ends, leaves a fraction with a zero alone, and otherwise divides both sides of
  a positive fraction by their greatest common divisor.
\<close>

lemma reduce_fraction_gcd:
  assumes "0 \<le> n" "0 \<le> d"
  shows "x264_reduce_fraction n d = (if n = 0 \<or> d = 0 then (n, d) else (n div gcd n d, d div gcd n d))"
proof (cases "n = 0 \<or> d = 0")
  case False
  then have g: "0 < gcd n d" "reduce_loop n d (n smod d) = gcd n d" using assms reduce_loop_gcd[of n d] by auto
  have "n sdiv g = n div g" "d sdiv g = d div g" if "0 < g" for g
    using that assms False by (simp_all add: signed_divide_int_def)
  then show ?thesis using False g by (simp add: x264_reduce_fraction_def Let_def)
qed (auto simp: x264_reduce_fraction_def)

lemma reduce_fraction_example: "x264_reduce_fraction 30000 1000 = (30, 1)"
  using reduce_fraction_gcd[of 30000 1000] by (simp add: gcd_non_0_int)

end
