(* ===== verification/X264_Syntax.thy ===== *)
theory X264_Syntax
  imports X264_Bitstream
begin

text \<open>
  Writing against parsing. A parser of the standard's syntax consumes a list of bits; a sequence of writer
  calls \<open>codes\<close> a value for a parser when the bits it appends are consumed exactly, whatever follows them,
  and give the value. The rules below compose such facts along the statements of a writer.
\<close>

section \<open>Parsers\<close>

type_synonym 'a parser = "bool list \<Rightarrow> ('a \<times> bool list) option"

definition preturn :: "'a \<Rightarrow> 'a parser" where
  "preturn x bs = Some (x, bs)"

definition pbind :: "'a parser \<Rightarrow> ('a \<Rightarrow> 'b parser) \<Rightarrow> 'b parser" where
  "pbind p q bs = (case p bs of None \<Rightarrow> None | Some (x, rest) \<Rightarrow> q x rest)"

definition pwhen :: "bool \<Rightarrow> 'a parser \<Rightarrow> 'a option parser" where
  "pwhen c p = (if c then pbind p (\<lambda>x. preturn (Some x)) else preturn None)"

fun prepeat :: "nat \<Rightarrow> 'a parser \<Rightarrow> 'a list parser" where
  "prepeat 0 p = preturn []"
| "prepeat (Suc n) p = pbind p (\<lambda>x. pbind (prepeat n p) (\<lambda>xs. preturn (x # xs)))"

lemma pbind_Some [simp]: "p bs = Some (x, rest) \<Longrightarrow> pbind p q bs = q x rest"
  by (simp add: pbind_def)

lemma preturn_bs [simp]: "preturn x bs = Some (x, bs)"
  by (simp add: preturn_def)

section \<open>Statements that code a value\<close>

definition codes :: "(bs_t \<Rightarrow> bs_t outcome) \<Rightarrow> 'a parser \<Rightarrow> 'a \<Rightarrow> bool" where
  "codes f p x \<longleftrightarrow> (\<exists>bs. writes f bs \<and> (\<forall>rest. p (bs @ rest) = Some (x, rest)))"

lemma codesI: "writes f bs \<Longrightarrow> (\<And>rest. p (bs @ rest) = Some (x, rest)) \<Longrightarrow> codes f p x"
  by (auto simp: codes_def)

lemma writes_Nil: "writes (seqR []) []"
  by (simp add: writes_def)

lemma writes_append: "writes (seqR fs) as \<Longrightarrow> writes (seqR gs) bs \<Longrightarrow> writes (seqR (fs @ gs)) (as @ bs)"
  unfolding writes_def seqR_append by (metis append.assoc bindR_Inr)

lemma writes_single: "writes (seqR [f]) bs \<longleftrightarrow> writes f bs"
proof -
  have "seqR [f] s = f s" for s by (cases "f s") simp_all
  then show ?thesis by (simp add: writes_def)
qed

lemma codes_Nil: "codes (seqR []) (preturn x) x"
  by (rule codesI[OF writes_Nil]) simp

lemma codes_append:
  assumes "codes (seqR fs) p x" "codes (seqR gs) (q x) y"
  shows "codes (seqR (fs @ gs)) (pbind p q) y"
proof -
  obtain as bs where "writes (seqR fs) as" "\<forall>rest. p (as @ rest) = Some (x, rest)"
      "writes (seqR gs) bs" "\<forall>rest. q x (bs @ rest) = Some (y, rest)"
    using assms by (auto simp: codes_def)
  then show ?thesis by (intro codesI[OF writes_append]) auto
qed

lemma codes_single: "codes (seqR [f]) p x \<longleftrightarrow> codes f p x"
  by (simp add: codes_def writes_single)

lemma codes_Cons:
  assumes "codes f p x" "codes (seqR fs) (q x) y"
  shows "codes (seqR (f # fs)) (pbind p q) y"
  using codes_append[of "[f]" p x fs q y] assms by (simp add: codes_single)

lemma codes_when:
  assumes "c \<Longrightarrow> codes (seqR fs) p x"
  shows "codes (seqR (if c then fs else [])) (pwhen c p) (if c then Some x else None)"
proof (cases c)
  case True
  then obtain bs where "writes (seqR fs) bs" "\<forall>rest. p (bs @ rest) = Some (x, rest)" using assms by (auto simp: codes_def)
  then show ?thesis using True by (intro codesI[of _ bs]) (simp_all add: pwhen_def)
next
  case False
  then show ?thesis unfolding pwhen_def by (simp only: if_False codes_Nil)
qed

lemma codes_when_append:
  assumes "c \<Longrightarrow> codes (seqR fs) p x" "codes (seqR gs) (q (if c then Some x else None)) y"
  shows "codes (seqR ((if c then fs else []) @ gs)) (pbind (pwhen c p) q) y"
proof (rule codes_append)
  show "codes (seqR (if c then fs else [])) (pwhen c p) (if c then Some x else None)"
    by (rule codes_when) (rule assms(1))
qed (rule assms(2))

lemma codes_when_last:
  assumes "c \<Longrightarrow> codes (seqR fs) p x" "codes (seqR []) (q (if c then Some x else None)) y"
  shows "codes (seqR (if c then fs else [])) (pbind (pwhen c p) q) y"
proof -
  have "codes (seqR ((if c then fs else []) @ [])) (pbind (pwhen c p) q) y"
    by (rule codes_when_append) (rule assms; assumption)+
  then show ?thesis by (simp only: append_Nil2)
qed

lemma codes_repeat:
  assumes "\<And>x. x \<in> set xs \<Longrightarrow> codes (f x) p (g x)"
  shows "codes (seqR (map f xs)) (prepeat (length xs) p) (map g xs)"
  using assms
proof (induction xs)
  case Nil
  show ?case unfolding list.map list.size prepeat.simps by (rule codes_Nil)
next
  case (Cons x xs)
  have 1: "codes (f x) p (g x)" "codes (seqR (map f xs)) (prepeat (length xs) p) (map g xs)" using Cons by auto
  then obtain as bs where "writes (f x) as" "\<forall>rest. p (as @ rest) = Some (g x, rest)"
      "writes (seqR (map f xs)) bs" "\<forall>rest. prepeat (length xs) p (bs @ rest) = Some (map g xs, rest)"
    by (auto simp: codes_def)
  then show ?case
    using writes_append[of "[f x]" as "map f xs" bs] by (intro codesI[of _ "as @ bs"]) (simp_all add: writes_single del: seqR.simps)
qed

section \<open>The calls of the writer\<close>

text \<open>The C calls take \<^verbatim>\<open>int\<close> arguments, which are converted to \<^verbatim>\<open>uint32_t\<close>.\<close>

definition put_u :: "int \<Rightarrow> int \<Rightarrow> bs_t \<Rightarrow> bs_t outcome" where
  "put_u n x s = Inr (bs_write n (word_of_int x) s)"

definition put_1 :: "int \<Rightarrow> bs_t \<Rightarrow> bs_t outcome" where
  "put_1 x s = Inr (bs_write1 (word_of_int x) s)"

definition put_32 :: "int \<Rightarrow> bs_t \<Rightarrow> bs_t outcome" where
  "put_32 x s = Inr (bs_write32 (word_of_int x) s)"

definition put_ue :: "int \<Rightarrow> bs_t \<Rightarrow> bs_t outcome" where
  "put_ue x s = bs_write_ue_big (word_of_int x) s"

definition put_se :: "int \<Rightarrow> bs_t \<Rightarrow> bs_t outcome" where
  "put_se x s = bs_write_se x s"

definition get_u :: "nat \<Rightarrow> int parser" where
  "get_u n bs = map_option (\<lambda>(v, r). (int v, r)) (read_u n bs)"

definition get_ue :: "int parser" where
  "get_ue bs = map_option (\<lambda>(v, r). (int v, r)) (read_ue bs)"

lemma unat_word_of_int32: "0 \<le> x \<Longrightarrow> x < 2 ^ 32 \<Longrightarrow> unat (word_of_int x :: u32) = nat x"
  by (simp add: unat_eq_nat_uint uint_word_of_int)

named_theorems code_rules \<open>writer calls with the parser that reads them\<close>

lemma codes_u [code_rules]:
  assumes "0 \<le> x" "x < 2 ^ n" "n \<le> 32"
  shows "codes (put_u (int n) x) (get_u n) x"
proof (rule codesI)
  have x: "word_of_int x = (word_of_nat (nat x) :: u32)" using assms(1) by simp
  have "nat x < 2 ^ n" using assms(1,2) by (simp add: nat_less_iff)
  then show "writes (put_u (int n) x) (to_bits n (nat x))"
    using writes_element[of "U n (nat x)"] assms(3) by (simp add: writes_def put_u_def x)
  show "get_u n (to_bits n (nat x) @ rest) = Some (x, rest)" for rest
    using read_u_to_bits[of "nat x" n rest] \<open>nat x < 2 ^ n\<close> assms(1) by (simp add: get_u_def)
qed

lemma codes_1 [code_rules]:
  assumes "x = 0 \<or> x = 1"
  shows "codes (put_1 x) (get_u 1) x"
proof (rule codesI)
  show "writes (put_1 x) [x = 1]"
    using writes_element[of "Flag (x = 1)"] assms by (auto simp: writes_def put_1_def)
  show "get_u 1 ([x = 1] @ rest) = Some (x, rest)" for rest
    using assms by (auto simp: get_u_def read_u_def)
qed

lemma codes_32 [code_rules]:
  assumes "0 \<le> x" "x < 2 ^ 32"
  shows "codes (put_32 x) (get_u 32) x"
proof (rule codesI)
  show "writes (put_32 x) (to_bits 32 (word_of_int x :: u32))"
    using writes_element[of "U32 (word_of_int x)"] by (simp add: writes_def put_32_def)
  show "get_u 32 (to_bits 32 (word_of_int x :: u32) @ rest) = Some (x, rest)" for rest
    using read_u_to_bits[of "nat x" 32 rest] assms to_bits_unat[of 32 "word_of_int x :: u32"]
    by (simp add: get_u_def unat_word_of_int32 nat_less_iff)
qed

lemma codes_ue [code_rules]:
  assumes "0 \<le> x" "x < 2 ^ 31 - 1"
  shows "codes (put_ue x) get_ue x"
proof (rule codesI)
  show "writes (put_ue x) (golomb (nat x + 1))"
    using writes_element[of "UE (nat x)"] assms by (simp add: writes_def put_ue_def)
  show "get_ue (golomb (nat x + 1) @ rest) = Some (x, rest)" for rest
    using read_ue_golomb[of "nat x + 1" rest] assms by (simp add: get_ue_def)
qed

lemma codes_se [code_rules]:
  assumes "\<bar>x\<bar> < 2 ^ 15"
  shows "codes (put_se x) read_se x"
proof (rule codesI)
  show "writes (put_se x) (golomb (se_num x))"
    using writes_element[of "SE x"] assms by (simp add: writes_def put_se_def)
qed (rule read_se_golomb)

text \<open>From the statements of a complete syntax structure to the bytes of the stream.\<close>

lemma writes_stream:
  assumes "writes f bs"
  shows "\<exists>s k. f (bs_init 0 mem) = Inr s \<and> k < 8 \<and> bytes_bits (bs_out (bs_rbsp_trailing s)) = bs @ True # replicate k False"
proof -
  obtain s where s: "f (bs_init 0 mem) = Inr s" "bs_inv s" "bs_bits s = bs"
    using assms unfolding writes_def by (metis bs_init_bits append_Nil)
  obtain k where "k < 8" "bs_bits (bs_rbsp_trailing s) = bs_bits s @ True # replicate k False"
    using bs_rbsp_trailing_bits(2)[OF s(2)] by blast
  then show ?thesis using s bs_rbsp_trailing_bits(3)[OF s(2)] by auto
qed

lemma codes_stream:
  assumes "codes f p x"
  shows "\<exists>s k. f (bs_init 0 mem) = Inr s \<and> k < 8
    \<and> p (bytes_bits (bs_out (bs_rbsp_trailing s))) = Some (x, True # replicate k False)"
  using assms writes_stream[of f _ mem] by (fastforce simp: codes_def)

text \<open>Post-processing of a parsed value.\<close>

lemma codes_map: "codes f p x \<Longrightarrow> codes f (pbind p (\<lambda>x. preturn (g x))) (g x)"
  by (auto simp: codes_def)

end
