(* ===== verification/X264_Set.thy ===== *)
theory X264_Set
  imports X264_Syntax "HOL-Library.Signed_Division"
begin

text \<open>
  Parameter sets of the x264 encoder (\<^verbatim>\<open>apps/x264/src/encoder/set.c\<close>, with the structures of
  \<^verbatim>\<open>common/set.h\<close>). A C \<^verbatim>\<open>int\<close> field is an integer, a flag is the integer 0 or 1. The functions that
  write a structure are the lists of their calls to the bit writer; the parsers are the syntax tables of
  the H.264 standard (7.3.2.1 and 7.3.2.2, annex E).
\<close>

section \<open>Sequence parameter sets\<close>

record crop_t =
  crop_left :: int
  crop_right :: int
  crop_top :: int
  crop_bottom :: int

record vui_t =
  b_aspect_ratio_info_present :: int
  vui_sar_width :: int
  vui_sar_height :: int
  b_overscan_info_present :: int
  b_overscan_info :: int
  b_signal_type_present :: int
  vui_vidformat :: int
  vui_fullrange :: int
  b_color_description_present :: int
  vui_colorprim :: int
  vui_transfer :: int
  vui_colmatrix :: int
  b_chroma_loc_info_present :: int
  i_chroma_loc_top :: int
  i_chroma_loc_bottom :: int
  b_timing_info_present :: int
  i_num_units_in_tick :: int
  i_time_scale :: int
  b_fixed_frame_rate :: int
  b_bitstream_restriction :: int
  b_motion_vectors_over_pic_boundaries :: int
  i_max_bytes_per_pic_denom :: int
  i_max_bits_per_mb_denom :: int
  i_log2_max_mv_length_horizontal :: int
  i_log2_max_mv_length_vertical :: int
  i_num_reorder_frames :: int
  i_max_dec_frame_buffering :: int

record x264_sps_t =
  sps_id :: int
  i_profile_idc :: int
  sps_level_idc :: int
  b_constraint_set0 :: int
  b_constraint_set1 :: int
  b_constraint_set2 :: int
  i_log2_max_frame_num :: int
  i_poc_type :: int
  i_log2_max_poc_lsb :: int
  b_delta_pic_order_always_zero :: int
  i_offset_for_non_ref_pic :: int
  i_offset_for_top_to_bottom_field :: int
  i_num_ref_frames_in_poc_cycle :: int
  i_offset_for_ref_frame :: "int list"
  i_num_ref_frames :: int
  b_gaps_in_frame_num_value_allowed :: int
  i_mb_width :: int
  i_mb_height :: int
  b_frame_mbs_only :: int
  b_mb_adaptive_frame_field :: int
  b_direct8x8_inference :: int
  b_crop :: int
  crop :: crop_t
  b_vui :: int
  vui :: vui_t
  b_qpprime_y_zero_transform_bypass :: int

definition PROFILE_BASELINE :: int where "PROFILE_BASELINE = 66"
definition PROFILE_MAIN :: int where "PROFILE_MAIN = 77"
definition PROFILE_HIGH :: int where "PROFILE_HIGH = 100"
definition PROFILE_HIGH444_PREDICTIVE :: int where "PROFILE_HIGH444_PREDICTIVE = 244"

section \<open>Writing a sequence parameter set\<close>

definition sar_table :: "(int \<times> int \<times> int) list" where
  "sar_table =
     [(1, 1, 1), (12, 11, 2), (10, 11, 3), (16, 11, 4), (40, 33, 5), (24, 11, 6), (20, 11, 7), (32, 11, 8),
      (80, 33, 9), (18, 11, 10), (15, 11, 11), (64, 33, 12), (160, 99, 13)]"

text \<open>The search of the table; \<open>None\<close> is the entry that ends it.\<close>

definition sar_idc :: "vui_t \<Rightarrow> int option" where
  "sar_idc v = map_option (\<lambda>(w, h, sar). sar)
     (find (\<lambda>(w, h, sar). w = vui_sar_width v \<and> h = vui_sar_height v) sar_table)"

definition aspect_write :: "vui_t \<Rightarrow> (bs_t \<Rightarrow> bs_t outcome) list" where
  "aspect_write v =
     (case sar_idc v of
        Some sar \<Rightarrow> [put_u 8 sar]
      | None \<Rightarrow> [put_u 8 255, put_u 16 (vui_sar_width v), put_u 16 (vui_sar_height v)])"

definition signal_write :: "vui_t \<Rightarrow> (bs_t \<Rightarrow> bs_t outcome) list" where
  "signal_write v =
     [put_u 3 (vui_vidformat v), put_1 (vui_fullrange v), put_1 (b_color_description_present v)]
     @ (if b_color_description_present v \<noteq> 0
        then [put_u 8 (vui_colorprim v), put_u 8 (vui_transfer v), put_u 8 (vui_colmatrix v)] else [])"

definition restriction_write :: "vui_t \<Rightarrow> (bs_t \<Rightarrow> bs_t outcome) list" where
  "restriction_write v =
     [put_1 (b_motion_vectors_over_pic_boundaries v), put_ue (i_max_bytes_per_pic_denom v), put_ue (i_max_bits_per_mb_denom v),
      put_ue (i_log2_max_mv_length_horizontal v), put_ue (i_log2_max_mv_length_vertical v),
      put_ue (i_num_reorder_frames v), put_ue (i_max_dec_frame_buffering v)]"

definition vui_write :: "vui_t \<Rightarrow> (bs_t \<Rightarrow> bs_t outcome) list" where
  "vui_write v =
     [put_1 (b_aspect_ratio_info_present v)]
     @ (if b_aspect_ratio_info_present v \<noteq> 0 then aspect_write v else [])
     @ [put_1 (b_overscan_info_present v)]
     @ (if b_overscan_info_present v \<noteq> 0 then [put_1 (b_overscan_info v)] else [])
     @ [put_1 (b_signal_type_present v)]
     @ (if b_signal_type_present v \<noteq> 0 then signal_write v else [])
     @ [put_1 (b_chroma_loc_info_present v)]
     @ (if b_chroma_loc_info_present v \<noteq> 0 then [put_ue (i_chroma_loc_top v), put_ue (i_chroma_loc_bottom v)] else [])
     @ [put_1 (b_timing_info_present v)]
     @ (if b_timing_info_present v \<noteq> 0
        then [put_32 (i_num_units_in_tick v), put_32 (i_time_scale v), put_1 (b_fixed_frame_rate v)] else [])
     @ [put_1 0, put_1 0, put_1 0, put_1 (b_bitstream_restriction v)]
     @ (if b_bitstream_restriction v \<noteq> 0 then restriction_write v else [])"

definition poc_write :: "x264_sps_t \<Rightarrow> (bs_t \<Rightarrow> bs_t outcome) list" where
  "poc_write sps =
     (if i_poc_type sps = 0 then [put_ue (i_log2_max_poc_lsb sps - 4)]
      else if i_poc_type sps = 1
      then [put_u 1 (b_delta_pic_order_always_zero sps), put_se (i_offset_for_non_ref_pic sps),
            put_se (i_offset_for_top_to_bottom_field sps), put_ue (i_num_ref_frames_in_poc_cycle sps)]
           @ map put_se (take (nat (i_num_ref_frames_in_poc_cycle sps)) (i_offset_for_ref_frame sps))
      else [])"

definition crop_write :: "crop_t \<Rightarrow> (bs_t \<Rightarrow> bs_t outcome) list" where
  "crop_write c =
     [put_ue (crop_left c sdiv 2), put_ue (crop_right c sdiv 2), put_ue (crop_top c sdiv 2), put_ue (crop_bottom c sdiv 2)]"

text \<open>Everything but the trailing bits.\<close>

definition sps_statements :: "x264_sps_t \<Rightarrow> (bs_t \<Rightarrow> bs_t outcome) list" where
  "sps_statements sps =
     [put_u 8 (i_profile_idc sps), put_u 1 (b_constraint_set0 sps), put_u 1 (b_constraint_set1 sps),
      put_u 1 (b_constraint_set2 sps), put_u 5 0, put_u 8 (sps_level_idc sps), put_ue (sps_id sps)]
     @ (if i_profile_idc sps \<ge> PROFILE_HIGH
        then [put_ue 1, put_ue 0, put_ue 0, put_u 1 (b_qpprime_y_zero_transform_bypass sps), put_u 1 0] else [])
     @ [put_ue (i_log2_max_frame_num sps - 4), put_ue (i_poc_type sps)]
     @ poc_write sps
     @ [put_ue (i_num_ref_frames sps), put_u 1 (b_gaps_in_frame_num_value_allowed sps), put_ue (i_mb_width sps - 1),
        if b_frame_mbs_only sps \<noteq> 0 then put_ue (i_mb_height sps - 1) else put_ue (i_mb_height sps sdiv 2 - 1),
        put_u 1 (b_frame_mbs_only sps)]
     @ (if b_frame_mbs_only sps = 0 then [put_u 1 (b_mb_adaptive_frame_field sps)] else [])
     @ [put_u 1 (b_direct8x8_inference sps), put_u 1 (b_crop sps)]
     @ (if b_crop sps \<noteq> 0 then crop_write (crop sps) else [])
     @ [put_u 1 (b_vui sps)]
     @ (if b_vui sps \<noteq> 0 then vui_write (vui sps) else [])"

definition x264_sps_write :: "x264_sps_t \<Rightarrow> bs_t \<Rightarrow> bs_t outcome" where
  "x264_sps_write sps s = bindR (seqR (sps_statements sps) s) (\<lambda>s. Inr (bs_rbsp_trailing s))"

section \<open>The syntax of a sequence parameter set\<close>

record vui_syntax =
  vs_aspect :: "(int \<times> (int \<times> int) option) option"
  vs_overscan :: "int option"
  vs_signal :: "(int \<times> int \<times> (int \<times> int \<times> int) option) option"
  vs_chroma_loc :: "(int \<times> int) option"
  vs_timing :: "(int \<times> int \<times> int) option"
  vs_hrd :: "int \<times> int \<times> int"
  vs_restriction :: "int list option"

record sps_syntax =
  ss_profile :: int
  ss_constraints :: "int \<times> int \<times> int"
  ss_level :: int
  ss_id :: int
  ss_high :: "(int \<times> int \<times> int \<times> int \<times> int) option"
  ss_log2_max_frame_num :: int
  ss_poc :: "int + (int \<times> int \<times> int \<times> int list) + unit"
  ss_num_ref_frames :: int
  ss_gaps :: int
  ss_width :: int
  ss_height :: int
  ss_frame_mbs_only :: int
  ss_mbaff :: "int option"
  ss_direct8x8 :: int
  ss_crop :: "(int \<times> int \<times> int \<times> int) option"
  ss_vui :: "vui_syntax option"

definition parse_aspect :: "(int \<times> (int \<times> int) option) parser" where
  "parse_aspect = pbind (get_u 8) (\<lambda>idc.
     pbind (pwhen (idc = 255) (pbind (get_u 16) (\<lambda>w. pbind (get_u 16) (\<lambda>h. preturn (w, h))))) (\<lambda>e. preturn (idc, e)))"

definition parse_signal :: "(int \<times> int \<times> (int \<times> int \<times> int) option) parser" where
  "parse_signal = pbind (get_u 3) (\<lambda>f. pbind (get_u 1) (\<lambda>r. pbind (get_u 1) (\<lambda>c.
     pbind (pwhen (c \<noteq> 0) (pbind (get_u 8) (\<lambda>p. pbind (get_u 8) (\<lambda>t. pbind (get_u 8) (\<lambda>m. preturn (p, t, m))))))
       (\<lambda>d. preturn (f, r, d)))))"

definition parse_restriction :: "int list parser" where
  "parse_restriction = pbind (get_u 1) (\<lambda>m. pbind (prepeat 6 get_ue) (\<lambda>xs. preturn (m # xs)))"

definition parse_vui :: "vui_syntax parser" where
  "parse_vui =
     pbind (get_u 1) (\<lambda>b. pbind (pwhen (b \<noteq> 0) parse_aspect) (\<lambda>aspect.
     pbind (get_u 1) (\<lambda>b. pbind (pwhen (b \<noteq> 0) (get_u 1)) (\<lambda>overscan.
     pbind (get_u 1) (\<lambda>b. pbind (pwhen (b \<noteq> 0) parse_signal) (\<lambda>signal.
     pbind (get_u 1) (\<lambda>b. pbind (pwhen (b \<noteq> 0) (pbind get_ue (\<lambda>t. pbind get_ue (\<lambda>b. preturn (t, b))))) (\<lambda>chroma.
     pbind (get_u 1) (\<lambda>b. pbind (pwhen (b \<noteq> 0) (pbind (get_u 32) (\<lambda>u. pbind (get_u 32) (\<lambda>s. pbind (get_u 1) (\<lambda>f. preturn (u, s, f))))))
       (\<lambda>timing.
     pbind (get_u 1) (\<lambda>n. pbind (get_u 1) (\<lambda>v. pbind (get_u 1) (\<lambda>p.
     pbind (get_u 1) (\<lambda>b. pbind (pwhen (b \<noteq> 0) parse_restriction) (\<lambda>restriction.
       preturn \<lparr>vs_aspect = aspect, vs_overscan = overscan, vs_signal = signal, vs_chroma_loc = chroma,
                vs_timing = timing, vs_hrd = (n, v, p), vs_restriction = restriction\<rparr>)))))))))))))))"

definition parse_poc :: "int \<Rightarrow> (int + (int \<times> int \<times> int \<times> int list) + unit) parser" where
  "parse_poc t =
     (if t = 0 then pbind get_ue (\<lambda>l. preturn (Inl l))
      else if t = 1
      then pbind (get_u 1) (\<lambda>d. pbind read_se (\<lambda>n. pbind read_se (\<lambda>b. pbind get_ue (\<lambda>c.
             pbind (prepeat (nat c) read_se) (\<lambda>os. preturn (Inr (Inl (d, n, b, os))))))))
      else preturn (Inr (Inr ())))"

definition parse_sps :: "sps_syntax parser" where
  "parse_sps =
     pbind (get_u 8) (\<lambda>profile. pbind (get_u 1) (\<lambda>c0. pbind (get_u 1) (\<lambda>c1. pbind (get_u 1) (\<lambda>c2. pbind (get_u 5) (\<lambda>reserved.
     pbind (get_u 8) (\<lambda>level. pbind get_ue (\<lambda>id.
     pbind (pwhen (profile \<ge> PROFILE_HIGH) (pbind get_ue (\<lambda>c. pbind get_ue (\<lambda>l. pbind get_ue (\<lambda>d. pbind (get_u 1) (\<lambda>b.
       pbind (get_u 1) (\<lambda>m. preturn (c, l, d, b, m)))))))) (\<lambda>high.
     pbind get_ue (\<lambda>frame_num. pbind get_ue (\<lambda>poc_type. pbind (parse_poc poc_type) (\<lambda>poc.
     pbind get_ue (\<lambda>refs. pbind (get_u 1) (\<lambda>gaps. pbind get_ue (\<lambda>width. pbind get_ue (\<lambda>height. pbind (get_u 1) (\<lambda>mbs_only.
     pbind (pwhen (mbs_only = 0) (get_u 1)) (\<lambda>mbaff.
     pbind (get_u 1) (\<lambda>direct. pbind (get_u 1) (\<lambda>b.
     pbind (pwhen (b \<noteq> 0) (pbind get_ue (\<lambda>l. pbind get_ue (\<lambda>r. pbind get_ue (\<lambda>t. pbind get_ue (\<lambda>b. preturn (l, r, t, b))))))) (\<lambda>crop.
     pbind (get_u 1) (\<lambda>b. pbind (pwhen (b \<noteq> 0) parse_vui) (\<lambda>vui.
       preturn \<lparr>ss_profile = profile, ss_constraints = (c0, c1, c2), ss_level = level, ss_id = id, ss_high = high,
                ss_log2_max_frame_num = frame_num, ss_poc = poc, ss_num_ref_frames = refs, ss_gaps = gaps, ss_width = width,
                ss_height = height, ss_frame_mbs_only = mbs_only, ss_mbaff = mbaff, ss_direct8x8 = direct,
                ss_crop = crop, ss_vui = vui\<rparr>))))))))))))))))))))))"

section \<open>Writing codes the syntax\<close>

text \<open>What a structure says in terms of the syntax: a group of fields is present or not.\<close>

definition aspect_abs :: "vui_t \<Rightarrow> int \<times> (int \<times> int) option" where
  "aspect_abs v = (case sar_idc v of Some sar \<Rightarrow> (sar, None) | None \<Rightarrow> (255, Some (vui_sar_width v, vui_sar_height v)))"

definition signal_abs :: "vui_t \<Rightarrow> int \<times> int \<times> (int \<times> int \<times> int) option" where
  "signal_abs v = (vui_vidformat v, vui_fullrange v,
     if b_color_description_present v \<noteq> 0 then Some (vui_colorprim v, vui_transfer v, vui_colmatrix v) else None)"

definition restriction_abs :: "vui_t \<Rightarrow> int list" where
  "restriction_abs v =
     [b_motion_vectors_over_pic_boundaries v, i_max_bytes_per_pic_denom v, i_max_bits_per_mb_denom v,
      i_log2_max_mv_length_horizontal v, i_log2_max_mv_length_vertical v, i_num_reorder_frames v, i_max_dec_frame_buffering v]"

definition vui_abs :: "vui_t \<Rightarrow> vui_syntax" where
  "vui_abs v =
     \<lparr>vs_aspect = (if b_aspect_ratio_info_present v \<noteq> 0 then Some (aspect_abs v) else None),
      vs_overscan = (if b_overscan_info_present v \<noteq> 0 then Some (b_overscan_info v) else None),
      vs_signal = (if b_signal_type_present v \<noteq> 0 then Some (signal_abs v) else None),
      vs_chroma_loc = (if b_chroma_loc_info_present v \<noteq> 0 then Some (i_chroma_loc_top v, i_chroma_loc_bottom v) else None),
      vs_timing = (if b_timing_info_present v \<noteq> 0
                   then Some (i_num_units_in_tick v, i_time_scale v, b_fixed_frame_rate v) else None),
      vs_hrd = (0, 0, 0),
      vs_restriction = (if b_bitstream_restriction v \<noteq> 0 then Some (restriction_abs v) else None)\<rparr>"

definition poc_abs :: "x264_sps_t \<Rightarrow> int + (int \<times> int \<times> int \<times> int list) + unit" where
  "poc_abs sps =
     (if i_poc_type sps = 0 then Inl (i_log2_max_poc_lsb sps - 4)
      else if i_poc_type sps = 1
      then Inr (Inl (b_delta_pic_order_always_zero sps, i_offset_for_non_ref_pic sps, i_offset_for_top_to_bottom_field sps,
             take (nat (i_num_ref_frames_in_poc_cycle sps)) (i_offset_for_ref_frame sps)))
      else Inr (Inr ()))"

definition sps_abs :: "x264_sps_t \<Rightarrow> sps_syntax" where
  "sps_abs sps =
     \<lparr>ss_profile = i_profile_idc sps,
      ss_constraints = (b_constraint_set0 sps, b_constraint_set1 sps, b_constraint_set2 sps),
      ss_level = sps_level_idc sps, ss_id = sps_id sps,
      ss_high = (if i_profile_idc sps \<ge> PROFILE_HIGH then Some (1, 0, 0, b_qpprime_y_zero_transform_bypass sps, 0) else None),
      ss_log2_max_frame_num = i_log2_max_frame_num sps - 4, ss_poc = poc_abs sps, ss_num_ref_frames = i_num_ref_frames sps,
      ss_gaps = b_gaps_in_frame_num_value_allowed sps, ss_width = i_mb_width sps - 1,
      ss_height = (if b_frame_mbs_only sps \<noteq> 0 then i_mb_height sps - 1 else i_mb_height sps sdiv 2 - 1),
      ss_frame_mbs_only = b_frame_mbs_only sps,
      ss_mbaff = (if b_frame_mbs_only sps = 0 then Some (b_mb_adaptive_frame_field sps) else None),
      ss_direct8x8 = b_direct8x8_inference sps,
      ss_crop = (if b_crop sps \<noteq> 0
                 then Some (crop_left (crop sps) sdiv 2, crop_right (crop sps) sdiv 2, crop_top (crop sps) sdiv 2, crop_bottom (crop sps) sdiv 2)
                 else None),
      ss_vui = (if b_vui sps \<noteq> 0 then Some (vui_abs (vui sps)) else None)\<rparr>"

text \<open>The fields are within what their codes can hold.\<close>

definition flag :: "int \<Rightarrow> bool" where "flag x \<longleftrightarrow> x = 0 \<or> x = 1"
definition ue_ok :: "int \<Rightarrow> bool" where "ue_ok x \<longleftrightarrow> 0 \<le> x \<and> x < 2 ^ 31 - 1"
definition u_ok :: "nat \<Rightarrow> int \<Rightarrow> bool" where "u_ok n x \<longleftrightarrow> 0 \<le> x \<and> x < 2 ^ n"

definition vui_ok :: "vui_t \<Rightarrow> bool" where
  "vui_ok v \<longleftrightarrow>
     list_all flag [b_aspect_ratio_info_present v, b_overscan_info_present v, b_overscan_info v, b_signal_type_present v,
       vui_fullrange v, b_color_description_present v, b_chroma_loc_info_present v, b_timing_info_present v,
       b_fixed_frame_rate v, b_bitstream_restriction v, b_motion_vectors_over_pic_boundaries v]
   \<and> list_all (u_ok 16) [vui_sar_width v, vui_sar_height v] \<and> u_ok 3 (vui_vidformat v)
   \<and> list_all (u_ok 8) [vui_colorprim v, vui_transfer v, vui_colmatrix v]
   \<and> list_all ue_ok [i_chroma_loc_top v, i_chroma_loc_bottom v]
   \<and> list_all (u_ok 32) [i_num_units_in_tick v, i_time_scale v]
   \<and> list_all ue_ok [i_max_bytes_per_pic_denom v, i_max_bits_per_mb_denom v, i_log2_max_mv_length_horizontal v,
       i_log2_max_mv_length_vertical v, i_num_reorder_frames v, i_max_dec_frame_buffering v]"

definition sps_ok :: "x264_sps_t \<Rightarrow> bool" where
  "sps_ok sps \<longleftrightarrow>
     list_all (u_ok 8) [i_profile_idc sps, sps_level_idc sps]
   \<and> list_all flag [b_constraint_set0 sps, b_constraint_set1 sps, b_constraint_set2 sps, b_qpprime_y_zero_transform_bypass sps,
       b_delta_pic_order_always_zero sps, b_gaps_in_frame_num_value_allowed sps, b_frame_mbs_only sps,
       b_mb_adaptive_frame_field sps, b_direct8x8_inference sps, b_crop sps, b_vui sps]
   \<and> list_all ue_ok [sps_id sps, i_log2_max_frame_num sps - 4, i_poc_type sps, i_log2_max_poc_lsb sps - 4,
       i_num_ref_frames_in_poc_cycle sps, i_num_ref_frames sps, i_mb_width sps - 1, i_mb_height sps - 1,
       crop_left (crop sps), crop_right (crop sps), crop_top (crop sps), crop_bottom (crop sps)]
   \<and> (b_frame_mbs_only sps = 0 \<longrightarrow> 2 \<le> i_mb_height sps)
   \<and> (i_poc_type sps = 1 \<longrightarrow> \<bar>i_offset_for_non_ref_pic sps\<bar> < 2 ^ 15 \<and> \<bar>i_offset_for_top_to_bottom_field sps\<bar> < 2 ^ 15
        \<and> nat (i_num_ref_frames_in_poc_cycle sps) \<le> length (i_offset_for_ref_frame sps)
        \<and> list_all (\<lambda>x. \<bar>x\<bar> < 2 ^ 15) (i_offset_for_ref_frame sps))
   \<and> vui_ok (vui sps)"

text \<open>The rules for the calls, in the form in which the statements use them.\<close>

lemma codes_u_numeral: "u_ok (numeral k) x \<Longrightarrow> numeral k \<le> (32 :: nat) \<Longrightarrow> codes (put_u (numeral k) x) (get_u (numeral k)) x"
  using codes_u[of x "numeral k"] by (simp add: u_ok_def)

lemma codes_u_one: "flag x \<Longrightarrow> codes (put_u 1 x) (get_u 1) x"
  using codes_u[of x 1] by (auto simp: flag_def)

lemma codes_flag: "flag x \<Longrightarrow> codes (put_1 x) (get_u 1) x"
  by (rule codes_1) (simp add: flag_def)

lemma codes_put_32: "u_ok 32 x \<Longrightarrow> codes (put_32 x) (get_u 32) x"
  by (rule codes_32) (simp_all add: u_ok_def)

lemma codes_put_ue: "ue_ok x \<Longrightarrow> codes (put_ue x) get_ue x"
  by (rule codes_ue) (simp_all add: ue_ok_def)

lemma codes_preturn: "x = y \<Longrightarrow> codes (seqR []) (preturn x) y"
  using codes_Nil by simp

lemmas code_calls = codes_u_numeral codes_u_one codes_flag codes_put_32 codes_put_ue codes_se
lemmas code_steps = codes_Cons codes_when_append codes_when_last codes_preturn

lemma small_ok: "flag 0" "flag 1" "ue_ok 0" "ue_ok 1" "u_ok 5 0"
  by (simp_all add: flag_def ue_ok_def u_ok_def)

lemma sar_idc_range: "sar_idc v = Some sar \<Longrightarrow> u_ok 8 sar \<and> sar \<noteq> 255"
  by (auto simp: sar_idc_def find_Some_iff sar_table_def u_ok_def nth_Cons' split: if_splits)

lemma aspect_codes:
  assumes "vui_ok v"
  shows "codes (seqR (aspect_write v)) parse_aspect (aspect_abs v)"
proof -
  note ok = assms[unfolded vui_ok_def list.pred_inject]
  define idc where "idc = (case sar_idc v of Some sar \<Rightarrow> sar | None \<Rightarrow> 255)"
  have idc: "u_ok 8 idc" "idc = 255 \<longleftrightarrow> sar_idc v = None"
    using sar_idc_range[of v] by (auto simp: idc_def u_ok_def split: option.splits)
  have w: "aspect_write v = put_u 8 idc # (if idc = 255 then [put_u 16 (vui_sar_width v), put_u 16 (vui_sar_height v)] else [])"
    using idc(2) by (auto simp: aspect_write_def idc_def split: option.splits)
  have a: "aspect_abs v = (idc, if idc = 255 then Some (vui_sar_width v, vui_sar_height v) else None)"
    using idc(2) by (auto simp: aspect_abs_def idc_def split: option.splits)
  show ?thesis
    unfolding w a parse_aspect_def
    by (rule code_steps code_calls | (simp add: ok idc(1); fail))+
qed

lemma signal_codes:
  assumes "vui_ok v"
  shows "codes (seqR (signal_write v)) parse_signal (signal_abs v)"
proof -
  note ok = assms[unfolded vui_ok_def list.pred_inject]
  show ?thesis
    unfolding signal_write_def parse_signal_def append.simps signal_abs_def
    by (rule code_steps code_calls | (simp add: ok; fail))+
qed

lemma restriction_codes:
  assumes "vui_ok v"
  shows "codes (seqR (restriction_write v)) parse_restriction (restriction_abs v)"
proof -
  note ok = assms[unfolded vui_ok_def list.pred_inject]
  let ?xs = "[i_max_bytes_per_pic_denom v, i_max_bits_per_mb_denom v, i_log2_max_mv_length_horizontal v,
      i_log2_max_mv_length_vertical v, i_num_reorder_frames v, i_max_dec_frame_buffering v]"
  have "codes (seqR (map put_ue ?xs)) (prepeat (length ?xs) get_ue) (map (\<lambda>x. x) ?xs)"
    by (rule codes_repeat) (use ok in \<open>auto intro: codes_put_ue\<close>)
  then have "codes (seqR (put_1 (b_motion_vectors_over_pic_boundaries v) # map put_ue ?xs @ [])) parse_restriction (restriction_abs v)"
    unfolding parse_restriction_def restriction_abs_def
    by (intro codes_Cons[OF codes_flag] codes_append[OF _ codes_preturn]) (use ok in \<open>simp_all add: eval_nat_numeral del: seqR.simps\<close>)
  then show ?thesis unfolding restriction_write_def list.map append.simps by simp
qed

lemma vui_codes:
  assumes "vui_ok v"
  shows "codes (seqR (vui_write v)) parse_vui (vui_abs v)"
proof -
  note ok = assms[unfolded vui_ok_def list.pred_inject]
  show ?thesis
    unfolding vui_write_def parse_vui_def append.simps
    by (rule code_steps code_calls aspect_codes[OF assms] signal_codes[OF assms] restriction_codes[OF assms] codes_single[THEN iffD2]
        | (simp add: ok small_ok vui_abs_def; fail))+
qed

lemma poc_codes:
  assumes "sps_ok sps"
  shows "codes (seqR (poc_write sps)) (parse_poc (i_poc_type sps)) (poc_abs sps)"
proof -
  note ok = assms[unfolded sps_ok_def list.pred_inject]
  consider (zero) "i_poc_type sps = 0" | (one) "i_poc_type sps = 1" | (other) "i_poc_type sps \<noteq> 0" "i_poc_type sps \<noteq> 1" by blast
  then show ?thesis
  proof cases
    case zero
    have "codes (seqR [put_ue (i_log2_max_poc_lsb sps - 4)]) (pbind get_ue (\<lambda>l. preturn (Inl l)))
        (Inl (i_log2_max_poc_lsb sps - 4) :: int + (int \<times> int \<times> int \<times> int list) + unit)"
      by (rule code_steps code_calls | (simp add: ok; fail))+
    then show ?thesis using zero by (simp add: poc_write_def parse_poc_def poc_abs_def del: seqR.simps)
  next
    case one
    define os where "os = take (nat (i_num_ref_frames_in_poc_cycle sps)) (i_offset_for_ref_frame sps)"
    have len: "nat (i_num_ref_frames_in_poc_cycle sps) = length os" using ok one by (simp add: os_def)
    have "\<forall>x \<in> set os. \<bar>x\<bar> < 2 ^ 15" using ok one by (auto simp: os_def list_all_iff dest: in_set_takeD)
    then have reps: "codes (seqR (map put_se os)) (prepeat (length os) read_se) (map (\<lambda>x. x) os)"
      by (intro codes_repeat codes_se) blast
    have "codes (seqR (map put_se os @ [])) (pbind (prepeat (length os) read_se) (\<lambda>os. preturn (Inr (Inl (b_delta_pic_order_always_zero sps,
          i_offset_for_non_ref_pic sps, i_offset_for_top_to_bottom_field sps, os)))))
        (Inr (Inl (b_delta_pic_order_always_zero sps, i_offset_for_non_ref_pic sps, i_offset_for_top_to_bottom_field sps, os))
          :: int + (int \<times> int \<times> int \<times> int list) + unit)"
      by (rule codes_append[OF reps]) (rule codes_preturn, simp)
    then have r: "codes (seqR (map put_se os)) (pbind (prepeat (nat (i_num_ref_frames_in_poc_cycle sps)) read_se)
          (\<lambda>os. preturn (Inr (Inl (b_delta_pic_order_always_zero sps, i_offset_for_non_ref_pic sps, i_offset_for_top_to_bottom_field sps, os)))))
        (Inr (Inl (b_delta_pic_order_always_zero sps, i_offset_for_non_ref_pic sps, i_offset_for_top_to_bottom_field sps, os))
          :: int + (int \<times> int \<times> int \<times> int list) + unit)"
      unfolding len by (simp only: append_Nil2)
    have "\<bar>i_offset_for_non_ref_pic sps\<bar> < 2 ^ 15" "\<bar>i_offset_for_top_to_bottom_field sps\<bar> < 2 ^ 15" using ok one by auto
    note se = this[THEN codes_se]
    have w: "poc_write sps = put_u 1 (b_delta_pic_order_always_zero sps) # put_se (i_offset_for_non_ref_pic sps)
        # put_se (i_offset_for_top_to_bottom_field sps) # put_ue (i_num_ref_frames_in_poc_cycle sps) # map put_se os"
      using one by (simp add: poc_write_def os_def)
    have p: "parse_poc (i_poc_type sps) = pbind (get_u 1) (\<lambda>d. pbind read_se (\<lambda>n. pbind read_se (\<lambda>b. pbind get_ue (\<lambda>c.
             pbind (prepeat (nat c) read_se) (\<lambda>os. preturn (Inr (Inl (d, n, b, os))))))))"
      using one by (simp add: parse_poc_def)
    have a: "poc_abs sps = Inr (Inl (b_delta_pic_order_always_zero sps, i_offset_for_non_ref_pic sps, i_offset_for_top_to_bottom_field sps, os))"
      using one by (simp add: poc_abs_def os_def)
    show ?thesis
      unfolding w p a by (rule r codes_Cons se codes_u_one codes_put_ue | (simp add: ok; fail))+
  next
    case other
    then show ?thesis using codes_Nil unfolding poc_write_def parse_poc_def poc_abs_def by (simp del: seqR.simps)
  qed
qed

lemma half_ok: "ue_ok x \<Longrightarrow> ue_ok (x sdiv 2)"
  by (auto simp: ue_ok_def signed_divide_int_def sgn_if)

lemma crop_codes:
  assumes "sps_ok sps"
  shows "codes (seqR (crop_write (crop sps))) (pbind get_ue (\<lambda>l. pbind get_ue (\<lambda>r. pbind get_ue (\<lambda>t. pbind get_ue (\<lambda>b. preturn (l, r, t, b))))))
    (crop_left (crop sps) sdiv 2, crop_right (crop sps) sdiv 2, crop_top (crop sps) sdiv 2, crop_bottom (crop sps) sdiv 2)"
proof -
  note ok = assms[unfolded sps_ok_def list.pred_inject]
  show ?thesis
    unfolding crop_write_def by (rule code_steps code_calls | (simp add: ok half_ok; fail))+
qed

lemma sps_codes:
  assumes "sps_ok sps"
  shows "codes (seqR (sps_statements sps)) parse_sps (sps_abs sps)"
proof -
  note ok = assms[unfolded sps_ok_def list.pred_inject]
  let ?h = "if b_frame_mbs_only sps \<noteq> 0 then i_mb_height sps - 1 else i_mb_height sps sdiv 2 - 1"
  have "ue_ok (i_mb_height sps sdiv 2 - 1)" if "b_frame_mbs_only sps = 0"
    using ok that by (auto simp: ue_ok_def signed_divide_int_def)
  then have h: "ue_ok ?h" using ok by auto
  have put_h: "(if b_frame_mbs_only sps \<noteq> 0 then put_ue (i_mb_height sps - 1) else put_ue (i_mb_height sps sdiv 2 - 1)) = put_ue ?h" by simp
  have vui: "vui_ok (vui sps)" using ok by blast
  show ?thesis
    unfolding sps_statements_def parse_sps_def append.simps put_h
    by (rule codes_Cons codes_when_append codes_when_last codes_preturn codes_append[OF poc_codes[OF assms]] crop_codes[OF assms]
        vui_codes[OF vui] code_calls h codes_single[THEN iffD2] | (simp add: ok small_ok sps_abs_def; fail))+
qed

end
