(* ===== verification/X264_Sps_Init.thy ===== *)
theory X264_Sps_Init
  imports X264_Set
begin

text \<open>
  Filling in a sequence parameter set from the encoder's parameters, and checking it against the level
  limits (\<^verbatim>\<open>x264_sps_init\<close> and \<^verbatim>\<open>x264_validate_levels\<close> in \<^verbatim>\<open>apps/x264/src/encoder/set.c\<close>). The parameters
  are the fields of \<^verbatim>\<open>x264_param_t\<close> that these functions read.
\<close>

section \<open>Parameters\<close>

record x264_param_t =
  p_rc_method :: int
  p_qp_constant :: int
  p_transform_8x8 :: int
  p_cqm_preset :: int
  p_cabac :: int
  p_bframe :: int
  p_level_idc :: int
  p_keyint_max :: int
  p_width :: int
  p_height :: int
  p_interlaced :: int
  p_direct_8x8_inference :: int
  p_inter :: u32
  p_sar_width :: int
  p_sar_height :: int
  p_overscan :: int
  p_vidformat :: int
  p_fullrange :: int
  p_colorprim :: int
  p_transfer :: int
  p_colmatrix :: int
  p_chroma_loc :: int
  p_fps_num :: int
  p_fps_den :: int
  p_bframe_pyramid :: int
  p_frame_reference :: int
  p_mv_range :: int
  p_vbv_max_bitrate :: int
  p_vbv_buffer_size :: int
  p_weighted_bipred :: int
  p_chroma_qp_offset :: int
  cqm_4iy :: "byte list"
  cqm_4ic :: "byte list"
  cqm_4py :: "byte list"
  cqm_4pc :: "byte list"
  cqm_8iy :: "byte list"
  cqm_8py :: "byte list"

definition X264_RC_CQP :: int where "X264_RC_CQP = 0"
definition X264_CQM_FLAT :: int where "X264_CQM_FLAT = 0"
definition X264_ANALYSE_PSUB8x8 :: u32 where "X264_ANALYSE_PSUB8x8 = 0x20"

section \<open>Initialisation\<close>

text \<open>The loop that finds the size of the frame counter; shifting a 32-bit 1 by 31 or more is undefined.\<close>

function frame_num_loop :: "int \<Rightarrow> int \<Rightarrow> int outcome" where
  "frame_num_loop n keyint_max =
     (if n < 0 \<or> 31 \<le> n then Inl Shift_Overflow
      else if 2 ^ nat n \<le> keyint_max then frame_num_loop (n + 1) keyint_max
      else Inr n)"
  by pat_completeness auto
termination by (relation "measure (\<lambda>(n, k). nat (31 - n))") auto

declare frame_num_loop.simps [simp del]

definition profile_of :: "x264_param_t \<Rightarrow> int" where
  "profile_of param =
     (if p_rc_method param = X264_RC_CQP \<and> p_qp_constant param = 0 then PROFILE_HIGH444_PREDICTIVE
      else if p_transform_8x8 param \<noteq> 0 \<or> p_cqm_preset param \<noteq> X264_CQM_FLAT then PROFILE_HIGH
      else if p_cabac param \<noteq> 0 \<or> p_bframe param > 0 then PROFILE_MAIN
      else PROFILE_BASELINE)"

definition num_reorder_frames :: "x264_param_t \<Rightarrow> int" where
  "num_reorder_frames param = (if p_bframe_pyramid param \<noteq> 0 then 2 else if p_bframe param \<noteq> 0 then 1 else 0)"

definition num_ref_frames :: "x264_param_t \<Rightarrow> int" where
  "num_ref_frames param = min 16 (max (p_frame_reference param) (1 + num_reorder_frames param))"

text \<open>The logarithm is computed in floating point and truncated; \<open>4 * mv_range - 1\<close> is positive.\<close>

definition mv_length :: "x264_param_t \<Rightarrow> int" where
  "mv_length param = int (log_of (nat (p_mv_range param * 4 - 1))) + 1"

definition vui_init :: "x264_param_t \<Rightarrow> vui_t \<Rightarrow> vui_t" where
  "vui_init param v =
     (let v = (if p_sar_width param > 0 \<and> p_sar_height param > 0
               then v\<lparr>b_aspect_ratio_info_present := 1, vui_sar_width := p_sar_width param, vui_sar_height := p_sar_height param\<rparr>
               else v\<lparr>b_aspect_ratio_info_present := 0\<rparr>);
          v = v\<lparr>b_overscan_info_present := (if p_overscan param \<noteq> 0 then 1 else 0)\<rparr>;
          v = (if b_overscan_info_present v \<noteq> 0 then v\<lparr>b_overscan_info := (if p_overscan param = 2 then 1 else 0)\<rparr> else v);
          v = v\<lparr>vui_vidformat := (if p_vidformat param \<le> 5 then p_vidformat param else 5),
                vui_fullrange := (if p_fullrange param \<noteq> 0 then 1 else 0),
                vui_colorprim := (if p_colorprim param \<le> 9 then p_colorprim param else 2),
                vui_transfer := (if p_transfer param \<le> 11 then p_transfer param else 2),
                vui_colmatrix := (if p_colmatrix param \<le> 9 then p_colmatrix param else 2)\<rparr>;
          v = v\<lparr>b_color_description_present :=
                  (if vui_colorprim v \<noteq> 2 \<or> vui_transfer v \<noteq> 2 \<or> vui_colmatrix v \<noteq> 2 then 1 else 0)\<rparr>;
          v = v\<lparr>b_signal_type_present :=
                  (if vui_vidformat v \<noteq> 5 \<or> vui_fullrange v \<noteq> 0 \<or> b_color_description_present v \<noteq> 0 then 1 else 0)\<rparr>;
          v = v\<lparr>b_chroma_loc_info_present := (if p_chroma_loc param \<noteq> 0 then 1 else 0)\<rparr>;
          v = (if b_chroma_loc_info_present v \<noteq> 0
               then v\<lparr>i_chroma_loc_top := p_chroma_loc param, i_chroma_loc_bottom := p_chroma_loc param\<rparr> else v);
          v = (if p_fps_num param > 0 \<and> p_fps_den param > 0
               then v\<lparr>b_timing_info_present := 1, i_num_units_in_tick := p_fps_den param, i_time_scale := p_fps_num param * 2,
                      b_fixed_frame_rate := 1\<rparr>
               else v\<lparr>b_timing_info_present := 0\<rparr>)
      in v\<lparr>i_num_reorder_frames := num_reorder_frames param, i_max_dec_frame_buffering := num_ref_frames param,
           b_bitstream_restriction := 1, b_motion_vectors_over_pic_boundaries := 1, i_max_bytes_per_pic_denom := 0,
           i_max_bits_per_mb_denom := 0, i_log2_max_mv_length_horizontal := mv_length param,
           i_log2_max_mv_length_vertical := mv_length param\<rparr>)"

definition x264_sps_init :: "int \<Rightarrow> x264_param_t \<Rightarrow> x264_sps_t \<Rightarrow> x264_sps_t outcome" where
  "x264_sps_init i_id param sps =
     bindR (frame_num_loop 4 (p_keyint_max param)) (\<lambda>l.
       let profile = profile_of param;
           frame_num = l + 1;
           mb_width = (p_width param + 15) sdiv 16;
           mb_height = (p_height param + 15) sdiv 16;
           mb_height = (if p_interlaced param \<noteq> 0 then (mb_height + 1) AND NOT 1 else mb_height);
           mbs_only = of_bool (p_interlaced param = 0);
           crop = \<lparr>crop_left = 0, crop_right = mb_width * 16 - p_width param, crop_top = 0,
                   crop_bottom = drop_bit (nat (p_interlaced param)) (mb_height * 16 - p_height param)\<rparr>
       in Inr (sps\<lparr>sps_id := i_id,
            b_qpprime_y_zero_transform_bypass := of_bool (p_rc_method param = X264_RC_CQP \<and> p_qp_constant param = 0),
            i_profile_idc := profile,
            sps_level_idc := p_level_idc param,
            b_constraint_set0 := of_bool (profile = PROFILE_BASELINE),
            b_constraint_set1 := of_bool (profile \<le> PROFILE_MAIN),
            b_constraint_set2 := 0,
            i_log2_max_frame_num := frame_num,
            i_poc_type := 0,
            i_log2_max_poc_lsb := frame_num + 1,
            b_vui := 1,
            b_gaps_in_frame_num_value_allowed := 0,
            i_mb_width := mb_width,
            i_mb_height := mb_height,
            b_frame_mbs_only := mbs_only,
            b_mb_adaptive_frame_field := p_interlaced param,
            b_direct8x8_inference := of_bool (p_direct_8x8_inference param \<noteq> 0 \<or> mbs_only = 0
                                              \<or> p_inter param AND X264_ANALYSE_PSUB8x8 = 0),
            crop := crop,
            b_crop := of_bool (crop_left crop \<noteq> 0 \<or> crop_top crop \<noteq> 0 \<or> crop_right crop \<noteq> 0 \<or> crop_bottom crop \<noteq> 0),
            i_num_ref_frames := num_ref_frames param,
            vui := vui_init param (vui sps)\<rparr>))"

text \<open>The encoder's memory is cleared before the parameter set is filled in.\<close>

definition sps_zero :: x264_sps_t where
  "sps_zero =
     \<lparr>sps_id = 0, i_profile_idc = 0, sps_level_idc = 0, b_constraint_set0 = 0, b_constraint_set1 = 0, b_constraint_set2 = 0,
      i_log2_max_frame_num = 0, i_poc_type = 0, i_log2_max_poc_lsb = 0, b_delta_pic_order_always_zero = 0,
      i_offset_for_non_ref_pic = 0, i_offset_for_top_to_bottom_field = 0, i_num_ref_frames_in_poc_cycle = 0,
      i_offset_for_ref_frame = replicate 256 0, i_num_ref_frames = 0, b_gaps_in_frame_num_value_allowed = 0,
      i_mb_width = 0, i_mb_height = 0, b_frame_mbs_only = 0, b_mb_adaptive_frame_field = 0, b_direct8x8_inference = 0,
      b_crop = 0, crop = \<lparr>crop_left = 0, crop_right = 0, crop_top = 0, crop_bottom = 0\<rparr>, b_vui = 0,
      vui = \<lparr>b_aspect_ratio_info_present = 0, vui_sar_width = 0, vui_sar_height = 0, b_overscan_info_present = 0,
        b_overscan_info = 0, b_signal_type_present = 0, vui_vidformat = 0, vui_fullrange = 0, b_color_description_present = 0,
        vui_colorprim = 0, vui_transfer = 0, vui_colmatrix = 0, b_chroma_loc_info_present = 0, i_chroma_loc_top = 0,
        i_chroma_loc_bottom = 0, b_timing_info_present = 0, i_num_units_in_tick = 0, i_time_scale = 0, b_fixed_frame_rate = 0,
        b_bitstream_restriction = 0, b_motion_vectors_over_pic_boundaries = 0, i_max_bytes_per_pic_denom = 0,
        i_max_bits_per_mb_denom = 0, i_log2_max_mv_length_horizontal = 0, i_log2_max_mv_length_vertical = 0,
        i_num_reorder_frames = 0, i_max_dec_frame_buffering = 0\<rparr>,
      b_qpprime_y_zero_transform_bypass = 0\<rparr>"

section \<open>Levels\<close>

record x264_level_t =
  level_idc :: int
  mbps :: int
  frame_size :: int
  lv_dpb :: int
  lv_bitrate :: int
  lv_cpb :: int
  lv_mv_range :: int
  mvs_per_2mb :: int
  slice_rate :: int
  bipred8x8 :: int
  direct8x8 :: int
  frame_only :: int

fun level_of :: "int list \<Rightarrow> x264_level_t" where
  "level_of [a, b, c, d, e, f, g, h, i, j, k, l] =
     \<lparr>level_idc = a, mbps = b, frame_size = c, lv_dpb = d, lv_bitrate = e, lv_cpb = f, lv_mv_range = g,
      mvs_per_2mb = h, slice_rate = i, bipred8x8 = j, direct8x8 = k, frame_only = l\<rparr>"
| "level_of _ =
     \<lparr>level_idc = 0, mbps = 0, frame_size = 0, lv_dpb = 0, lv_bitrate = 0, lv_cpb = 0, lv_mv_range = 0,
      mvs_per_2mb = 0, slice_rate = 0, bipred8x8 = 0, direct8x8 = 0, frame_only = 0\<rparr>"

definition x264_levels :: "x264_level_t list" where
  "x264_levels = map level_of
     [[10, 1485, 99, 152064, 64, 175, 64, 64, 0, 0, 0, 1],
      [11, 3000, 396, 345600, 192, 500, 128, 64, 0, 0, 0, 1],
      [12, 6000, 396, 912384, 384, 1000, 128, 64, 0, 0, 0, 1],
      [13, 11880, 396, 912384, 768, 2000, 128, 64, 0, 0, 0, 1],
      [20, 11880, 396, 912384, 2000, 2000, 128, 64, 0, 0, 0, 1],
      [21, 19800, 792, 1824768, 4000, 4000, 256, 64, 0, 0, 0, 0],
      [22, 20250, 1620, 3110400, 4000, 4000, 256, 64, 0, 0, 0, 0],
      [30, 40500, 1620, 3110400, 10000, 10000, 256, 32, 22, 0, 1, 0],
      [31, 108000, 3600, 6912000, 14000, 14000, 512, 16, 60, 1, 1, 0],
      [32, 216000, 5120, 7864320, 20000, 20000, 512, 16, 60, 1, 1, 0],
      [40, 245760, 8192, 12582912, 20000, 25000, 512, 16, 60, 1, 1, 0],
      [41, 245760, 8192, 12582912, 50000, 62500, 512, 16, 24, 1, 1, 0],
      [42, 522240, 8704, 13369344, 50000, 62500, 512, 16, 24, 1, 1, 1],
      [50, 589824, 22080, 42393600, 135000, 135000, 512, 16, 24, 1, 1, 1],
      [51, 983040, 36864, 70778880, 240000, 240000, 512, 16, 24, 1, 1, 1],
      []]"

text \<open>The search stops at the entry that ends the table when the level is not in it.\<close>

fun find_level :: "int \<Rightarrow> x264_level_t list \<Rightarrow> x264_level_t" where
  "find_level idc [] = level_of []"
| "find_level idc (l # ls) = (if level_idc l \<noteq> 0 \<and> level_idc l \<noteq> idc then find_level idc ls else l)"

definition frame_exceeds :: "x264_level_t \<Rightarrow> x264_sps_t \<Rightarrow> int \<Rightarrow> bool outcome" where
  "frame_exceeds l sps mbs =
     (if frame_size l < mbs then Inr True
      else bindR (int32 (i_mb_width sps * i_mb_width sps)) (\<lambda>ww.
        if frame_size l * 8 < ww then Inr True
        else bindR (int32 (i_mb_height sps * i_mb_height sps)) (\<lambda>hh. Inr (frame_size l * 8 < hh))))"

definition x264_validate_levels :: "x264_param_t \<Rightarrow> x264_sps_t \<Rightarrow> int outcome" where
  "x264_validate_levels param sps =
     bindR (int32 (i_mb_width sps * i_mb_height sps)) (\<lambda>mbs.
     bindR (int32 (mbs * 384)) (\<lambda>bytes.
     bindR (int32 (bytes * i_num_ref_frames sps)) (\<lambda>dpb.
     let cbp_factor = (if i_profile_idc sps = PROFILE_HIGH then 5 else 4);
         l = find_level (p_level_idc param) x264_levels
     in bindR (frame_exceeds l sps mbs) (\<lambda>exceeds.
        Inr (if exceeds
                \<or> dpb > lv_dpb l
                \<or> p_vbv_max_bitrate param > lv_bitrate l * cbp_factor sdiv 4
                \<or> p_vbv_buffer_size param > lv_cpb l * cbp_factor sdiv 4
                \<or> p_mv_range param > lv_mv_range l
                \<or> p_interlaced param > of_bool (frame_only l = 0)
                \<or> (p_fps_den param > 0 \<and> mbs * p_fps_num param sdiv p_fps_den param > mbps l)
                \<or> b_direct8x8_inference sps < direct8x8 l
             then 1 else 0)))))"

section \<open>A parameter set filled in can be written\<close>

definition param_ok :: "x264_param_t \<Rightarrow> bool" where
  "param_ok param \<longleftrightarrow>
     0 < p_width param \<and> p_width param < 2 ^ 20 \<and> 0 < p_height param \<and> p_height param < 2 ^ 20
   \<and> flag (p_interlaced param) \<and> u_ok 8 (p_level_idc param) \<and> p_keyint_max param < 2 ^ 30
   \<and> p_sar_width param < 2 ^ 16 \<and> p_sar_height param < 2 ^ 16
   \<and> 0 \<le> p_vidformat param \<and> 0 \<le> p_colorprim param \<and> 0 \<le> p_transfer param \<and> 0 \<le> p_colmatrix param
   \<and> ue_ok (p_chroma_loc param) \<and> p_fps_num param < 2 ^ 30 \<and> p_fps_den param < 2 ^ 31
   \<and> 0 < p_mv_range param \<and> p_mv_range param < 2 ^ 29"

lemma frame_num_loop_ok:
  "0 \<le> n \<Longrightarrow> n \<le> 30 \<Longrightarrow> k < 2 ^ 30 \<Longrightarrow> \<exists>l. frame_num_loop n k = Inr l \<and> n \<le> l \<and> l \<le> 30 \<and> k < 2 ^ nat l"
proof (induction n k rule: frame_num_loop.induct)
  case (1 n k)
  show ?case
  proof (cases "2 ^ nat n \<le> k")
    case True
    then have "nat n \<noteq> 30" using 1(4) by auto
    then have n: "n + 1 \<le> 30" using 1(2,3) by auto
    obtain l where "frame_num_loop (n + 1) k = Inr l" "n + 1 \<le> l" "l \<le> 30" "k < 2 ^ nat l"
      using 1(1)[OF _ True] 1(2-4) n by auto
    then show ?thesis using True 1(2,3) by (auto simp: frame_num_loop.simps[of n k])
  qed (use 1 in \<open>auto simp: frame_num_loop.simps[of n k]\<close>)
qed

lemma num_ref_frames_range: "1 \<le> num_ref_frames param" "num_ref_frames param \<le> 16"
  by (auto simp: num_ref_frames_def num_reorder_frames_def)

lemma mv_length_ok:
  assumes "0 < p_mv_range param" "p_mv_range param < 2 ^ 29"
  shows "ue_ok (mv_length param)"
proof -
  have "log_of (nat (p_mv_range param * 4 - 1)) < 31"
    by (rule log_of_less) (use assms in \<open>auto simp: nat_less_iff\<close>)
  then show ?thesis by (simp add: mv_length_def ue_ok_def)
qed

lemma vui_init_ok:
  assumes "param_ok param"
  shows "vui_ok (vui_init param (vui sps_zero))"
proof -
  note P = assms[unfolded param_ok_def]
  have r: "ue_ok (num_reorder_frames param)" "ue_ok (num_ref_frames param)" "ue_ok (mv_length param)" "ue_ok 0"
    using num_ref_frames_range[of param] mv_length_ok[of param] P by (auto simp: num_reorder_frames_def ue_ok_def)
  show ?thesis
    unfolding vui_ok_def list.pred_inject vui_init_def Let_def sps_zero_def
    by (intro conjI) (use P r in \<open>auto simp: flag_def u_ok_def\<close>)
qed

lemma sdiv_pos: "0 \<le> x \<Longrightarrow> 0 < y \<Longrightarrow> x sdiv y = x div y" for x y :: int
  by (simp add: signed_divide_int_def sgn_if)

text \<open>Size in macroblocks: the least number of macroblocks that covers the picture, even when interlaced.\<close>

definition mb_rows :: "x264_param_t \<Rightarrow> int" where
  "mb_rows param =
     (let h = (p_height param + 15) div 16 in if p_interlaced param \<noteq> 0 then h + h mod 2 else h)"

lemma even_up: "((h :: int) + 1) AND NOT 1 = h + h mod 2"
proof -
  have "x AND NOT (mask n) = x div 2 ^ n * 2 ^ n" for x :: int and n
  proof -
    have "x AND NOT (mask n) = push_bit n (drop_bit n x)" by (rule bit_eqI) (auto simp: bit_simps)
    then show ?thesis by (simp add: push_bit_eq_mult drop_bit_eq_div)
  qed
  from this[of "h + 1" 1] have "(h + 1) AND NOT 1 = (h + 1) div 2 * 2" by (simp add: mask_eq_exp_minus_1)
  then show ?thesis by presburger
qed

lemma mb_rows_cover:
  assumes "0 < p_height param" "flag (p_interlaced param)"
  shows "p_height param \<le> 16 * mb_rows param" "16 * mb_rows param < p_height param + 32" "0 < mb_rows param"
    "p_interlaced param \<noteq> 0 \<Longrightarrow> mb_rows param mod 2 = 0 \<and> 2 \<le> mb_rows param"
proof -
  define h where "h = (p_height param + 15) div 16"
  have h: "p_height param \<le> 16 * h" "16 * h < p_height param + 16" "1 \<le> h" using assms by (auto simp: h_def)
  have "h + h mod 2 = h \<or> h + h mod 2 = h + 1" "(h + h mod 2) mod 2 = 0" "2 \<le> h + h mod 2" using h(3) by presburger+
  then show "p_height param \<le> 16 * mb_rows param" "16 * mb_rows param < p_height param + 32" "0 < mb_rows param"
    "p_interlaced param \<noteq> 0 \<Longrightarrow> mb_rows param mod 2 = 0 \<and> 2 \<le> mb_rows param"
    using h by (auto simp: mb_rows_def Let_def simp flip: h_def)
qed

lemma sps_init_ok:
  assumes "param_ok param" "ue_ok i_id"
  shows "\<exists>sps. x264_sps_init i_id param sps_zero = Inr sps \<and> sps_ok sps
    \<and> i_mb_width sps = (p_width param + 15) div 16 \<and> i_mb_height sps = mb_rows param
    \<and> b_frame_mbs_only sps = 1 - p_interlaced param
    \<and> crop sps = \<lparr>crop_left = 0, crop_right = i_mb_width sps * 16 - p_width param, crop_top = 0,
         crop_bottom = (mb_rows param * 16 - p_height param) div (if p_interlaced param \<noteq> 0 then 2 else 1)\<rparr>
    \<and> b_crop sps = of_bool (crop_right (crop sps) \<noteq> 0 \<or> crop_bottom (crop sps) \<noteq> 0)
    \<and> p_keyint_max param < 2 ^ nat (i_log2_max_frame_num sps)"
proof -
  note P = assms(1)[unfolded param_ok_def]
  obtain l where l: "frame_num_loop 4 (p_keyint_max param) = Inr l" "4 \<le> l" "l \<le> 30" "p_keyint_max param < 2 ^ nat l"
    using frame_num_loop_ok[of 4 "p_keyint_max param"] P by auto
  have w: "(p_width param + 15) sdiv 16 = (p_width param + 15) div 16" "(p_height param + 15) sdiv 16 = (p_height param + 15) div 16"
    using P by (simp_all add: sdiv_pos)
  have rows: "(if p_interlaced param \<noteq> 0 then ((p_height param + 15) div 16 + 1) AND NOT 1 else (p_height param + 15) div 16) = mb_rows param"
    unfolding even_up by (simp add: mb_rows_def Let_def)
  have il: "drop_bit (nat (p_interlaced param)) x = x div (if p_interlaced param \<noteq> 0 then 2 else 1)" for x :: int
    using P by (auto simp: flag_def drop_bit_eq_div)
  obtain sps where sps: "x264_sps_init i_id param sps_zero = Inr sps" using l(1) by (simp add: x264_sps_init_def Let_def)
  have "(2 :: int) ^ nat l \<le> 2 ^ nat (l + 1)" by (rule power_increasing) auto
  then have pow: "p_keyint_max param < 2 ^ nat (l + 1)" using l(4) by linarith
  note def = sps[unfolded x264_sps_init_def l(1) bindR_Inr Let_def w rows il, simplified, symmetric]
  have prof: "u_ok 8 (profile_of param)"
    by (simp add: profile_of_def u_ok_def PROFILE_BASELINE_def PROFILE_MAIN_def PROFILE_HIGH_def PROFILE_HIGH444_PREDICTIVE_def)
  have mbw: "0 < (p_width param + 15) div 16" "(p_width param + 15) div 16 < 2 ^ 20" "p_width param \<le> (p_width param + 15) div 16 * 16"
    using P by auto
  note mbh = mb_rows_cover[of param]
  have vui: "vui_ok (vui_init param (vui sps_zero))" by (rule vui_init_ok[OF assms(1)])
  have "sps_ok sps"
    unfolding sps_ok_def list.pred_inject def
    using P prof mbw mbh vui num_ref_frames_range[of param] assms(2) l(2,3)
    by (auto simp: flag_def ue_ok_def sps_zero_def)
  then show ?thesis
    using sps P pow by (intro exI[of _ sps] conjI) (auto simp: def flag_def)
qed

section \<open>Properties\<close>

text \<open>The size of the picture that a decoder derives from a parameter set (equations 7-13 to 7-22 of the standard).\<close>

definition display_width :: "sps_syntax \<Rightarrow> int" where
  "display_width x = 16 * (ss_width x + 1) - (case ss_crop x of None \<Rightarrow> 0 | Some (l, r, t, b) \<Rightarrow> 2 * (l + r))"

definition display_height :: "sps_syntax \<Rightarrow> int" where
  "display_height x =
     16 * (2 - ss_frame_mbs_only x) * (ss_height x + 1)
     - (case ss_crop x of None \<Rightarrow> 0 | Some (l, r, t, b) \<Rightarrow> 2 * (2 - ss_frame_mbs_only x) * (t + b))"

lemma sps_stream:
  assumes "sps_ok sps"
  shows "\<exists>s k. x264_sps_write sps (bs_init 0 mem) = Inr s \<and> k < 8
    \<and> parse_sps (bytes_bits (bs_out s)) = Some (sps_abs sps, True # replicate k False)"
  using codes_stream[OF sps_codes[OF assms], of mem] unfolding x264_sps_write_def by auto

text \<open>
  C31. Sequence parameter sets. For valid parameters \<^verbatim>\<open>x264_sps_init\<close> succeeds, \<^verbatim>\<open>x264_sps_write\<close> succeeds, and a
  decoder that parses the bytes by the syntax of the standard finds exactly the fields that were filled
  in; the picture it then displays has the width and height of the parameters when the width is even and
  the height a multiple of two, or of four when interlaced.
\<close>

theorem sps_roundtrip:
  assumes "param_ok param" "ue_ok i_id"
  shows "\<exists>sps s k. x264_sps_init i_id param sps_zero = Inr sps \<and> x264_sps_write sps (bs_init 0 mem) = Inr s \<and> k < 8
    \<and> parse_sps (bytes_bits (bs_out s)) = Some (sps_abs sps, True # replicate k False)
    \<and> (p_width param mod 2 = 0 \<longrightarrow> display_width (sps_abs sps) = p_width param)
    \<and> (p_height param mod (if p_interlaced param = 0 then 2 else 4) = 0 \<longrightarrow> display_height (sps_abs sps) = p_height param)"
proof -
  obtain sps where sps: "x264_sps_init i_id param sps_zero = Inr sps" "sps_ok sps"
      "i_mb_width sps = (p_width param + 15) div 16" "i_mb_height sps = mb_rows param" "b_frame_mbs_only sps = 1 - p_interlaced param"
      "crop sps = \<lparr>crop_left = 0, crop_right = i_mb_width sps * 16 - p_width param, crop_top = 0,
         crop_bottom = (mb_rows param * 16 - p_height param) div (if p_interlaced param \<noteq> 0 then 2 else 1)\<rparr>"
      "b_crop sps = of_bool (crop_right (crop sps) \<noteq> 0 \<or> crop_bottom (crop sps) \<noteq> 0)"
    using sps_init_ok[OF assms] by blast
  note P = assms(1)[unfolded param_ok_def]
  note rows = mb_rows_cover[of param]
  obtain s k where w: "x264_sps_write sps (bs_init 0 mem) = Inr s" "k < 8"
      "parse_sps (bytes_bits (bs_out s)) = Some (sps_abs sps, True # replicate k False)"
    using sps_stream[OF sps(2), of mem] by blast
  have right: "0 \<le> (p_width param + 15) div 16 * 16 - p_width param" using P by auto
  have "display_width (sps_abs sps) = p_width param" if "p_width param mod 2 = 0"
  proof (cases "b_crop sps = 0")
    case True
    then have "(p_width param + 15) div 16 * 16 - p_width param = 0" using sps(3,6,7) by simp
    then show ?thesis using True sps(3) by (simp add: display_width_def sps_abs_def)
  next
    case False
    have "((p_width param + 15) div 16 * 16 - p_width param) sdiv 2 * 2 = (p_width param + 15) div 16 * 16 - p_width param"
      using right that by (simp add: sdiv_pos) presburger
    then show ?thesis using False sps(3,6) by (simp add: display_width_def sps_abs_def)
  qed
  moreover have "display_height (sps_abs sps) = p_height param" if h: "p_height param mod (if p_interlaced param = 0 then 2 else 4) = 0"
  proof -
    define d where "d = mb_rows param * 16 - p_height param"
    have d: "0 \<le> d" "d < 32" using rows P by (simp_all add: d_def)
    consider (prog) "p_interlaced param = 0" | (inter) "p_interlaced param = 1" using P by (auto simp: flag_def)
    then show ?thesis
    proof cases
      case prog
      have "d mod 2 = 0" using h prog by (simp add: d_def) presburger
      then have "d sdiv 2 * 2 = d" using d by (simp add: sdiv_pos) presburger
      moreover have "b_crop sps = 0 \<Longrightarrow> d = 0" using sps(6,7) prog by (simp add: d_def)
      ultimately show ?thesis using prog sps(4-6)
        by (cases "b_crop sps = 0") (simp_all add: display_height_def sps_abs_def d_def)
    next
      case inter
      have "mb_rows param mod 2 = 0" using rows P inter by (auto simp: flag_def)
      then have e: "mb_rows param sdiv 2 * 2 = mb_rows param" "d mod 4 = 0"
        using rows(3) P h inter by (simp_all add: sdiv_pos d_def) presburger+
      then have f: "(d div 2) sdiv 2 * 4 = d" "b_crop sps = 0 \<Longrightarrow> d = 0" using d sps(6,7) inter by (simp_all add: sdiv_pos d_def) presburger+
      then show ?thesis using inter sps(4-6) e
        by (cases "b_crop sps = 0") (simp_all add: display_height_def sps_abs_def d_def)
    qed
  qed
  ultimately show ?thesis using sps(1) w by blast
qed

definition sample_param :: x264_param_t where
  "sample_param =
     \<lparr>p_rc_method = 1, p_qp_constant = 26, p_transform_8x8 = 1, p_cqm_preset = 0, p_cabac = 1, p_bframe = 3, p_level_idc = 40,
      p_keyint_max = 250, p_width = 1920, p_height = 1080, p_interlaced = 1, p_direct_8x8_inference = 1, p_inter = 0x31,
      p_sar_width = 4, p_sar_height = 3, p_overscan = 2, p_vidformat = 5, p_fullrange = 0, p_colorprim = 1, p_transfer = 1,
      p_colmatrix = 1, p_chroma_loc = 0, p_fps_num = 25, p_fps_den = 1, p_bframe_pyramid = 1, p_frame_reference = 4,
      p_mv_range = 512, p_vbv_max_bitrate = 0, p_vbv_buffer_size = 0, p_weighted_bipred = 1, p_chroma_qp_offset = -2,
      cqm_4iy = replicate 16 20, cqm_4ic = replicate 16 16, cqm_4py = replicate 16 16, cqm_4pc = replicate 16 16,
      cqm_8iy = replicate 64 16, cqm_8py = replicate 64 16\<rparr>"

theorem sps_roundtrip_witness:
  "\<exists>sps s k. x264_sps_init 0 sample_param sps_zero = Inr sps \<and> x264_sps_write sps (bs_init 0 1) = Inr s
     \<and> parse_sps (bytes_bits (bs_out s)) = Some (sps_abs sps, True # replicate k False)
     \<and> display_width (sps_abs sps) = 1920 \<and> display_height (sps_abs sps) = 1080"
proof -
  have ok: "param_ok sample_param" "ue_ok 0" by (simp_all add: param_ok_def sample_param_def flag_def u_ok_def ue_ok_def)
  have "p_width sample_param = 1920" "p_height sample_param = 1080" "p_interlaced sample_param = 1" by (simp_all add: sample_param_def)
  then show ?thesis using sps_roundtrip[OF ok, of 1] by auto
qed



end
