(* ===== verification/X264_Pps.thy ===== *)
theory X264_Pps
  imports X264_Sps_Init
begin

text \<open>
  Picture parameter sets: how \<^verbatim>\<open>x264_pps_init\<close> fills one in, with the quantisation matrices of the
  parameters, and how \<^verbatim>\<open>x264_pps_write\<close> and \<^verbatim>\<open>scaling_list_write\<close> write it
  (\<^verbatim>\<open>apps/x264/src/encoder/set.c\<close>, \<^verbatim>\<open>apps/x264/src/common/set.h\<close>), against a parser written from the syntax of the
  standard. The matrices are arrays of bytes; a \<^verbatim>\<open>scaling_list\<close> pointer is the array it points to, which
  does not change once the set is filled in.
\<close>

section \<open>Data\<close>

record x264_pps_t =
  pps_id :: int
  pps_sps_id :: int
  pps_cabac :: int
  b_pic_order :: int
  i_num_slice_groups :: int
  i_num_ref_idx_l0_active :: int
  i_num_ref_idx_l1_active :: int
  b_weighted_pred :: int
  b_weighted_bipred :: int
  i_pic_init_qp :: int
  i_pic_init_qs :: int
  i_chroma_qp_index_offset :: int
  b_deblocking_filter_control :: int
  b_constrained_intra_pred :: int
  b_redundant_pic_cnt :: int
  b_transform_8x8_mode :: int
  pps_cqm_preset :: int
  scaling_list :: "byte list list"

definition X264_RC_ABR :: int where "X264_RC_ABR = 2"
definition X264_CQM_JVT :: int where "X264_CQM_JVT = 1"
definition X264_CQM_CUSTOM :: int where "X264_CQM_CUSTOM = 2"

abbreviation (input) CQM_4IY :: nat where "CQM_4IY \<equiv> 0"
abbreviation (input) CQM_4PY :: nat where "CQM_4PY \<equiv> 1"
abbreviation (input) CQM_4IC :: nat where "CQM_4IC \<equiv> 2"
abbreviation (input) CQM_4PC :: nat where "CQM_4PC \<equiv> 3"

definition x264_cqm_jvt4i :: "byte list" where
  "x264_cqm_jvt4i =
     [ 6, 13, 20, 28,
      13, 20, 28, 32,
      20, 28, 32, 37,
      28, 32, 37, 42]"

definition x264_cqm_jvt4p :: "byte list" where
  "x264_cqm_jvt4p =
     [10, 14, 20, 24,
      14, 20, 24, 27,
      20, 24, 27, 30,
      24, 27, 30, 34]"

definition x264_cqm_jvt8i :: "byte list" where
  "x264_cqm_jvt8i =
     [ 6, 10, 13, 16, 18, 23, 25, 27,
      10, 11, 16, 18, 23, 25, 27, 29,
      13, 16, 18, 23, 25, 27, 29, 31,
      16, 18, 23, 25, 27, 29, 31, 33,
      18, 23, 25, 27, 29, 31, 33, 36,
      23, 25, 27, 29, 31, 33, 36, 38,
      25, 27, 29, 31, 33, 36, 38, 40,
      27, 29, 31, 33, 36, 38, 40, 42]"

definition x264_cqm_jvt8p :: "byte list" where
  "x264_cqm_jvt8p =
     [ 9, 13, 15, 17, 19, 21, 22, 24,
      13, 13, 17, 19, 21, 22, 24, 25,
      15, 17, 19, 21, 22, 24, 25, 27,
      17, 19, 21, 22, 24, 25, 27, 28,
      19, 21, 22, 24, 25, 27, 28, 30,
      21, 22, 24, 25, 27, 28, 30, 32,
      22, 24, 25, 27, 28, 30, 32, 33,
      24, 25, 27, 28, 30, 32, 33, 35]"

definition x264_cqm_flat16 :: "byte list" where
  "x264_cqm_flat16 = replicate 64 16"

definition x264_cqm_jvt :: "byte list list" where
  "x264_cqm_jvt =
     [x264_cqm_jvt4i, x264_cqm_jvt4p,
      x264_cqm_jvt4i, x264_cqm_jvt4p,
      x264_cqm_jvt8i, x264_cqm_jvt8p]"

text \<open>The scan orders for frames.\<close>

definition x264_zigzag_scan4 :: "nat list" where
  "x264_zigzag_scan4 = [0, 4, 1, 2, 5, 8, 12, 9, 6, 3, 7, 10, 13, 14, 11, 15]"

definition x264_zigzag_scan8 :: "nat list" where
  "x264_zigzag_scan8 =
     [ 0,  8,  1,  2,  9, 16, 24, 17, 10,  3,  4, 11, 18, 25, 32, 40,
      33, 26, 19, 12,  5,  6, 13, 20, 27, 34, 41, 48, 56, 49, 42, 35,
      28, 21, 14,  7, 15, 22, 29, 36, 43, 50, 57, 58, 51, 44, 37, 30,
      23, 31, 38, 45, 52, 59, 60, 53, 46, 39, 47, 54, 61, 62, 55, 63]"

section \<open>Filling in a picture parameter set\<close>

definition XCHG :: "nat \<Rightarrow> nat \<Rightarrow> 'a list \<Rightarrow> 'a list" where
  "XCHG i j buf = buf[i := buf ! j, j := buf ! i]"

definition transpose_row :: "nat \<Rightarrow> nat \<Rightarrow> 'a list \<Rightarrow> 'a list" where
  "transpose_row w i buf = fold (\<lambda>j. XCHG (w * i + j) (w * j + i)) [0..<i] buf"

definition transpose_buf :: "nat \<Rightarrow> 'a list \<Rightarrow> 'a list" where
  "transpose_buf w buf = fold (transpose_row w) [0..<w] buf"

definition list_len :: "nat \<Rightarrow> nat" where
  "list_len idx = (if idx < 4 then 16 else 64)"

text \<open>The loop over the entries of one list: a zero entry selects the default list.\<close>

definition default_if_zero :: "nat \<Rightarrow> byte list \<Rightarrow> byte list" where
  "default_if_zero i l = fold (\<lambda>j l. if l ! j = 0 then x264_cqm_jvt ! i else l) [0..<list_len i] l"

definition transpose_cqm :: "x264_param_t \<Rightarrow> x264_param_t" where
  "transpose_cqm param =
     param\<lparr>cqm_4iy := transpose_buf 4 (cqm_4iy param), cqm_4ic := transpose_buf 4 (cqm_4ic param),
           cqm_4py := transpose_buf 4 (cqm_4py param), cqm_4pc := transpose_buf 4 (cqm_4pc param),
           cqm_8iy := transpose_buf 8 (cqm_8iy param), cqm_8py := transpose_buf 8 (cqm_8py param)\<rparr>"

definition cqm_init :: "x264_param_t \<Rightarrow> byte list list \<Rightarrow> x264_param_t \<times> byte list list" where
  "cqm_init param old =
     (if p_cqm_preset param = X264_CQM_FLAT then (param, replicate 6 x264_cqm_flat16)
      else if p_cqm_preset param = X264_CQM_JVT then (param, x264_cqm_jvt)
      else if p_cqm_preset param = X264_CQM_CUSTOM
      then let param = transpose_cqm param
           in (param, map2 default_if_zero [0, 1, 2, 3, 4, 5]
                [cqm_4iy param, cqm_4py param, cqm_4ic param, cqm_4pc param, cqm_8iy param, cqm_8py param])
      else (param, old))"

definition x264_pps_init :: "int \<Rightarrow> x264_param_t \<Rightarrow> x264_sps_t \<Rightarrow> x264_pps_t \<Rightarrow> x264_param_t \<times> x264_pps_t" where
  "x264_pps_init i_id param sps pps =
     (let (param', lists) = cqm_init param (scaling_list pps)
      in (param',
          pps\<lparr>pps_id := i_id, pps_sps_id := sps_id sps, pps_cabac := p_cabac param,
              b_pic_order := 0, i_num_slice_groups := 1,
              i_num_ref_idx_l0_active := 1, i_num_ref_idx_l1_active := 1,
              b_weighted_pred := 0, b_weighted_bipred := (if p_weighted_bipred param \<noteq> 0 then 2 else 0),
              i_pic_init_qp := (if p_rc_method param = X264_RC_ABR then 26 else p_qp_constant param),
              i_pic_init_qs := 26,
              i_chroma_qp_index_offset := p_chroma_qp_offset param, b_deblocking_filter_control := 1,
              b_constrained_intra_pred := 0, b_redundant_pic_cnt := 0,
              b_transform_8x8_mode := (if p_transform_8x8 param \<noteq> 0 then 1 else 0),
              pps_cqm_preset := p_cqm_preset param, scaling_list := lists\<rparr>))"

section \<open>Writing a picture parameter set\<close>

definition scanned :: "nat \<Rightarrow> byte list \<Rightarrow> byte list" where
  "scanned idx l = map ((!) l) (if idx < 4 then x264_zigzag_scan4 else x264_zigzag_scan8)"

definition def_list :: "x264_pps_t \<Rightarrow> nat \<Rightarrow> byte list" where
  "def_list pps idx =
     (if idx = CQM_4IC then scaling_list pps ! CQM_4IY
      else if idx = CQM_4PC then scaling_list pps ! CQM_4PY
      else x264_cqm_jvt ! idx)"

text \<open>The run of equal values at the end, over the values in scan order.\<close>

fun run_loop :: "byte list \<Rightarrow> nat \<Rightarrow> nat" where
  "run_loop v run = (if run > 1 then if v ! (run - 1) \<noteq> v ! (run - 2) then run else run_loop v (run - 1) else run)"

declare run_loop.simps [simp del]

definition scaling_run :: "byte list \<Rightarrow> nat outcome" where
  "scaling_run v =
     (let len = length v; run = run_loop v len
      in if run < len then bindR (bs_size_se (sint (- (v ! run)))) (\<lambda>size. Inr (if int (len - run) < size then len else run))
         else Inr run)"

definition scaling_deltas :: "byte list \<Rightarrow> nat \<Rightarrow> (bs_t \<Rightarrow> bs_t outcome) list" where
  "scaling_deltas v run =
     map (\<lambda>j. put_se (sint (v ! j - (if j > 0 then v ! (j - 1) else 8)))) [0..<run]
     @ (if run < length v then [put_se (sint (- (v ! run)))] else [])"

definition scaling_list_write :: "x264_pps_t \<Rightarrow> nat \<Rightarrow> bs_t \<Rightarrow> bs_t outcome" where
  "scaling_list_write pps idx s =
     (let len = list_len idx; l = scaling_list pps ! idx; v = scanned idx l
      in if take len l = take len (def_list pps idx) then put_u 1 0 s
         else if take len l = take len (x264_cqm_jvt ! idx) then seqR [put_u 1 1, put_se (- 8)] s
         else bindR (scaling_run v) (\<lambda>run. seqR (put_u 1 1 # scaling_deltas v run) s))"

definition pps_base_statements :: "x264_pps_t \<Rightarrow> (bs_t \<Rightarrow> bs_t outcome) list" where
  "pps_base_statements pps =
     [put_ue (pps_id pps), put_ue (pps_sps_id pps), put_u 1 (pps_cabac pps), put_u 1 (b_pic_order pps),
      put_ue (i_num_slice_groups pps - 1), put_ue (i_num_ref_idx_l0_active pps - 1), put_ue (i_num_ref_idx_l1_active pps - 1),
      put_u 1 (b_weighted_pred pps), put_u 2 (b_weighted_bipred pps),
      put_se (i_pic_init_qp pps - 26), put_se (i_pic_init_qs pps - 26), put_se (i_chroma_qp_index_offset pps),
      put_u 1 (b_deblocking_filter_control pps), put_u 1 (b_constrained_intra_pred pps), put_u 1 (b_redundant_pic_cnt pps)]"

definition matrix_statements :: "x264_pps_t \<Rightarrow> (bs_t \<Rightarrow> bs_t outcome) list" where
  "matrix_statements pps =
     [scaling_list_write pps CQM_4IY, scaling_list_write pps CQM_4IC, put_u 1 0,
      scaling_list_write pps CQM_4PY, scaling_list_write pps CQM_4PC, put_u 1 0]
     @ (if b_transform_8x8_mode pps \<noteq> 0 then [scaling_list_write pps 4, scaling_list_write pps 5] else [])"

definition pps_ext_statements :: "x264_pps_t \<Rightarrow> (bs_t \<Rightarrow> bs_t outcome) list" where
  "pps_ext_statements pps =
     [put_u 1 (b_transform_8x8_mode pps), put_u 1 (if pps_cqm_preset pps \<noteq> X264_CQM_FLAT then 1 else 0)]
     @ (if pps_cqm_preset pps \<noteq> X264_CQM_FLAT then matrix_statements pps else [])
     @ [put_se (i_chroma_qp_index_offset pps)]"

definition pps_has_ext :: "x264_pps_t \<Rightarrow> bool" where
  "pps_has_ext pps \<longleftrightarrow> b_transform_8x8_mode pps \<noteq> 0 \<or> pps_cqm_preset pps \<noteq> X264_CQM_FLAT"

definition x264_pps_write :: "x264_pps_t \<Rightarrow> bs_t \<Rightarrow> bs_t outcome" where
  "x264_pps_write pps s =
     bindR (seqR (pps_base_statements pps @ (if pps_has_ext pps then pps_ext_statements pps else [])) s)
       (\<lambda>s. Inr (bs_rbsp_trailing s))"

section \<open>The syntax of a picture parameter set\<close>

text \<open>
  The scan order, the default matrices in scan order and the scaling list syntax of the standard: a list is
  coded by differences, a value of zero repeats the last one to the end, and a zero at the start
  selects the default.
\<close>

definition zigzag4 :: "nat list" where
  "zigzag4 = [0, 1, 4, 8, 5, 2, 3, 6, 9, 12, 13, 10, 7, 11, 14, 15]"

definition zigzag8 :: "nat list" where
  "zigzag8 =
     [ 0,  1,  8, 16,  9,  2,  3, 10, 17, 24, 32, 25, 18, 11,  4,  5,
      12, 19, 26, 33, 40, 48, 41, 34, 27, 20, 13,  6,  7, 14, 21, 28,
      35, 42, 49, 56, 57, 50, 43, 36, 29, 22, 15, 23, 30, 37, 44, 51,
      58, 59, 52, 45, 38, 31, 39, 46, 53, 60, 61, 54, 47, 55, 62, 63]"

definition Default_4x4_Intra :: "int list" where
  "Default_4x4_Intra = [6, 13, 13, 20, 20, 20, 28, 28, 28, 28, 32, 32, 32, 37, 37, 42]"

definition Default_4x4_Inter :: "int list" where
  "Default_4x4_Inter = [10, 14, 14, 20, 20, 20, 24, 24, 24, 24, 27, 27, 27, 30, 30, 34]"

definition Default_8x8_Intra :: "int list" where
  "Default_8x8_Intra =
     [ 6, 10, 10, 13, 11, 13, 16, 16, 16, 16, 18, 18, 18, 18, 18, 23,
      23, 23, 23, 23, 23, 25, 25, 25, 25, 25, 25, 25, 27, 27, 27, 27,
      27, 27, 27, 27, 29, 29, 29, 29, 29, 29, 29, 31, 31, 31, 31, 31,
      31, 33, 33, 33, 33, 33, 36, 36, 36, 36, 38, 38, 38, 40, 40, 42]"

definition Default_8x8_Inter :: "int list" where
  "Default_8x8_Inter =
     [ 9, 13, 13, 15, 13, 15, 17, 17, 17, 17, 19, 19, 19, 19, 19, 21,
      21, 21, 21, 21, 21, 22, 22, 22, 22, 22, 22, 22, 24, 24, 24, 24,
      24, 24, 24, 24, 25, 25, 25, 25, 25, 25, 25, 27, 27, 27, 27, 27,
      27, 28, 28, 28, 28, 28, 30, 30, 30, 30, 32, 32, 32, 33, 33, 35]"

fun parse_scaling :: "nat \<Rightarrow> int \<Rightarrow> int \<Rightarrow> int list parser" where
  "parse_scaling 0 last_scale next_scale = preturn []"
| "parse_scaling (Suc n) last_scale next_scale =
     (if next_scale = 0 then pbind (parse_scaling n last_scale 0) (\<lambda>vs. preturn (last_scale # vs))
      else pbind read_se (\<lambda>delta.
        let next_scale = (last_scale + delta + 256) mod 256; v = (if next_scale = 0 then last_scale else next_scale)
        in pbind (parse_scaling n v next_scale) (\<lambda>vs. preturn (v # vs))))"

definition parse_scaling_list :: "nat \<Rightarrow> int list \<Rightarrow> int list parser" where
  "parse_scaling_list n def =
     pbind read_se (\<lambda>delta.
       let next_scale = (8 + delta + 256) mod 256
       in if next_scale = 0 then preturn def
          else pbind (parse_scaling (n - 1) next_scale next_scale) (\<lambda>vs. preturn (next_scale # vs)))"

definition parse_list :: "nat \<Rightarrow> int list \<Rightarrow> int list \<Rightarrow> int list parser" where
  "parse_list n fallback def =
     pbind (get_u 1) (\<lambda>present. if present = 0 then preturn fallback else parse_scaling_list n def)"

definition parse_matrix :: "bool \<Rightarrow> int list list parser" where
  "parse_matrix transform_8x8 =
     pbind (parse_list 16 Default_4x4_Intra Default_4x4_Intra) (\<lambda>iy.
     pbind (parse_list 16 iy Default_4x4_Intra) (\<lambda>icb.
     pbind (parse_list 16 icb Default_4x4_Intra) (\<lambda>icr.
     pbind (parse_list 16 Default_4x4_Inter Default_4x4_Inter) (\<lambda>py.
     pbind (parse_list 16 py Default_4x4_Inter) (\<lambda>pcb.
     pbind (parse_list 16 pcb Default_4x4_Inter) (\<lambda>pcr.
     pbind (pwhen transform_8x8
       (pbind (parse_list 64 Default_8x8_Intra Default_8x8_Intra) (\<lambda>i8.
        pbind (parse_list 64 Default_8x8_Inter Default_8x8_Inter) (\<lambda>p8. preturn [i8, p8])))) (\<lambda>big.
       preturn ([iy, icb, icr, py, pcb, pcr] @ (case big of None \<Rightarrow> [] | Some l \<Rightarrow> l)))))))))"

record pps_base =
  pb_ids :: "int \<times> int"
  pb_entropy :: int
  pb_pic_order :: int
  pb_slice_groups :: int
  pb_refs :: "int \<times> int"
  pb_weighted :: "int \<times> int"
  pb_qp :: "int \<times> int \<times> int"
  pb_flags :: "int \<times> int \<times> int"

record pps_ext =
  pe_transform_8x8 :: int
  pe_matrix :: "int list list option"
  pe_second_offset :: int

definition parse_pps_base :: "pps_base parser" where
  "parse_pps_base =
     pbind get_ue (\<lambda>id. pbind get_ue (\<lambda>sid. pbind (get_u 1) (\<lambda>cabac. pbind (get_u 1) (\<lambda>order. pbind get_ue (\<lambda>groups.
     pbind get_ue (\<lambda>l0. pbind get_ue (\<lambda>l1. pbind (get_u 1) (\<lambda>w. pbind (get_u 2) (\<lambda>b. pbind read_se (\<lambda>qp. pbind read_se (\<lambda>qs.
     pbind read_se (\<lambda>c. pbind (get_u 1) (\<lambda>d. pbind (get_u 1) (\<lambda>i. pbind (get_u 1) (\<lambda>r.
       preturn \<lparr>pb_ids = (id, sid), pb_entropy = cabac, pb_pic_order = order, pb_slice_groups = groups, pb_refs = (l0, l1),
                pb_weighted = (w, b), pb_qp = (qp, qs, c), pb_flags = (d, i, r)\<rparr>)))))))))))))))"

definition parse_pps_ext :: "pps_ext parser" where
  "parse_pps_ext =
     pbind (get_u 1) (\<lambda>t. pbind (get_u 1) (\<lambda>m. pbind (pwhen (m \<noteq> 0) (parse_matrix (t \<noteq> 0))) (\<lambda>matrix. pbind read_se (\<lambda>c.
       preturn \<lparr>pe_transform_8x8 = t, pe_matrix = matrix, pe_second_offset = c\<rparr>))))"

text \<open>There is more data when the stop bit, the last one that is set, is not the next bit.\<close>

definition more_rbsp_data :: "bool list \<Rightarrow> bool" where
  "more_rbsp_data bs \<longleftrightarrow> True \<in> set (drop 1 bs)"

definition parse_pps :: "(pps_base \<times> pps_ext option) parser" where
  "parse_pps = pbind parse_pps_base (\<lambda>b bs. pbind (pwhen (more_rbsp_data bs) parse_pps_ext) (\<lambda>e. preturn (b, e)) bs)"

section \<open>Transposition\<close>

lemma length_XCHG [simp]: "length (XCHG i j buf) = length buf"
  by (simp add: XCHG_def)

lemma nth_XCHG: "\<lbrakk>i < length buf; j < length buf; k < length buf\<rbrakk>
    \<Longrightarrow> XCHG i j buf ! k = (if k = i then buf ! j else if k = j then buf ! i else buf ! k)"
  by (auto simp: XCHG_def nth_list_update)

lemma cell_less: "\<lbrakk>i < w; j < w\<rbrakk> \<Longrightarrow> w * i + j < w * (w :: nat)"
proof -
  assume *: "i < w" "j < w"
  then have "w * i + j < w * Suc i" by simp
  also have "\<dots> \<le> w * w" using * by (intro mult_le_mono) simp_all
  finally show ?thesis .
qed

lemma cell_eq: "\<lbrakk>j < w; j' < w\<rbrakk> \<Longrightarrow> w * i + j = w * i' + j' \<longleftrightarrow> i = i' \<and> j = (j' :: nat)"
proof
  assume *: "j < w" "j' < w" "w * i + j = w * i' + j'"
  have "(w * i + j) div w = i" "(w * i' + j') div w = i'" using *(1,2) by simp_all
  then show "i = i' \<and> j = j'" using *(3) by simp
qed simp

text \<open>After the first \<open>n\<close> exchanges of row \<open>i\<close> the cells of the row and of the column up to \<open>n\<close> have changed places.\<close>

lemma transpose_row_prefix:
  assumes "length buf = w * w" "i < w" "n \<le> i"
  shows "length (fold (\<lambda>j. XCHG (w * i + j) (w * j + i)) [0..<n] buf) = w * w \<and>
    (\<forall>a b. a < w \<longrightarrow> b < w \<longrightarrow> fold (\<lambda>j. XCHG (w * i + j) (w * j + i)) [0..<n] buf ! (w * a + b) =
      (if a = i \<and> b < n \<or> b = i \<and> a < n then buf ! (w * b + a) else buf ! (w * a + b)))"
  using assms(3)
proof (induction n)
  case (Suc n)
  define r where "r = fold (\<lambda>j. XCHG (w * i + j) (w * j + i)) [0..<n] buf"
  have n: "n < i" "n < w" using Suc(2) assms(2) by simp_all
  have r: "length r = w * w" "\<And>a b. a < w \<Longrightarrow> b < w \<Longrightarrow>
      r ! (w * a + b) = (if a = i \<and> b < n \<or> b = i \<and> a < n then buf ! (w * b + a) else buf ! (w * a + b))"
    using Suc by (simp_all add: r_def)
  have "XCHG (w * i + n) (w * n + i) r ! (w * a + b) =
      (if a = i \<and> b < Suc n \<or> b = i \<and> a < Suc n then buf ! (w * b + a) else buf ! (w * a + b))" if ab: "a < w" "b < w" for a b
  proof -
    have "XCHG (w * i + n) (w * n + i) r ! (w * a + b) =
        (if a = i \<and> b = n then r ! (w * n + i) else if a = n \<and> b = i then r ! (w * i + n) else r ! (w * a + b))"
      using n ab assms(2) by (simp add: nth_XCHG r(1) cell_less cell_eq)
    then show ?thesis using n ab assms(2) by (auto simp: r(2) less_Suc_eq)
  qed
  then show ?case using r(1) by (simp add: r_def)
qed (use assms in simp)

lemma transpose_prefix:
  assumes "length buf = w * w" "n \<le> w"
  shows "length (fold (transpose_row w) [0..<n] buf) = w * w \<and>
    (\<forall>a b. a < w \<longrightarrow> b < w \<longrightarrow> fold (transpose_row w) [0..<n] buf ! (w * a + b) =
      (if a < n \<and> b < n then buf ! (w * b + a) else buf ! (w * a + b)))"
  using assms(2)
proof (induction n)
  case (Suc n)
  define r where "r = fold (transpose_row w) [0..<n] buf"
  have r: "length r = w * w" "\<And>a b. a < w \<Longrightarrow> b < w \<Longrightarrow>
      r ! (w * a + b) = (if a < n \<and> b < n then buf ! (w * b + a) else buf ! (w * a + b))"
    using Suc by (simp_all add: r_def)
  have "length (transpose_row w n r) = w * w" "\<And>a b. a < w \<Longrightarrow> b < w \<Longrightarrow>
      transpose_row w n r ! (w * a + b) = (if a = n \<and> b < n \<or> b = n \<and> a < n then r ! (w * b + a) else r ! (w * a + b))"
    using transpose_row_prefix[of r w n n] Suc(2) r(1) by (simp_all add: transpose_row_def)
  then have "length (transpose_row w n r) = w * w" "\<And>a b. a < w \<Longrightarrow> b < w \<Longrightarrow>
      transpose_row w n r ! (w * a + b) = (if a < Suc n \<and> b < Suc n then buf ! (w * b + a) else buf ! (w * a + b))"
    by (auto simp: r(2) less_Suc_eq)
  then show ?case by (simp add: r_def)
qed (use assms in simp)

lemma transpose_cell:
  assumes "length buf = w * w" "a < w" "b < w"
  shows "transpose_buf w buf ! (w * a + b) = buf ! (w * b + a)"
  using transpose_prefix[OF assms(1), of w] assms(2,3) by (simp add: transpose_buf_def)

lemma length_transpose: "length buf = w * w \<Longrightarrow> length (transpose_buf w buf) = w * w"
  using transpose_prefix[of buf w w] by (simp add: transpose_buf_def)

text \<open>Scanning the transposed matrix in the transposed order is scanning the matrix in the order of the standard.\<close>

lemma scan_transposed:
  assumes "length buf = w * w" "0 < w" "\<forall>k \<in> set zz. k < w * w" "map (\<lambda>k. w * (k mod w) + k div w) zz' = zz" "\<forall>k \<in> set zz'. k < w * w"
  shows "map ((!) (transpose_buf w buf)) zz = map ((!) buf) zz'"
proof -
  have "transpose_buf w buf ! (w * (k mod w) + k div w) = buf ! k" if "k \<in> set zz'" for k
  proof -
    have "k div w < w" using assms(5) that by (simp add: less_mult_imp_div_less)
    then show ?thesis using transpose_cell[OF assms(1), of "k mod w" "k div w"] assms(2) by simp
  qed
  then show ?thesis unfolding assms(4)[symmetric] by simp
qed

lemma scan_transposed4: "length buf = 16 \<Longrightarrow> map ((!) (transpose_buf 4 buf)) x264_zigzag_scan4 = map ((!) buf) zigzag4"
  by (rule scan_transposed) (simp_all add: x264_zigzag_scan4_def zigzag4_def)

lemma scan_transposed8: "length buf = 64 \<Longrightarrow> map ((!) (transpose_buf 8 buf)) x264_zigzag_scan8 = map ((!) buf) zigzag8"
  by (rule scan_transposed) (simp_all add: x264_zigzag_scan8_def zigzag8_def)

section \<open>Scaling lists\<close>

lemma codes_se_byte: "codes (put_se (sint (x :: byte))) read_se (sint x)"
  by (rule codes_se) (use sint_range_size[of x] in \<open>simp add: word_size abs_less_iff\<close>)

lemma delta_mod: "(uint (p :: byte) + sint (x - p)) mod 256 = uint x"
proof -
  have "uint (word_of_int (uint p + sint (x - p)) :: byte) = uint x" by simp
  then show ?thesis by (simp only: uint_word_of_int) simp
qed

fun deltas :: "byte \<Rightarrow> byte list \<Rightarrow> int list" where
  "deltas p [] = []"
| "deltas p (x # xs) = sint (x - p) # deltas x xs"

lemma deltas_nth: "map (\<lambda>j. sint (xs ! j - (if j > 0 then xs ! (j - 1) else p))) [0..<length xs] = deltas p xs"
proof (induction xs arbitrary: p)
  case (Cons x xs)
  have "map (\<lambda>j. sint ((x # xs) ! j - (if j > 0 then (x # xs) ! (j - 1) else p))) [0..<length (x # xs)]
      = sint (x - p) # map (\<lambda>j. sint (xs ! j - (x # xs) ! j)) [0..<length xs]"
    by (simp add: upt_conv_Cons map_Suc_upt[symmetric] comp_def del: upt_Suc)
  also have "map (\<lambda>j. sint (xs ! j - (x # xs) ! j)) [0..<length xs]
      = map (\<lambda>j. sint (xs ! j - (if j > 0 then xs ! (j - 1) else x))) [0..<length xs]"
    by (intro map_cong refl) (simp add: nth_Cons')
  finally show ?case by (simp add: Cons.IH)
qed simp

lemma parse_scaling_constant: "codes (seqR []) (parse_scaling n l 0) (replicate n l)"
proof (induction n)
  case (Suc n)
  then show ?case using codes_map[OF Suc, of "(#) l"] by (simp del: seqR.simps)
qed (simp add: codes_Nil del: seqR.simps preturn_bs)

lemma uint_pos: "(x :: byte) \<noteq> 0 \<Longrightarrow> uint x \<noteq> 0"
  by (simp add: uint_0_iff)

text \<open>Differences, then a zero for the run of \<open>m\<close> copies of the last value.\<close>

lemma scaling_codes:
  assumes "p \<noteq> 0" "0 \<notin> set xs"
  shows "codes (seqR (map put_se (deltas p xs) @ (if m > 0 then [put_se (sint (- last (p # xs)))] else [])))
    (parse_scaling (length xs + m) (uint p) (uint p)) (map uint (xs @ replicate m (last (p # xs))))"
  using assms
proof (induction xs arbitrary: p)
  case Nil
  show ?case
  proof (cases m)
    case 0
    then show ?thesis by (simp add: codes_Nil del: seqR.simps preturn_bs)
  next
    case (Suc k)
    have z: "(uint p + sint (- p)) mod 256 = 0" using delta_mod[of p 0] by simp
    have "codes (seqR [put_se (sint (- p))]) (pbind read_se (\<lambda>delta.
        let next_scale = (uint p + delta + 256) mod 256; v = (if next_scale = 0 then uint p else next_scale)
        in pbind (parse_scaling k v next_scale) (\<lambda>vs. preturn (v # vs)))) (uint p # replicate k (uint p))"
      by (rule codes_Cons[OF codes_se_byte]) (use codes_map[OF parse_scaling_constant] in \<open>simp add: z Let_def del: seqR.simps\<close>)
    then show ?thesis using Suc uint_pos[OF Nil(1)] by (simp del: seqR.simps)
  qed
next
  case (Cons x xs)
  have x: "x \<noteq> 0" "0 \<notin> set xs" using Cons(3) by auto
  have lst: "last (p # x # xs) = last (x # xs)" by simp
  have "codes (seqR (put_se (sint (x - p)) # map put_se (deltas x xs) @ (if m > 0 then [put_se (sint (- last (x # xs)))] else [])))
     (pbind read_se (\<lambda>delta.
        let next_scale = (uint p + delta + 256) mod 256; v = (if next_scale = 0 then uint p else next_scale)
        in pbind (parse_scaling (length xs + m) v next_scale) (\<lambda>vs. preturn (v # vs))))
     (uint x # map uint (xs @ replicate m (last (x # xs))))"
    by (rule codes_Cons[OF codes_se_byte])
      (use codes_map[OF Cons.IH[OF x], of "(#) (uint x)"] uint_pos[OF x(1)] in
        \<open>simp add: delta_mod Let_def del: seqR.simps last.simps split del: if_split\<close>)
  then show ?case using uint_pos[OF Cons(2)] unfolding lst by (simp del: seqR.simps last.simps)
qed

text \<open>The run found by the loop.\<close>

lemma run_loop_bounds:
  "run_loop v run \<le> run \<and> (0 < run \<longrightarrow> 0 < run_loop v run) \<and> (\<forall>k. run_loop v run \<le> k \<longrightarrow> k < run \<longrightarrow> v ! k = v ! (run_loop v run - 1))"
proof (induction v run rule: run_loop.induct)
  case (1 v run)
  show ?case
  proof (cases "run > 1 \<and> v ! (run - 1) = v ! (run - 2)")
    case True
    then have r: "run_loop v run = run_loop v (run - 1)" by (simp add: run_loop.simps[of v run])
    have IH: "run_loop v (run - 1) \<le> run - 1" "0 < run_loop v (run - 1)"
      "\<And>k. run_loop v (run - 1) \<le> k \<Longrightarrow> k < run - 1 \<Longrightarrow> v ! k = v ! (run_loop v (run - 1) - 1)"
    proof -
      note IH = 1[OF conjunct1[OF True]]
      show "run_loop v (run - 1) \<le> run - 1" using IH True by blast
      have "0 < run - 1" using True by simp
      then show "0 < run_loop v (run - 1)" using IH True by blast
      show "v ! k = v ! (run_loop v (run - 1) - 1)" if "run_loop v (run - 1) \<le> k" "k < run - 1" for k using IH True that by blast
    qed
    have "v ! k = v ! (run_loop v (run - 1) - 1)" if "run_loop v (run - 1) \<le> k" "k < run" for k
    proof (cases "k = run - 1")
      case k: True
      show ?thesis
      proof (cases "run_loop v (run - 1) \<le> run - 2")
        case r2: True
        have "v ! (run - 2) = v ! (run_loop v (run - 1) - 1)" by (rule IH(3)[OF r2]) (use conjunct1[OF True] in linarith)
        then show ?thesis using True k by simp
      next
        case False
        then have "run_loop v (run - 1) = run - 1" using IH(1) by linarith
        then have "run_loop v (run - 1) - 1 = run - 2" by simp
        then show ?thesis using True k by simp
      qed
    next
      case False
      then show ?thesis using IH(3) that by simp
    qed
    then show ?thesis using IH(1,2) True by (simp add: r)
  next
    case False
    then have "run_loop v run = run" by (simp add: run_loop.simps[of v run])
    then show ?thesis by simp
  qed
qed

lemma scaling_run_ok:
  assumes "v \<noteq> []"
  shows "\<exists>run. scaling_run v = Inr run \<and> 0 < run \<and> run \<le> length v \<and> drop run v = replicate (length v - run) (v ! (run - 1))"
proof -
  define run where "run = run_loop v (length v)"
  have b: "run \<le> length v" "0 < run" "\<And>k. run \<le> k \<Longrightarrow> k < length v \<Longrightarrow> v ! k = v ! (run - 1)"
    using run_loop_bounds[of v "length v"] assms by (simp_all add: run_def)
  have d: "drop run v = replicate (length v - run) (v ! (run - 1))"
    by (rule nth_equalityI) (use b in simp_all)
  obtain k where "bs_size_se (sint (- (v ! run))) = Inr k"
    using bs_size_se_length[of "sint (- (v ! run))"] sint_range_size[of "- (v ! run)"] by (auto simp: word_size)
  then have "scaling_run v = Inr run \<or> scaling_run v = Inr (length v)"
    by (simp add: scaling_run_def Let_def flip: run_def)
  then show ?thesis using b d assms by auto
qed

lemma scaling_deltas_codes:
  assumes "0 \<notin> set v" "0 < run" "run \<le> length v" "drop run v = replicate (length v - run) (v ! (run - 1))"
  shows "codes (seqR (scaling_deltas v run)) (parse_scaling_list (length v) def) (map uint v)"
proof -
  obtain x xs where t: "take run v = x # xs" using assms(2,3) by (cases "take run v") auto
  have len: "run = Suc (length xs)" using t assms(3) by (metis length_Cons length_take min.absorb2)
  have "set (take run v) \<subseteq> set v" by (rule set_take_subset)
  then have nz: "x \<noteq> 0" "0 \<notin> set xs" using assms(1) t by auto
  have lst: "last (x # xs) = v ! (run - 1)"
    using t len assms(3) by (metis last_conv_nth length_Cons diff_Suc_1 lessI list.distinct(1) nth_take)
  have tail: "v ! run = last (x # xs)" if "run < length v"
    using assms(4) that by (metis Cons_nth_drop_Suc lst nth_replicate nth_Cons_0 zero_less_diff)
  define m where "m = length v - run"
  have v: "v = x # xs @ replicate m (last (x # xs))"
    using append_take_drop_id[of run v] unfolding t assms(4) lst m_def by simp
  have "map (\<lambda>j. sint (v ! j - (if j > 0 then v ! (j - 1) else 8))) [0..<run] = deltas 8 (x # xs)"
  proof -
    have "map (\<lambda>j. sint (v ! j - (if j > 0 then v ! (j - 1) else 8))) [0..<run]
        = map (\<lambda>j. sint ((x # xs) ! j - (if j > 0 then (x # xs) ! (j - 1) else 8))) [0..<run]"
      by (intro map_cong refl) (auto simp flip: t)
    also have "\<dots> = deltas 8 (x # xs)"
    proof -
      have "length (x # xs) = run" by (simp add: len)
      then show ?thesis using deltas_nth[of "x # xs" 8] by (simp only:)
    qed
    finally show ?thesis .
  qed
  then have "map (\<lambda>j. put_se (sint (v ! j - (if j > 0 then v ! (j - 1) else 8)))) [0..<run] = map put_se (deltas 8 (x # xs))"
    by (metis (no_types, lifting) list.map_comp comp_def map_eq_conv)
  then have w: "scaling_deltas v run = put_se (sint (x - 8)) # map put_se (deltas x xs) @ (if m > 0 then [put_se (sint (- last (x # xs)))] else [])"
    using tail by (simp add: scaling_deltas_def m_def)
  have l: "length v - 1 = length xs + m" using len assms(3) by (simp add: m_def)
  have "(8 + sint (x - 8)) mod 256 = uint x" using delta_mod[of 8 x] by simp
  moreover have "264 + sint (x - 8) = (8 + sint (x - 8)) + 256" by simp
  ultimately have "(264 + sint (x - 8)) mod 256 = uint x" by (simp only: mod_add_self2)
  then show ?thesis
    unfolding w parse_scaling_list_def l
    by (intro codes_Cons[OF codes_se_byte])
      (use codes_map[OF scaling_codes[OF nz, of m], of "(#) (uint x)"] uint_pos[OF nz(1)] v in
        \<open>simp add: Let_def del: seqR.simps last.simps split del: if_split\<close>)
qed

lemma scanned_cong: "take (list_len idx) l = take (list_len idx) l' \<Longrightarrow> scanned idx l = scanned idx l'"
proof -
  assume *: "take (list_len idx) l = take (list_len idx) l'"
  have "l ! k = l' ! k" if "k < list_len idx" for k using * that by (metis nth_take)
  moreover have "\<forall>k \<in> set (if idx < 4 then x264_zigzag_scan4 else x264_zigzag_scan8). k < list_len idx"
    by (simp add: list_len_def x264_zigzag_scan4_def x264_zigzag_scan8_def)
  ultimately show ?thesis by (auto simp: scanned_def)
qed

lemma length_scanned: "length (scanned idx l) = list_len idx"
  by (simp add: scanned_def list_len_def x264_zigzag_scan4_def x264_zigzag_scan8_def)

lemma seqR_bind_codes:
  assumes "m = Inr x" "codes (seqR (f x)) p y"
  shows "codes (\<lambda>s. bindR m (\<lambda>x. seqR (f x) s)) p y"
  using assms by simp

lemma scaling_list_codes:
  assumes "0 \<notin> set (scanned idx (scaling_list pps ! idx))" "n = list_len idx"
    "fallback = map uint (scanned idx (def_list pps idx))" "def = map uint (scanned idx (x264_cqm_jvt ! idx))"
  shows "codes (scaling_list_write pps idx) (parse_list n fallback def) (map uint (scanned idx (scaling_list pps ! idx)))"
proof -
  define l where "l = scaling_list pps ! idx"
  define v where "v = scanned idx l"
  have n: "n = length v" "v \<noteq> []" using assms(2) length_scanned[of idx l] by (auto simp: v_def list_len_def split: if_splits)
  have present: "codes (seqR (put_u 1 1 # fs)) (parse_list n fallback def) y" if "codes (seqR fs) (parse_scaling_list n def) y" for fs y
    unfolding parse_list_def by (rule codes_Cons[OF codes_u_one]) (use that in \<open>simp_all add: flag_def del: seqR.simps\<close>)
  consider (fallback) "take n l = take n (def_list pps idx)" | (def) "take n l \<noteq> take n (def_list pps idx)" "take n l = take n (x264_cqm_jvt ! idx)"
    | (list) "take n l \<noteq> take n (def_list pps idx)" "take n l \<noteq> take n (x264_cqm_jvt ! idx)" by blast
  then show ?thesis
  proof cases
    case fallback
    have "codes (seqR [put_u 1 0]) (parse_list n fallback def) (map uint v)"
      unfolding parse_list_def
      by (rule codes_Cons[OF codes_u_one])
        (use scanned_cong[of idx l "def_list pps idx"] fallback assms(2,3) in \<open>simp_all add: flag_def v_def codes_Nil del: seqR.simps preturn_bs\<close>)
    moreover have "scaling_list_write pps idx = put_u 1 0" using fallback assms(2) by (auto simp: scaling_list_write_def l_def Let_def)
    ultimately show ?thesis by (simp only: codes_single v_def l_def)
  next
    case def
    have "codes (seqR [put_se (- 8)]) (parse_scaling_list n def) (map uint v)"
      unfolding parse_scaling_list_def
      by (rule codes_Cons[OF codes_se])
        (use scanned_cong[of idx l "x264_cqm_jvt ! idx"] def assms(2,4) in \<open>simp_all add: v_def codes_Nil Let_def del: seqR.simps preturn_bs\<close>)
    moreover have "scaling_list_write pps idx = seqR [put_u 1 1, put_se (- 8)]"
      using def assms(2) by (auto simp: scaling_list_write_def l_def Let_def simp del: seqR.simps)
    ultimately show ?thesis using present by (simp only: v_def l_def)
  next
    case list
    obtain run where run: "scaling_run v = Inr run" "0 < run" "run \<le> length v" "drop run v = replicate (length v - run) (v ! (run - 1))"
      using scaling_run_ok[OF n(2)] by blast
    have "scaling_list_write pps idx = seqR (put_u 1 1 # scaling_deltas v run)"
      using list assms(2) run(1) by (auto simp: scaling_list_write_def l_def v_def Let_def simp del: seqR.simps)
    moreover have "codes (seqR (scaling_deltas v run)) (parse_scaling_list n def) (map uint v)"
      unfolding n by (rule scaling_deltas_codes) (use run assms(1) in \<open>simp_all add: v_def l_def\<close>)
    ultimately show ?thesis using present by (simp only: v_def l_def)
  qed
qed

section \<open>The set as a whole\<close>

definition matrix_abs :: "x264_pps_t \<Rightarrow> int list list" where
  "matrix_abs pps =
     (let scan = (\<lambda>idx. map uint (scanned idx (scaling_list pps ! idx)))
      in [scan CQM_4IY, scan CQM_4IC, scan CQM_4IC, scan CQM_4PY, scan CQM_4PC, scan CQM_4PC]
         @ (if b_transform_8x8_mode pps \<noteq> 0 then [scan 4, scan 5] else []))"

definition pps_base_abs :: "x264_pps_t \<Rightarrow> pps_base" where
  "pps_base_abs pps =
     \<lparr>pb_ids = (pps_id pps, pps_sps_id pps), pb_entropy = pps_cabac pps, pb_pic_order = b_pic_order pps,
      pb_slice_groups = i_num_slice_groups pps - 1, pb_refs = (i_num_ref_idx_l0_active pps - 1, i_num_ref_idx_l1_active pps - 1),
      pb_weighted = (b_weighted_pred pps, b_weighted_bipred pps),
      pb_qp = (i_pic_init_qp pps - 26, i_pic_init_qs pps - 26, i_chroma_qp_index_offset pps),
      pb_flags = (b_deblocking_filter_control pps, b_constrained_intra_pred pps, b_redundant_pic_cnt pps)\<rparr>"

definition pps_ext_abs :: "x264_pps_t \<Rightarrow> pps_ext" where
  "pps_ext_abs pps =
     \<lparr>pe_transform_8x8 = b_transform_8x8_mode pps,
      pe_matrix = (if pps_cqm_preset pps \<noteq> X264_CQM_FLAT then Some (matrix_abs pps) else None),
      pe_second_offset = i_chroma_qp_index_offset pps\<rparr>"

definition pps_ok :: "x264_pps_t \<Rightarrow> bool" where
  "pps_ok pps \<longleftrightarrow>
     list_all ue_ok [pps_id pps, pps_sps_id pps, i_num_slice_groups pps - 1, i_num_ref_idx_l0_active pps - 1, i_num_ref_idx_l1_active pps - 1]
   \<and> list_all flag [pps_cabac pps, b_pic_order pps, b_weighted_pred pps, b_deblocking_filter_control pps,
       b_constrained_intra_pred pps, b_redundant_pic_cnt pps, b_transform_8x8_mode pps]
   \<and> u_ok 2 (b_weighted_bipred pps)
   \<and> list_all (\<lambda>x. \<bar>x\<bar> < 2 ^ 15) [i_pic_init_qp pps - 26, i_pic_init_qs pps - 26, i_chroma_qp_index_offset pps]
   \<and> (\<forall>idx < 6. 0 \<notin> set (scanned idx (scaling_list pps ! idx)))"

lemma default_lists:
  "map uint (scanned 0 (x264_cqm_jvt ! 0)) = Default_4x4_Intra" "map uint (scanned 2 (x264_cqm_jvt ! 2)) = Default_4x4_Intra"
  "map uint (scanned 1 (x264_cqm_jvt ! 1)) = Default_4x4_Inter" "map uint (scanned 3 (x264_cqm_jvt ! 3)) = Default_4x4_Inter"
  "map uint (scanned 4 (x264_cqm_jvt ! 4)) = Default_8x8_Intra" "map uint (scanned 5 (x264_cqm_jvt ! 5)) = Default_8x8_Inter"
  by (simp_all add: x264_cqm_jvt_def scanned_def x264_zigzag_scan4_def x264_zigzag_scan8_def Default_4x4_Intra_def Default_4x4_Inter_def
      Default_8x8_Intra_def Default_8x8_Inter_def x264_cqm_jvt4i_def x264_cqm_jvt4p_def x264_cqm_jvt8i_def x264_cqm_jvt8p_def)

lemma pps_base_codes:
  assumes "pps_ok pps"
  shows "codes (seqR (pps_base_statements pps)) parse_pps_base (pps_base_abs pps)"
proof -
  note ok = assms[unfolded pps_ok_def list.pred_inject]
  have se: "\<bar>i_pic_init_qp pps - 26\<bar> < 2 ^ 15" "\<bar>i_pic_init_qs pps - 26\<bar> < 2 ^ 15" "\<bar>i_chroma_qp_index_offset pps\<bar> < 2 ^ 15"
    using ok by blast+
  show ?thesis
    unfolding pps_base_statements_def parse_pps_base_def
    by (rule code_steps se code_calls | (simp add: ok pps_base_abs_def; fail))+
qed

lemma codes_repeat_flag:
  "codes (put_u 1 0) (parse_list n fallback def) fallback"
proof -
  have "codes (seqR [put_u 1 0]) (parse_list n fallback def) fallback"
    unfolding parse_list_def by (rule codes_Cons[OF codes_u_one]) (simp_all add: flag_def codes_Nil del: seqR.simps preturn_bs)
  then show ?thesis by (simp only: codes_single)
qed

lemma matrix_codes:
  assumes "pps_ok pps"
  shows "codes (seqR (matrix_statements pps)) (parse_matrix (b_transform_8x8_mode pps \<noteq> 0)) (matrix_abs pps)"
proof -
  have nz: "0 \<notin> set (scanned idx (scaling_list pps ! idx))" if "idx < 6" for idx using assms that by (simp add: pps_ok_def)
  have same: "scanned 2 l = scanned 0 l" "scanned 3 l = scanned 1 l" for l by (simp_all add: scanned_def)
  have lists:
    "codes (scaling_list_write pps 0) (parse_list 16 Default_4x4_Intra Default_4x4_Intra) (map uint (scanned 0 (scaling_list pps ! 0)))"
    "codes (scaling_list_write pps 2) (parse_list 16 (map uint (scanned 0 (scaling_list pps ! 0))) Default_4x4_Intra) (map uint (scanned 2 (scaling_list pps ! 2)))"
    "codes (scaling_list_write pps 1) (parse_list 16 Default_4x4_Inter Default_4x4_Inter) (map uint (scanned 1 (scaling_list pps ! 1)))"
    "codes (scaling_list_write pps 3) (parse_list 16 (map uint (scanned 1 (scaling_list pps ! 1))) Default_4x4_Inter) (map uint (scanned 3 (scaling_list pps ! 3)))"
    "codes (scaling_list_write pps 4) (parse_list 64 Default_8x8_Intra Default_8x8_Intra) (map uint (scanned 4 (scaling_list pps ! 4)))"
    "codes (scaling_list_write pps 5) (parse_list 64 Default_8x8_Inter Default_8x8_Inter) (map uint (scanned 5 (scaling_list pps ! 5)))"
    by (rule scaling_list_codes; simp add: nz nz[of 2, unfolded same] nz[of 3, unfolded same] list_len_def def_list_def default_lists default_lists(2,4)[unfolded same] same del: One_nat_def)+
  show ?thesis
    unfolding matrix_statements_def parse_matrix_def append.simps
    by (rule codes_when_last codes_preturn codes_Cons[OF lists(1)] codes_Cons[OF lists(2)] codes_Cons[OF lists(3)] codes_Cons[OF lists(4)]
        codes_Cons[OF lists(5)] codes_Cons[OF lists(6)] codes_Cons[OF codes_repeat_flag] | (simp add: matrix_abs_def Let_def; fail))+
qed

lemma pps_ext_codes:
  assumes "pps_ok pps"
  shows "codes (seqR (pps_ext_statements pps)) parse_pps_ext (pps_ext_abs pps)"
proof -
  note ok = assms[unfolded pps_ok_def list.pred_inject]
  define m where "m = (if pps_cqm_preset pps \<noteq> X264_CQM_FLAT then 1 else 0 :: int)"
  have m: "flag m" by (simp add: m_def flag_def)
  have w: "pps_ext_statements pps = [put_u 1 (b_transform_8x8_mode pps), put_u 1 m]
      @ (if m \<noteq> 0 then matrix_statements pps else []) @ [put_se (i_chroma_qp_index_offset pps)]"
    by (simp add: pps_ext_statements_def m_def)
  have a: "pps_ext_abs pps = \<lparr>pe_transform_8x8 = b_transform_8x8_mode pps,
      pe_matrix = (if m \<noteq> 0 then Some (matrix_abs pps) else None), pe_second_offset = i_chroma_qp_index_offset pps\<rparr>"
    by (simp add: pps_ext_abs_def m_def)
  have se: "\<bar>i_chroma_qp_index_offset pps\<bar> < 2 ^ 15" using ok by blast
  show ?thesis
    unfolding w a parse_pps_ext_def append.simps
    by (rule code_steps se code_calls matrix_codes[OF assms] | (simp add: ok m; fail))+
qed

text \<open>The extension is never empty, so that a decoder knows whether it is there.\<close>

lemma pps_codes_stream:
  assumes "pps_ok pps"
  shows "\<exists>s k. x264_pps_write pps (bs_init 0 mem) = Inr s \<and> k < 8 \<and> parse_pps (bytes_bits (bs_out s))
    = Some ((pps_base_abs pps, if pps_has_ext pps then Some (pps_ext_abs pps) else None), True # replicate k False)"
proof -
  obtain b where b: "writes (seqR (pps_base_statements pps)) b" "\<And>rest. parse_pps_base (b @ rest) = Some (pps_base_abs pps, rest)"
    using pps_base_codes[OF assms] by (auto simp: codes_def)
  obtain e where e: "writes (seqR (pps_ext_statements pps)) e" "\<And>rest. parse_pps_ext (e @ rest) = Some (pps_ext_abs pps, rest)"
    using pps_ext_codes[OF assms] by (auto simp: codes_def)
  have "parse_pps_ext [] = None" by (simp add: parse_pps_ext_def pbind_def get_u_def read_u_def)
  then have ne: "e \<noteq> []" using e(2)[of "[]"] by auto
  define bs where "bs = b @ (if pps_has_ext pps then e else [])"
  have "writes (seqR (pps_base_statements pps @ (if pps_has_ext pps then pps_ext_statements pps else []))) bs"
    unfolding bs_def by (rule writes_append[OF b(1)]) (simp add: e(1) writes_Nil del: seqR.simps)
  then obtain s k where s: "seqR (pps_base_statements pps @ (if pps_has_ext pps then pps_ext_statements pps else [])) (bs_init 0 mem) = Inr s"
      "k < 8" "bytes_bits (bs_out (bs_rbsp_trailing s)) = bs @ True # replicate k False"
    using writes_stream[of _ bs mem] by blast
  have more: "more_rbsp_data (e @ True # replicate k False)" "\<not> more_rbsp_data (True # replicate k False)"
    using ne by (cases e; simp add: more_rbsp_data_def)+
  have "parse_pps (bs @ True # replicate k False)
      = Some ((pps_base_abs pps, if pps_has_ext pps then Some (pps_ext_abs pps) else None), True # replicate k False)"
    by (cases "pps_has_ext pps") (simp_all add: parse_pps_def bs_def b(2) e(2) more pwhen_def)
  then show ?thesis using s by (auto simp: x264_pps_write_def)
qed

section \<open>Parameters\<close>

definition pps_zero :: x264_pps_t where
  "pps_zero =
     \<lparr>pps_id = 0, pps_sps_id = 0, pps_cabac = 0, b_pic_order = 0, i_num_slice_groups = 0, i_num_ref_idx_l0_active = 0,
      i_num_ref_idx_l1_active = 0, b_weighted_pred = 0, b_weighted_bipred = 0, i_pic_init_qp = 0, i_pic_init_qs = 0,
      i_chroma_qp_index_offset = 0, b_deblocking_filter_control = 0, b_constrained_intra_pred = 0, b_redundant_pic_cnt = 0,
      b_transform_8x8_mode = 0, pps_cqm_preset = 0, scaling_list = []\<rparr>"

definition pps_param_ok :: "x264_param_t \<Rightarrow> bool" where
  "pps_param_ok param \<longleftrightarrow>
     flag (p_cabac param) \<and> p_cqm_preset param \<in> {X264_CQM_FLAT, X264_CQM_JVT, X264_CQM_CUSTOM}
   \<and> \<bar>p_qp_constant param\<bar> \<le> 51 \<and> \<bar>p_chroma_qp_offset param\<bar> \<le> 12
   \<and> length (cqm_4iy param) = 16 \<and> length (cqm_4ic param) = 16 \<and> length (cqm_4py param) = 16 \<and> length (cqm_4pc param) = 16
   \<and> length (cqm_8iy param) = 64 \<and> length (cqm_8py param) = 64"

text \<open>The matrix that a decoder is meant to use, in the scan order of the standard.\<close>

definition wanted :: "x264_param_t \<Rightarrow> int list \<Rightarrow> nat list \<Rightarrow> byte list \<Rightarrow> int list" where
  "wanted param def zigzag m =
     (if p_cqm_preset param = X264_CQM_JVT \<or> 0 \<in> set m then def else map (\<lambda>k. uint (m ! k)) zigzag)"

definition wanted_matrix :: "x264_param_t \<Rightarrow> int list list" where
  "wanted_matrix param =
     [wanted param Default_4x4_Intra zigzag4 (cqm_4iy param), wanted param Default_4x4_Intra zigzag4 (cqm_4ic param),
      wanted param Default_4x4_Intra zigzag4 (cqm_4ic param), wanted param Default_4x4_Inter zigzag4 (cqm_4py param),
      wanted param Default_4x4_Inter zigzag4 (cqm_4pc param), wanted param Default_4x4_Inter zigzag4 (cqm_4pc param)]
     @ (if p_transform_8x8 param \<noteq> 0
        then [wanted param Default_8x8_Intra zigzag8 (cqm_8iy param), wanted param Default_8x8_Inter zigzag8 (cqm_8py param)] else [])"

lemma default_if_zero_eq:
  assumes "0 \<notin> set (take (list_len i) (x264_cqm_jvt ! i))" "list_len i \<le> length (x264_cqm_jvt ! i)" "length l = list_len i"
  shows "default_if_zero i l = (if 0 \<in> set l then x264_cqm_jvt ! i else l)"
proof -
  define d where "d = x264_cqm_jvt ! i"
  have d: "d ! j \<noteq> 0" if "j < list_len i" for j
    using assms(1,2) that in_set_conv_nth[of 0 "take (list_len i) d"] by (auto simp: d_def)
  have "fold (\<lambda>j l. if l ! j = 0 then d else l) [0..<n] l = (if 0 \<in> set (take n l) then d else l)" if "n \<le> list_len i" for n
    using that
  proof (induction n)
    case (Suc n)
    then show ?case using d[of n] assms(3) by (auto simp: take_Suc_conv_app_nth)
  qed simp
  from this[of "list_len i", unfolded d_def] show ?thesis by (simp only: default_if_zero_def assms(3)[symmetric] take_all order_refl simp_thms)
qed

lemma jvt_lists: "0 \<notin> set (take (list_len i) (x264_cqm_jvt ! i))" "list_len i \<le> length (x264_cqm_jvt ! i)" if "i < 6"
proof -
  have "i \<in> {0, 1, 2, 3, 4, 5}" using that by auto
  then show "0 \<notin> set (take (list_len i) (x264_cqm_jvt ! i))" "list_len i \<le> length (x264_cqm_jvt ! i)"
    by (auto simp: list_len_def x264_cqm_jvt_def x264_cqm_jvt4i_def x264_cqm_jvt4p_def x264_cqm_jvt8i_def x264_cqm_jvt8p_def)
qed

lemma set_transpose:
  assumes "length buf = w * w" "0 < w"
  shows "set (transpose_buf w buf) = set buf"
proof -
  have cells: "set l = {l ! (w * a + b) | a b. a < w \<and> b < w}" if "length l = w * w" for l :: "'a list"
  proof -
    have "\<exists>a b. k = w * a + b \<and> a < w \<and> b < w" if "k < w * w" for k
      using that assms(2) by (intro exI[of _ "k div w"] exI[of _ "k mod w"]) (simp add: less_mult_imp_div_less)
    then show ?thesis using that cell_less[of _ w] by (fastforce simp: set_conv_nth)
  qed
  show ?thesis
    unfolding cells[OF assms(1)] cells[OF length_transpose[OF assms(1)]] using transpose_cell[OF assms(1)] by auto metis+
qed

lemma custom_list:
  assumes "p_cqm_preset param = X264_CQM_CUSTOM" "i < 6" "length m = list_len i" "list_len i = w * w" "0 < w"
    "map ((!) (transpose_buf w m)) (if i < 4 then x264_zigzag_scan4 else x264_zigzag_scan8) = map ((!) m) zigzag"
    "map uint (scanned i (x264_cqm_jvt ! i)) = def"
  shows "map uint (scanned i (default_if_zero i (transpose_buf w m))) = wanted param def zigzag m"
proof -
  have len: "length (transpose_buf w m) = list_len i" using length_transpose[of m w] assms(3,4) by simp
  have "0 \<in> set (transpose_buf w m) \<longleftrightarrow> 0 \<in> set m" using set_transpose[of m w] assms(3-5) by simp
  then show ?thesis
    unfolding default_if_zero_eq[OF jvt_lists[OF assms(2)] len] wanted_def
    using assms(1,6,7) by (auto simp: scanned_def X264_CQM_CUSTOM_def X264_CQM_JVT_def map_map[symmetric] simp del: map_map) (simp add: comp_def)
qed

lemma pps_init_matrix:
  assumes "pps_param_ok param" "x264_pps_init i_id param sps pps0 = (param', pps)" "p_cqm_preset param \<noteq> X264_CQM_FLAT"
  shows "matrix_abs pps = wanted_matrix param"
proof -
  note P = assms(1)[unfolded pps_param_ok_def]
  have pps: "scaling_list pps = snd (cqm_init param (scaling_list pps0))" "b_transform_8x8_mode pps = (if p_transform_8x8 param \<noteq> 0 then 1 else 0)"
    using assms(2) by (auto simp: x264_pps_init_def split: prod.splits)
  have same: "scanned 2 l = scanned 0 l" "scanned 3 l = scanned 1 l" for l by (simp_all add: scanned_def)
  consider (jvt) "p_cqm_preset param = X264_CQM_JVT" | (custom) "p_cqm_preset param = X264_CQM_CUSTOM" using P assms(3) by auto
  then show ?thesis
  proof cases
    case jvt
    then have "scaling_list pps = x264_cqm_jvt" using pps(1) by (simp add: cqm_init_def X264_CQM_JVT_def X264_CQM_FLAT_def)
    then show ?thesis using jvt pps(2) by (simp add: matrix_abs_def wanted_matrix_def wanted_def default_lists Let_def del: One_nat_def)
  next
    case custom
    have "scaling_list pps = [default_if_zero 0 (transpose_buf 4 (cqm_4iy param)), default_if_zero 1 (transpose_buf 4 (cqm_4py param)),
        default_if_zero 2 (transpose_buf 4 (cqm_4ic param)), default_if_zero 3 (transpose_buf 4 (cqm_4pc param)),
        default_if_zero 4 (transpose_buf 8 (cqm_8iy param)), default_if_zero 5 (transpose_buf 8 (cqm_8py param))]"
      using pps(1) custom
      by (simp add: cqm_init_def X264_CQM_CUSTOM_def X264_CQM_JVT_def X264_CQM_FLAT_def transpose_cqm_def Let_def)
    moreover note lists = custom_list[OF custom, of 0 "cqm_4iy param" 4 zigzag4] custom_list[OF custom, of 1 "cqm_4py param" 4 zigzag4]
      custom_list[OF custom, of 2 "cqm_4ic param" 4 zigzag4] custom_list[OF custom, of 3 "cqm_4pc param" 4 zigzag4]
      custom_list[OF custom, of 4 "cqm_8iy param" 8 zigzag8] custom_list[OF custom, of 5 "cqm_8py param" 8 zigzag8]
    ultimately show ?thesis
      using P pps(2) by (simp add: matrix_abs_def wanted_matrix_def Let_def default_lists scan_transposed4 scan_transposed8 list_len_def del: One_nat_def)
  qed
qed

lemma scanned_nonzero:
  assumes "0 \<notin> set (take (list_len idx) l)" "list_len idx \<le> length l"
  shows "0 \<notin> set (scanned idx l)"
proof -
  have "l ! k \<noteq> 0" if "k < list_len idx" for k
    using assms that in_set_conv_nth[of 0 "take (list_len idx) l"] by auto
  moreover have "\<forall>k \<in> set (if idx < 4 then x264_zigzag_scan4 else x264_zigzag_scan8). k < list_len idx"
    by (simp add: list_len_def x264_zigzag_scan4_def x264_zigzag_scan8_def)
  ultimately show ?thesis by (auto simp: scanned_def)
qed

lemma default_if_zero_nonzero:
  assumes "i < 6" "length l = list_len i"
  shows "0 \<notin> set (scanned i (default_if_zero i l))"
proof (rule scanned_nonzero)
  note jvt = jvt_lists[OF assms(1)]
  show "0 \<notin> set (take (list_len i) (default_if_zero i l))" "list_len i \<le> length (default_if_zero i l)"
    using jvt assms(2) by (auto simp: default_if_zero_eq[OF jvt assms(2)])
qed

lemma cqm_init_nonzero:
  assumes "pps_param_ok param" "idx < 6"
  shows "0 \<notin> set (scanned idx (snd (cqm_init param old) ! idx))"
proof -
  note P = assms(1)[unfolded pps_param_ok_def]
  consider (flat) "p_cqm_preset param = X264_CQM_FLAT" | (jvt) "p_cqm_preset param = X264_CQM_JVT"
    | (custom) "p_cqm_preset param = X264_CQM_CUSTOM" using P by auto
  then show ?thesis
  proof cases
    case flat
    have "0 \<notin> set (scanned idx x264_cqm_flat16)"
      by (rule scanned_nonzero) (simp_all add: x264_cqm_flat16_def list_len_def)
    then show ?thesis using flat assms(2) by (simp add: cqm_init_def)
  next
    case jvt
    then show ?thesis using scanned_nonzero[OF jvt_lists[OF assms(2)]] by (simp add: cqm_init_def X264_CQM_JVT_def X264_CQM_FLAT_def)
  next
    case custom
    have len: "length (transpose_buf 4 m) = 16" if "length m = 16" for m :: "byte list" using length_transpose[of m 4] that by simp
    have len8: "length (transpose_buf 8 m) = 64" if "length m = 64" for m :: "byte list" using length_transpose[of m 8] that by simp
    have "idx \<in> {0, 1, 2, 3, 4, 5}" using assms(2) by auto
    then show ?thesis
      using custom P
      by (auto simp: cqm_init_def X264_CQM_CUSTOM_def X264_CQM_JVT_def X264_CQM_FLAT_def transpose_cqm_def Let_def nth_Cons'
          default_if_zero_nonzero list_len_def len len8 simp del: One_nat_def)
  qed
qed

lemma pps_init_ok:
  assumes "pps_param_ok param" "x264_pps_init i_id param sps pps0 = (param', pps)" "ue_ok i_id" "ue_ok (sps_id sps)"
  shows "pps_ok pps"
proof -
  note P = assms(1)[unfolded pps_param_ok_def]
  obtain lists where l: "cqm_init param (scaling_list pps0) = (param', lists)"
      and pps: "pps = snd (x264_pps_init i_id param sps pps0)" "scaling_list pps = lists"
    using assms(2) by (auto simp: x264_pps_init_def split: prod.splits)
  have "\<forall>idx < 6. 0 \<notin> set (scanned idx (scaling_list pps ! idx))" using cqm_init_nonzero[OF assms(1), of _ "scaling_list pps0"] l pps(2) by simp
  then show ?thesis
    using P assms(3,4) unfolding pps_ok_def list.pred_inject pps(1)
    by (simp add: x264_pps_init_def l small_ok flag_def u_ok_def abs_le_iff abs_less_iff)
qed

text \<open>
  C33. Picture parameter sets. For valid parameters the set that \<^verbatim>\<open>x264_pps_init\<close> fills in is written by
  \<^verbatim>\<open>x264_pps_write\<close>, and a decoder that parses the bytes finds the identifiers, the coding tools, the
  quantiser and chroma offsets of the parameters; the extension for the 8x8 transform and quantisation
  matrices is found exactly when it was written, and the matrices it reconstructs, through the
  differences, the runs, the fall-back rules and the transposed scans, are those of the parameters: the
  default ones, or the custom ones, a custom one with a zero entry replaced by the default.
\<close>

theorem pps_roundtrip:
  assumes "pps_param_ok param" "ue_ok i_id" "ue_ok (sps_id sps)" "x264_pps_init i_id param sps pps0 = (param', pps)"
  shows "\<exists>s k. x264_pps_write pps (bs_init 0 mem) = Inr s \<and> k < 8
    \<and> parse_pps (bytes_bits (bs_out s)) =
      Some ((\<lparr>pb_ids = (i_id, sps_id sps), pb_entropy = p_cabac param, pb_pic_order = 0, pb_slice_groups = 0, pb_refs = (0, 0),
              pb_weighted = (0, if p_weighted_bipred param \<noteq> 0 then 2 else 0),
              pb_qp = ((if p_rc_method param = X264_RC_ABR then 26 else p_qp_constant param) - 26, 0, p_chroma_qp_offset param),
              pb_flags = (1, 0, 0)\<rparr>,
             if p_transform_8x8 param \<noteq> 0 \<or> p_cqm_preset param \<noteq> X264_CQM_FLAT
             then Some \<lparr>pe_transform_8x8 = (if p_transform_8x8 param \<noteq> 0 then 1 else 0),
                        pe_matrix = (if p_cqm_preset param \<noteq> X264_CQM_FLAT then Some (wanted_matrix param) else None),
                        pe_second_offset = p_chroma_qp_offset param\<rparr>
             else None), True # replicate k False)"
proof -
  obtain lists where l: "cqm_init param (scaling_list pps0) = (param', lists)" and pps: "pps = snd (x264_pps_init i_id param sps pps0)"
    using assms(4) by (auto simp: x264_pps_init_def split: prod.splits)
  have base: "pps_base_abs pps =
      \<lparr>pb_ids = (i_id, sps_id sps), pb_entropy = p_cabac param, pb_pic_order = 0, pb_slice_groups = 0, pb_refs = (0, 0),
       pb_weighted = (0, if p_weighted_bipred param \<noteq> 0 then 2 else 0),
       pb_qp = ((if p_rc_method param = X264_RC_ABR then 26 else p_qp_constant param) - 26, 0, p_chroma_qp_offset param),
       pb_flags = (1, 0, 0)\<rparr>"
    unfolding pps by (simp add: x264_pps_init_def l pps_base_abs_def)
  have fields: "b_transform_8x8_mode pps = (if p_transform_8x8 param \<noteq> 0 then 1 else 0)" "pps_cqm_preset pps = p_cqm_preset param"
    "i_chroma_qp_index_offset pps = p_chroma_qp_offset param"
    unfolding pps by (simp_all add: x264_pps_init_def l)
  have ext: "pps_has_ext pps \<longleftrightarrow> p_transform_8x8 param \<noteq> 0 \<or> p_cqm_preset param \<noteq> X264_CQM_FLAT"
    by (simp add: pps_has_ext_def fields)
  have e: "pps_ext_abs pps = \<lparr>pe_transform_8x8 = (if p_transform_8x8 param \<noteq> 0 then 1 else 0),
      pe_matrix = (if p_cqm_preset param \<noteq> X264_CQM_FLAT then Some (wanted_matrix param) else None),
      pe_second_offset = p_chroma_qp_offset param\<rparr>"
    using pps_init_matrix[OF assms(1,4)] by (simp add: pps_ext_abs_def fields)
  show ?thesis
    using pps_codes_stream[OF pps_init_ok[OF assms(1,4,2,3)], of mem] unfolding base ext e .
qed

theorem pps_roundtrip_witness:
  "let param = sample_param\<lparr>p_cqm_preset := X264_CQM_CUSTOM, cqm_4iy := [1, 2, 3, 4, 5, 6, 7, 8, 9, 10, 11, 12, 13, 14, 15, 16]\<rparr>
   in \<exists>s e b r. x264_pps_write (snd (x264_pps_init 3 param sps_zero pps_zero)) (bs_init 0 0) = Inr s
     \<and> parse_pps (bytes_bits (bs_out s)) = Some ((b, Some e), r)
     \<and> pb_ids b = (3, 0) \<and> hd (the (pe_matrix e)) = [1, 2, 5, 9, 6, 3, 4, 7, 10, 13, 14, 11, 8, 12, 15, 16]"
proof -
  define param where "param = sample_param\<lparr>p_cqm_preset := X264_CQM_CUSTOM, cqm_4iy := [1, 2, 3, 4, 5, 6, 7, 8, 9, 10, 11, 12, 13, 14, 15, 16]\<rparr>"
  have ok: "pps_param_ok param" by (simp add: pps_param_ok_def param_def sample_param_def flag_def X264_CQM_CUSTOM_def)
  have id: "ue_ok 3" "ue_ok (sps_id sps_zero)" by (simp_all add: ue_ok_def sps_zero_def)
  have "hd (wanted_matrix param) = [1, 2, 5, 9, 6, 3, 4, 7, 10, 13, 14, 11, 8, 12, 15, 16]"
    by (simp add: wanted_matrix_def wanted_def param_def X264_CQM_CUSTOM_def X264_CQM_JVT_def zigzag4_def)
  moreover have "p_cqm_preset param \<noteq> X264_CQM_FLAT" by (simp add: param_def X264_CQM_CUSTOM_def X264_CQM_FLAT_def)
  moreover have "x264_pps_init 3 param sps_zero pps_zero
      = (fst (x264_pps_init 3 param sps_zero pps_zero), snd (x264_pps_init 3 param sps_zero pps_zero))" by simp
  ultimately show ?thesis
    using pps_roundtrip[OF ok id, of pps_zero _ _ 0] unfolding param_def[symmetric] Let_def by (fastforce simp: sps_zero_def)
qed

end
