(* ===== verification/X264_Sei.thy ===== *)
theory X264_Sei
  imports X264_Set
begin

text \<open>
  The message that carries the version and the options of the encoder
  (\<^verbatim>\<open>x264_sei_version_write\<close> in \<^verbatim>\<open>apps/x264/src/encoder/set.c\<close>). The text is an argument: it is composed from the
  parameters and from constants that the build generates.
\<close>

definition sei_uuid :: "int list" where
  "sei_uuid =
     [0xdc, 0x45, 0xe9, 0xbd, 0xe6, 0xd9, 0x48, 0xb7,
      0x96, 0x2c, 0xd8, 0x20, 0xd9, 0x23, 0xee, 0xef]"

text \<open>The payload size: a byte 255 for every 255, then the rest.\<close>

fun sei_size_write :: "nat \<Rightarrow> (bs_t \<Rightarrow> bs_t outcome) list" where
  "sei_size_write n = (if 255 \<le> n then put_u 8 255 # sei_size_write (n - 255) else [put_u 8 (int n)])"

declare sei_size_write.simps [simp del]

text \<open>The characters of the string without its terminating zero, which is written too.\<close>

definition sei_statements :: "byte list \<Rightarrow> (bs_t \<Rightarrow> bs_t outcome) list" where
  "sei_statements version =
     put_u 8 0x5 # sei_size_write (length version + 1 + 16)
     @ map (put_u 8) sei_uuid @ map (put_u 8) (map uint (version @ [0]))"

definition x264_sei_version_write :: "byte list \<Rightarrow> bs_t \<Rightarrow> bs_t outcome" where
  "x264_sei_version_write version s = bindR (seqR (sei_statements version) s) (\<lambda>s. Inr (bs_rbsp_trailing s))"

text \<open>A decoder of the standard: the type, the size, and as many bytes as the size says.\<close>

fun parse_ff :: "nat \<Rightarrow> int parser" where
  "parse_ff 0 = (\<lambda>bs. None)"
| "parse_ff (Suc n) = pbind (get_u 8) (\<lambda>b. if b = 255 then pbind (parse_ff n) (\<lambda>r. preturn (255 + r)) else preturn b)"

definition parse_sei :: "nat \<Rightarrow> (int \<times> int list) parser" where
  "parse_sei n =
     pbind (parse_ff n) (\<lambda>t. pbind (parse_ff n) (\<lambda>size. pbind (prepeat (nat size) (get_u 8)) (\<lambda>payload. preturn (t, payload))))"

lemma parse_ff_codes: "n < 255 * k \<Longrightarrow> codes (seqR (sei_size_write n)) (parse_ff k) (int n)"
proof (induction n arbitrary: k rule: sei_size_write.induct)
  case (1 n)
  obtain m where k: "k = Suc m" using 1(2) by (cases k) auto
  show ?case
  proof (cases "255 \<le> n")
    case True
    have IH: "codes (seqR (sei_size_write (n - 255))) (parse_ff m) (int (n - 255))" by (rule 1(1)) (use 1(2) k True in simp_all)
    have "codes (seqR (put_u 8 255 # sei_size_write (n - 255))) (parse_ff k) (255 + int (n - 255))"
      unfolding k parse_ff.simps
      by (rule codes_Cons[OF codes_u_numeral]) (use codes_map[OF IH, of "(+) 255"] in \<open>simp_all add: u_ok_def del: seqR.simps\<close>)
    then show ?thesis using True by (simp add: sei_size_write.simps[of n] del: seqR.simps)
  next
    case False
    have "codes (seqR [put_u 8 (int n)]) (parse_ff k) (int n)"
      unfolding k parse_ff.simps
      by (rule codes_Cons[OF codes_u_numeral]) (use False in \<open>simp_all add: u_ok_def codes_Nil del: seqR.simps preturn_bs\<close>)
    then show ?thesis using False by (simp add: sei_size_write.simps[of n] del: seqR.simps)
  qed
qed

lemma bytes_codes:
  assumes "\<forall>x \<in> set xs. u_ok 8 x"
  shows "codes (seqR (map (put_u 8) xs)) (prepeat (length xs) (get_u 8)) xs"
proof -
  have "codes (seqR (map (put_u 8) xs)) (prepeat (length xs) (get_u 8)) (map (\<lambda>x. x) xs)"
    by (rule codes_repeat) (use assms codes_u_numeral[of "num.Bit0 (num.Bit0 (num.Bit0 num.One))"] in simp)
  then show ?thesis by simp
qed

lemma sei_roundtrip:
  assumes "length version + 17 < 255 * n"
  shows "\<exists>s k. x264_sei_version_write version (bs_init 0 mem) = Inr s \<and> k < 8
    \<and> parse_sei n (bytes_bits (bs_out s)) = Some ((5, sei_uuid @ map uint version @ [0]), True # replicate k False)"
proof -
  let ?bytes = "sei_uuid @ map uint (version @ [0])"
  have len: "nat (int (length version + 1 + 16)) = length ?bytes" by (simp add: sei_uuid_def)
  have ok: "\<forall>x \<in> set ?bytes. u_ok 8 x"
    using uint_range_size[of "_ :: byte"] by (auto simp: u_ok_def sei_uuid_def word_size)
  have type: "codes (put_u 8 5) (parse_ff n) 5"
    using parse_ff_codes[of 5 n] assms by (simp add: sei_size_write.simps[of 5] codes_single del: seqR.simps)
  have payload: "codes (seqR (map (put_u 8) ?bytes @ [])) (pbind (prepeat (nat (int (length version + 1 + 16))) (get_u 8)) (\<lambda>p. preturn (5 :: int, p))) (5, ?bytes)"
    unfolding len by (rule codes_append[OF bytes_codes[OF ok] codes_preturn]) simp
  have "codes (seqR (sei_statements version)) (parse_sei n) (5, ?bytes)"
    unfolding sei_statements_def parse_sei_def
    by (rule codes_Cons[OF type] codes_append[OF parse_ff_codes])+ (use assms payload in \<open>simp_all del: seqR.simps\<close>)
  from codes_stream[OF this, of mem] show ?thesis by (auto simp: x264_sei_version_write_def)
qed

end
