(* ===== verification/X264_Cabac.thy ===== *)
theory X264_Cabac
  imports X264_Cabac_Tables X264_Bitstream
begin

text \<open>
  The arithmetic coder of x264 (\<^verbatim>\<open>apps/x264/src/common/cabac.c\<close> and \<^verbatim>\<open>cabac.h\<close>): contexts, binary decisions,
  bypass bits, Exp-Golomb suffixes, termination and the final flush, against the arithmetic decoder
  of the H.264 standard. The memory that the coder writes is the list of the bytes in front of
  the pointer \<^verbatim>\<open>p\<close>; \<^verbatim>\<open>p_start\<close> is the number of bytes that were there before, so that a store through
  \<^verbatim>\<open>p[-1]\<close> is an access outside when the list is empty.
\<close>

section \<open>The encoder\<close>

record x264_cabac_t =
  i_low :: int
  i_range :: int
  i_queue :: int
  i_bytes_outstanding :: int
  p_start :: nat
  cb_mem :: "byte list"
  f8_bits_encoded :: nat
  cb_state :: "nat list"

definition SLICE_TYPE_I :: int where "SLICE_TYPE_I = 2"

definition x264_clip3 :: "int \<Rightarrow> int \<Rightarrow> int \<Rightarrow> int" where
  "x264_clip3 v i_min i_max = (if v < i_min then i_min else if v > i_max then i_max else v)"

definition context_init_table :: "int \<Rightarrow> nat \<Rightarrow> (int \<times> int) list outcome" where
  "context_init_table i_slice_type i_model =
     (if i_slice_type = SLICE_TYPE_I then Inr x264_cabac_context_init_I
      else if i_model < 3 then Inr (x264_cabac_context_init_PB ! i_model)
      else Inl Out_Of_Bounds)"

definition x264_cabac_context_init :: "int \<Rightarrow> int \<Rightarrow> nat \<Rightarrow> x264_cabac_t \<Rightarrow> x264_cabac_t outcome" where
  "x264_cabac_context_init i_slice_type i_qp i_model cb =
     bindR (context_init_table i_slice_type i_model) (\<lambda>table.
       Inr (cb\<lparr>cb_state := map (\<lambda>(m, n). nat (x264_clip3 (drop_bit 4 (m * i_qp) + n) 1 126)) table\<rparr>))"

definition x264_cabac_encode_init :: "byte list \<Rightarrow> x264_cabac_t \<Rightarrow> x264_cabac_t" where
  "x264_cabac_encode_init mem cb =
     cb\<lparr>i_low := 0, i_range := 0x01FE, i_queue := - 1, i_bytes_outstanding := 0, p_start := length mem, cb_mem := mem\<rparr>"

definition put_out :: "int \<Rightarrow> x264_cabac_t \<Rightarrow> x264_cabac_t outcome" where
  "put_out out cb =
     (if out AND 0xff = 0xff then Inr (cb\<lparr>i_bytes_outstanding := i_bytes_outstanding cb + 1\<rparr>)
      else if cb_mem cb = [] then Inl Out_Of_Bounds
      else let carry = drop_bit 8 out
           in Inr (cb\<lparr>cb_mem := butlast (cb_mem cb) @ [last (cb_mem cb) + word_of_int carry]
                        @ replicate (nat (i_bytes_outstanding cb)) (word_of_int (carry - 1)) @ [word_of_int out],
                      i_bytes_outstanding := 0\<rparr>))"

definition x264_cabac_putbyte :: "x264_cabac_t \<Rightarrow> x264_cabac_t outcome" where
  "x264_cabac_putbyte cb =
     (if i_queue cb \<ge> 8
      then put_out (drop_bit (nat (i_queue cb + 2)) (i_low cb))
             (cb\<lparr>i_low := i_low cb AND (push_bit (nat (i_queue cb)) 4 - 1), i_queue := i_queue cb - 8\<rparr>)
      else Inr cb)"

definition x264_cabac_encode_renorm :: "x264_cabac_t \<Rightarrow> x264_cabac_t outcome" where
  "x264_cabac_encode_renorm cb =
     (let shift = x264_cabac_renorm_shift ! nat (drop_bit 3 (i_range cb))
      in x264_cabac_putbyte
           (cb\<lparr>i_range := push_bit shift (i_range cb), i_low := push_bit shift (i_low cb), i_queue := i_queue cb + int shift\<rparr>))"

definition x264_cabac_encode_decision :: "nat \<Rightarrow> bool \<Rightarrow> x264_cabac_t \<Rightarrow> x264_cabac_t outcome" where
  "x264_cabac_encode_decision i_ctx b cb =
     (if length (cb_state cb) \<le> i_ctx then Inl Out_Of_Bounds
      else let i_state = cb_state cb ! i_ctx;
               i_range_lps = x264_cabac_range_lps ! i_state ! nat (drop_bit 6 (i_range cb) AND 3);
               cb = cb\<lparr>i_range := i_range cb - i_range_lps\<rparr>;
               cb = (if of_bool b \<noteq> drop_bit 6 i_state
                     then cb\<lparr>i_low := i_low cb + i_range cb, i_range := i_range_lps\<rparr> else cb)
           in x264_cabac_encode_renorm (cb\<lparr>cb_state := (cb_state cb)[i_ctx := x264_cabac_transition ! i_state ! of_bool b]\<rparr>))"

definition x264_cabac_encode_bypass :: "bool \<Rightarrow> x264_cabac_t \<Rightarrow> x264_cabac_t outcome" where
  "x264_cabac_encode_bypass b cb =
     x264_cabac_putbyte (cb\<lparr>i_low := push_bit 1 (i_low cb) + (- of_bool b AND i_range cb), i_queue := i_queue cb + 1\<rparr>)"

text \<open>The two loops of \<^verbatim>\<open>x264_cabac_encode_ue_bypass\<close>.\<close>

function ue_prefix :: "nat \<Rightarrow> nat \<Rightarrow> nat \<times> nat" where
  "ue_prefix k val = (if 2 ^ k \<le> val then ue_prefix (k + 1) (val - 2 ^ k) else (k, val))"
  by pat_completeness auto
termination
proof (relation "measure snd")
  fix k val :: nat
  assume "2 ^ k \<le> val"
  then have "val - 2 ^ k < val" by (intro diff_less) (auto intro: less_le_trans[of 0 "2 ^ k"])
  then show "((k + 1, val - 2 ^ k), k, val) \<in> measure snd" by simp
qed simp

declare ue_prefix.simps [simp del]

function ue_loop :: "int \<Rightarrow> nat \<Rightarrow> nat \<Rightarrow> x264_cabac_t \<Rightarrow> x264_cabac_t outcome" where
  "ue_loop x k i cb =
     (let k' = k - i
      in bindR (x264_cabac_putbyte (cb\<lparr>i_low := push_bit i (i_low cb) + (drop_bit k' x AND 0xff) * i_range cb, i_queue := i_queue cb + int i\<rparr>))
           (\<lambda>cb. if 0 < k' \<and> 0 < i then ue_loop x k' 8 cb else Inr cb))"
  by pat_completeness auto
termination by (relation "measure (\<lambda>(x, k, i, cb). k)") auto

declare ue_loop.simps [simp del]

definition x264_cabac_encode_ue_bypass :: "nat \<Rightarrow> nat \<Rightarrow> x264_cabac_t \<Rightarrow> x264_cabac_t outcome" where
  "x264_cabac_encode_ue_bypass exp_bits val cb =
     (let (k, val) = ue_prefix exp_bits val
      in bindR (int32 (push_bit (k + 1) (push_bit (k - exp_bits) 1 - 1) + int val)) (\<lambda>x.
           let k = 2 * k + 1 - exp_bits; i = ((k - 1) AND 7) + 1
           in ue_loop x k i cb))"

definition x264_cabac_encode_terminal :: "x264_cabac_t \<Rightarrow> x264_cabac_t outcome" where
  "x264_cabac_encode_terminal cb = x264_cabac_encode_renorm (cb\<lparr>i_range := i_range cb - 2\<rparr>)"

definition flush_outstanding :: "x264_cabac_t \<Rightarrow> x264_cabac_t" where
  "flush_outstanding cb =
     cb\<lparr>cb_mem := cb_mem cb @ replicate (nat (i_bytes_outstanding cb)) 0xff,
        i_bytes_outstanding := min 0 (i_bytes_outstanding cb)\<rparr>"

definition x264_cabac_encode_flush :: "nat \<Rightarrow> x264_cabac_t \<Rightarrow> x264_cabac_t outcome" where
  "x264_cabac_encode_flush i_frame cb =
     bindR (x264_cabac_putbyte (cb\<lparr>i_low := push_bit 9 ((i_low cb + (i_range cb - 2)) OR 1), i_queue := i_queue cb + 9\<rparr>)) (\<lambda>cb.
     bindR (x264_cabac_putbyte cb) (\<lambda>cb.
     bindR (x264_cabac_putbyte
              (cb\<lparr>i_low := push_bit (nat (8 - i_queue cb)) (i_low cb) OR push_bit 10 (drop_bit (i_frame AND 31) 0x35a4e4f5 AND 1),
                  i_queue := 8\<rparr>)) (\<lambda>cb.
       Inr (flush_outstanding cb))))"

definition x264_cabac_pos :: "x264_cabac_t \<Rightarrow> int" where
  "x264_cabac_pos cb = (int (length (cb_mem cb) - p_start cb) + i_bytes_outstanding cb) * 8 + i_queue cb"

text \<open>The cost of a decision, without writing it.\<close>

definition x264_cabac_size_decision :: "nat \<Rightarrow> bool \<Rightarrow> x264_cabac_t \<Rightarrow> x264_cabac_t outcome" where
  "x264_cabac_size_decision i_ctx b cb =
     (if length (cb_state cb) \<le> i_ctx then Inl Out_Of_Bounds
      else let i_state = cb_state cb ! i_ctx
           in Inr (cb\<lparr>cb_state := (cb_state cb)[i_ctx := x264_cabac_transition ! i_state ! of_bool b],
                      f8_bits_encoded := f8_bits_encoded cb + x264_cabac_entropy ! i_state ! of_bool b\<rparr>))"

definition x264_cabac_size_decision2 :: "nat \<Rightarrow> bool \<Rightarrow> nat \<times> nat" where
  "x264_cabac_size_decision2 i_state b =
     (x264_cabac_transition ! i_state ! of_bool b, x264_cabac_entropy ! i_state ! of_bool b)"

definition x264_cabac_size_decision_noup :: "nat \<Rightarrow> bool \<Rightarrow> x264_cabac_t \<Rightarrow> x264_cabac_t outcome" where
  "x264_cabac_size_decision_noup i_ctx b cb =
     (if length (cb_state cb) \<le> i_ctx then Inl Out_Of_Bounds
      else Inr (cb\<lparr>f8_bits_encoded := f8_bits_encoded cb + x264_cabac_entropy ! (cb_state cb ! i_ctx) ! of_bool b\<rparr>))"

definition x264_cabac_size_decision_noup2 :: "nat \<Rightarrow> bool \<Rightarrow> nat" where
  "x264_cabac_size_decision_noup2 i_state b = x264_cabac_entropy ! i_state ! of_bool b"

section \<open>The arithmetic decoder of the standard\<close>

record cabac_decoder =
  d_range :: int
  d_offset :: int
  d_bits :: "bool list"
  d_ctx :: "(nat \<times> bool) list"

definition dec_init :: "(nat \<times> bool) list \<Rightarrow> bool list \<Rightarrow> cabac_decoder option" where
  "dec_init ctx bs = map_option (\<lambda>(v, rest). \<lparr>d_range = 510, d_offset = int v, d_bits = rest, d_ctx = ctx\<rparr>) (read_u 9 bs)"

text \<open>The next bit enters the offset.\<close>

definition dec_shift :: "cabac_decoder \<Rightarrow> cabac_decoder option" where
  "dec_shift d = (case d_bits d of [] \<Rightarrow> None | b # bs \<Rightarrow> Some (d\<lparr>d_offset := 2 * d_offset d + of_bool b, d_bits := bs\<rparr>))"

function dec_renorm :: "cabac_decoder \<Rightarrow> cabac_decoder option" where
  "dec_renorm d =
     (if d_range d < 256
      then case dec_shift d of None \<Rightarrow> None | Some d \<Rightarrow> dec_renorm (d\<lparr>d_range := 2 * d_range d\<rparr>)
      else Some d)"
  by pat_completeness auto
termination
  by (relation "measure (\<lambda>d. length (d_bits d))") (auto simp: dec_shift_def split: list.splits)

declare dec_renorm.simps [simp del]

definition ctx_next :: "bool \<Rightarrow> nat \<times> bool \<Rightarrow> nat \<times> bool" where
  "ctx_next b c =
     (let (p, mps) = c
      in if b = mps then (transIdxMPS p, mps) else (transIdxLPS ! p, if p = 0 then \<not> mps else mps))"

definition dec_decision :: "nat \<Rightarrow> cabac_decoder \<Rightarrow> (bool \<times> cabac_decoder) option" where
  "dec_decision i d =
     (let (p, mps) = d_ctx d ! i;
          lps = rangeTabLPS ! p ! nat (d_range d div 64 mod 4);
          range = d_range d - lps;
          b = (if range \<le> d_offset d then \<not> mps else mps);
          d = (if range \<le> d_offset d then d\<lparr>d_offset := d_offset d - range, d_range := lps\<rparr> else d\<lparr>d_range := range\<rparr>)
      in map_option (\<lambda>d. (b, d)) (dec_renorm (d\<lparr>d_ctx := (d_ctx d)[i := ctx_next b (p, mps)]\<rparr>)))"

definition dec_bypass :: "cabac_decoder \<Rightarrow> (bool \<times> cabac_decoder) option" where
  "dec_bypass d =
     map_option (\<lambda>d. if d_range d \<le> d_offset d then (True, d\<lparr>d_offset := d_offset d - d_range d\<rparr>) else (False, d)) (dec_shift d)"

definition dec_terminate :: "cabac_decoder \<Rightarrow> (bool \<times> cabac_decoder) option" where
  "dec_terminate d =
     (let d = d\<lparr>d_range := d_range d - 2\<rparr>
      in if d_range d \<le> d_offset d then Some (True, d) else map_option (\<lambda>d. (False, d)) (dec_renorm d))"

text \<open>The suffix of an Exp-Golomb binarisation: ones that raise the order, a zero, and as many bits as the order.\<close>

fun dec_fixed :: "nat \<Rightarrow> cabac_decoder \<Rightarrow> (nat \<times> cabac_decoder) option" where
  "dec_fixed 0 d = Some (0, d)"
| "dec_fixed (Suc n) d =
     Option.bind (dec_bypass d) (\<lambda>(b, d). map_option (\<lambda>(v, d). (of_bool b * 2 ^ n + v, d)) (dec_fixed n d))"

lemma dec_bypass_bits: "dec_bypass d = Some (b, d') \<Longrightarrow> length (d_bits d') < length (d_bits d)"
  by (auto simp: dec_bypass_def dec_shift_def split: list.splits if_splits)

function dec_ue :: "nat \<Rightarrow> cabac_decoder \<Rightarrow> (nat \<times> cabac_decoder) option" where
  "dec_ue k d =
     (case dec_bypass d of
        None \<Rightarrow> None
      | Some (True, d) \<Rightarrow> map_option (\<lambda>(v, d). (2 ^ k + v, d)) (dec_ue (k + 1) d)
      | Some (False, d) \<Rightarrow> dec_fixed k d)"
  by pat_completeness auto
termination by (relation "measure (\<lambda>(k, d). length (d_bits d))") (auto dest: dec_bypass_bits)

declare dec_ue.simps [simp del]

section \<open>Sequences of symbols\<close>

datatype symbol = Decision nat bool | Bypass bool | UE_Bypass nat nat | Continue

text \<open>\<open>Continue\<close> is a terminating bin that is zero; the one that ends the slice is coded by the flush.\<close>

fun encode_symbol :: "symbol \<Rightarrow> x264_cabac_t \<Rightarrow> x264_cabac_t outcome" where
  "encode_symbol (Decision i b) cb = x264_cabac_encode_decision i b cb"
| "encode_symbol (Bypass b) cb = x264_cabac_encode_bypass b cb"
| "encode_symbol (UE_Bypass e v) cb = x264_cabac_encode_ue_bypass e v cb"
| "encode_symbol Continue cb = x264_cabac_encode_terminal cb"

text \<open>Decoding a symbol of the kind that the syntax asks for; the values in the request are not used.\<close>

fun decode_symbol :: "symbol \<Rightarrow> cabac_decoder \<Rightarrow> (symbol \<times> cabac_decoder) option" where
  "decode_symbol (Decision i b) d = map_option (\<lambda>(b, d). (Decision i b, d)) (dec_decision i d)"
| "decode_symbol (Bypass b) d = map_option (\<lambda>(b, d). (Bypass b, d)) (dec_bypass d)"
| "decode_symbol (UE_Bypass e v) d = map_option (\<lambda>(v, d). (UE_Bypass e v, d)) (dec_ue e d)"
| "decode_symbol Continue d = Option.bind (dec_terminate d) (\<lambda>(b, d). if b then None else Some (Continue, d))"

fun kind_of :: "symbol \<Rightarrow> symbol" where
  "kind_of (Decision i b) = Decision i False"
| "kind_of (Bypass b) = Bypass False"
| "kind_of (UE_Bypass e v) = UE_Bypass e 0"
| "kind_of Continue = Continue"

fun decode_symbols :: "symbol list \<Rightarrow> cabac_decoder \<Rightarrow> (symbol list \<times> cabac_decoder) option" where
  "decode_symbols [] d = Some ([], d)"
| "decode_symbols (k # ks) d =
     Option.bind (decode_symbol k d) (\<lambda>(s, d). map_option (\<lambda>(ss, d). (s # ss, d)) (decode_symbols ks d))"

section \<open>What the encoder has coded\<close>

text \<open>
  The bytes written since the start, the number that they, the outstanding bytes (all of them 255) and
  the register \<^verbatim>\<open>i_low\<close> stand for, and the number of bits by which the interval has been scaled.
\<close>

definition be_val :: "byte list \<Rightarrow> int" where
  "be_val bs = foldl (\<lambda>a b. a * 256 + uint b) 0 bs"

lemma be_val_Nil [simp]: "be_val [] = 0"
  by (simp add: be_val_def)

lemma be_val_snoc [simp]: "be_val (bs @ [b]) = be_val bs * 256 + uint b"
  by (simp add: be_val_def)

lemma be_val_replicate: "be_val (bs @ replicate n b) = be_val bs * 256 ^ n + be_val (replicate n b)"
proof (induction n)
  case (Suc n)
  have "bs @ replicate (Suc n) b = (bs @ replicate n b) @ [b]" "replicate (Suc n) b = replicate n b @ [b]"
    by (simp_all add: replicate_append_same)
  then show ?case using Suc by (simp only: be_val_snoc) (simp add: algebra_simps)
qed simp

lemma be_val_ones: "be_val (replicate n 0xff) = 256 ^ n - 1"
proof (induction n)
  case (Suc n)
  then show ?case by (simp add: be_val_snoc flip: replicate_append_same)
qed simp

lemma be_val_zeros: "be_val (replicate n 0) = 0"
proof (induction n)
  case (Suc n)
  then show ?case by (simp add: be_val_snoc flip: replicate_append_same)
qed simp

lemma be_val_nonneg: "0 \<le> be_val bs"
  by (induction bs rule: rev_induct) simp_all

definition cb_bytes :: "x264_cabac_t \<Rightarrow> byte list" where
  "cb_bytes cb = drop (p_start cb) (cb_mem cb)"

definition settled :: "byte list \<Rightarrow> nat \<Rightarrow> int" where
  "settled bs n = be_val bs * 256 ^ n + 256 ^ n - 1"

definition enc_L :: "x264_cabac_t \<Rightarrow> int" where
  "enc_L cb = settled (cb_bytes cb) (nat (i_bytes_outstanding cb)) * 2 ^ nat (i_queue cb + 10) + i_low cb"

definition enc_N :: "x264_cabac_t \<Rightarrow> nat" where
  "enc_N cb = 8 * (length (cb_bytes cb) + nat (i_bytes_outstanding cb)) + nat (i_queue cb + 1)"

text \<open>
  The invariant, for an interval of width \<open>r\<close> that starts at \<^verbatim>\<open>i_low\<close>. The register may hold one carry, which
  the last byte can take, because it is never 255, and no carry runs past the first byte written.
\<close>

definition core :: "int \<Rightarrow> x264_cabac_t \<Rightarrow> bool" where
  "core r cb \<longleftrightarrow>
     0 \<le> i_low cb \<and> 0 < r \<and> r \<le> 512 \<and> - 1 \<le> i_queue cb \<and> 0 \<le> i_bytes_outstanding cb
   \<and> i_low cb + r \<le> 3 * 2 ^ nat (i_queue cb + 9)
   \<and> 0 < p_start cb \<and> p_start cb \<le> length (cb_mem cb)
   \<and> (cb_bytes cb \<noteq> [] \<longrightarrow> last (cb_bytes cb) \<noteq> 0xff)
   \<and> enc_L cb + r \<le> 2 ^ (enc_N cb + 9)"

lemma cabac_init_core:
  assumes "mem \<noteq> []"
  shows "core 510 (x264_cabac_encode_init mem cb)" "enc_L (x264_cabac_encode_init mem cb) = 0" "enc_N (x264_cabac_encode_init mem cb) = 0"
  using assms by (simp_all add: core_def x264_cabac_encode_init_def enc_L_def enc_N_def cb_bytes_def settled_def)

text \<open>Scaling the interval by \<open>2 ^ s\<close> and taking a part of it.\<close>

lemma core_step:
  assumes "core r cb" "0 \<le> off" "0 < r'" "r' \<le> 512" "off + r' \<le> 2 ^ s * r"
  defines "cb' \<equiv> cb\<lparr>i_low := 2 ^ s * i_low cb + off, i_queue := i_queue cb + int s\<rparr>"
  shows "core r' cb'" "enc_L cb' = 2 ^ s * enc_L cb + off" "enc_N cb' = enc_N cb + s"
proof -
  note C = assms(1)[unfolded core_def]
  have q: "nat (i_queue cb + int s + 10) = nat (i_queue cb + 10) + s" "nat (i_queue cb + int s + 9) = nat (i_queue cb + 9) + s"
    "nat (i_queue cb + int s + 1) = nat (i_queue cb + 1) + s" using C by linarith+
  show L: "enc_L cb' = 2 ^ s * enc_L cb + off"
    unfolding enc_L_def cb'_def cb_bytes_def by (simp add: q(1) power_add) (simp add: algebra_simps)
  show N: "enc_N cb' = enc_N cb + s" by (simp add: enc_N_def cb'_def cb_bytes_def q(3))
  have 1: "2 ^ s * i_low cb + off + r' \<le> 2 ^ s * (3 * 2 ^ nat (i_queue cb + 9))"
  proof -
    have "2 ^ s * (i_low cb + r) \<le> 2 ^ s * (3 * 2 ^ nat (i_queue cb + 9))" using C by (intro mult_left_mono) simp_all
    then show ?thesis using assms(5) by (simp add: distrib_left)
  qed
  have 2: "2 ^ s * enc_L cb + off + r' \<le> 2 ^ (enc_N cb + s + 9)"
  proof -
    have "2 ^ s * (enc_L cb + r) \<le> 2 ^ s * 2 ^ (enc_N cb + 9)" using C by (intro mult_left_mono) simp_all
    then show ?thesis using assms(5) by (simp add: distrib_left power_add algebra_simps)
  qed
  have 3: "i_low cb' = 2 ^ s * i_low cb + off" "i_queue cb' = i_queue cb + int s" "cb_bytes cb' = cb_bytes cb" "p_start cb' = p_start cb"
    "cb_mem cb' = cb_mem cb" "i_bytes_outstanding cb' = i_bytes_outstanding cb"
    by (simp_all add: cb'_def cb_bytes_def)
  show "core r' cb'"
    using C assms(2-4) 1 2 unfolding core_def L N 3 q by (simp add: power_add algebra_simps)
qed

text \<open>Writing a byte with its carry.\<close>

lemma and_ff: "(x :: int) AND 0xff = x mod 256"
  using take_bit_eq_mask[of 8 x] by (simp add: mask_eq_exp_minus_1 take_bit_eq_mod)

lemma settled_nonneg: "0 \<le> settled bs n"
proof -
  have "0 \<le> be_val bs * 256 ^ n" using be_val_nonneg[of bs] by simp
  moreover have "(1 :: int) \<le> 256 ^ n" by (rule one_le_power) simp
  ultimately show ?thesis by (simp only: settled_def)
qed

lemma settled_0: "settled bs 0 = be_val bs"
  by (simp add: settled_def)

lemma settled_carry:
  assumes "bs \<noteq> []" "last bs \<noteq> 0xff"
  shows "be_val (butlast bs @ [last bs + 1]) = be_val bs + 1"
proof -
  have "uint (last bs) \<noteq> 255" using assms(2) by (simp add: word_uint_eq_iff)
  then have "0 \<le> uint (last bs) + 1" "uint (last bs) + 1 < 256" using uint_range_size[of "last bs"] by (simp_all add: word_size)
  then have "uint (last bs + 1) = uint (last bs) + 1" by (simp add: uint_word_ariths)
  then show ?thesis using be_val_snoc[of "butlast bs" "last bs"] assms(1) by simp
qed

lemma put_out_ok:
  assumes "0 \<le> out" "out < 384" "0 \<le> i_bytes_outstanding cb" "0 < p_start cb" "p_start cb \<le> length (cb_mem cb)"
    "cb_bytes cb \<noteq> [] \<longrightarrow> last (cb_bytes cb) \<noteq> 0xff"
    "settled (cb_bytes cb) (nat (i_bytes_outstanding cb)) * 256 + out < 256 ^ (length (cb_bytes cb) + nat (i_bytes_outstanding cb) + 1)"
  shows "\<exists>mem o'. put_out out cb = Inr (cb\<lparr>cb_mem := mem, i_bytes_outstanding := o'\<rparr>) \<and> 0 \<le> o'
    \<and> settled (drop (p_start cb) mem) (nat o') = settled (cb_bytes cb) (nat (i_bytes_outstanding cb)) * 256 + out
    \<and> length (drop (p_start cb) mem) + nat o' = length (cb_bytes cb) + nat (i_bytes_outstanding cb) + 1
    \<and> (drop (p_start cb) mem \<noteq> [] \<longrightarrow> last (drop (p_start cb) mem) \<noteq> 0xff)
    \<and> p_start cb \<le> length mem \<and> take (p_start cb) mem = take (p_start cb) (cb_mem cb)"
proof -
  define n where "n = nat (i_bytes_outstanding cb)"
  define bs where "bs = cb_bytes cb"
  have mem: "cb_mem cb = take (p_start cb) (cb_mem cb) @ bs" "cb_mem cb \<noteq> []" "length (take (p_start cb) (cb_mem cb)) = p_start cb"
    using assms(4,5) by (auto simp: bs_def cb_bytes_def)
  have small: "out div 256 = 0 \<and> out mod 256 = out \<or> out div 256 = 1 \<and> out mod 256 < 128"
  proof (cases "out < 256")
    case False
    have "(out - 256) div 256 = 0" "(out - 256) mod 256 = out - 256"
      using False assms(2) by (intro div_pos_pos_trivial mod_pos_pos_trivial; linarith)+
    then have "out div 256 = 1" "out mod 256 = out - 256" using False div_pos_geq[of 256 out] mod_pos_geq[of 256 out] by linarith+
    then show ?thesis using assms(2) by linarith
  qed (use assms(1) in simp)
  show ?thesis
  proof (cases "out mod 256 = 255")
    case True
    have "out = 255" using True small by auto
    moreover have "nat (i_bytes_outstanding cb + 1) = n + 1" using assms(3) by (simp add: n_def)
    ultimately show ?thesis
      using assms(3,5,6)
      by (intro exI[of _ "cb_mem cb"] exI[of _ "i_bytes_outstanding cb + 1"])
        (simp add: put_out_def and_ff settled_def algebra_simps flip: n_def cb_bytes_def)
  next
    case False
    define carry where "carry = out div 256"
    define mem' where "mem' = butlast (cb_mem cb) @ [last (cb_mem cb) + word_of_int carry] @ replicate n (word_of_int (carry - 1)) @ [word_of_int out]"
    have put: "put_out out cb = Inr (cb\<lparr>cb_mem := mem', i_bytes_outstanding := 0\<rparr>)"
      using False mem(2) by (simp add: put_out_def and_ff Let_def drop_bit_eq_div carry_def mem'_def n_def)
    have out: "uint (word_of_int out :: byte) = out mod 256" "out = carry * 256 + out mod 256"
      by (simp_all add: uint_word_of_int carry_def)
    then have nff: "(word_of_int out :: byte) \<noteq> 0xff" using False by auto
    have "carry = 0 \<or> carry = 1" using small by (auto simp: carry_def)
    then have "\<exists>front. mem' = take (p_start cb) (cb_mem cb) @ front @ [word_of_int out] \<and> length front = length bs + n
        \<and> be_val front = settled bs n + carry"
    proof
      assume c: "carry = 0"
      have m1: "(- 1 :: byte) = 0xff" by simp
      have "mem' = (butlast (cb_mem cb) @ [last (cb_mem cb)]) @ replicate n 0xff @ [word_of_int out]"
        unfolding mem'_def c by (simp add: m1)
      then have "mem' = take (p_start cb) (cb_mem cb) @ (bs @ replicate n 0xff) @ [word_of_int out]"
        unfolding append_butlast_last_id[OF mem(2)] using mem(1) by (metis append.assoc)
      moreover have "be_val (bs @ replicate n 0xff) = settled bs n" unfolding be_val_replicate be_val_ones settled_def by simp
      ultimately show ?thesis using c by (intro exI[of _ "bs @ replicate n 0xff"]) simp
    next
      assume c: "carry = 1"
      have "bs \<noteq> []"
      proof
        assume "bs = []"
        then have "(256 ^ n - 1) * 256 + out < 256 ^ (n + 1)" using assms(7) by (simp add: settled_def flip: n_def bs_def)
        then show False using c out(2) by simp
      qed
      then have "mem' = take (p_start cb) (cb_mem cb) @ ((butlast bs @ [last bs + 1]) @ replicate n 0) @ [word_of_int out]"
        using mem(1) by (simp add: mem'_def c butlast_append) (metis butlast_append last_appendR append.assoc)
      moreover have "be_val ((butlast bs @ [last bs + 1]) @ replicate n 0) = settled bs n + 1"
        unfolding be_val_replicate be_val_zeros settled_def using settled_carry[OF \<open>bs \<noteq> []\<close>] assms(6) \<open>bs \<noteq> []\<close>
        by (simp add: algebra_simps flip: bs_def)
      ultimately show ?thesis using c \<open>bs \<noteq> []\<close> by (intro exI[of _ "(butlast bs @ [last bs + 1]) @ replicate n 0"]) simp
    qed
    then obtain front where f: "mem' = take (p_start cb) (cb_mem cb) @ front @ [word_of_int out]" "length front = length bs + n"
        "be_val front = settled bs n + carry" by blast
    have d: "drop (p_start cb) mem' = front @ [word_of_int out]" "take (p_start cb) mem' = take (p_start cb) (cb_mem cb)"
      "p_start cb \<le> length mem'" using f(1) mem(3) by simp_all
    have "be_val (front @ [word_of_int out]) = settled bs n * 256 + out"
      using out f(3) by (simp add: algebra_simps)
    then show ?thesis
      using put d f(2) nff by (intro exI[of _ mem'] exI[of _ 0]) (simp add: settled_0 flip: n_def bs_def)
  qed
qed

definition same_but_bytes :: "x264_cabac_t \<Rightarrow> x264_cabac_t \<Rightarrow> bool" where
  "same_but_bytes cb cb' \<longleftrightarrow>
     i_range cb' = i_range cb \<and> cb_state cb' = cb_state cb \<and> p_start cb' = p_start cb
   \<and> take (p_start cb) (cb_mem cb') = take (p_start cb) (cb_mem cb)"

lemma putbyte_ok:
  assumes "core r cb"
  shows "\<exists>cb'. x264_cabac_putbyte cb = Inr cb' \<and> core r cb' \<and> enc_L cb' = enc_L cb \<and> enc_N cb' = enc_N cb \<and> same_but_bytes cb cb'
    \<and> i_queue cb' = (if 8 \<le> i_queue cb then i_queue cb - 8 else i_queue cb)
    \<and> (8 \<le> i_queue cb \<longrightarrow> i_low cb' = i_low cb mod 2 ^ nat (i_queue cb + 2))"
proof (cases "8 \<le> i_queue cb")
  case False
  then show ?thesis using assms by (simp add: x264_cabac_putbyte_def same_but_bytes_def)
next
  case True
  note C = assms[unfolded core_def]
  define e where "e = nat (i_queue cb + 2)"
  define out where "out = i_low cb div 2 ^ e"
  define cb1 where "cb1 = cb\<lparr>i_low := i_low cb mod 2 ^ e, i_queue := i_queue cb - 8\<rparr>"
  have e: "nat (i_queue cb + 10) = e + 8" "nat (i_queue cb - 8 + 10) = e" "nat (i_queue cb + 9) = e + 7" "nat (i_queue cb - 8 + 9) = e - 1"
    "nat (i_queue cb + 1) = e - 1" "nat (i_queue cb - 8 + 1) = e - 9" "10 \<le> e" using True by (simp_all add: e_def)
  have put: "x264_cabac_putbyte cb = put_out out cb1"
  proof -
    have "push_bit (nat (i_queue cb)) 4 - 1 = (mask e :: int)"
      using True by (simp add: e_def mask_eq_exp_minus_1 push_bit_eq_mult nat_add_distrib power_add)
    then show ?thesis using True by (simp add: x264_cabac_putbyte_def drop_bit_eq_div out_def cb1_def take_bit_eq_mod flip: e_def take_bit_eq_mask)
  qed
  have b1: "cb_bytes cb1 = cb_bytes cb" "i_bytes_outstanding cb1 = i_bytes_outstanding cb" "p_start cb1 = p_start cb" "cb_mem cb1 = cb_mem cb"
    by (simp_all add: cb1_def cb_bytes_def)
  have low: "i_low cb = out * 2 ^ e + i_low cb mod 2 ^ e" unfolding out_def by (rule div_mult_mod_eq[symmetric])
  have mod0: "0 \<le> i_low cb mod 2 ^ e" by simp
  have out0: "0 \<le> out" using C by (simp add: out_def pos_imp_zdiv_nonneg_iff)
  have "out < 384"
  proof -
    have "i_low cb < 384 * 2 ^ e" using C e by (simp add: power_add)
    then have "out * 2 ^ e < 384 * 2 ^ e" using low mod0 by linarith
    then show ?thesis by simp
  qed
  define S where "S = settled (cb_bytes cb) (nat (i_bytes_outstanding cb))"
  define k where "k = length (cb_bytes cb) + nat (i_bytes_outstanding cb)"
  have L: "enc_L cb = (S * 256 + out) * 2 ^ e + i_low cb mod 2 ^ e"
    unfolding enc_L_def S_def[symmetric] e(1) using low by (simp add: power_add algebra_simps)
  have N: "enc_N cb = 8 * k + e - 1" "enc_N cb + 9 = 8 * (k + 1) + e" using e(5,7) by (simp_all add: enc_N_def k_def)
  have bound: "S * 256 + out < 256 ^ (k + 1)"
  proof -
    have "(S * 256 + out) * 2 ^ e < 2 ^ (8 * (k + 1) + e)"
      using C L mod0 unfolding N(2) by linarith
    also have "\<dots> = (256 :: int) ^ (k + 1) * 2 ^ e" by (simp add: power_add power_mult)
    finally show ?thesis by simp
  qed
  have pre: "0 \<le> i_bytes_outstanding cb" "0 < p_start cb" "p_start cb \<le> length (cb_mem cb)"
    "cb_bytes cb \<noteq> [] \<longrightarrow> last (cb_bytes cb) \<noteq> 0xff" using C by blast+
  obtain mem o' where p: "put_out out cb1 = Inr (cb1\<lparr>cb_mem := mem, i_bytes_outstanding := o'\<rparr>)" "0 \<le> o'"
      "settled (drop (p_start cb) mem) (nat o') = S * 256 + out" "length (drop (p_start cb) mem) + nat o' = k + 1"
      "drop (p_start cb) mem \<noteq> [] \<longrightarrow> last (drop (p_start cb) mem) \<noteq> 0xff" "p_start cb \<le> length mem"
      "take (p_start cb) mem = take (p_start cb) (cb_mem cb)"
    using put_out_ok[of out cb1, unfolded b1, OF out0 \<open>out < 384\<close> pre bound[unfolded S_def k_def]] unfolding S_def k_def by blast
  define cb' where "cb' = cb1\<lparr>cb_mem := mem, i_bytes_outstanding := o'\<rparr>"
  have f: "i_low cb' = i_low cb mod 2 ^ e" "i_queue cb' = i_queue cb - 8" "i_bytes_outstanding cb' = o'" "cb_bytes cb' = drop (p_start cb) mem"
    "p_start cb' = p_start cb" "cb_mem cb' = mem" "i_range cb' = i_range cb" "cb_state cb' = cb_state cb"
    by (simp_all add: cb'_def cb1_def cb_bytes_def)
  have L': "enc_L cb' = enc_L cb" unfolding L enc_L_def[of cb'] f e(2) p(3) by simp
  have N': "enc_N cb' = enc_N cb"
    unfolding enc_N_def[of cb'] f p(4) e(6) N(1) using e(7) True by (simp add: e_def)
  have "i_low cb mod 2 ^ e + r \<le> 3 * 2 ^ (e - 1)"
  proof -
    have "(2 :: int) ^ e = 2 * 2 ^ (e - 1)" using e(7) by (cases e) simp_all
    moreover have "(512 :: int) \<le> 2 ^ (e - 1)" using power_increasing[of 9 "e - 1" "2 :: int"] e(7) by simp
    moreover have "i_low cb mod 2 ^ e < 2 ^ e" by simp
    ultimately show ?thesis using C by linarith
  qed
  then have "core r cb'" unfolding core_def L' N' f e(4) using C p(2,5,6) True by simp
  then show ?thesis
    using put p(1,7) L' N' f True by (intro exI[of _ cb']) (simp add: cb'_def same_but_bytes_def e_def)
qed

section \<open>The operations of the encoder\<close>

text \<open>The coder moved to the part of width \<open>r\<close> at \<open>off\<close> of its interval scaled by \<open>2 ^ s\<close>.\<close>

definition moved :: "nat \<Rightarrow> int \<Rightarrow> int \<Rightarrow> x264_cabac_t \<Rightarrow> x264_cabac_t \<Rightarrow> bool" where
  "moved s off r cb cb' \<longleftrightarrow>
     core r cb' \<and> enc_L cb' = 2 ^ s * enc_L cb + off \<and> enc_N cb' = enc_N cb + s \<and> i_queue cb' \<le> 7 \<and> same_but_bytes cb cb'"

lemma moved_trans:
  assumes "moved s off r cb cb'" "moved s' off' r' cb' cb''"
  shows "moved (s + s') (2 ^ s' * off + off') r' cb cb''"
  using assms by (auto simp: moved_def same_but_bytes_def power_add algebra_simps)

lemma step_putbyte:
  assumes "core r cb" "i_queue cb \<le> 7" "s \<le> 8" "0 \<le> off" "0 < r'" "r' \<le> 512" "off + r' \<le> 2 ^ s * r"
  shows "\<exists>cb'. x264_cabac_putbyte (cb\<lparr>i_low := 2 ^ s * i_low cb + off, i_queue := i_queue cb + int s\<rparr>) = Inr cb' \<and> moved s off r' cb cb'"
proof -
  define c where "c = cb\<lparr>i_low := 2 ^ s * i_low cb + off, i_queue := i_queue cb + int s\<rparr>"
  have c: "core r' c" "enc_L c = 2 ^ s * enc_L cb + off" "enc_N c = enc_N cb + s"
    unfolding c_def by (rule core_step[OF assms(1,4-7)])+
  have "i_queue c \<le> 15" using assms(2,3) by (simp add: c_def)
  obtain cb' where p: "x264_cabac_putbyte c = Inr cb'" "core r' cb'" "enc_L cb' = enc_L c" "enc_N cb' = enc_N c" "same_but_bytes c cb'"
      "i_queue cb' = (if 8 \<le> i_queue c then i_queue c - 8 else i_queue c)"
    using putbyte_ok[OF c(1)] by blast
  have "i_queue cb' \<le> 7" using p(6) \<open>i_queue c \<le> 15\<close> by (simp split: if_splits)
  moreover have "same_but_bytes cb cb'" using p(5) by (simp add: same_but_bytes_def c_def)
  ultimately show ?thesis using p c unfolding c_def moved_def by auto
qed

lemma core_fields [simp]:
  "core r (cb\<lparr>i_range := x\<rparr>) = core r cb" "enc_L (cb\<lparr>i_range := x\<rparr>) = enc_L cb" "enc_N (cb\<lparr>i_range := x\<rparr>) = enc_N cb"
  "core r (cb\<lparr>cb_state := st\<rparr>) = core r cb" "enc_L (cb\<lparr>cb_state := st\<rparr>) = enc_L cb" "enc_N (cb\<lparr>cb_state := st\<rparr>) = enc_N cb"
  by (simp_all add: core_def enc_L_def enc_N_def cb_bytes_def)

lemma renorm_shift_table:
  assumes "6 \<le> r" "r < 512"
  defines "s \<equiv> x264_cabac_renorm_shift ! nat (drop_bit 3 r)"
  shows "s \<le> 6" "256 \<le> 2 ^ s * r" "2 ^ s * r < 512"
proof -
  define i where "i = nat (drop_bit 3 r)"
  have i: "int i = r div 8" "i < 64" using assms(1,2) by (simp_all add: i_def drop_bit_eq_div nat_less_iff)
  have "r = 8 * (r div 8) + r mod 8" by simp
  then have r: "8 * int i \<le> r" "r < 8 * int i + 8" using i(1) pos_mod_bound[of 8 r] pos_mod_sign[of 8 r] by linarith+
  have "list_all (\<lambda>i. x264_cabac_renorm_shift ! i = (if i = 0 then 6 else if i = 1 then 5 else if i < 4 then 4 else if i < 8 then 3
      else if i < 16 then 2 else if i < 32 then 1 else 0)) [0..<64]"
    by code_simp
  then have t: "s = (if i = 0 then 6 else if i = 1 then 5 else if i < 4 then 4 else if i < 8 then 3
      else if i < 16 then 2 else if i < 32 then 1 else 0)"
    using i(2) by (simp add: list_all_iff s_def flip: i_def)
  show "s \<le> 6" by (simp add: t)
  show "256 \<le> 2 ^ s * r" "2 ^ s * r < 512" using r assms(1) i(2) unfolding t by (auto split: if_splits)
qed

text \<open>Renormalisation after the interval has been narrowed to the part of width \<open>r'\<close> at \<open>off\<close>.\<close>

lemma renorm_ok:
  assumes "core r cb" "i_queue cb \<le> 7" "0 \<le> off" "6 \<le> r'" "r' < 512" "off + r' \<le> r"
  shows "\<exists>s cb'. x264_cabac_encode_renorm (cb\<lparr>i_low := i_low cb + off, i_range := r'\<rparr>) = Inr cb' \<and> moved s (2 ^ s * off) (2 ^ s * r') cb (cb'\<lparr>i_range := i_range cb\<rparr>)
    \<and> i_range cb' = 2 ^ s * r' \<and> 256 \<le> 2 ^ s * r' \<and> 2 ^ s * r' < 512"
proof -
  define s where "s = x264_cabac_renorm_shift ! nat (drop_bit 3 r')"
  note s = renorm_shift_table[OF assms(4,5), folded s_def]
  define cb1 where "cb1 = cb\<lparr>i_range := 2 ^ s * r'\<rparr>"
  have "2 ^ s * off + 2 ^ s * r' \<le> 2 ^ s * r" using assms(6) by (simp flip: distrib_left)
  then obtain cb' where p: "x264_cabac_putbyte (cb1\<lparr>i_low := 2 ^ s * i_low cb1 + 2 ^ s * off, i_queue := i_queue cb1 + int s\<rparr>) = Inr cb'"
      "moved s (2 ^ s * off) (2 ^ s * r') cb1 cb'"
    using step_putbyte[of r cb1 s "2 ^ s * off" "2 ^ s * r'"] assms s by (auto simp: cb1_def)
  have "x264_cabac_encode_renorm (cb\<lparr>i_low := i_low cb + off, i_range := r'\<rparr>) = Inr cb'"
    using p(1) by (simp add: x264_cabac_encode_renorm_def Let_def push_bit_eq_mult cb1_def algebra_simps flip: s_def)
  moreover have "moved s (2 ^ s * off) (2 ^ s * r') cb (cb'\<lparr>i_range := i_range cb\<rparr>)" "i_range cb' = 2 ^ s * r'"
    using p(2) by (simp_all add: moved_def same_but_bytes_def cb1_def)
  ultimately show ?thesis using s by blast
qed

text \<open>The tables of the code and of the standard.\<close>

definition ctx_abs :: "nat \<Rightarrow> nat \<times> bool" where
  "ctx_abs s = (if s < 64 then (63 - s, False) else (s - 64, True))"

definition state_ok :: "nat \<Rightarrow> bool" where
  "state_ok s \<longleftrightarrow> 1 \<le> s \<and> s \<le> 126"

lemma lps_table_mirror: "x264_cabac_range_lps = [[2, 2, 2, 2]] @ rev (take 63 rangeTabLPS) @ take 63 rangeTabLPS @ [[2, 2, 2, 2]]"
  by code_simp

lemma lps_bounds_check: "list_all (\<lambda>ls. length ls = 4 \<and> list_all2 (\<lambda>q l. 6 \<le> l \<and> l + 128 \<le> 64 * (q + 4)) [0, 1, 2, 3] ls) (take 63 rangeTabLPS)"
  by code_simp

lemma transition_upper:
  "map2 (\<lambda>p l. [if p = 0 then 63 else 64 + l, 64 + transIdxMPS p]) [0..<63] (take 63 transIdxLPS) = take 63 (drop 64 x264_cabac_transition)"
  by code_simp

lemma transition_lower:
  "map2 (\<lambda>p l. [63 - transIdxMPS p, if p = 0 then 64 else 63 - l]) [0..<63] (take 63 transIdxLPS) = rev (take 63 (drop 1 x264_cabac_transition))"
  by code_simp

lemma lps_small: "list_all (\<lambda>l. l \<le> 62) (take 63 transIdxLPS)" "length transIdxLPS = 64" "length rangeTabLPS = 64"
  by code_simp+

lemma table_lengths: "length x264_cabac_transition = 128" "length x264_cabac_range_lps = 128"
  by code_simp+

lemma ctx_abs_cases:
  assumes "state_ok s"
  obtains p where "p \<le> 62" "s = 63 - p" "ctx_abs s = (p, False)" "s < 64" | p where "p \<le> 62" "s = 64 + p" "ctx_abs s = (p, True)"
  using assms that(1)[of "63 - s"] that(2)[of "s - 64"] by (cases "s < 64") (auto simp: state_ok_def ctx_abs_def)

lemma lps_row:
  assumes "state_ok s"
  shows "x264_cabac_range_lps ! s = rangeTabLPS ! fst (ctx_abs s)"
  using assms
proof (cases rule: ctx_abs_cases)
  case (1 p)
  then have "s = Suc (62 - p)" by simp
  then have "x264_cabac_range_lps ! s = (rev (take 63 rangeTabLPS) @ take 63 rangeTabLPS @ [[2, 2, 2, 2]]) ! (62 - p)"
    unfolding lps_table_mirror by simp
  also have "\<dots> = rev (take 63 rangeTabLPS) ! (62 - p)"
  proof -
    have "62 - p < length (rev (take 63 rangeTabLPS))" using lps_small(3) by simp
    then show ?thesis by (simp only: nth_append if_True)
  qed
  also have "\<dots> = rangeTabLPS ! p" using lps_small(3) 1(1) by (simp add: rev_nth)
  finally show ?thesis using 1(3) by simp
next
  case (2 p)
  then have "s = Suc (63 + p)" by simp
  then have "x264_cabac_range_lps ! s = (rev (take 63 rangeTabLPS) @ take 63 rangeTabLPS @ [[2, 2, 2, 2]]) ! (63 + p)"
    unfolding lps_table_mirror by simp
  also have "\<dots> = rangeTabLPS ! p" using lps_small(3) 2(1) by (simp add: nth_append)
  finally show ?thesis using 2(3) by simp
qed

lemma lps_bounds:
  assumes "p \<le> 62" "q < 4"
  shows "6 \<le> rangeTabLPS ! p ! q" "rangeTabLPS ! p ! q + 128 \<le> 64 * (int q + 4)"
proof -
  have "rangeTabLPS ! p \<in> set (take 63 rangeTabLPS)" using assms(1) lps_small(3) nth_mem[of p "take 63 rangeTabLPS"] by simp
  then have "list_all2 (\<lambda>q l. 6 \<le> l \<and> l + 128 \<le> 64 * (q + 4)) [0, 1, 2, 3] (rangeTabLPS ! p)"
    using lps_bounds_check by (auto simp: list_all_iff)
  then have "6 \<le> rangeTabLPS ! p ! q \<and> rangeTabLPS ! p ! q + 128 \<le> 64 * ([0, 1, 2, 3] ! q + 4)"
    by (rule list_all2_nthD) (use assms(2) in simp)
  moreover have "[0, 1, 2, 3] ! q = int q" using assms(2) by (auto simp: less_Suc_eq numeral_eq_Suc)
  ultimately show "6 \<le> rangeTabLPS ! p ! q" "rangeTabLPS ! p ! q + 128 \<le> 64 * (int q + 4)" by simp_all
qed

lemma transition_state:
  assumes "state_ok s"
  shows "state_ok (x264_cabac_transition ! s ! of_bool b) \<and> ctx_abs (x264_cabac_transition ! s ! of_bool b) = ctx_next b (ctx_abs s)"
proof -
  have lps: "transIdxLPS ! p \<le> 62" if "p \<le> 62" for p
  proof -
    have "transIdxLPS ! p \<in> set (take 63 transIdxLPS)" using that lps_small(2) nth_mem[of p "take 63 transIdxLPS"] by simp
    then show ?thesis using lps_small(1) by (simp add: list_all_iff)
  qed
  have lps0: "transIdxLPS ! 0 = 0" by (simp add: transIdxLPS_def)
  have mps: "transIdxMPS p \<le> 62" if "p \<le> 62" for p using that by (simp add: transIdxMPS_def)
  show ?thesis
    using assms
  proof (cases rule: ctx_abs_cases)
    case (1 p)
    have "x264_cabac_transition ! s = take 63 (drop 1 x264_cabac_transition) ! (62 - p)"
    proof -
      have "63 - p = Suc (62 - p)" using 1(1) by simp
      then show ?thesis using 1(2) table_lengths(1) by simp
    qed
    also have "\<dots> = rev (take 63 (drop 1 x264_cabac_transition)) ! p" using 1(1) table_lengths(1) by (simp add: rev_nth)
    also have "\<dots> = [63 - transIdxMPS p, if p = 0 then 64 else 63 - transIdxLPS ! p]"
      unfolding transition_lower[symmetric] using 1(1) lps_small(2) by simp
    finally show ?thesis using 1 lps[of p] mps[of p] lps0 by (cases b) (auto simp: ctx_next_def ctx_abs_def state_ok_def)
  next
    case (2 p)
    have "x264_cabac_transition ! s = take 63 (drop 64 x264_cabac_transition) ! p" using 2(1,2) table_lengths(1) by simp
    also have "\<dots> = [if p = 0 then 63 else 64 + transIdxLPS ! p, 64 + transIdxMPS p]"
      unfolding transition_upper[symmetric] using 2(1) lps_small(2) by simp
    finally show ?thesis using 2 lps[of p] mps[of p] lps0 by (cases b) (auto simp: ctx_next_def ctx_abs_def state_ok_def)
  qed
qed

lemma mps_bit:
  assumes "state_ok s"
  shows "drop_bit 6 s = of_bool (snd (ctx_abs s))"
  using assms
proof (cases rule: ctx_abs_cases)
  case (2 p)
  then have "(64 + p) div 64 = 1" by simp
  then show ?thesis using 2 by (simp add: drop_bit_eq_div)
qed (simp add: drop_bit_eq_div)

text \<open>The coder between two symbols.\<close>

definition cabac_ok :: "x264_cabac_t \<Rightarrow> bool" where
  "cabac_ok cb \<longleftrightarrow> core (i_range cb) cb \<and> 256 \<le> i_range cb \<and> i_range cb < 512 \<and> i_queue cb \<le> 7 \<and> list_all state_ok (cb_state cb)"

text \<open>
  A symbol is coded by moving to the part of width \<open>r'\<close> at \<open>off\<close> of the interval, and scaling by \<open>2 ^ s\<close>; its
  effect on the contexts is \<open>st\<close>, and the memory in front of the slice data is not changed.
\<close>

definition coded :: "nat \<Rightarrow> int \<Rightarrow> nat list \<Rightarrow> x264_cabac_t \<Rightarrow> x264_cabac_t \<Rightarrow> bool" where
  "coded s off st cb cb' \<longleftrightarrow>
     cabac_ok cb' \<and> enc_L cb' = 2 ^ s * enc_L cb + off \<and> enc_N cb' = enc_N cb + s \<and> 0 \<le> off \<and> off + i_range cb' \<le> 2 ^ s * i_range cb
   \<and> cb_state cb' = st \<and> p_start cb' = p_start cb \<and> take (p_start cb) (cb_mem cb') = take (p_start cb) (cb_mem cb)"

lemma renorm_coded:
  assumes "cabac_ok cb" "0 \<le> off" "6 \<le> r'" "off + r' \<le> i_range cb" "list_all state_ok st"
  shows "\<exists>s cb'. x264_cabac_encode_renorm (cb\<lparr>i_low := i_low cb + off, i_range := r', cb_state := st\<rparr>) = Inr cb'
    \<and> coded s (2 ^ s * off) st cb cb' \<and> i_range cb' = 2 ^ s * r'"
proof -
  have c: "core (i_range cb) (cb\<lparr>cb_state := st\<rparr>)" "i_queue (cb\<lparr>cb_state := st\<rparr>) \<le> 7" "r' < 512" using assms by (auto simp: cabac_ok_def)
  obtain s cb' where r: "x264_cabac_encode_renorm (cb\<lparr>cb_state := st, i_low := i_low cb + off, i_range := r'\<rparr>) = Inr cb'"
      "moved s (2 ^ s * off) (2 ^ s * r') (cb\<lparr>cb_state := st\<rparr>) (cb'\<lparr>i_range := i_range cb\<rparr>)" "i_range cb' = 2 ^ s * r'"
      "256 \<le> 2 ^ s * r'" "2 ^ s * r' < 512"
    using renorm_ok[OF c(1,2) assms(2,3) c(3) assms(4)] by auto
  have "2 ^ s * off + 2 ^ s * r' \<le> 2 ^ s * i_range cb" using assms(4) by (simp flip: distrib_left)
  then have "coded s (2 ^ s * off) st cb cb'"
    using r(2-5) assms(2,5) by (simp add: coded_def moved_def same_but_bytes_def cabac_ok_def)
  moreover have "cb\<lparr>cb_state := st, i_low := i_low cb + off, i_range := r'\<rparr> = cb\<lparr>i_low := i_low cb + off, i_range := r', cb_state := st\<rparr>"
    by (cases cb) simp
  ultimately show ?thesis using r(1,3) by metis
qed

lemma decision_coded:
  assumes "cabac_ok cb" "i < length (cb_state cb)"
  defines "lps \<equiv> rangeTabLPS ! fst (ctx_abs (cb_state cb ! i)) ! nat (i_range cb div 64 mod 4)"
    and "mps \<equiv> snd (ctx_abs (cb_state cb ! i))"
  shows "\<exists>s cb'. x264_cabac_encode_decision i b cb = Inr cb'
    \<and> coded s (2 ^ s * (if b = mps then 0 else i_range cb - lps)) ((cb_state cb)[i := x264_cabac_transition ! (cb_state cb ! i) ! of_bool b]) cb cb'
    \<and> i_range cb' = 2 ^ s * (if b = mps then i_range cb - lps else lps)"
    and "6 \<le> lps" "lps + 128 \<le> i_range cb"
proof -
  define st where "st = cb_state cb ! i"
  note C = assms(1)[unfolded cabac_ok_def]
  have ok: "state_ok st" using C assms(2) by (simp add: st_def list_all_length)
  define q where "q = nat (i_range cb div 64 mod 4)"
  have q: "q < 4" "int q = i_range cb div 64 mod 4" by (simp_all add: q_def nat_less_iff)
  have "i_range cb div 64 \<in> {4, 5, 6, 7}" using C by auto
  then have "int q + 4 = i_range cb div 64" using q(2) by auto
  then have q4: "64 * (int q + 4) \<le> i_range cb" by simp
  have p: "fst (ctx_abs st) \<le> 62" using ok by (cases rule: ctx_abs_cases) simp_all
  show lps: "6 \<le> lps" "lps + 128 \<le> i_range cb"
    using lps_bounds[OF p q(1)] q4 by (simp_all add: lps_def q_def flip: st_def)
  have code_lps: "x264_cabac_range_lps ! st ! nat (drop_bit 6 (i_range cb) AND 3) = lps"
  proof -
    have "drop_bit 6 (i_range cb) AND 3 = take_bit 2 (drop_bit 6 (i_range cb))" by (simp add: take_bit_eq_mask mask_eq_exp_minus_1)
    then show ?thesis using lps_row[OF ok] by (simp add: lps_def drop_bit_eq_div take_bit_eq_mod flip: st_def)
  qed
  define new where "new = (cb_state cb)[i := x264_cabac_transition ! st ! of_bool b]"
  have new: "list_all state_ok new"
    using C transition_state[OF ok, of b] set_update_subset_insert[of "cb_state cb" i "x264_cabac_transition ! st ! of_bool b"]
    unfolding new_def list_all_iff by blast
  define off where "off = (if b = mps then 0 else i_range cb - lps)"
  define r where "r = (if b = mps then i_range cb - lps else lps)"
  have eq: "(of_bool b \<noteq> drop_bit 6 st) = (b \<noteq> mps)" using mps_bit[OF ok] by (simp add: mps_def flip: st_def)
  have "x264_cabac_encode_decision i b cb = x264_cabac_encode_renorm (cb\<lparr>i_low := i_low cb + off, i_range := r, cb_state := new\<rparr>)"
    unfolding x264_cabac_encode_decision_def Let_def st_def[symmetric] code_lps eq
    using assms(2) by (cases "b = mps") (simp_all add: off_def r_def new_def)
  moreover have "0 \<le> off" "6 \<le> r" "off + r \<le> i_range cb" using lps by (auto simp: off_def r_def)
  ultimately show "\<exists>s cb'. x264_cabac_encode_decision i b cb = Inr cb'
      \<and> coded s (2 ^ s * (if b = mps then 0 else i_range cb - lps)) ((cb_state cb)[i := x264_cabac_transition ! (cb_state cb ! i) ! of_bool b]) cb cb'
      \<and> i_range cb' = 2 ^ s * (if b = mps then i_range cb - lps else lps)"
    using renorm_coded[OF assms(1) _ _ _ new, of off r] unfolding off_def[symmetric] r_def[symmetric] new_def st_def by metis
qed

lemma terminal_coded:
  assumes "cabac_ok cb"
  shows "\<exists>s cb'. x264_cabac_encode_terminal cb = Inr cb' \<and> coded s 0 (cb_state cb) cb cb' \<and> i_range cb' = 2 ^ s * (i_range cb - 2)"
proof -
  note C = assms[unfolded cabac_ok_def]
  have "x264_cabac_encode_terminal cb = x264_cabac_encode_renorm (cb\<lparr>i_low := i_low cb + 0, i_range := i_range cb - 2, cb_state := cb_state cb\<rparr>)"
    by (simp add: x264_cabac_encode_terminal_def)
  then show ?thesis using renorm_coded[OF assms, of 0 "i_range cb - 2" "cb_state cb"] C by auto
qed

text \<open>Bits that bypass the contexts, one or several at a time.\<close>

lemma bits_coded:
  assumes "cabac_ok cb" "s \<le> 8" "0 \<le> v" "v < 2 ^ s"
  shows "\<exists>cb'. x264_cabac_putbyte (cb\<lparr>i_low := push_bit s (i_low cb) + v * i_range cb, i_queue := i_queue cb + int s\<rparr>) = Inr cb'
    \<and> coded s (v * i_range cb) (cb_state cb) cb cb' \<and> i_range cb' = i_range cb"
proof -
  note C = assms(1)[unfolded cabac_ok_def]
  have "(v + 1) * i_range cb \<le> 2 ^ s * i_range cb" using assms(4) C by (intro mult_right_mono) simp_all
  then have v: "v * i_range cb + i_range cb \<le> 2 ^ s * i_range cb" "0 \<le> v * i_range cb" using assms(3) C by (simp_all add: algebra_simps)
  have "\<exists>cb'. x264_cabac_putbyte (cb\<lparr>i_low := 2 ^ s * i_low cb + v * i_range cb, i_queue := i_queue cb + int s\<rparr>) = Inr cb'
      \<and> moved s (v * i_range cb) (i_range cb) cb cb'"
    by (rule step_putbyte) (use C assms(2) v in simp_all)
  then show ?thesis using v C by (auto simp: coded_def moved_def same_but_bytes_def cabac_ok_def push_bit_eq_mult algebra_simps)
qed

lemma bypass_coded:
  assumes "cabac_ok cb"
  shows "\<exists>cb'. x264_cabac_encode_bypass b cb = Inr cb' \<and> coded 1 (of_bool b * i_range cb) (cb_state cb) cb cb' \<and> i_range cb' = i_range cb"
proof -
  have "(- of_bool b AND i_range cb) = of_bool b * i_range cb" by (cases b) simp_all
  then show ?thesis using bits_coded[OF assms, of 1 "of_bool b"] unfolding x264_cabac_encode_bypass_def by (cases b) simp_all
qed

lemma coded_trans:
  assumes "coded s off st cb cb'" "coded s' off' st' cb' cb''"
  shows "coded (s + s') (2 ^ s' * off + off') st' cb cb''"
proof -
  have "2 ^ s' * (off + i_range cb') \<le> 2 ^ s' * (2 ^ s * i_range cb)"
    using assms(1) by (intro mult_left_mono) (simp_all add: coded_def)
  then have "2 ^ s' * off + off' + i_range cb'' \<le> 2 ^ (s + s') * i_range cb"
    using assms(2) by (simp add: coded_def power_add algebra_simps)
  then show ?thesis using assms by (auto simp: coded_def power_add algebra_simps)
qed

text \<open>
  The registers between symbols are small, so that the shifts of a symbol (by at most nine bits) and the
  additions of the code stay within a 32-bit integer.
\<close>

lemma registers_fit:
  assumes "cabac_ok cb" "s \<le> 9"
  shows "2 ^ s * (i_low cb + i_range cb) < 2 ^ 31"
proof -
  have "(2 :: int) ^ nat (i_queue cb + 9) \<le> 2 ^ 16" using assms(1) by (intro power_increasing) (auto simp: cabac_ok_def)
  then have "i_low cb + i_range cb \<le> 3 * 2 ^ 16" "0 \<le> i_low cb + i_range cb" using assms(1) by (auto simp: cabac_ok_def core_def)
  moreover have "(2 :: int) ^ s \<le> 2 ^ 9" using assms(2) by (intro power_increasing) simp_all
  ultimately have "2 ^ s * (i_low cb + i_range cb) \<le> 2 ^ 9 * (3 * 2 ^ 16)" by (intro mult_mono) simp_all
  then show ?thesis by simp
qed

text \<open>Estimating the cost of a decision changes the contexts as encoding it does.\<close>

lemma size_decision_state:
  assumes "cabac_ok cb" "i < length (cb_state cb)"
  shows "\<exists>cb1 cb2. x264_cabac_size_decision i b cb = Inr cb1 \<and> x264_cabac_encode_decision i b cb = Inr cb2
    \<and> cb_state cb1 = cb_state cb2 \<and> cb_state cb1 ! i = fst (x264_cabac_size_decision2 (cb_state cb ! i) b)"
  using decision_coded(1)[OF assms, of b] assms(2) by (auto simp: x264_cabac_size_decision_def x264_cabac_size_decision2_def Let_def coded_def)

end
