(* ===== verification/X264_Cabac_Roundtrip.thy ===== *)
theory X264_Cabac_Roundtrip
  imports X264_Cabac
begin

text \<open>
  The arithmetic decoder of the standard, run on the bytes that the encoder of x264 wrote, reads
  the symbols that were encoded. The code word of the whole slice lies in every interval that the
  encoder went through; the decoder's offset is the distance of the code word from the lower end.
\<close>

section \<open>Suffixes and the flush\<close>

lemma zdiv_less:
  assumes "0 < c" "x < b * c"
  shows "x div c < (b :: int)"
proof -
  have "x div c * c \<le> x" using assms(1) by (metis div_mult_mod_eq le_add_same_cancel1 pos_mod_sign)
  then have "x div c * c < b * c" using assms(2) by linarith
  then show ?thesis using assms(1) by (simp add: mult_less_cancel_right)
qed

lemma ue_loop_coded:
  assumes "cabac_ok cb" "1 \<le> i" "i \<le> 8" "i \<le> k" "8 dvd (k - i)" "0 \<le> x" "i = 8 \<or> x < 2 ^ k"
  shows "\<exists>cb'. ue_loop x k i cb = Inr cb' \<and> coded k (x mod 2 ^ k * i_range cb) (cb_state cb) cb cb' \<and> i_range cb' = i_range cb"
  using assms
proof (induction x k i cb rule: ue_loop.induct)
  case (1 x k i cb)
  define v where "v = drop_bit (k - i) x AND 0xff"
  have v: "v = x mod 2 ^ k div 2 ^ (k - i)" "0 \<le> v" "v < 2 ^ i"
  proof -
    have k: "(2 :: int) ^ k = 2 ^ (k - i) * 2 ^ i" using 1(5) by (simp flip: power_add)
    have d: "x mod 2 ^ k div 2 ^ (k - i) = x div 2 ^ (k - i) mod 2 ^ i"
      unfolding k by (simp add: zmod_zmult2_eq)
    have "x div 2 ^ (k - i) mod 2 ^ i = x div 2 ^ (k - i) mod 256"
    proof (cases "i = 8")
      case False
      then have "x < 2 ^ i * 2 ^ (k - i)" using 1(8) k by (simp add: mult.commute)
      then have "x div 2 ^ (k - i) < 2 ^ i" by (intro zdiv_less) simp_all
      moreover have "(2 :: int) ^ i \<le> 2 ^ 8" using 1(4) by (intro power_increasing) simp_all
      moreover have "0 \<le> x div 2 ^ (k - i)" using 1(7) by (simp add: pos_imp_zdiv_nonneg_iff)
      ultimately show ?thesis by simp
    qed simp
    then show "v = x mod 2 ^ k div 2 ^ (k - i)" using d by (simp add: v_def and_ff drop_bit_eq_div)
    then show "0 \<le> v" "v < 2 ^ i" using d by simp_all
  qed
  have x: "x mod 2 ^ k = 2 ^ (k - i) * v + x mod 2 ^ (k - i)"
  proof -
    have "x mod 2 ^ k mod 2 ^ (k - i) = x mod 2 ^ (k - i)" using 1(5) by (simp add: mod_mod_cancel le_imp_power_dvd)
    then show ?thesis using v(1) mult_div_mod_eq[of "2 ^ (k - i)" "x mod 2 ^ k"] by simp
  qed
  obtain cb1 where c1: "x264_cabac_putbyte (cb\<lparr>i_low := push_bit i (i_low cb) + v * i_range cb, i_queue := i_queue cb + int i\<rparr>) = Inr cb1"
      "coded i (v * i_range cb) (cb_state cb) cb cb1" "i_range cb1 = i_range cb"
    using bits_coded[OF 1(2,4) v(2,3)] by blast
  have loop: "ue_loop x k i cb = (if 0 < k - i \<and> 0 < i then ue_loop x (k - i) 8 cb1 else Inr cb1)"
    using c1(1) by (simp only: ue_loop.simps[of x k i cb] Let_def v_def bindR_Inr)
  show ?case
  proof (cases "k - i = 0")
    case True
    then have "ue_loop x k i cb = Inr cb1" "k = i" using loop 1(5) by simp_all
    then show ?thesis using c1 x by simp
  next
    case False
    then have d: "8 \<le> k - i" "8 dvd (k - i - 8)" using 1(6) dvd_diff_nat[OF 1(6), of 8] by (auto dest: dvd_imp_le)
    have ok: "cabac_ok cb1" "cb_state cb1 = cb_state cb" using c1(2) by (simp_all add: coded_def)
    obtain cb2 where c2: "ue_loop x (k - i) 8 cb1 = Inr cb2" "coded (k - i) (x mod 2 ^ (k - i) * i_range cb1) (cb_state cb1) cb1 cb2"
        "i_range cb2 = i_range cb1"
      using 1(1)[of "k - i" cb1] False 1(3,7) d ok(1) by auto
    have "coded (i + (k - i)) (2 ^ (k - i) * (v * i_range cb) + x mod 2 ^ (k - i) * i_range cb1) (cb_state cb1) cb cb2"
      by (rule coded_trans[OF c1(2) c2(2)])
    then have "coded k (x mod 2 ^ k * i_range cb) (cb_state cb) cb cb2"
      using 1(5) c1(3) ok(2) by (simp add: x algebra_simps)
    then show ?thesis using c1(3) c2 False 1(3) loop by simp
  qed
qed

lemma ue_prefix_spec:
  "ue_prefix e v = (k, w) \<Longrightarrow> e \<le> k \<and> w < 2 ^ k \<and> v + 2 ^ e = w + 2 ^ k"
proof (induction e v rule: ue_prefix.induct)
  case (1 e v)
  show ?case
  proof (cases "2 ^ e \<le> v")
    case True
    then have "ue_prefix (e + 1) (v - 2 ^ e) = (k, w)" using 1(2) by (simp add: ue_prefix.simps[of e v])
    from 1(1)[OF True this] show ?thesis using True by auto
  qed (use 1(2) in \<open>auto simp: ue_prefix.simps[of e v]\<close>)
qed

text \<open>The bits of a suffix: ones that raise the order from \<open>e\<close> to \<open>k\<close>, a zero, and \<open>k\<close> bits.\<close>

definition ue_code :: "nat \<Rightarrow> nat \<Rightarrow> nat \<Rightarrow> int" where
  "ue_code m k w = (2 ^ m - 1) * 2 ^ (k + 1) + int w"

lemma ue_code_bound: "w < 2 ^ k \<Longrightarrow> 0 \<le> ue_code m k w \<and> ue_code m k w < 2 ^ (m + 1 + k)"
proof -
  assume "w < 2 ^ k"
  then have "int w < 2 ^ k" by simp
  moreover have "(2 ^ m - 1) * 2 ^ (k + 1) = (2 :: int) ^ (m + 1 + k) - 2 * 2 ^ k" by (simp add: algebra_simps power_add)
  moreover have "0 \<le> (2 ^ m - 1) * (2 :: int) ^ (k + 1)" by simp
  moreover have "(0 :: int) < 2 ^ k" by simp
  ultimately show ?thesis unfolding ue_code_def by linarith
qed

lemma ue_bypass_coded:
  assumes "cabac_ok cb" "ue_prefix e v = (k, w)" "2 * k + 1 - e \<le> 31"
  shows "\<exists>cb'. x264_cabac_encode_ue_bypass e v cb = Inr cb'
    \<and> coded (2 * k + 1 - e) (ue_code (k - e) k w * i_range cb) (cb_state cb) cb cb' \<and> i_range cb' = i_range cb"
proof -
  have k: "e \<le> k" "w < 2 ^ k" using ue_prefix_spec[OF assms(2)] by auto
  define T where "T = 2 * k + 1 - e"
  have T: "T = (k - e) + 1 + k" using k(1) by (simp add: T_def)
  define x where "x = ue_code (k - e) k w"
  have x: "0 \<le> x" "x < 2 ^ T" using ue_code_bound[OF k(2), of "k - e"] unfolding T x_def by auto
  have "(2 :: int) ^ T \<le> 2 ^ 31" using assms(3) by (intro power_increasing) (simp_all add: T_def)
  then have i32: "int32 x = Inr x" using x by (intro int32_ok) simp_all
  define i where "i = ((T - 1) AND 7) + 1"
  have a7: "(T - 1) AND 7 = (T - 1) mod 8"
    using take_bit_eq_mask[of 3 "T - 1"] by (simp add: mask_eq_exp_minus_1 take_bit_eq_mod)
  have T1: "1 \<le> T" by (simp add: T)
  have i: "1 \<le> i" "i \<le> 8" using a7 by (simp_all add: i_def)
  have Ti: "T - 1 = 8 * ((T - 1) div 8) + (T - 1) mod 8" by simp
  have "i \<le> T" "8 dvd T - i"
  proof -
    have *: "T = 8 * ((T - 1) div 8) + i" unfolding i_def a7 using Ti T1 by linarith
    show "i \<le> T" by (subst *) simp
    have "T - i = 8 * ((T - 1) div 8)" using * by linarith
    then show "8 dvd T - i" by (metis dvd_triv_left)
  qed
  then obtain cb' where c: "ue_loop x T i cb = Inr cb'" "coded T (x mod 2 ^ T * i_range cb) (cb_state cb) cb cb'" "i_range cb' = i_range cb"
    using ue_loop_coded[OF assms(1) i, of T x] x by auto
  have "push_bit (k + 1) (push_bit (k - e) 1 - 1) + int w = x" by (simp add: x_def ue_code_def push_bit_eq_mult)
  then have "x264_cabac_encode_ue_bypass e v cb = ue_loop x T i cb"
    by (simp add: x264_cabac_encode_ue_bypass_def assms(2) i32 Let_def T_def i_def)
  then show ?thesis using c x by (auto simp: T_def x_def)
qed

text \<open>
  The last bit of the code word is one, the stop bit of the slice; what the flush adds behind it does
  not change the code word.
\<close>

lemma putbyte_flush:
  assumes "core 512 cb" "0 \<le> i_queue cb" "i_queue cb \<le> 16" "i_low cb mod 2 ^ 10 = 2 ^ 9"
  shows "\<exists>cb'. x264_cabac_putbyte cb = Inr cb' \<and> core 512 cb' \<and> enc_L cb' = enc_L cb \<and> enc_N cb' = enc_N cb \<and> same_but_bytes cb cb'
    \<and> 0 \<le> i_queue cb' \<and> i_queue cb' \<le> max 7 (i_queue cb - 8) \<and> i_low cb' mod 2 ^ 10 = 2 ^ 9"
proof -
  obtain cb' where p: "x264_cabac_putbyte cb = Inr cb'" "core 512 cb'" "enc_L cb' = enc_L cb" "enc_N cb' = enc_N cb" "same_but_bytes cb cb'"
      "i_queue cb' = (if 8 \<le> i_queue cb then i_queue cb - 8 else i_queue cb)"
      "8 \<le> i_queue cb \<longrightarrow> i_low cb' = i_low cb mod 2 ^ nat (i_queue cb + 2)"
    using putbyte_ok[OF assms(1)] by blast
  have "i_low cb' mod 2 ^ 10 = 2 ^ 9"
  proof (cases "8 \<le> i_queue cb")
    case True
    have "i_low cb mod 2 ^ nat (i_queue cb + 2) mod 2 ^ 10 = i_low cb mod 2 ^ 10"
      by (rule mod_mod_cancel) (rule le_imp_power_dvd, use True in simp)
    then show ?thesis using p(7) True assms(4) by (simp only: if_True simp_thms)
  next
    case False
    then have "cb' = cb" using p(1) by (simp add: x264_cabac_putbyte_def)
    then show ?thesis using assms(4) by simp
  qed
  then show ?thesis using p assms(2) by (intro exI[of _ cb']) auto
qed

lemma signature_bit:
  assumes "1 \<le> s" "x mod 2 ^ 10 = (2 ^ 9 :: int)" "b = 0 \<or> b = 1"
  shows "\<exists>off. push_bit s x OR push_bit 10 b = 2 ^ s * x + off \<and> (off = 0 \<or> off = 2 ^ 10 \<and> 2 \<le> s)"
proof (cases "b = 0")
  case True
  then show ?thesis by (simp add: push_bit_eq_mult)
next
  case False
  have "push_bit s x OR push_bit 10 b = set_bit 10 (push_bit s x)" using False assms(3) by (simp add: set_bit_eq_or)
  also have "\<dots> = push_bit s x + of_bool (\<not> bit (push_bit s x) 10) * 2 ^ 10" by (rule set_bit_eq)
  finally have *: "push_bit s x OR push_bit 10 b = 2 ^ s * x + of_bool (\<not> bit (push_bit s x) 10) * 2 ^ 10"
    by (simp add: push_bit_eq_mult mult.commute)
  have "bit (push_bit s x) 10" if "s = 1"
  proof -
    have "bit x 9 = bit (take_bit 10 x) 9" by (simp add: bit_take_bit_iff)
    also have "\<dots> = bit (2 ^ 9 :: int) 9" using assms(2) by (simp only: take_bit_eq_mod)
    finally have "bit x 9" by simp
    moreover have "bit (push_bit s x) 10 = bit x 9" unfolding bit_push_bit_iff that by simp
    ultimately show ?thesis by blast
  qed
  then have "2 \<le> s" if "\<not> bit (push_bit s x) 10" using that assms(1) by (cases "s = 1") auto
  then show ?thesis using * by (intro exI[of _ "of_bool (\<not> bit (push_bit s x) 10) * 2 ^ 10"]) auto
qed

lemma flush_coded:
  assumes "cabac_ok cb"
  shows "\<exists>cb' word. x264_cabac_encode_flush i_frame cb = Inr cb' \<and> p_start cb' = p_start cb
    \<and> take (p_start cb) (cb_mem cb') = take (p_start cb) (cb_mem cb)
    \<and> enc_L cb + i_range cb - 2 \<le> word \<and> word < enc_L cb + i_range cb \<and> odd word
    \<and> 9 + enc_N cb \<le> 8 * length (cb_bytes cb')
    \<and> be_val (cb_bytes cb') div 2 ^ (8 * length (cb_bytes cb') - (9 + enc_N cb)) = word"
proof -
  note C = assms[unfolded cabac_ok_def]
  define off1 where "off1 = i_range cb - 2 + of_bool (even (i_low cb + (i_range cb - 2)))"
  have low1: "(i_low cb + (i_range cb - 2)) OR 1 = i_low cb + off1" by (simp add: off1_def or_one_eq)
  have off1: "i_range cb - 2 \<le> off1" "off1 < i_range cb" by (simp_all add: off1_def)
  have odd1: "odd (i_low cb + off1)"
    by (cases "even (i_low cb + (i_range cb - 2))") (simp_all add: off1_def algebra_simps)
  define c1 where "c1 = cb\<lparr>i_low := 2 ^ 9 * i_low cb + 2 ^ 9 * off1, i_queue := i_queue cb + int 9\<rparr>"
  have c1: "core 512 c1" "enc_L c1 = 2 ^ 9 * enc_L cb + 2 ^ 9 * off1" "enc_N c1 = enc_N cb + 9"
    unfolding c1_def by (rule core_step[of "i_range cb" cb "2 ^ 9 * off1" 512 9]; use C off1 in simp)+
  have m1: "i_low c1 mod 2 ^ 10 = 2 ^ 9"
  proof -
    have "(2 ^ 9 * (i_low cb + off1)) mod (2 ^ 9 * 2) = 2 ^ 9 * ((i_low cb + off1) mod 2)" by (rule mult_mod_right[symmetric])
    also have "(i_low cb + off1) mod 2 = 1" using odd1 by (simp only: odd_iff_mod_2_eq_one)
    finally show ?thesis by (simp add: c1_def distrib_left)
  qed
  have q1: "0 \<le> i_queue c1" "i_queue c1 \<le> 16" using C by (simp_all add: c1_def core_def)
  obtain c2 where c2: "x264_cabac_putbyte c1 = Inr c2" "core 512 c2" "enc_L c2 = enc_L c1" "enc_N c2 = enc_N c1" "same_but_bytes c1 c2"
      "0 \<le> i_queue c2" "i_queue c2 \<le> max 7 (i_queue c1 - 8)" "i_low c2 mod 2 ^ 10 = 2 ^ 9"
    using putbyte_flush[OF c1(1) q1 m1] by blast
  have q2: "i_queue c2 \<le> 16" using c2(7) q1 by linarith
  obtain c3 where c3: "x264_cabac_putbyte c2 = Inr c3" "core 512 c3" "enc_L c3 = enc_L c2" "enc_N c3 = enc_N c2" "same_but_bytes c2 c3"
      "0 \<le> i_queue c3" "i_queue c3 \<le> max 7 (i_queue c2 - 8)" "i_low c3 mod 2 ^ 10 = 2 ^ 9"
    using putbyte_flush[OF c2(2) c2(6) q2 c2(8)] by blast
  have q3: "i_queue c3 \<le> 7" using c3(7) c2(7) q1 by linarith
  define s where "s = nat (8 - i_queue c3)"
  have s: "1 \<le> s" "i_queue c3 + int s = 8" using q3 c3(6) by (simp_all add: s_def)
  define b :: int where "b = drop_bit (i_frame AND 31) 0x35a4e4f5 AND 1"
  have b: "b = 0 \<or> b = 1" by (auto simp: b_def and_one_eq)
  obtain off where off: "push_bit s (i_low c3) OR push_bit 10 b = 2 ^ s * i_low c3 + off" "off = 0 \<or> off = 2 ^ 10 \<and> 2 \<le> s"
    using signature_bit[OF s(1) c3(8) b] by blast
  have fits: "off + 512 \<le> 2 ^ s * 512"
  proof (cases "off = 0")
    case True
    then show ?thesis by simp
  next
    case False
    then have "(2 :: int) ^ 2 \<le> 2 ^ s" using off(2) by (intro power_increasing) simp_all
    then show ?thesis using False off(2) by simp
  qed
  define c4 where "c4 = c3\<lparr>i_low := 2 ^ s * i_low c3 + off, i_queue := i_queue c3 + int s\<rparr>"
  have c4: "core 512 c4" "enc_L c4 = 2 ^ s * enc_L c3 + off" "enc_N c4 = enc_N c3 + s"
    unfolding c4_def by (rule core_step[OF c3(2), of off 512 s]; use off(2) fits in auto)+
  obtain c5 where c5: "x264_cabac_putbyte c4 = Inr c5" "core 512 c5" "enc_L c5 = enc_L c4" "enc_N c5 = enc_N c4" "same_but_bytes c4 c5"
      "i_queue c5 = (if 8 \<le> i_queue c4 then i_queue c4 - 8 else i_queue c4)"
      "8 \<le> i_queue c4 \<longrightarrow> i_low c5 = i_low c4 mod 2 ^ nat (i_queue c4 + 2)"
    using putbyte_ok[OF c4(1)] by blast
  have q4: "i_queue c4 = 8" using s(2) by (simp add: c4_def)
  define cb' where "cb' = flush_outstanding c5"
  have run: "x264_cabac_encode_flush i_frame cb = Inr cb'"
  proof -
    have 1: "cb\<lparr>i_low := push_bit 9 ((i_low cb + (i_range cb - 2)) OR 1), i_queue := i_queue cb + 9\<rparr> = c1"
      unfolding low1 by (simp add: c1_def push_bit_eq_mult)
    have 2: "c3\<lparr>i_low := push_bit (nat (8 - i_queue c3)) (i_low c3) OR push_bit 10 (drop_bit (i_frame AND 31) 0x35a4e4f5 AND 1), i_queue := 8\<rparr> = c4"
      unfolding s_def[symmetric] b_def[symmetric] off(1) by (simp add: c4_def s(2))
    show ?thesis unfolding x264_cabac_encode_flush_def 1 c2(1) bindR_Inr c3(1) 2 c5(1) cb'_def ..
  qed
  have same: "same_but_bytes cb c5" using c2(5) c3(5) c5(5) by (simp add: same_but_bytes_def c1_def c4_def)
  have bytes: "cb_bytes cb' = cb_bytes c5 @ replicate (nat (i_bytes_outstanding c5)) 0xff" "p_start cb' = p_start cb"
    "take (p_start cb) (cb_mem cb') = take (p_start cb) (cb_mem cb)"
    using c5(2) same by (auto simp: cb'_def flush_outstanding_def cb_bytes_def core_def same_but_bytes_def)
  define word where "word = enc_L cb + off1"
  have "enc_L c5 = be_val (cb_bytes cb') * 2 ^ 10 + i_low c5"
    using q4 c5(6) unfolding enc_L_def bytes(1) be_val_replicate be_val_ones settled_def by simp
  moreover have "enc_L c5 = 2 ^ s * (2 ^ 9 * word) + off"
    using c5(3) c4(2) c3(3) c2(3) c1(2) by (simp add: word_def distrib_left)
  moreover have "0 \<le> i_low c5" "i_low c5 < 2 ^ 10" using c5(7) q4 by simp_all
  ultimately have val: "be_val (cb_bytes cb') = (2 ^ s * (2 ^ 9 * word) + off) div 2 ^ 10" by simp
  have len: "8 * length (cb_bytes cb') = enc_N cb + 8 + s"
    using c5(4,6) c4(3) c3(4) c2(4) c1(3) q4 unfolding enc_N_def[of c5] bytes(1) by simp
  obtain t where t: "s = Suc t" using s(1) by (cases s) auto
  have "be_val (cb_bytes cb') = 2 ^ t * word + off div 2 ^ 10"
  proof -
    have "2 ^ s * (2 ^ 9 * word) + off = off + (2 ^ t * word) * 2 ^ 10" by (simp add: t)
    then show ?thesis unfolding val by (simp only: div_mult_self1) simp
  qed
  moreover have "(2 ^ t * word + off div 2 ^ 10) div 2 ^ t = word"
  proof -
    have "off div 2 ^ 10 < 2 ^ t" "0 \<le> off div 2 ^ 10" using off(2) t by (auto intro: one_less_power)
    then show ?thesis by simp
  qed
  ultimately have "be_val (cb_bytes cb') div 2 ^ (8 * length (cb_bytes cb') - (9 + enc_N cb)) = word" by (simp add: len t)
  moreover have "odd word"
  proof -
    have "even (2 ^ nat (i_queue cb + 10) :: int)" using C by (simp add: core_def)
    then show ?thesis using odd1 by (simp add: word_def enc_L_def add.assoc)
  qed
  ultimately show ?thesis
    using run bytes(2,3) off1(1,2) len t by (intro exI[of _ cb'] exI[of _ word]) (simp add: word_def)
qed

section \<open>The decoder\<close>

text \<open>The number that the first \<open>n\<close> bits stand for.\<close>

definition pref :: "bool list \<Rightarrow> nat \<Rightarrow> int" where
  "pref bs n = int (of_bits (take n bs))"

lemma of_bits_snoc: "of_bits (bs @ [b]) = 2 * of_bits bs + of_bool b"
  by (induction bs) (simp_all add: algebra_simps)

lemma pref_Suc: "n < length bs \<Longrightarrow> pref bs (Suc n) = 2 * pref bs n + of_bool (bs ! n)"
  by (simp add: pref_def take_Suc_conv_app_nth of_bits_snoc)

lemma pref_add: "n + s \<le> length bs \<Longrightarrow> 2 ^ s * pref bs n \<le> pref bs (n + s) \<and> pref bs (n + s) < 2 ^ s * (pref bs n + 1)"
proof (induction s)
  case (Suc s)
  then have IH: "2 ^ s * pref bs n \<le> pref bs (n + s)" "pref bs (n + s) + 1 \<le> 2 ^ s * (pref bs n + 1)" by auto
  have "pref bs (n + Suc s) = 2 * pref bs (n + s) + of_bool (bs ! (n + s))" using Suc(2) pref_Suc[of "n + s" bs] by simp
  moreover have "2 * (2 ^ s * pref bs n) \<le> 2 * pref bs (n + s)" "2 * (pref bs (n + s) + 1) \<le> 2 * (2 ^ s * (pref bs n + 1))"
    using IH by simp_all
  ultimately show ?case by (cases "bs ! (n + s)") auto
qed simp

text \<open>The code word lies in an interval.\<close>

definition hits :: "bool list \<Rightarrow> int \<Rightarrow> int \<Rightarrow> nat \<Rightarrow> bool" where
  "hits bs L R N \<longleftrightarrow> 9 + N \<le> length bs \<and> L \<le> pref bs (9 + N) \<and> pref bs (9 + N) < L + R"

lemma hits_back:
  assumes "hits bs (2 ^ s * L + off) R' (N + s)" "0 \<le> off" "off + R' \<le> 2 ^ s * R"
  shows "hits bs L R N"
proof -
  have h: "9 + N + s \<le> length bs" "2 ^ s * L + off \<le> pref bs (9 + N + s)" "pref bs (9 + N + s) < 2 ^ s * L + off + R'"
    using assms(1) by (simp_all add: hits_def add.assoc)
  note p = pref_add[OF h(1)]
  have "2 ^ s * L < 2 ^ s * (pref bs (9 + N) + 1)" using h(2) p assms(2) by linarith
  then have "L < pref bs (9 + N) + 1" by simp
  moreover have "2 ^ s * pref bs (9 + N) < 2 ^ s * (L + R)" using h(3) p assms(3) by (simp add: distrib_left)
  then have "pref bs (9 + N) < L + R" by simp
  ultimately show ?thesis using h(1) by (simp add: hits_def)
qed

definition dec_at :: "bool list \<Rightarrow> (nat \<times> bool) list \<Rightarrow> int \<Rightarrow> int \<Rightarrow> nat \<Rightarrow> cabac_decoder" where
  "dec_at bs ctx L R N = \<lparr>d_range = R, d_offset = pref bs (9 + N) - L, d_bits = drop (9 + N) bs, d_ctx = ctx\<rparr>"

lemma dec_shift_at:
  assumes "9 + N < length bs"
  shows "dec_shift (dec_at bs ctx L R N) = Some (dec_at bs ctx (2 * L) R (Suc N))"
  using assms pref_Suc[OF assms] by (simp add: dec_shift_def dec_at_def Cons_nth_drop_Suc[symmetric])

lemma dec_renorm_at:
  assumes "9 + N + s \<le> length bs" "256 \<le> 2 ^ s * R" "2 ^ s * R < 512"
  shows "dec_renorm (dec_at bs ctx L R N) = Some (dec_at bs ctx (2 ^ s * L) (2 ^ s * R) (N + s))"
  using assms
proof (induction s arbitrary: L R N)
  case 0
  then show ?case by (simp add: dec_renorm.simps[of "dec_at bs ctx L R N"]) (simp add: dec_at_def)
next
  case (Suc s)
  have "2 ^ s * (2 * R) < 512" using Suc(4) by simp
  moreover have "(1 :: int) \<le> 2 ^ s" by simp
  ultimately have "R < 256"
    using mult_right_mono[of 1 "2 ^ s :: int" "2 * R"] by (cases "0 \<le> R") linarith+
  moreover have "(dec_at bs ctx (2 * L) R (Suc N))\<lparr>d_range := 2 * R\<rparr> = dec_at bs ctx (2 * L) (2 * R) (Suc N)" by (simp add: dec_at_def)
  moreover have "d_range (dec_at bs ctx L R N) = R" "d_range (dec_at bs ctx (2 * L) R (Suc N)) = R" by (simp_all add: dec_at_def)
  ultimately have "dec_renorm (dec_at bs ctx L R N) = dec_renorm (dec_at bs ctx (2 * L) (2 * R) (Suc N))"
    using dec_shift_at[of N bs ctx L R] Suc(2) by (simp add: dec_renorm.simps[of "dec_at bs ctx L R N"])
  also have "\<dots> = Some (dec_at bs ctx (2 ^ s * (2 * L)) (2 ^ s * (2 * R)) (Suc N + s))"
    by (rule Suc.IH) (use Suc(2-4) in simp_all)
  finally show ?case by (simp add: algebra_simps)
qed

lemma dec_bypass_at:
  assumes "hits bs (2 * L + of_bool b * R) R (Suc N)"
  shows "dec_bypass (dec_at bs ctx L R N) = Some (b, dec_at bs ctx (2 * L + of_bool b * R) R (Suc N))"
proof -
  have h: "9 + N < length bs" "2 * L + of_bool b * R \<le> pref bs (9 + Suc N)" "pref bs (9 + Suc N) < 2 * L + of_bool b * R + R"
    using assms by (simp_all add: hits_def)
  have "d_range (dec_at bs ctx (2 * L) R (Suc N)) \<le> d_offset (dec_at bs ctx (2 * L) R (Suc N)) \<longleftrightarrow> b"
    using h by (cases b) (simp_all add: dec_at_def)
  then show ?thesis
    using dec_shift_at[OF h(1), of ctx L R] by (cases b) (simp_all add: dec_bypass_def, simp add: dec_at_def)
qed

lemma int_less_pow: "w < 2 ^ k \<Longrightarrow> int w + 1 \<le> 2 ^ k"
proof -
  assume "w < 2 ^ k"
  then have "int w < int (2 ^ k)" by (simp only: of_nat_less_iff)
  then show ?thesis by (simp only: of_nat_power of_nat_numeral)
qed

lemma dec_fixed_at:
  assumes "hits bs (2 ^ n * L + int v * R) R (N + n)" "v < 2 ^ n" "0 < R"
  shows "dec_fixed n (dec_at bs ctx L R N) = Some (v, dec_at bs ctx (2 ^ n * L + int v * R) R (N + n))"
  using assms(1,2)
proof (induction n arbitrary: L N v)
  case (Suc n)
  define b where "b = (2 ^ n \<le> v)"
  define w where "w = v - of_bool b * 2 ^ n"
  have v: "v = of_bool b * 2 ^ n + w" "w < 2 ^ n" using Suc(3) by (auto simp: b_def w_def)
  have L: "2 ^ Suc n * L + int v * R = 2 ^ n * (2 * L + of_bool b * R) + int w * R" by (simp add: v(1) algebra_simps)
  have h: "hits bs (2 ^ n * (2 * L + of_bool b * R) + int w * R) R (Suc N + n)" using Suc(2) unfolding L by simp
  have "(int w + 1) * R \<le> 2 ^ n * R" using int_less_pow[OF v(2)] assms(3) by (intro mult_right_mono) simp_all
  then have "hits bs (2 * L + of_bool b * R) R (Suc N)"
    by (intro hits_back[OF h]) (use assms(3) in \<open>simp_all add: distrib_right\<close>)
  from dec_bypass_at[OF this] Suc.IH[OF h v(2)] show ?case unfolding L by (simp add: v(1))
qed simp

lemma dec_ue_at:
  assumes "hits bs (2 ^ (m + 1 + k) * L + ue_code m k w * R) R (N + (m + 1 + k))" "w < 2 ^ k" "0 < R" "k = e + m"
  shows "dec_ue e (dec_at bs ctx L R N)
    = Some (w + 2 ^ k - 2 ^ e, dec_at bs ctx (2 ^ (m + 1 + k) * L + ue_code m k w * R) R (N + (m + 1 + k)))"
  using assms(1,4)
proof (induction m arbitrary: e L N)
  case 0
  have L: "2 ^ (0 + 1 + k) * L + ue_code 0 k w * R = 2 ^ k * (2 * L) + int w * R" by (simp add: ue_code_def)
  have h: "hits bs (2 ^ k * (2 * L) + int w * R) R (Suc N + k)" using 0(1) unfolding L by simp
  have "(int w + 1) * R \<le> 2 ^ k * R" using int_less_pow[OF assms(2)] assms(3) by (intro mult_right_mono) simp_all
  then have "hits bs (2 * L) R (Suc N)"
    by (intro hits_back[OF h]) (use assms(3) in \<open>simp_all add: distrib_right\<close>)
  then have "hits bs (2 * L + of_bool False * R) R (Suc N)" by simp
  from dec_bypass_at[OF this, of ctx] have "dec_bypass (dec_at bs ctx L R N) = Some (False, dec_at bs ctx (2 * L) R (Suc N))" by simp
  then have "dec_ue e (dec_at bs ctx L R N) = dec_fixed k (dec_at bs ctx (2 * L) R (Suc N))"
    using 0(2) by (subst dec_ue.simps) simp
  then show ?case unfolding L dec_fixed_at[OF h assms(2,3)] using 0(2) by simp
next
  case (Suc m)
  have code: "ue_code (Suc m) k w = 2 ^ (m + 1 + k) + ue_code m k w" by (simp add: ue_code_def power_add algebra_simps)
  have L: "2 ^ (Suc m + 1 + k) * L + ue_code (Suc m) k w * R = 2 ^ (m + 1 + k) * (2 * L + R) + ue_code m k w * R"
    unfolding code by (simp add: algebra_simps)
  have h: "hits bs (2 ^ (m + 1 + k) * (2 * L + R) + ue_code m k w * R) R (Suc N + (m + 1 + k))" using Suc(2) unfolding L by simp
  note c = ue_code_bound[OF assms(2), of m]
  have "(ue_code m k w + 1) * R \<le> 2 ^ (m + 1 + k) * R" using c assms(3) by (intro mult_right_mono) simp_all
  then have "hits bs (2 * L + R) R (Suc N)"
    by (intro hits_back[OF h]) (use c assms(3) in \<open>simp_all add: distrib_right\<close>)
  then have "hits bs (2 * L + of_bool True * R) R (Suc N)" by simp
  note b = dec_bypass_at[OF this, of ctx]
  have "dec_ue (e + 1) (dec_at bs ctx (2 * L + R) R (Suc N))
      = Some (w + 2 ^ k - 2 ^ (e + 1), dec_at bs ctx (2 ^ (m + 1 + k) * (2 * L + R) + ue_code m k w * R) R (Suc N + (m + 1 + k)))"
    by (rule Suc.IH[OF h]) (use Suc(3) in simp)
  moreover have "(2 :: nat) ^ (e + 1) \<le> 2 ^ k" using Suc(3) by (intro power_increasing) simp_all
  ultimately show ?case unfolding L using b by (simp add: dec_ue.simps[of e "dec_at bs ctx L R N"])
qed

lemma dec_decision_at:
  assumes "i < length ctx" "ctx ! i = (p, mps)" "lps = rangeTabLPS ! p ! nat (R div 64 mod 4)"
    "off = (if b = mps then 0 else R - lps)" "r = (if b = mps then R - lps else lps)"
    "hits bs (2 ^ s * (L + off)) (2 ^ s * r) (N + s)" "256 \<le> 2 ^ s * r" "2 ^ s * r < 512"
  shows "dec_decision i (dec_at bs ctx L R N)
    = Some (b, dec_at bs (ctx[i := ctx_next b (p, mps)]) (2 ^ s * (L + off)) (2 ^ s * r) (N + s))"
proof -
  have "hits bs (L + off) r N" by (rule hits_back[of bs s "L + off" 0 "2 ^ s * r"]) (use assms(6) in simp_all)
  then have h: "L + off \<le> pref bs (9 + N)" "pref bs (9 + N) < L + off + r" by (simp_all add: hits_def)
  have test: "R - lps \<le> d_offset (dec_at bs ctx L R N) \<longleftrightarrow> b \<noteq> mps"
    using h assms(4,5) by (auto simp: dec_at_def split: if_splits)
  have "dec_renorm (dec_at bs (ctx[i := ctx_next b (p, mps)]) (L + off) r N)
      = Some (dec_at bs (ctx[i := ctx_next b (p, mps)]) (2 ^ s * (L + off)) (2 ^ s * r) (N + s))"
    by (rule dec_renorm_at) (use assms(6-8) in \<open>simp_all add: hits_def\<close>)
  moreover have "dec_decision i (dec_at bs ctx L R N)
      = map_option (\<lambda>d. (b, d)) (dec_renorm (dec_at bs (ctx[i := ctx_next b (p, mps)]) (L + off) r N))"
    using test assms(2,4,5) unfolding dec_decision_def by (auto simp: Let_def dec_at_def diff_diff_eq assms(3)[symmetric])
  ultimately show ?thesis by simp
qed

lemma dec_continue_at:
  assumes "hits bs (2 ^ s * L) (2 ^ s * (R - 2)) (N + s)" "256 \<le> 2 ^ s * (R - 2)" "2 ^ s * (R - 2) < 512"
  shows "dec_terminate (dec_at bs ctx L R N) = Some (False, dec_at bs ctx (2 ^ s * L) (2 ^ s * (R - 2)) (N + s))"
proof -
  have "hits bs L (R - 2) N" by (rule hits_back[of bs s L 0 "2 ^ s * (R - 2)"]) (use assms(1) in simp_all)
  then have "\<not> R - 2 \<le> pref bs (9 + N) - L" by (simp add: hits_def)
  moreover have "(dec_at bs ctx L R N)\<lparr>d_range := d_range (dec_at bs ctx L R N) - 2\<rparr> = dec_at bs ctx L (R - 2) N" by (simp add: dec_at_def)
  moreover have "dec_renorm (dec_at bs ctx L (R - 2) N) = Some (dec_at bs ctx (2 ^ s * L) (2 ^ s * (R - 2)) (N + s))"
    by (rule dec_renorm_at) (use assms in \<open>simp_all add: hits_def\<close>)
  ultimately show ?thesis by (simp add: dec_terminate_def Let_def) (simp add: dec_at_def)
qed

section \<open>Sequences of symbols\<close>

fun symbol_ok :: "nat \<Rightarrow> symbol \<Rightarrow> bool" where
  "symbol_ok n (Decision i b) = (i < n)"
| "symbol_ok n (Bypass b) = True"
| "symbol_ok n (UE_Bypass e v) = (2 * fst (ue_prefix e v) + 1 - e \<le> 31)"
| "symbol_ok n Continue = True"

text \<open>Where the decoder stands when the encoder stands at \<open>cb\<close>.\<close>

definition decoder_of :: "bool list \<Rightarrow> x264_cabac_t \<Rightarrow> cabac_decoder" where
  "decoder_of bs cb = dec_at bs (map ctx_abs (cb_state cb)) (enc_L cb) (i_range cb) (enc_N cb)"

definition reaches :: "bool list \<Rightarrow> x264_cabac_t \<Rightarrow> bool" where
  "reaches bs cb \<longleftrightarrow> hits bs (enc_L cb) (i_range cb) (enc_N cb)"

lemma reaches_back: "coded s off st cb cb' \<Longrightarrow> reaches bs cb' \<Longrightarrow> reaches bs cb"
  unfolding reaches_def coded_def by (rule hits_back[of bs s "enc_L cb" off "i_range cb'"]) auto

lemma decision_step:
  assumes "cabac_ok cb" "i < length (cb_state cb)"
  shows "\<exists>cb' s off st. encode_symbol (Decision i b) cb = Inr cb' \<and> coded s off st cb cb' \<and> length st = length (cb_state cb)
    \<and> (\<forall>bs. reaches bs cb' \<longrightarrow> decode_symbol (Decision i False) (decoder_of bs cb) = Some (Decision i b, decoder_of bs cb'))"
proof -
  define st where "st = cb_state cb ! i"
  define p where "p = fst (ctx_abs st)"
  define mps where "mps = snd (ctx_abs st)"
  define lps where "lps = rangeTabLPS ! p ! nat (i_range cb div 64 mod 4)"
  define off where "off = (if b = mps then 0 else i_range cb - lps)"
  define r where "r = (if b = mps then i_range cb - lps else lps)"
  define new where "new = (cb_state cb)[i := x264_cabac_transition ! st ! of_bool b]"
  obtain s cb' where c: "x264_cabac_encode_decision i b cb = Inr cb'" "coded s (2 ^ s * off) new cb cb'" "i_range cb' = 2 ^ s * r"
    using decision_coded(1)[OF assms, of b] unfolding off_def r_def new_def lps_def mps_def p_def st_def by blast
  have ok: "state_ok st" using assms by (simp add: st_def cabac_ok_def list_all_length)
  have ctx: "map ctx_abs (cb_state cb) ! i = (p, mps)" using assms(2) by (simp add: p_def mps_def st_def)
  have ctx': "map ctx_abs new = (map ctx_abs (cb_state cb))[i := ctx_next b (p, mps)]"
    using transition_state[OF ok, of b] by (simp add: new_def map_update p_def mps_def)
  have L: "enc_L cb' = 2 ^ s * (enc_L cb + off)" "enc_N cb' = enc_N cb + s" "cb_state cb' = new" "256 \<le> 2 ^ s * r" "2 ^ s * r < 512"
    using c(2,3) by (simp_all add: coded_def cabac_ok_def distrib_left)
  have "dec_decision i (decoder_of bs cb) = Some (b, decoder_of bs cb')" if "reaches bs cb'" for bs
    using dec_decision_at[OF _ ctx lps_def off_def r_def, of bs s "enc_L cb" "enc_N cb"] that assms(2) L c(3)
    by (simp add: reaches_def decoder_of_def ctx')
  then show ?thesis using c(1,2) by (intro exI[of _ cb'] exI[of _ s] exI[of _ "2 ^ s * off"] exI[of _ new]) (simp add: new_def)
qed

lemma symbol_step:
  assumes "cabac_ok cb" "symbol_ok (length (cb_state cb)) x"
  shows "\<exists>cb' s off st. encode_symbol x cb = Inr cb' \<and> coded s off st cb cb' \<and> length st = length (cb_state cb)
    \<and> (\<forall>bs. reaches bs cb' \<longrightarrow> decode_symbol (kind_of x) (decoder_of bs cb) = Some (x, decoder_of bs cb'))"
proof (cases x)
  case (Decision i b)
  then show ?thesis using decision_step[OF assms(1), of i b] assms(2) by simp
next
  case (Bypass b)
  obtain cb' where c: "x264_cabac_encode_bypass b cb = Inr cb'" "coded 1 (of_bool b * i_range cb) (cb_state cb) cb cb'" "i_range cb' = i_range cb"
    using bypass_coded[OF assms(1)] by blast
  then have "dec_bypass (decoder_of bs cb) = Some (b, decoder_of bs cb')" if "reaches bs cb'" for bs
    using dec_bypass_at[of bs "enc_L cb" b "i_range cb" "enc_N cb"] that by (simp add: reaches_def decoder_of_def coded_def)
  then show ?thesis using c Bypass by (intro exI[of _ cb'] exI[of _ 1] exI[of _ "of_bool b * i_range cb"] exI[of _ "cb_state cb"]) simp
next
  case (UE_Bypass e v)
  obtain k w where kw: "ue_prefix e v = (k, w)" by (cases "ue_prefix e v")
  note spec = ue_prefix_spec[OF kw]
  define m where "m = k - e"
  have T: "2 * k + 1 - e = m + 1 + k" "k = e + m" unfolding m_def using spec by linarith+
  have "2 * k + 1 - e \<le> 31" using assms(2) UE_Bypass kw by simp
  then obtain cb' where c: "x264_cabac_encode_ue_bypass e v cb = Inr cb'"
      "coded (m + 1 + k) (ue_code m k w * i_range cb) (cb_state cb) cb cb'" "i_range cb' = i_range cb"
    using ue_bypass_coded[OF assms(1) kw] unfolding T(1) m_def[symmetric] by blast
  have v: "w + 2 ^ k - 2 ^ e = v" using spec by linarith
  have "0 < i_range cb" using assms(1) by (simp add: cabac_ok_def)
  then have "dec_ue e (decoder_of bs cb) = Some (v, decoder_of bs cb')" if "reaches bs cb'" for bs
    using dec_ue_at[of bs m k "enc_L cb" w "i_range cb" "enc_N cb" e "map ctx_abs (cb_state cb)"] that c spec T(2) v
    by (simp add: reaches_def decoder_of_def coded_def)
  then show ?thesis
    using c UE_Bypass
    by (intro exI[of _ cb'] exI[of _ "m + 1 + k"] exI[of _ "ue_code m k w * i_range cb"] exI[of _ "cb_state cb"]) simp
next
  case Continue
  obtain s cb' where c: "x264_cabac_encode_terminal cb = Inr cb'" "coded s 0 (cb_state cb) cb cb'" "i_range cb' = 2 ^ s * (i_range cb - 2)"
    using terminal_coded[OF assms(1)] by blast
  then have "dec_terminate (decoder_of bs cb) = Some (False, decoder_of bs cb')" if "reaches bs cb'" for bs
    using dec_continue_at[of bs s "enc_L cb" "i_range cb" "enc_N cb"] that by (simp add: reaches_def decoder_of_def coded_def cabac_ok_def)
  then show ?thesis using c Continue by (intro exI[of _ cb'] exI[of _ s] exI[of _ 0] exI[of _ "cb_state cb"]) simp
qed

definition encode_symbols :: "symbol list \<Rightarrow> x264_cabac_t \<Rightarrow> x264_cabac_t outcome" where
  "encode_symbols xs = seqR (map encode_symbol xs)"

lemma symbols_step:
  assumes "cabac_ok cb" "list_all (symbol_ok (length (cb_state cb))) xs"
  shows "\<exists>cb' s off st. encode_symbols xs cb = Inr cb' \<and> coded s off st cb cb'
    \<and> (\<forall>bs. reaches bs cb' \<longrightarrow> decode_symbols (map kind_of xs) (decoder_of bs cb) = Some (xs, decoder_of bs cb'))"
  using assms
proof (induction xs arbitrary: cb)
  case Nil
  have "coded 0 0 (cb_state cb) cb cb" using Nil(1) by (simp add: coded_def)
  then show ?case by (auto simp: encode_symbols_def)
next
  case (Cons x xs)
  obtain cb1 s off st where c1: "encode_symbol x cb = Inr cb1" "coded s off st cb cb1" "length st = length (cb_state cb)"
      "\<And>bs. reaches bs cb1 \<Longrightarrow> decode_symbol (kind_of x) (decoder_of bs cb) = Some (x, decoder_of bs cb1)"
    using symbol_step[OF Cons(2), of x] Cons(3) by auto
  have "cabac_ok cb1" "cb_state cb1 = st" using c1(2) by (simp_all add: coded_def)
  then obtain cb2 s' off' st' where c2: "encode_symbols xs cb1 = Inr cb2" "coded s' off' st' cb1 cb2"
      "\<And>bs. reaches bs cb2 \<Longrightarrow> decode_symbols (map kind_of xs) (decoder_of bs cb1) = Some (xs, decoder_of bs cb2)"
    using Cons.IH[of cb1] Cons(3) c1(3) by auto
  have "decode_symbols (map kind_of (x # xs)) (decoder_of bs cb) = Some (x # xs, decoder_of bs cb2)" if "reaches bs cb2" for bs
    using c1(4)[OF reaches_back[OF c2(2) that]] c2(3)[OF that] by simp
  then show ?case using c1(1) c2(1) coded_trans[OF c1(2) c2(2)] by (auto simp: encode_symbols_def)
qed

section \<open>The whole slice\<close>

lemma length_bytes_bits: "length (bytes_bits bs) = 8 * length bs"
  by (induction bs) (simp_all add: bytes_bits_def)

lemma of_bits_bytes: "int (of_bits (bytes_bits bs)) = be_val bs"
proof (induction bs rule: rev_induct)
  case (snoc b bs)
  have "of_bits (to_bits 8 b) = unat b"
    using unat_lt2p[of b] by (simp add: to_bits_unat of_bits_to_bits take_bit_nat_eq_self)
  then show ?case using snoc by (simp add: of_bits_append bytes_bits_def[of "[b]"])
qed simp

lemma pref_bytes:
  assumes "n \<le> 8 * length bytes"
  shows "pref (bytes_bits bytes @ rest) n = be_val bytes div 2 ^ (8 * length bytes - n)"
proof -
  let ?bs = "bytes_bits bytes @ rest" and ?s = "8 * length bytes - n"
  have "n + ?s = length (bytes_bits bytes)" using assms by (simp add: length_bytes_bits)
  then have full: "pref ?bs (n + ?s) = be_val bytes" by (simp add: pref_def of_bits_bytes)
  have "n + ?s \<le> length ?bs" using assms by (simp add: length_bytes_bits)
  then have b: "2 ^ ?s * pref ?bs n \<le> be_val bytes" "be_val bytes < 2 ^ ?s * (pref ?bs n + 1)" using pref_add[of n ?s ?bs] full by simp_all
  then show ?thesis by (intro int_div_pos_eq[symmetric, where r = "be_val bytes - 2 ^ ?s * pref ?bs n"]) (simp_all add: algebra_simps)
qed

text \<open>The contexts of the standard for a table of initialisation values and a quantiser.\<close>

definition std_ctx :: "int \<Rightarrow> int \<times> int \<Rightarrow> nat \<times> bool" where
  "std_ctx qp mn =
     (let pre = min 126 (max 1 ((fst mn * min 51 (max 0 qp)) div 16 + snd mn))
      in if pre \<le> 63 then (nat (63 - pre), False) else (nat (pre - 64), True))"

lemma context_init_ok:
  assumes "x264_cabac_context_init t qp model cb = Inr cb'" "0 \<le> qp" "qp \<le> 51"
  shows "\<exists>table. context_init_table t model = Inr table \<and> list_all state_ok (cb_state cb') \<and> length (cb_state cb') = length table
    \<and> map ctx_abs (cb_state cb') = map (std_ctx qp) table"
proof -
  obtain table where t: "context_init_table t model = Inr table"
      "cb_state cb' = map (\<lambda>(m, n). nat (x264_clip3 (drop_bit 4 (m * qp) + n) 1 126)) table"
    using assms(1) unfolding x264_cabac_context_init_def bindR_eq_Inr by auto
  have "state_ok (nat (x264_clip3 v 1 126))" for v by (simp add: state_ok_def x264_clip3_def nat_le_iff Suc_le_eq)
  moreover have "ctx_abs (nat (x264_clip3 (drop_bit 4 (m * qp) + n) 1 126)) = std_ctx qp (m, n)" for m n
    using assms(2,3) by (auto simp: ctx_abs_def std_ctx_def x264_clip3_def drop_bit_eq_div Let_def)
  ultimately show ?thesis using t by (auto simp: list_all_iff)
qed

lemma table_length:
  assumes "context_init_table t model = Inr table"
  shows "length table = 460"
proof -
  have "length x264_cabac_context_init_I = 460" "length x264_cabac_context_init_PB0 = 460"
    "length x264_cabac_context_init_PB1 = 460" "length x264_cabac_context_init_PB2 = 460"
    by (simp_all add: x264_cabac_context_init_I_def x264_cabac_context_init_PB0_def x264_cabac_context_init_PB1_def x264_cabac_context_init_PB2_def)
  then show ?thesis
    using assms by (auto simp: context_init_table_def x264_cabac_context_init_PB_def less_Suc_eq numeral_eq_Suc split: if_splits)
qed

text \<open>
  C34. Arithmetic coding. Take the contexts that \<^verbatim>\<open>x264_cabac_context_init\<close> sets for a slice, start the coder
  with \<^verbatim>\<open>x264_cabac_encode_init\<close> behind at least one byte, encode any sequence of symbols with valid contexts, and
  end the slice with \<^verbatim>\<open>x264_cabac_encode_flush\<close>. No call fails, the bytes in front of the slice data are
  not changed, and the arithmetic decoder of the standard, started with the contexts of the standard on the
  bytes that were written, whatever follows them, decodes exactly these symbols, then finds the end of the slice;
  the last bit it read is the stop bit, a one.
\<close>

theorem cabac_roundtrip:
  assumes "x264_cabac_context_init t qp model cb = Inr cb1" "0 \<le> qp" "qp \<le> 51" "mem \<noteq> []" "list_all (symbol_ok 460) xs"
  shows "\<exists>table cb2 cb3 n. context_init_table t model = Inr table
    \<and> encode_symbols xs (x264_cabac_encode_init mem cb1) = Inr cb2 \<and> x264_cabac_encode_flush i_frame cb2 = Inr cb3
    \<and> take (length mem) (cb_mem cb3) = mem \<and> n < 8 * length (drop (length mem) (cb_mem cb3))
    \<and> (\<forall>rest. let bits = bytes_bits (drop (length mem) (cb_mem cb3)) @ rest in \<exists>d0 d1 d2.
         dec_init (map (std_ctx qp) table) bits = Some d0 \<and> decode_symbols (map kind_of xs) d0 = Some (xs, d1)
       \<and> dec_terminate d1 = Some (True, d2) \<and> d_bits d2 = drop (Suc n) bits \<and> bits ! n)"
proof -
  obtain table where t: "context_init_table t model = Inr table" "list_all state_ok (cb_state cb1)" "length (cb_state cb1) = length table"
      "map ctx_abs (cb_state cb1) = map (std_ctx qp) table"
    using context_init_ok[OF assms(1-3)] by blast
  define c0 where "c0 = x264_cabac_encode_init mem cb1"
  note init = cabac_init_core[OF assms(4), of cb1, folded c0_def]
  have c0: "cabac_ok c0" "cb_state c0 = cb_state cb1" "i_range c0 = 510" "p_start c0 = length mem" "cb_mem c0 = mem"
    using init(1) t(2) by (simp_all add: cabac_ok_def c0_def x264_cabac_encode_init_def)
  have len: "length (cb_state c0) = 460" using c0(2) t(3) table_length[OF t(1)] by simp
  obtain cb2 s off st where c2: "encode_symbols xs c0 = Inr cb2" "coded s off st c0 cb2"
      "\<And>bs. reaches bs cb2 \<Longrightarrow> decode_symbols (map kind_of xs) (decoder_of bs c0) = Some (xs, decoder_of bs cb2)"
    using symbols_step[OF c0(1), of xs] assms(5) len by auto
  have ok2: "cabac_ok cb2" "p_start cb2 = length mem" "take (length mem) (cb_mem cb2) = mem" using c2(2) c0(4,5) by (simp_all add: coded_def)
  obtain cb3 word where c3: "x264_cabac_encode_flush i_frame cb2 = Inr cb3" "p_start cb3 = length mem" "take (length mem) (cb_mem cb3) = mem"
      "enc_L cb2 + i_range cb2 - 2 \<le> word" "word < enc_L cb2 + i_range cb2" "odd word"
      "9 + enc_N cb2 \<le> 8 * length (cb_bytes cb3)"
      "be_val (cb_bytes cb3) div 2 ^ (8 * length (cb_bytes cb3) - (9 + enc_N cb2)) = word"
    using flush_coded[OF ok2(1), of i_frame] ok2(2,3) by auto
  have bytes: "drop (length mem) (cb_mem cb3) = cb_bytes cb3" using c3(2) by (simp add: cb_bytes_def)
  have dec: "\<exists>d0 d1 d2. dec_init (map (std_ctx qp) table) bits = Some d0 \<and> decode_symbols (map kind_of xs) d0 = Some (xs, d1)
      \<and> dec_terminate d1 = Some (True, d2) \<and> d_bits d2 = drop (Suc (8 + enc_N cb2)) bits \<and> bits ! (8 + enc_N cb2)"
    if bits: "bits = bytes_bits (cb_bytes cb3) @ rest" for bits rest
  proof -
    have l: "9 + enc_N cb2 \<le> length bits" using c3(7) by (simp add: bits length_bytes_bits)
    have word: "pref bits (9 + enc_N cb2) = word" unfolding bits using pref_bytes[OF c3(7)] c3(8) by simp
    have "256 \<le> i_range cb2" using ok2(1) by (simp add: cabac_ok_def)
    then have r: "reaches bits cb2" unfolding reaches_def hits_def word using c3(4,5) l by linarith
    have start: "dec_init (map (std_ctx qp) table) bits = Some (decoder_of bits c0)"
      using l c0(2,3) t(4) init(2,3) by (simp add: dec_init_def read_u_def decoder_of_def dec_at_def pref_def)
    have "d_range (decoder_of bits cb2) - 2 \<le> d_offset (decoder_of bits cb2)"
      using c3(4) word by (simp add: decoder_of_def dec_at_def)
    then have stop: "dec_terminate (decoder_of bits cb2) = Some (True, (decoder_of bits cb2)\<lparr>d_range := d_range (decoder_of bits cb2) - 2\<rparr>)"
      by (simp add: dec_terminate_def Let_def)
    have "pref bits (Suc (8 + enc_N cb2)) = 2 * pref bits (8 + enc_N cb2) + of_bool (bits ! (8 + enc_N cb2))"
      by (rule pref_Suc) (use l in simp)
    then have "bits ! (8 + enc_N cb2)" using word c3(6) by (cases "bits ! (8 + enc_N cb2)") auto
    then show ?thesis
      using start c2(3)[OF r] stop by (intro exI conjI) (assumption | simp add: decoder_of_def dec_at_def)+
  qed
  show ?thesis
    unfolding Let_def c0_def[symmetric]
  proof (rule exI[of _ table], rule exI[of _ cb2], rule exI[of _ cb3], rule exI[of _ "8 + enc_N cb2"], intro conjI allI)
    show "8 + enc_N cb2 < 8 * length (drop (length mem) (cb_mem cb3))" unfolding bytes using c3(7) by linarith
  qed (unfold bytes, (rule t(1) c2(1) c3(1) c3(3) dec[OF refl])+)
qed

definition cabac_zero :: x264_cabac_t where
  "cabac_zero = \<lparr>i_low = 0, i_range = 0, i_queue = 0, i_bytes_outstanding = 0, p_start = 0, cb_mem = [], f8_bits_encoded = 0, cb_state = []\<rparr>"

theorem cabac_roundtrip_witness:
  "\<exists>table cb1 cb2 cb3 d0 d1 d2. x264_cabac_context_init SLICE_TYPE_I 26 0 cabac_zero = Inr cb1
    \<and> encode_symbols [Decision 5 True, Bypass True, UE_Bypass 3 20, Continue] (x264_cabac_encode_init [0x65] cb1) = Inr cb2
    \<and> x264_cabac_encode_flush 1 cb2 = Inr cb3
    \<and> dec_init (map (std_ctx 26) table) (bytes_bits (drop 1 (cb_mem cb3))) = Some d0
    \<and> decode_symbols [Decision 5 False, Bypass False, UE_Bypass 3 0, Continue] d0 = Some ([Decision 5 True, Bypass True, UE_Bypass 3 20, Continue], d1)
    \<and> dec_terminate d1 = Some (True, d2)"
proof -
  obtain cb1 where cb1: "x264_cabac_context_init SLICE_TYPE_I 26 0 cabac_zero = Inr cb1"
    by (auto simp: x264_cabac_context_init_def context_init_table_def)
  have "ue_prefix 3 20 = (4, 12)" by (simp add: ue_prefix.simps)
  define xs where "xs = [Decision 5 True, Bypass True, UE_Bypass 3 20, Continue]"
  have ok: "list_all (symbol_ok 460) xs" using \<open>ue_prefix 3 20 = (4, 12)\<close> by (simp add: xs_def)
  have len: "length [0x65 :: byte] = 1" "[0x65 :: byte] \<noteq> []" by simp_all
  have qp: "0 \<le> (26 :: int)" "26 \<le> (51 :: int)" by simp_all
  have kinds: "[Decision 5 False, Bypass False, UE_Bypass 3 0, Continue] = map kind_of xs" by (simp add: xs_def)
  show ?thesis
    using cb1 cabac_roundtrip[OF cb1 qp len(2) ok, of 1] unfolding len(1) Let_def kinds xs_def[symmetric] by (metis append_Nil2)
qed

end
