(* ===== verification/X264_Vlc.thy ===== *)
theory X264_Vlc
  imports X264_Syntax
begin

text \<open>
  The variable-length codes of x264 (\<^verbatim>\<open>apps/x264/src/common/vlc.c\<close>): the code words of the number of coefficients, of the
  zeros before them and of the runs between them. Unused entries have size 0. The code words of a row
  are free of prefixes, which is what makes them decodable.
\<close>

section \<open>The tables\<close>

datatype vlc_t = MKVLC (i_bits: int) (i_size: int)

definition coeff_token_0 :: "vlc_t list" where
  "coeff_token_0 =
    [MKVLC 1 1, MKVLC 0 0, MKVLC 0 0, MKVLC 0 0, MKVLC 5 6, MKVLC 1 2, MKVLC 0 0, MKVLC 0 0,
     MKVLC 7 8, MKVLC 4 6, MKVLC 1 3, MKVLC 0 0, MKVLC 7 9, MKVLC 6 8, MKVLC 5 7, MKVLC 3 5,
     MKVLC 7 10, MKVLC 6 9, MKVLC 5 8, MKVLC 3 6, MKVLC 7 11, MKVLC 6 10, MKVLC 5 9, MKVLC 4 7,
     MKVLC 15 13, MKVLC 6 11, MKVLC 5 10, MKVLC 4 8, MKVLC 11 13, MKVLC 14 13, MKVLC 5 11, MKVLC 4 9,
     MKVLC 8 13, MKVLC 10 13, MKVLC 13 13, MKVLC 4 10, MKVLC 15 14, MKVLC 14 14, MKVLC 9 13, MKVLC 4 11,
     MKVLC 11 14, MKVLC 10 14, MKVLC 13 14, MKVLC 12 13, MKVLC 15 15, MKVLC 14 15, MKVLC 9 14, MKVLC 12 14,
     MKVLC 11 15, MKVLC 10 15, MKVLC 13 15, MKVLC 8 14, MKVLC 15 16, MKVLC 1 15, MKVLC 9 15, MKVLC 12 15,
     MKVLC 11 16, MKVLC 14 16, MKVLC 13 16, MKVLC 8 15, MKVLC 7 16, MKVLC 10 16, MKVLC 9 16, MKVLC 12 16,
     MKVLC 4 16, MKVLC 6 16, MKVLC 5 16, MKVLC 8 16]"

definition coeff_token_1 :: "vlc_t list" where
  "coeff_token_1 =
    [MKVLC 3 2, MKVLC 0 0, MKVLC 0 0, MKVLC 0 0, MKVLC 11 6, MKVLC 2 2, MKVLC 0 0, MKVLC 0 0,
     MKVLC 7 6, MKVLC 7 5, MKVLC 3 3, MKVLC 0 0, MKVLC 7 7, MKVLC 10 6, MKVLC 9 6, MKVLC 5 4,
     MKVLC 7 8, MKVLC 6 6, MKVLC 5 6, MKVLC 4 4, MKVLC 4 8, MKVLC 6 7, MKVLC 5 7, MKVLC 6 5,
     MKVLC 7 9, MKVLC 6 8, MKVLC 5 8, MKVLC 8 6, MKVLC 15 11, MKVLC 6 9, MKVLC 5 9, MKVLC 4 6,
     MKVLC 11 11, MKVLC 14 11, MKVLC 13 11, MKVLC 4 7, MKVLC 15 12, MKVLC 10 11, MKVLC 9 11, MKVLC 4 9,
     MKVLC 11 12, MKVLC 14 12, MKVLC 13 12, MKVLC 12 11, MKVLC 8 12, MKVLC 10 12, MKVLC 9 12, MKVLC 8 11,
     MKVLC 15 13, MKVLC 14 13, MKVLC 13 13, MKVLC 12 12, MKVLC 11 13, MKVLC 10 13, MKVLC 9 13, MKVLC 12 13,
     MKVLC 7 13, MKVLC 11 14, MKVLC 6 13, MKVLC 8 13, MKVLC 9 14, MKVLC 8 14, MKVLC 10 14, MKVLC 1 13,
     MKVLC 7 14, MKVLC 6 14, MKVLC 5 14, MKVLC 4 14]"

definition coeff_token_2 :: "vlc_t list" where
  "coeff_token_2 =
    [MKVLC 15 4, MKVLC 0 0, MKVLC 0 0, MKVLC 0 0, MKVLC 15 6, MKVLC 14 4, MKVLC 0 0, MKVLC 0 0,
     MKVLC 11 6, MKVLC 15 5, MKVLC 13 4, MKVLC 0 0, MKVLC 8 6, MKVLC 12 5, MKVLC 14 5, MKVLC 12 4,
     MKVLC 15 7, MKVLC 10 5, MKVLC 11 5, MKVLC 11 4, MKVLC 11 7, MKVLC 8 5, MKVLC 9 5, MKVLC 10 4,
     MKVLC 9 7, MKVLC 14 6, MKVLC 13 6, MKVLC 9 4, MKVLC 8 7, MKVLC 10 6, MKVLC 9 6, MKVLC 8 4,
     MKVLC 15 8, MKVLC 14 7, MKVLC 13 7, MKVLC 13 5, MKVLC 11 8, MKVLC 14 8, MKVLC 10 7, MKVLC 12 6,
     MKVLC 15 9, MKVLC 10 8, MKVLC 13 8, MKVLC 12 7, MKVLC 11 9, MKVLC 14 9, MKVLC 9 8, MKVLC 12 8,
     MKVLC 8 9, MKVLC 10 9, MKVLC 13 9, MKVLC 8 8, MKVLC 13 10, MKVLC 7 9, MKVLC 9 9, MKVLC 12 9,
     MKVLC 9 10, MKVLC 12 10, MKVLC 11 10, MKVLC 10 10, MKVLC 5 10, MKVLC 8 10, MKVLC 7 10, MKVLC 6 10,
     MKVLC 1 10, MKVLC 4 10, MKVLC 3 10, MKVLC 2 10]"

definition coeff_token_3 :: "vlc_t list" where
  "coeff_token_3 =
    [MKVLC 3 6, MKVLC 0 0, MKVLC 0 0, MKVLC 0 0, MKVLC 0 6, MKVLC 1 6, MKVLC 0 0, MKVLC 0 0,
     MKVLC 4 6, MKVLC 5 6, MKVLC 6 6, MKVLC 0 0, MKVLC 8 6, MKVLC 9 6, MKVLC 10 6, MKVLC 11 6,
     MKVLC 12 6, MKVLC 13 6, MKVLC 14 6, MKVLC 15 6, MKVLC 16 6, MKVLC 17 6, MKVLC 18 6, MKVLC 19 6,
     MKVLC 20 6, MKVLC 21 6, MKVLC 22 6, MKVLC 23 6, MKVLC 24 6, MKVLC 25 6, MKVLC 26 6, MKVLC 27 6,
     MKVLC 28 6, MKVLC 29 6, MKVLC 30 6, MKVLC 31 6, MKVLC 32 6, MKVLC 33 6, MKVLC 34 6, MKVLC 35 6,
     MKVLC 36 6, MKVLC 37 6, MKVLC 38 6, MKVLC 39 6, MKVLC 40 6, MKVLC 41 6, MKVLC 42 6, MKVLC 43 6,
     MKVLC 44 6, MKVLC 45 6, MKVLC 46 6, MKVLC 47 6, MKVLC 48 6, MKVLC 49 6, MKVLC 50 6, MKVLC 51 6,
     MKVLC 52 6, MKVLC 53 6, MKVLC 54 6, MKVLC 55 6, MKVLC 56 6, MKVLC 57 6, MKVLC 58 6, MKVLC 59 6,
     MKVLC 60 6, MKVLC 61 6, MKVLC 62 6, MKVLC 63 6]"

definition coeff_token_4 :: "vlc_t list" where
  "coeff_token_4 =
    [MKVLC 1 2, MKVLC 0 0, MKVLC 0 0, MKVLC 0 0, MKVLC 7 6, MKVLC 1 1, MKVLC 0 0, MKVLC 0 0,
     MKVLC 4 6, MKVLC 6 6, MKVLC 1 3, MKVLC 0 0, MKVLC 3 6, MKVLC 3 7, MKVLC 2 7, MKVLC 5 6,
     MKVLC 2 6, MKVLC 3 8, MKVLC 2 8, MKVLC 0 7, MKVLC 0 0, MKVLC 0 0, MKVLC 0 0, MKVLC 0 0,
     MKVLC 0 0, MKVLC 0 0, MKVLC 0 0, MKVLC 0 0, MKVLC 0 0, MKVLC 0 0, MKVLC 0 0, MKVLC 0 0,
     MKVLC 0 0, MKVLC 0 0, MKVLC 0 0, MKVLC 0 0, MKVLC 0 0, MKVLC 0 0, MKVLC 0 0, MKVLC 0 0,
     MKVLC 0 0, MKVLC 0 0, MKVLC 0 0, MKVLC 0 0, MKVLC 0 0, MKVLC 0 0, MKVLC 0 0, MKVLC 0 0,
     MKVLC 0 0, MKVLC 0 0, MKVLC 0 0, MKVLC 0 0, MKVLC 0 0, MKVLC 0 0, MKVLC 0 0, MKVLC 0 0,
     MKVLC 0 0, MKVLC 0 0, MKVLC 0 0, MKVLC 0 0, MKVLC 0 0, MKVLC 0 0, MKVLC 0 0, MKVLC 0 0,
     MKVLC 0 0, MKVLC 0 0, MKVLC 0 0, MKVLC 0 0]"

definition x264_coeff_token :: "vlc_t list list" where
  "x264_coeff_token = [coeff_token_0, coeff_token_1, coeff_token_2, coeff_token_3, coeff_token_4]"

definition total_zeros_1 :: "vlc_t list" where
  "total_zeros_1 =
    [MKVLC 1 1, MKVLC 3 3, MKVLC 2 3, MKVLC 3 4, MKVLC 2 4, MKVLC 3 5, MKVLC 2 5, MKVLC 3 6,
     MKVLC 2 6, MKVLC 3 7, MKVLC 2 7, MKVLC 3 8, MKVLC 2 8, MKVLC 3 9, MKVLC 2 9, MKVLC 1 9]"

definition total_zeros_2 :: "vlc_t list" where
  "total_zeros_2 =
    [MKVLC 7 3, MKVLC 6 3, MKVLC 5 3, MKVLC 4 3, MKVLC 3 3, MKVLC 5 4, MKVLC 4 4, MKVLC 3 4,
     MKVLC 2 4, MKVLC 3 5, MKVLC 2 5, MKVLC 3 6, MKVLC 2 6, MKVLC 1 6, MKVLC 0 6, MKVLC 0 0]"

definition total_zeros_3 :: "vlc_t list" where
  "total_zeros_3 =
    [MKVLC 5 4, MKVLC 7 3, MKVLC 6 3, MKVLC 5 3, MKVLC 4 4, MKVLC 3 4, MKVLC 4 3, MKVLC 3 3,
     MKVLC 2 4, MKVLC 3 5, MKVLC 2 5, MKVLC 1 6, MKVLC 1 5, MKVLC 0 6, MKVLC 0 0, MKVLC 0 0]"

definition total_zeros_4 :: "vlc_t list" where
  "total_zeros_4 =
    [MKVLC 3 5, MKVLC 7 3, MKVLC 5 4, MKVLC 4 4, MKVLC 6 3, MKVLC 5 3, MKVLC 4 3, MKVLC 3 4,
     MKVLC 3 3, MKVLC 2 4, MKVLC 2 5, MKVLC 1 5, MKVLC 0 5, MKVLC 0 0, MKVLC 0 0, MKVLC 0 0]"

definition total_zeros_5 :: "vlc_t list" where
  "total_zeros_5 =
    [MKVLC 5 4, MKVLC 4 4, MKVLC 3 4, MKVLC 7 3, MKVLC 6 3, MKVLC 5 3, MKVLC 4 3, MKVLC 3 3,
     MKVLC 2 4, MKVLC 1 5, MKVLC 1 4, MKVLC 0 5, MKVLC 0 0, MKVLC 0 0, MKVLC 0 0, MKVLC 0 0]"

definition total_zeros_6 :: "vlc_t list" where
  "total_zeros_6 =
    [MKVLC 1 6, MKVLC 1 5, MKVLC 7 3, MKVLC 6 3, MKVLC 5 3, MKVLC 4 3, MKVLC 3 3, MKVLC 2 3,
     MKVLC 1 4, MKVLC 1 3, MKVLC 0 6, MKVLC 0 0, MKVLC 0 0, MKVLC 0 0, MKVLC 0 0, MKVLC 0 0]"

definition total_zeros_7 :: "vlc_t list" where
  "total_zeros_7 =
    [MKVLC 1 6, MKVLC 1 5, MKVLC 5 3, MKVLC 4 3, MKVLC 3 3, MKVLC 3 2, MKVLC 2 3, MKVLC 1 4,
     MKVLC 1 3, MKVLC 0 6, MKVLC 0 0, MKVLC 0 0, MKVLC 0 0, MKVLC 0 0, MKVLC 0 0, MKVLC 0 0]"

definition total_zeros_8 :: "vlc_t list" where
  "total_zeros_8 =
    [MKVLC 1 6, MKVLC 1 4, MKVLC 1 5, MKVLC 3 3, MKVLC 3 2, MKVLC 2 2, MKVLC 2 3, MKVLC 1 3,
     MKVLC 0 6, MKVLC 0 0, MKVLC 0 0, MKVLC 0 0, MKVLC 0 0, MKVLC 0 0, MKVLC 0 0, MKVLC 0 0]"

definition total_zeros_9 :: "vlc_t list" where
  "total_zeros_9 =
    [MKVLC 1 6, MKVLC 0 6, MKVLC 1 4, MKVLC 3 2, MKVLC 2 2, MKVLC 1 3, MKVLC 1 2, MKVLC 1 5,
     MKVLC 0 0, MKVLC 0 0, MKVLC 0 0, MKVLC 0 0, MKVLC 0 0, MKVLC 0 0, MKVLC 0 0, MKVLC 0 0]"

definition total_zeros_10 :: "vlc_t list" where
  "total_zeros_10 =
    [MKVLC 1 5, MKVLC 0 5, MKVLC 1 3, MKVLC 3 2, MKVLC 2 2, MKVLC 1 2, MKVLC 1 4, MKVLC 0 0,
     MKVLC 0 0, MKVLC 0 0, MKVLC 0 0, MKVLC 0 0, MKVLC 0 0, MKVLC 0 0, MKVLC 0 0, MKVLC 0 0]"

definition total_zeros_11 :: "vlc_t list" where
  "total_zeros_11 =
    [MKVLC 0 4, MKVLC 1 4, MKVLC 1 3, MKVLC 2 3, MKVLC 1 1, MKVLC 3 3, MKVLC 0 0, MKVLC 0 0,
     MKVLC 0 0, MKVLC 0 0, MKVLC 0 0, MKVLC 0 0, MKVLC 0 0, MKVLC 0 0, MKVLC 0 0, MKVLC 0 0]"

definition total_zeros_12 :: "vlc_t list" where
  "total_zeros_12 =
    [MKVLC 0 4, MKVLC 1 4, MKVLC 1 2, MKVLC 1 1, MKVLC 1 3, MKVLC 0 0, MKVLC 0 0, MKVLC 0 0,
     MKVLC 0 0, MKVLC 0 0, MKVLC 0 0, MKVLC 0 0, MKVLC 0 0, MKVLC 0 0, MKVLC 0 0, MKVLC 0 0]"

definition total_zeros_13 :: "vlc_t list" where
  "total_zeros_13 =
    [MKVLC 0 3, MKVLC 1 3, MKVLC 1 1, MKVLC 1 2, MKVLC 0 0, MKVLC 0 0, MKVLC 0 0, MKVLC 0 0,
     MKVLC 0 0, MKVLC 0 0, MKVLC 0 0, MKVLC 0 0, MKVLC 0 0, MKVLC 0 0, MKVLC 0 0, MKVLC 0 0]"

definition total_zeros_14 :: "vlc_t list" where
  "total_zeros_14 =
    [MKVLC 0 2, MKVLC 1 2, MKVLC 1 1, MKVLC 0 0, MKVLC 0 0, MKVLC 0 0, MKVLC 0 0, MKVLC 0 0,
     MKVLC 0 0, MKVLC 0 0, MKVLC 0 0, MKVLC 0 0, MKVLC 0 0, MKVLC 0 0, MKVLC 0 0, MKVLC 0 0]"

definition total_zeros_15 :: "vlc_t list" where
  "total_zeros_15 =
    [MKVLC 0 1, MKVLC 1 1, MKVLC 0 0, MKVLC 0 0, MKVLC 0 0, MKVLC 0 0, MKVLC 0 0, MKVLC 0 0,
     MKVLC 0 0, MKVLC 0 0, MKVLC 0 0, MKVLC 0 0, MKVLC 0 0, MKVLC 0 0, MKVLC 0 0, MKVLC 0 0]"

definition x264_total_zeros :: "vlc_t list list" where
  "x264_total_zeros = [total_zeros_1, total_zeros_2, total_zeros_3, total_zeros_4, total_zeros_5, total_zeros_6, total_zeros_7, total_zeros_8, total_zeros_9, total_zeros_10, total_zeros_11, total_zeros_12, total_zeros_13, total_zeros_14, total_zeros_15]"

definition x264_total_zeros_dc :: "vlc_t list list" where
  "x264_total_zeros_dc = [
    [MKVLC 1 1, MKVLC 1 2, MKVLC 1 3, MKVLC 0 3],
    [MKVLC 1 1, MKVLC 1 2, MKVLC 0 2, MKVLC 0 0],
    [MKVLC 1 1, MKVLC 0 1, MKVLC 0 0, MKVLC 0 0]]"

definition x264_run_before :: "vlc_t list list" where
  "x264_run_before = [
    [MKVLC 1 1, MKVLC 0 1, MKVLC 0 0, MKVLC 0 0, MKVLC 0 0, MKVLC 0 0, MKVLC 0 0, MKVLC 0 0,
     MKVLC 0 0, MKVLC 0 0, MKVLC 0 0, MKVLC 0 0, MKVLC 0 0, MKVLC 0 0, MKVLC 0 0],
    [MKVLC 1 1, MKVLC 1 2, MKVLC 0 2, MKVLC 0 0, MKVLC 0 0, MKVLC 0 0, MKVLC 0 0, MKVLC 0 0,
     MKVLC 0 0, MKVLC 0 0, MKVLC 0 0, MKVLC 0 0, MKVLC 0 0, MKVLC 0 0, MKVLC 0 0],
    [MKVLC 3 2, MKVLC 2 2, MKVLC 1 2, MKVLC 0 2, MKVLC 0 0, MKVLC 0 0, MKVLC 0 0, MKVLC 0 0,
     MKVLC 0 0, MKVLC 0 0, MKVLC 0 0, MKVLC 0 0, MKVLC 0 0, MKVLC 0 0, MKVLC 0 0],
    [MKVLC 3 2, MKVLC 2 2, MKVLC 1 2, MKVLC 1 3, MKVLC 0 3, MKVLC 0 0, MKVLC 0 0, MKVLC 0 0,
     MKVLC 0 0, MKVLC 0 0, MKVLC 0 0, MKVLC 0 0, MKVLC 0 0, MKVLC 0 0, MKVLC 0 0],
    [MKVLC 3 2, MKVLC 2 2, MKVLC 3 3, MKVLC 2 3, MKVLC 1 3, MKVLC 0 3, MKVLC 0 0, MKVLC 0 0,
     MKVLC 0 0, MKVLC 0 0, MKVLC 0 0, MKVLC 0 0, MKVLC 0 0, MKVLC 0 0, MKVLC 0 0],
    [MKVLC 3 2, MKVLC 0 3, MKVLC 1 3, MKVLC 3 3, MKVLC 2 3, MKVLC 5 3, MKVLC 4 3, MKVLC 0 0,
     MKVLC 0 0, MKVLC 0 0, MKVLC 0 0, MKVLC 0 0, MKVLC 0 0, MKVLC 0 0, MKVLC 0 0],
    [MKVLC 7 3, MKVLC 6 3, MKVLC 5 3, MKVLC 4 3, MKVLC 3 3, MKVLC 2 3, MKVLC 1 3, MKVLC 1 4,
     MKVLC 1 5, MKVLC 1 6, MKVLC 1 7, MKVLC 1 8, MKVLC 1 9, MKVLC 1 10, MKVLC 1 11]]"

section \<open>Decoding\<close>

definition code_word :: "vlc_t \<Rightarrow> bool list" where
  "code_word v = to_bits (nat (i_size v)) (nat (i_bits v))"

text \<open>The continuations of a code word to 16 bits are an interval of numbers.\<close>

definition span :: "vlc_t \<Rightarrow> int \<times> int" where
  "span v = (i_bits v * 2 ^ nat (16 - i_size v), (i_bits v + 1) * 2 ^ nat (16 - i_size v))"

definition vlc_valid :: "vlc_t \<Rightarrow> bool" where
  "vlc_valid v \<longleftrightarrow> 0 \<le> i_bits v \<and> 0 \<le> i_size v \<and> i_size v \<le> 16 \<and> i_bits v < 2 ^ nat (i_size v)"

fun disjoint_spans :: "(int \<times> int) list \<Rightarrow> bool" where
  "disjoint_spans [] \<longleftrightarrow> True"
| "disjoint_spans ((a, b) # ss) \<longleftrightarrow> list_all (\<lambda>(c, d). b \<le> c \<or> d \<le> a) ss \<and> disjoint_spans ss"

definition prefix_free :: "vlc_t list \<Rightarrow> bool" where
  "prefix_free vs \<longleftrightarrow> list_all vlc_valid vs \<and> disjoint_spans (map span (filter (\<lambda>v. 0 < i_size v) vs))"

lemma coeff_token_free: "list_all prefix_free x264_coeff_token"
  by code_simp

lemma total_zeros_free: "list_all prefix_free x264_total_zeros"
  by code_simp

lemma total_zeros_dc_free: "list_all prefix_free x264_total_zeros_dc"
  by code_simp

lemma run_before_free: "list_all prefix_free x264_run_before"
  by code_simp


text \<open>The entry whose code word comes next.\<close>

fun get_vlc_from :: "nat \<Rightarrow> vlc_t list \<Rightarrow> nat parser" where
  "get_vlc_from k [] bs = None"
| "get_vlc_from k (v # vs) bs =
     (if 0 < i_size v \<and> take (nat (i_size v)) bs = code_word v then Some (k, drop (nat (i_size v)) bs)
      else get_vlc_from (Suc k) vs bs)"

definition get_vlc :: "vlc_t list \<Rightarrow> nat parser" where
  "get_vlc = get_vlc_from 0"

lemma length_code_word: "length (code_word v) = nat (i_size v)"
  by (simp add: code_word_def)

lemma of_bits_code_word: "vlc_valid v \<Longrightarrow> int (of_bits (code_word v)) = i_bits v"
  by (simp add: code_word_def of_bits_to_bits take_bit_nat_eq_self vlc_valid_def nat_less_iff)

lemma span_of_bits:
  assumes "vlc_valid v" "take (nat (i_size v)) bs = code_word v" "length bs = 16"
  shows "fst (span v) \<le> int (of_bits bs)" "int (of_bits bs) < snd (span v)"
proof -
  define ys where "ys = drop (nat (i_size v)) bs"
  have l: "length ys = nat (16 - i_size v)" using assms by (auto simp: ys_def vlc_valid_def)
  have "bs = code_word v @ ys" using assms(2) append_take_drop_id[of "nat (i_size v)" bs] by (simp add: ys_def)
  then have e: "int (of_bits bs) = i_bits v * 2 ^ nat (16 - i_size v) + int (of_bits ys)"
    using of_bits_code_word[OF assms(1)] l by (simp add: of_bits_append)
  have "int (of_bits ys) < 2 ^ nat (16 - i_size v)"
    using of_bits_less[of ys] unfolding l by (simp only: of_nat_less_iff[symmetric, where 'a = int] of_nat_power of_nat_numeral)
  then show "fst (span v) \<le> int (of_bits bs)" "int (of_bits bs) < snd (span v)"
    by (simp_all add: span_def e algebra_simps)
qed

lemma spans_apart:
  assumes "vlc_valid u" "vlc_valid v" "snd (span u) \<le> fst (span v) \<or> snd (span v) \<le> fst (span u)"
  shows "take (nat (i_size u)) (code_word v @ rest) \<noteq> code_word u"
proof
  assume a: "take (nat (i_size u)) (code_word v @ rest) = code_word u"
  define bs where "bs = take 16 (code_word v @ rest @ replicate 16 False)"
  have l: "length bs = 16" by (simp add: bs_def)
  have n: "nat (i_size u) \<le> 16" "nat (i_size v) \<le> 16" using assms(1,2) by (auto simp: vlc_valid_def)
  have "length (code_word u) \<le> length (code_word v @ rest)" using a by (metis length_take min.cobounded1 length_code_word)
  then have "take (nat (i_size u)) bs = code_word u"
    using a n unfolding bs_def append.assoc[symmetric] take_take by (simp add: length_code_word min_absorb1 take_append)
  moreover have "take (nat (i_size v)) bs = code_word v" using n by (simp add: bs_def min_absorb1 length_code_word)
  ultimately show False using span_of_bits[OF assms(1) _ l] span_of_bits[OF assms(2) _ l] assms(3) by fastforce
qed

lemma disjoint_spans_Cons:
  "disjoint_spans (s # ss) \<longleftrightarrow> (\<forall>t \<in> set ss. snd s \<le> fst t \<or> snd t \<le> fst s) \<and> disjoint_spans ss"
  by (cases s) (auto simp: list_all_iff)

lemma prefix_free_Cons:
  assumes "prefix_free (v # vs)"
  shows "prefix_free vs" "vlc_valid v"
    "0 < i_size v \<Longrightarrow> u \<in> set vs \<Longrightarrow> 0 < i_size u \<Longrightarrow> take (nat (i_size v)) (code_word u @ rest) \<noteq> code_word v"
proof -
  show "prefix_free vs" "vlc_valid v" using assms by (auto simp: prefix_free_def disjoint_spans_Cons split: if_splits)
  assume "0 < i_size v" "u \<in> set vs" "0 < i_size u"
  then have "snd (span v) \<le> fst (span u) \<or> snd (span u) \<le> fst (span v)" "vlc_valid v" "vlc_valid u"
    using assms by (auto simp: prefix_free_def disjoint_spans_Cons list_all_iff)
  then show "take (nat (i_size v)) (code_word u @ rest) \<noteq> code_word v" using spans_apart by blast
qed

lemma get_vlc_from_code_word:
  assumes "prefix_free vs" "j < length vs" "0 < i_size (vs ! j)"
  shows "get_vlc_from k vs (code_word (vs ! j) @ rest) = Some (k + j, rest)"
  using assms
proof (induction vs arbitrary: k j)
  case (Cons v vs)
  show ?case
  proof (cases j)
    case 0
    then show ?thesis using Cons.prems by (simp add: length_code_word)
  next
    case (Suc i)
    then have "get_vlc_from k (v # vs) (code_word (vs ! i) @ rest) = get_vlc_from (Suc k) vs (code_word (vs ! i) @ rest)"
      using prefix_free_Cons(3)[OF Cons.prems(1), of "vs ! i" rest] Cons.prems by auto
    then show ?thesis using Cons.IH[of i "Suc k"] Cons.prems prefix_free_Cons(1)[OF Cons.prems(1)] Suc by simp
  qed
qed simp

lemma get_vlc_code_word:
  "prefix_free vs \<Longrightarrow> j < length vs \<Longrightarrow> 0 < i_size (vs ! j) \<Longrightarrow> get_vlc vs (code_word (vs ! j) @ rest) = Some (j, rest)"
  using get_vlc_from_code_word[of vs j 0] by (simp add: get_vlc_def)

section \<open>Writing a code word\<close>

definition bs_write_vlc :: "vlc_t \<Rightarrow> bs_t \<Rightarrow> bs_t outcome" where
  "bs_write_vlc v s = Inr (bs_write (i_size v) (word_of_int (i_bits v)) s)"

text \<open>The access of a row and an entry, which the C code does not check.\<close>

definition put_vlc :: "vlc_t list list \<Rightarrow> int \<Rightarrow> int \<Rightarrow> bs_t \<Rightarrow> bs_t outcome" where
  "put_vlc tab i j s =
     (if 0 \<le> i \<and> i < int (length tab) \<and> 0 \<le> j \<and> j < int (length (tab ! nat i)) then bs_write_vlc (tab ! nat i ! nat j) s
      else Inl Out_Of_Bounds)"

lemma writes_vlc:
  assumes "vlc_valid v"
  shows "writes (bs_write_vlc v) (code_word v)"
proof -
  have n: "nat (i_size v) \<le> 32" "nat (i_bits v) < 2 ^ nat (i_size v)" "int (nat (i_size v)) = i_size v"
    using assms by (auto simp: vlc_valid_def nat_less_iff)
  have x: "word_of_int (i_bits v) = (word_of_nat (nat (i_bits v)) :: u32)" using assms by (simp add: vlc_valid_def)
  show ?thesis using writes_element[of "U (nat (i_size v)) (nat (i_bits v))"] n
    by (simp add: writes_def bs_write_vlc_def code_word_def x)
qed

lemma codes_vlc:
  assumes "list_all prefix_free tab" "i < length tab" "j < length (tab ! i)" "0 < i_size (tab ! i ! j)"
  shows "codes (put_vlc tab (int i) (int j)) (get_vlc (tab ! i)) j"
proof (rule codesI)
  have p: "prefix_free (tab ! i)" using assms(1,2) by (simp add: list_all_length)
  then have "vlc_valid (tab ! i ! j)" using assms(3) by (simp add: prefix_free_def list_all_length)
  then show "writes (put_vlc tab (int i) (int j)) (code_word (tab ! i ! j))"
    using writes_vlc assms(2,3) by (simp add: writes_def put_vlc_def)
  show "get_vlc (tab ! i) (code_word (tab ! i ! j) @ rest) = Some (j, rest)" for rest
    using get_vlc_code_word[OF p assms(3,4)] .
qed

end
