(* ===== verification/X264_Cavlc.thy ===== *)
theory X264_Cavlc
  imports X264_Vlc
begin

text \<open>
  The variable-length coding of a block of transform coefficients in x264
  (\<^verbatim>\<open>block_residual_write_cavlc\<close> in \<^verbatim>\<open>apps/x264/src/encoder/cavlc.c\<close>, with \<^verbatim>\<open>x264_coeff_last_internal\<close> of
  \<^verbatim>\<open>common/quant.c\<close> and the prediction of the number of coefficients in \<^verbatim>\<open>common/macroblock.h\<close>), against the parsing
  process of the standard (7.3.5.3.2 and 9.2). Coefficients are the values of 16-bit integers. A block is written by
  a list of calls of the bit writer.
\<close>

unbundle bit_operations_syntax

section \<open>The state that is read\<close>

text \<open>The fields of \<^verbatim>\<open>x264_t\<close> that the writer reads: the cache of the numbers of coefficients (0x80 where there is no neighbour) and the profile.\<close>

record x264_t =
  non_zero_count :: "int list"
  i_profile_idc :: int

definition x264_scan8 :: "nat list" where
  "x264_scan8 =
     [4 + 1 * 8, 5 + 1 * 8, 4 + 2 * 8, 5 + 2 * 8, 6 + 1 * 8, 7 + 1 * 8, 6 + 2 * 8, 7 + 2 * 8,
      4 + 3 * 8, 5 + 3 * 8, 4 + 4 * 8, 5 + 4 * 8, 6 + 3 * 8, 7 + 3 * 8, 6 + 4 * 8, 7 + 4 * 8,
      1 + 1 * 8, 2 + 1 * 8, 1 + 2 * 8, 2 + 2 * 8,
      1 + 4 * 8, 2 + 4 * 8, 1 + 5 * 8, 2 + 5 * 8,
      4 + 5 * 8,
      5 + 5 * 8, 6 + 5 * 8]"

datatype dct_cat = DCT_LUMA_DC | DCT_LUMA_AC | DCT_LUMA_4x4 | DCT_CHROMA_DC | DCT_CHROMA_AC | DCT_LUMA_8x8

abbreviation (input) "PROFILE_HIGH_IDC \<equiv> (100 :: int)"

definition x264_mb_predict_non_zero_code :: "'a x264_t_scheme \<Rightarrow> nat \<Rightarrow> int" where
  "x264_mb_predict_non_zero_code h idx =
     (let za = non_zero_count h ! (x264_scan8 ! idx - 1);
          zb = non_zero_count h ! (x264_scan8 ! idx - 8);
          i_ret = za + zb;
          i_ret = (if i_ret < 0x80 then drop_bit 1 (i_ret + 1) else i_ret)
      in i_ret AND 0x7f)"

section \<open>The last coefficient\<close>

text \<open>A load of 64 bits is non-zero if one of four coefficients is.\<close>

function coeff_last_skip :: "int list \<Rightarrow> int \<Rightarrow> int" where
  "coeff_last_skip l i_last =
     (if i_last \<ge> 3 \<and> list_all (\<lambda>x. x = 0) (take 4 (drop (nat (i_last - 3)) l)) then coeff_last_skip l (i_last - 4) else i_last)"
  by pat_completeness auto
termination by (relation "measure (\<lambda>(l, i). nat (i + 1))") auto

function coeff_last_back :: "int list \<Rightarrow> int \<Rightarrow> int" where
  "coeff_last_back l i_last =
     (if i_last \<ge> 0 \<and> l ! nat i_last = 0 then coeff_last_back l (i_last - 1) else i_last)"
  by pat_completeness auto
termination by (relation "measure (\<lambda>(l, i). nat (i + 1))") auto

declare coeff_last_skip.simps [simp del] coeff_last_back.simps [simp del]

definition x264_coeff_last_internal :: "int list \<Rightarrow> int \<Rightarrow> int" where
  "x264_coeff_last_internal l i_count = coeff_last_back l (coeff_last_skip l (i_count - 1))"

definition coeff_last :: "dct_cat \<Rightarrow> int list \<Rightarrow> int" where
  "coeff_last cat l =
     x264_coeff_last_internal l
       (case cat of DCT_CHROMA_DC \<Rightarrow> 4 | DCT_LUMA_AC \<Rightarrow> 15 | DCT_CHROMA_AC \<Rightarrow> 15 | DCT_LUMA_8x8 \<Rightarrow> 64 | _ \<Rightarrow> 16)"

section \<open>Writing a block\<close>

text \<open>The loop that collects levels and the runs of zeros before them; \<open>n\<close> is \<open>i_last + 1\<close>.\<close>

fun zero_run :: "int list \<Rightarrow> nat \<Rightarrow> nat" where
  "zero_run l 0 = 0"
| "zero_run l (Suc k) = (if l ! k = 0 then Suc (zero_run l k) else 0)"

lemma zero_run_le: "zero_run l k \<le> k"
  by (induction k) auto

fun level_run :: "int list \<Rightarrow> nat \<Rightarrow> (int \<times> nat) list" where
  "level_run l 0 = []"
| "level_run l (Suc k) = (l ! k, zero_run l k) # level_run l (k - zero_run l k)"

text \<open>The loop over the first three levels: how many are 1 or -1, and their signs.\<close>

fun trailing_loop :: "int list \<Rightarrow> int \<Rightarrow> nat \<times> int" where
  "trailing_loop [] i_sign = (0, i_sign)"
| "trailing_loop (v # vs) i_sign =
     (if (word_of_int (v + 1) :: u32) > 2 then (0, i_sign)
      else let (n, i_sign) = trailing_loop vs (push_bit 1 i_sign OR of_bool (v < 0)) in (Suc n, i_sign))"

function level_prefix_loop :: "int \<Rightarrow> nat \<Rightarrow> int \<times> nat" where
  "level_prefix_loop i_level_code i_level_prefix =
     (if i_level_code > 2 ^ (i_level_prefix - 3) then level_prefix_loop (i_level_code - 2 ^ (i_level_prefix - 3)) (i_level_prefix + 1)
      else (i_level_code, i_level_prefix))"
  by pat_completeness auto
termination
proof (relation "measure (\<lambda>(c, p). nat c)")
  fix c :: int and p :: nat
  assume "2 ^ (p - 3) < c"
  moreover have "(0 :: int) < 2 ^ (p - 3)" by simp
  ultimately have "0 < c" "c - 2 ^ (p - 3) < c" by linarith+
  then show "((c - 2 ^ (p - 3), p + 1), c, p) \<in> measure (\<lambda>(c, p). nat c)" by simp
qed simp

declare level_prefix_loop.simps [simp del]

text \<open>The code of a level whose prefix is 15 or more.\<close>

definition escape_code :: "int \<Rightarrow> nat \<Rightarrow> int \<Rightarrow> int \<times> nat" where
  "escape_code profile i_suffix_length i_level_code =
     (let i_level_code = i_level_code - push_bit i_suffix_length 15;
          i_level_code = (if i_suffix_length = 0 then i_level_code - 15 else i_level_code)
      in if i_level_code \<ge> 2 ^ 12
         then if profile \<ge> PROFILE_HIGH_IDC then level_prefix_loop i_level_code 15
              else (2 ^ 12 - 2 + (i_level_code AND 1), 15)
         else (i_level_code, 15))"

text \<open>One round of the loop over the levels; \<open>adjust\<close> is set for the first one if there are fewer than three trailing ones.\<close>

definition level_code :: "bool \<Rightarrow> int \<Rightarrow> int" where
  "level_code adjust level =
     (let m = drop_bit 15 level;
          abs_level = (level XOR m) - m;
          i_level_code = abs_level * 2 - m - 2
      in if adjust then i_level_code - 2 else i_level_code)"

definition write_level :: "int \<Rightarrow> bool \<Rightarrow> nat \<Rightarrow> int \<Rightarrow> (bs_t \<Rightarrow> bs_t outcome) list" where
  "write_level profile adjust i_suffix_length level =
     (let i_level_code = level_code adjust level
      in if drop_bit i_suffix_length i_level_code < 14
         then [put_u (drop_bit i_suffix_length i_level_code + 1 + int i_suffix_length)
                 (2 ^ i_suffix_length + (i_level_code AND (2 ^ i_suffix_length - 1)))]
         else if i_suffix_length = 0 \<and> i_level_code < 30 then [put_u 19 (2 ^ 4 + (i_level_code - 14))]
         else if i_suffix_length > 0 \<and> drop_bit i_suffix_length i_level_code = 14
         then [put_u (15 + int i_suffix_length) (2 ^ i_suffix_length + (i_level_code AND (2 ^ i_suffix_length - 1)))]
         else (let (i_level_code, i_level_prefix) = escape_code profile i_suffix_length i_level_code
               in [put_u (int i_level_prefix + 1) 1,
                   put_u (int i_level_prefix - 3) (i_level_code AND (2 ^ (i_level_prefix - 3) - 1))]))"

definition next_suffix_length :: "nat \<Rightarrow> int \<Rightarrow> nat" where
  "next_suffix_length i_suffix_length abs_level =
     (let i_suffix_length = (if i_suffix_length = 0 then 1 else i_suffix_length)
      in if abs_level > push_bit (i_suffix_length - 1) 3 \<and> i_suffix_length < 6 then i_suffix_length + 1 else i_suffix_length)"

fun write_levels :: "int \<Rightarrow> bool \<Rightarrow> nat \<Rightarrow> int list \<Rightarrow> (bs_t \<Rightarrow> bs_t outcome) list" where
  "write_levels profile adjust i_suffix_length [] = []"
| "write_levels profile adjust i_suffix_length (v # vs) =
     write_level profile adjust i_suffix_length v @
     write_levels profile False (next_suffix_length i_suffix_length ((v XOR drop_bit 15 v) - drop_bit 15 v)) vs"

text \<open>The last loop: the run of the last coefficient is not written.\<close>

fun write_runs :: "int \<Rightarrow> nat list \<Rightarrow> (bs_t \<Rightarrow> bs_t outcome) list" where
  "write_runs i_total_zero (r # s # rs) =
     (if i_total_zero > 0
      then put_vlc x264_run_before (min (i_total_zero - 1) 6) (int r) # write_runs (i_total_zero - int r) (s # rs)
      else [])"
| "write_runs i_total_zero rs = []"

definition ct_index :: "nat list" where
  "ct_index = [0, 0, 1, 1, 2, 2, 2, 2, 3, 3, 3, 3, 3, 3, 3, 3, 3]"

definition block_residual_write_cavlc :: "'a x264_t_scheme \<Rightarrow> dct_cat \<Rightarrow> nat \<Rightarrow> int list \<Rightarrow> nat \<Rightarrow> (bs_t \<Rightarrow> bs_t outcome) list" where
  "block_residual_write_cavlc h i_ctxBlockCat i_idx l i_count =
     (let nC = (if i_idx \<ge> 25 then 4 else ct_index ! nat (x264_mb_predict_non_zero_code h (if i_idx = 24 then 0 else i_idx)))
      in if non_zero_count h ! (x264_scan8 ! i_idx) = 0 then [put_vlc x264_coeff_token (int nC) 0]
      else
        let i_last = coeff_last i_ctxBlockCat l;
            lr = level_run l (nat (i_last + 1));
            level = map fst lr; run = map snd lr;
            i_total = length lr;
            i_total_zero = i_last + 1 - int i_total;
            (i_trailing, i_sign) = trailing_loop (take (min 3 i_total) level) 0;
            i_suffix_length = (if i_total > 10 \<and> i_trailing < 3 then 1 else 0)
        in [put_vlc x264_coeff_token (int nC) (int (i_total * 4 + i_trailing))]
           @ (if i_trailing > 0 then [put_u (int i_trailing) i_sign] else [])
           @ write_levels (i_profile_idc h) (i_trailing < 3) i_suffix_length (drop i_trailing level)
           @ (if i_total < i_count
              then [put_vlc (if i_idx \<ge> 25 then x264_total_zeros_dc else x264_total_zeros) (int i_total - 1) i_total_zero]
              else [])
           @ write_runs i_total_zero run)"

section \<open>The parsing process of the standard\<close>

text \<open>The number of coefficients expected from the neighbours to the left and above, and the table that it selects.\<close>

definition expected_count :: "nat option \<Rightarrow> nat option \<Rightarrow> nat" where
  "expected_count nA nB =
     (case (nA, nB) of (Some a, Some b) \<Rightarrow> (a + b + 1) div 2 | (Some a, None) \<Rightarrow> a | (None, Some b) \<Rightarrow> b | (None, None) \<Rightarrow> 0)"

definition token_table :: "nat \<Rightarrow> nat" where
  "token_table n = (if n < 2 then 0 else if n < 4 then 1 else if n < 8 then 2 else 3)"

definition get_level_prefix :: "nat parser" where
  "get_level_prefix bs =
     (case dropWhile Not bs of [] \<Rightarrow> None | b # rest \<Rightarrow> Some (length (takeWhile Not bs), rest))"

definition level_suffix_size :: "nat \<Rightarrow> nat \<Rightarrow> nat" where
  "level_suffix_size suffixLength prefix =
     (if prefix = 14 \<and> suffixLength = 0 then 4 else if prefix \<ge> 15 then prefix - 3 else suffixLength)"

definition level_of_code :: "int \<Rightarrow> int" where
  "level_of_code c = (if even c then (c + 2) div 2 else (- c - 1) div 2)"

definition get_level :: "bool \<Rightarrow> nat \<Rightarrow> int parser" where
  "get_level adjust suffixLength =
     pbind get_level_prefix (\<lambda>prefix.
     pbind (get_u (level_suffix_size suffixLength prefix)) (\<lambda>suffix.
       preturn (level_of_code
         (int (min 15 prefix) * 2 ^ suffixLength + suffix
          + (if prefix \<ge> 15 \<and> suffixLength = 0 then 15 else 0)
          + (if prefix \<ge> 16 then 2 ^ (prefix - 3) - 4096 else 0)
          + (if adjust then 2 else 0)))))"

definition next_suffixLength :: "nat \<Rightarrow> int \<Rightarrow> nat" where
  "next_suffixLength s v = (let s = max s 1 in if \<bar>v\<bar> > 3 * 2 ^ (s - 1) \<and> s < 6 then s + 1 else s)"

fun get_levels :: "nat \<Rightarrow> bool \<Rightarrow> nat \<Rightarrow> int list parser" where
  "get_levels 0 adjust s = preturn []"
| "get_levels (Suc n) adjust s =
     pbind (get_level adjust s) (\<lambda>v. pbind (get_levels n False (next_suffixLength s v)) (\<lambda>vs. preturn (v # vs)))"

fun get_runs :: "nat \<Rightarrow> nat \<Rightarrow> nat list parser" where
  "get_runs zerosLeft (Suc (Suc n)) =
     pbind (if zerosLeft > 0 then get_vlc (x264_run_before ! min (zerosLeft - 1) 6) else preturn 0) (\<lambda>r.
     pbind (get_runs (zerosLeft - r) (Suc n)) (\<lambda>rs. preturn (r # rs)))"
| "get_runs zerosLeft (Suc 0) = preturn [zerosLeft]"
| "get_runs zerosLeft 0 = preturn []"

text \<open>Placing the levels: the run of a level is the number of zeros in front of it, the highest frequency comes first.\<close>

definition place :: "(int \<times> nat) list \<Rightarrow> int list" where
  "place lr = concat (map (\<lambda>(v, r). replicate r 0 @ [v]) (rev lr))"

definition residual_block_cavlc :: "nat \<Rightarrow> bool \<Rightarrow> nat \<Rightarrow> int list parser" where
  "residual_block_cavlc table chroma_dc maxNumCoeff =
     pbind (get_vlc (x264_coeff_token ! table)) (\<lambda>token.
       let total = token div 4; trailing = token mod 4
       in if total = 0 then preturn (replicate maxNumCoeff 0)
          else
            pbind (prepeat trailing (get_u 1)) (\<lambda>signs.
            pbind (get_levels (total - trailing) (trailing < 3) (if total > 10 \<and> trailing < 3 then 1 else 0)) (\<lambda>levels.
            pbind (if total < maxNumCoeff
                   then get_vlc ((if chroma_dc then x264_total_zeros_dc else x264_total_zeros) ! (total - 1))
                   else preturn 0) (\<lambda>zeros.
            pbind (get_runs zeros total) (\<lambda>runs.
              let xs = place (zip (map (\<lambda>b. if b = 1 then -1 else 1) signs @ levels) runs)
              in preturn (xs @ replicate (maxNumCoeff - length xs) 0))))))"


section \<open>Levels and runs of a block\<close>

lemma zero_run_zero: "k - zero_run l k \<le> i \<Longrightarrow> i < k \<Longrightarrow> l ! i = 0"
  by (induction k) (auto simp: less_Suc_eq split: if_splits)

lemma zero_run_stop: "zero_run l k < k \<Longrightarrow> l ! (k - zero_run l k - 1) \<noteq> 0"
  by (induction k) (auto split: if_splits)

lemma take_zero_run:
  assumes "k \<le> length l"
  shows "take k l = take (k - zero_run l k) l @ replicate (zero_run l k) 0"
proof (rule nth_equalityI)
  show "length (take k l) = length (take (k - zero_run l k) l @ replicate (zero_run l k) 0)"
    using assms zero_run_le[of l k] by simp
  fix i assume "i < length (take k l)"
  then show "take k l ! i = (take (k - zero_run l k) l @ replicate (zero_run l k) 0) ! i"
    using assms zero_run_le[of l k] zero_run_zero[of k l i] by (auto simp: nth_append)
qed

lemma place_level_run: "n \<le> length l \<Longrightarrow> place (level_run l n) = take n l"
proof (induction l n rule: level_run.induct)
  case (2 l k)
  have "place (level_run l (Suc k)) = place (level_run l (k - zero_run l k)) @ replicate (zero_run l k) 0 @ [l ! k]"
    by (simp add: place_def)
  also have "\<dots> = take (Suc k) l" using 2 take_zero_run[of k l] by (simp add: take_Suc_conv_app_nth)
  finally show ?case .
qed (simp add: place_def)

lemma length_place: "length (place lr) = length lr + sum_list (map snd lr)"
  by (induction lr) (auto simp: place_def)

lemma level_run_count: "length (level_run l n) + sum_list (map snd (level_run l n)) = n"
proof (induction l n rule: level_run.induct)
  case (2 l k)
  then show ?case using zero_run_le[of l k] by simp
qed simp

lemma level_run_values: "v \<in> set (map fst (level_run l n)) \<Longrightarrow> n \<le> length l \<Longrightarrow> v \<in> set l"
proof (induction l n rule: level_run.induct)
  case (2 l k)
  have "k - zero_run l k \<le> length l" using 2(3) by simp
  then have "set (map fst (level_run l (Suc k))) \<subseteq> insert (l ! k) (set (map fst (level_run l (k - zero_run l k))))"
    "v \<in> set (map fst (level_run l (k - zero_run l k))) \<Longrightarrow> v \<in> set l" using 2(1) by auto
  then show ?case using 2(2,3) nth_mem[of k l] by auto
qed simp

lemma level_run_nonzero:
  "0 < n \<Longrightarrow> l ! (n - 1) \<noteq> 0 \<Longrightarrow> v \<in> set (map fst (level_run l n)) \<Longrightarrow> v \<noteq> 0"
proof (induction l n rule: level_run.induct)
  case (2 l k)
  show ?case
  proof (cases "v = l ! k")
    case False
    then have v: "v \<in> set (map fst (level_run l (k - zero_run l k)))" using 2 by auto
    then have "0 < k - zero_run l k" by (cases "k - zero_run l k") auto
    then show ?thesis using 2(1) v zero_run_stop[of l k] by auto
  qed (use 2 in auto)
qed simp

section \<open>The last coefficient\<close>

lemma coeff_last_back_spec:
  assumes "i < int (length l)" "-1 \<le> i"
  shows "-1 \<le> coeff_last_back l i \<and> coeff_last_back l i \<le> i \<and>
    (\<forall>j. coeff_last_back l i < int j \<and> int j \<le> i \<longrightarrow> l ! j = 0) \<and> (0 \<le> coeff_last_back l i \<longrightarrow> l ! nat (coeff_last_back l i) \<noteq> 0)"
  using assms
proof (induction l i rule: coeff_last_back.induct)
  case (1 l i)
  show ?case
  proof (cases "i \<ge> 0 \<and> l ! nat i = 0")
    case True
    have e: "coeff_last_back l i = coeff_last_back l (i - 1)" using True by (subst coeff_last_back.simps) simp
    have "l ! j = 0" if "i - 1 < int j" "int j \<le> i" for j
    proof -
      have "j = nat i" using that by linarith
      then show ?thesis using True by simp
    qed
    then show ?thesis unfolding e using 1 True by force
  next
    case False
    then have "coeff_last_back l i = i" by (subst coeff_last_back.simps) auto
    then show ?thesis using False 1 by auto
  qed
qed

lemma coeff_last_skip_spec:
  assumes "i < int (length l)" "-1 \<le> i"
  shows "-1 \<le> coeff_last_skip l i \<and> coeff_last_skip l i \<le> i \<and> (\<forall>j. coeff_last_skip l i < int j \<and> int j \<le> i \<longrightarrow> l ! j = 0)"
  using assms
proof (induction l i rule: coeff_last_skip.induct)
  case (1 l i)
  show ?case
  proof (cases "i \<ge> 3 \<and> list_all (\<lambda>x. x = 0) (take 4 (drop (nat (i - 3)) l))")
    case True
    have e: "coeff_last_skip l i = coeff_last_skip l (i - 4)" using True by (subst coeff_last_skip.simps) simp
    have "l ! j = 0" if "i - 4 < int j" "int j \<le> i" for j
    proof -
      have j: "nat (i - 3) \<le> j" "j - nat (i - 3) < 4" using that True by linarith+
      moreover have "j - nat (i - 3) < length l - nat (i - 3)" using 1(2) that j by linarith
      moreover have "\<forall>n. n < length l - nat (i - 3) \<and> n < 4 \<longrightarrow> l ! (nat (i - 3) + n) = 0"
        using True 1(2) by (simp add: list_all_length)
      ultimately have "l ! (nat (i - 3) + (j - nat (i - 3))) = 0" by blast
      then show ?thesis using j by simp
    qed
    then show ?thesis unfolding e using 1 True by force
  next
    case False
    then have "coeff_last_skip l i = i" by (subst coeff_last_skip.simps) auto
    then show ?thesis using 1 by auto
  qed
qed

lemma coeff_last_internal_spec:
  assumes "length l = n" "x264_coeff_last_internal l (int n) = i"
  shows "-1 \<le> i" "i < int n" "\<And>j. i < int j \<Longrightarrow> j < n \<Longrightarrow> l ! j = 0" "0 \<le> i \<Longrightarrow> l ! nat i \<noteq> 0"
proof -
  let ?k = "coeff_last_skip l (int n - 1)"
  have k: "-1 \<le> ?k \<and> ?k \<le> int n - 1 \<and> (\<forall>j. ?k < int j \<and> int j \<le> int n - 1 \<longrightarrow> l ! j = 0)"
    using coeff_last_skip_spec[of "int n - 1" l] assms(1) by simp
  have b: "-1 \<le> i \<and> i \<le> ?k \<and> (\<forall>j. i < int j \<and> int j \<le> ?k \<longrightarrow> l ! j = 0) \<and> (0 \<le> i \<longrightarrow> l ! nat i \<noteq> 0)"
    using coeff_last_back_spec[of ?k l] k assms by (simp add: x264_coeff_last_internal_def)
  show "-1 \<le> i" "i < int n" "0 \<le> i \<Longrightarrow> l ! nat i \<noteq> 0" using k b by auto
  show "l ! j = 0" if "i < int j" "j < n" for j using k b that by (cases "int j \<le> ?k") auto
qed


section \<open>Levels\<close>

lemma writes_put_u:
  assumes "0 \<le> x" "x < 2 ^ n" "n \<le> 32"
  shows "writes (put_u (int n) x) (to_bits n (nat x))"
proof -
  have x: "word_of_int x = (word_of_nat (nat x) :: u32)" using assms(1) by simp
  have "nat x < 2 ^ n" using assms(1,2) by (simp add: nat_less_iff)
  then show ?thesis using writes_element[of "U n (nat x)"] assms(3) by (simp add: writes_def put_u_def x)
qed

lemma to_bits_one: "to_bits (Suc q) (1 :: nat) = replicate q False @ [True]"
proof (induction q)
  case (Suc q)
  then show ?case by (subst to_bits_Suc) (simp add: bit_1_iff)
qed (simp add: to_bits_Suc bit_0)

lemma to_bits_prefix:
  assumes "r < 2 ^ s"
  shows "to_bits (q + 1 + s) (2 ^ s + r :: nat) = replicate q False @ True # to_bits s r"
proof -
  have d: "drop_bit s (2 ^ s + r) = (1 :: nat)" using assms by (simp add: drop_bit_eq_div div_add_self1)
  have "to_bits s (2 ^ s + r) = to_bits s r"
  proof (rule to_bits_cong)
    fix i assume "i < s"
    moreover have "take_bit s (2 ^ s + r) = take_bit s r" by (simp add: take_bit_eq_mod)
    ultimately show "bit (2 ^ s + r) i = bit r i" by (metis bit_take_bit_iff)
  qed
  then show ?thesis using to_bits_add[of "q + 1" s "2 ^ s + r"] by (simp add: d to_bits_one[simplified])
qed

lemma writes_prefix:
  assumes "0 \<le> r" "r < 2 ^ s" "q + 1 + s \<le> 32"
  shows "writes (put_u (int q + 1 + int s) (2 ^ s + r)) (replicate q False @ True # to_bits s (nat r))"
proof -
  have "nat r < 2 ^ s" using assms(1,2) by (simp add: nat_less_iff)
  moreover have "nat (2 ^ s + r) = 2 ^ s + nat r" using assms(1) by (simp add: nat_add_distrib nat_power_eq)
  moreover have "(2 :: int) ^ s \<le> 2 ^ (q + s)" by (rule power_increasing) simp_all
  then have "2 ^ s + r < 2 * 2 ^ (q + s)" using assms(2) by linarith
  then have "2 ^ s + r < 2 ^ (q + 1 + s)" by simp
  ultimately show ?thesis
    using writes_put_u[of "2 ^ s + r" "q + 1 + s"] to_bits_prefix[of "nat r" s q] assms(1,3) by (simp add: ac_simps)
qed

lemma get_level_prefix_bits: "get_level_prefix (replicate q False @ True # rest) = Some (q, rest)"
proof -
  have "dropWhile Not (replicate q False @ True # rest) = True # rest" by (induction q) simp_all
  then show ?thesis by (simp add: get_level_prefix_def takeWhile_zeros)
qed

lemma get_u_to_bits: "0 \<le> r \<Longrightarrow> r < 2 ^ n \<Longrightarrow> get_u n (to_bits n (nat r) @ rest) = Some (r, rest)"
  using read_u_to_bits[of "nat r" n rest] by (simp add: get_u_def nat_less_iff)

abbreviation int16_range :: "int \<Rightarrow> bool" where
  "int16_range v \<equiv> - 32768 \<le> v \<and> v < 32768"

lemma sign_mask: "int16_range v \<Longrightarrow> drop_bit 15 v = (if v < 0 then -1 else 0)"
proof (cases "v < 0")
  case True
  assume "int16_range v"
  then have "v div 32768 = - 1" using True by (intro int_div_pos_eq[of v 32768 "- 1" "v + 32768"]) simp_all
  then show ?thesis using True by (simp add: drop_bit_eq_div)
qed (simp add: drop_bit_eq_div div_pos_pos_trivial)

lemma sign_mask_abs: "int16_range v \<Longrightarrow> (v XOR drop_bit 15 v) - drop_bit 15 v = \<bar>v\<bar>"
  by (simp add: sign_mask not_int_def)

lemma level_code_eq:
  "int16_range v \<Longrightarrow> level_code adjust v = 2 * \<bar>v\<bar> - 2 + (if v < 0 then 1 else 0) - (if adjust then 2 else 0)"
  unfolding level_code_def Let_def sign_mask_abs by (simp add: sign_mask)

lemma level_of_code_eq: "v \<noteq> 0 \<Longrightarrow> level_of_code (2 * \<bar>v\<bar> - 2 + (if v < 0 then 1 else 0)) = v"
  by (cases "v < 0") (auto simp: level_of_code_def)

lemma next_suffix_eq: "int16_range v \<Longrightarrow> next_suffix_length s ((v XOR drop_bit 15 v) - drop_bit 15 v) = next_suffixLength s v"
  unfolding sign_mask_abs by (auto simp: next_suffix_length_def next_suffixLength_def push_bit_eq_mult max_def Let_def)

lemma next_suffix_le: "s \<le> 6 \<Longrightarrow> next_suffixLength s v \<le> 6"
  by (auto simp: next_suffixLength_def Let_def)

text \<open>A level is coded by a prefix and a suffix that add up to its code.\<close>

lemma get_level_bits:
  assumes "v \<noteq> 0" "r < 2 ^ level_suffix_size s q" "0 \<le> r"
    and "int (min 15 q) * 2 ^ s + r + (if q \<ge> 15 \<and> s = 0 then 15 else 0) + (if q \<ge> 16 then 2 ^ (q - 3) - 4096 else 0)
      + (if adjust then 2 else 0) = 2 * \<bar>v\<bar> - 2 + (if v < 0 then 1 else 0)"
  shows "get_level adjust s ((replicate q False @ True # to_bits (level_suffix_size s q) (nat r)) @ rest) = Some (v, rest)"
  unfolding get_level_def pbind_def
  using assms(2,3) level_of_code_eq[OF assms(1)]
  by (simp add: get_level_prefix_bits get_u_to_bits assms(4))

lemma codes_short_level:
  assumes "v \<noteq> 0" "0 \<le> r" "r < 2 ^ t" "q < 15" "t = level_suffix_size s q" "q + 1 + t \<le> 32"
    and "int q * 2 ^ s + r + (if adjust then 2 else 0) = 2 * \<bar>v\<bar> - 2 + (if v < 0 then 1 else 0)"
  shows "codes (seqR [put_u (int q + 1 + int t) (2 ^ t + r)]) (get_level adjust s) v"
proof -
  have "get_level adjust s ((replicate q False @ True # to_bits t (nat r)) @ rest) = Some (v, rest)" for rest
    unfolding assms(5) by (rule get_level_bits) (use assms in auto)
  then show ?thesis unfolding codes_single by (rule codesI[OF writes_prefix[OF assms(2,3,6)]])
qed


lemma level_prefix_loop_spec:
  assumes "level_prefix_loop c p = (c', p')" "3 \<le> p" "0 < c"
  shows "c + 2 ^ (p - 3) = c' + 2 ^ (p' - 3) \<and> p \<le> p' \<and> 0 < c' \<and> c' \<le> 2 ^ (p' - 3)"
  using assms
proof (induction c p rule: level_prefix_loop.induct)
  case (1 c p)
  show ?case
  proof (cases "c > 2 ^ (p - 3)")
    case True
    then have "level_prefix_loop (c - 2 ^ (p - 3)) (p + 1) = (c', p')" using 1(2) by (subst (asm) level_prefix_loop.simps) simp
    moreover have "p + 1 - 3 = Suc (p - 3)" using 1(3) by simp
    ultimately have "c - 2 ^ (p - 3) + 2 * 2 ^ (p - 3) = c' + 2 ^ (p' - 3) \<and> p + 1 \<le> p' \<and> 0 < c' \<and> c' \<le> 2 ^ (p' - 3)"
      using 1(1)[OF True] True 1(3) by simp
    then show ?thesis by linarith
  next
    case False
    then have "c' = c" "p' = p" using 1(2) by (simp_all add: level_prefix_loop.simps[of c p])
    then show ?thesis using False 1 by simp
  qed
qed

text \<open>
  The codes at which the loop of the high profiles stops one step early, with a suffix that does not fit. \<open>level_gaps\<close> are the levels
  that can have such a code.
\<close>

definition code_gaps :: "int list" where
  "code_gaps = [4096, 12288, 28672, 61440]"

definition gap_pair :: "int \<Rightarrow> int \<Rightarrow> int list" where
  "gap_pair c e = [(c + e) div 2 + 1, (c + e) div 2 + 2]"

definition level_gaps :: "int list" where
  "level_gaps = concat (map (\<lambda>(c, e). gap_pair c e) (List.product code_gaps [30, 60, 120, 240, 480, 960]))"

definition level_fits :: "int \<Rightarrow> int \<Rightarrow> bool" where
  "level_fits profile v \<longleftrightarrow> \<bar>v\<bar> \<le> 2063 \<or> profile \<ge> PROFILE_HIGH_IDC \<and> int16_range v \<and> v \<notin> set level_gaps"

lemma level_prefix_loop_15:
  assumes "level_prefix_loop c 15 = (c', p')" "0 < c" "c < 65536" "c \<notin> set code_gaps"
  shows "15 \<le> p'" "p' \<le> 19" "0 \<le> c'" "c' < 2 ^ (p' - 3)" "c = c' + 2 ^ (p' - 3) - 4096"
proof -
  have a: "c + 4096 = c' + 2 ^ (p' - 3)" "15 \<le> p'" "0 < c'" "c' \<le> 2 ^ (p' - 3)"
    using level_prefix_loop_spec[OF assms(1)] assms(2) by simp_all
  have "(2 :: int) ^ (p' - 3) < 2 ^ 17" using a assms(3) by simp
  then have p: "p' - 3 < 17" by (intro power_less_imp_less_exp[of "2 :: int"]) simp_all
  then have "p' \<in> {15, 16, 17, 18, 19}" using a(2) by (simp; linarith)
  then have "c' \<noteq> 2 ^ (p' - 3)" using a(1) assms(3,4) by (auto simp: code_gaps_def)
  then show "15 \<le> p'" "p' \<le> 19" "0 \<le> c'" "c' < 2 ^ (p' - 3)" "c = c' + 2 ^ (p' - 3) - 4096" using a p by auto
qed

lemma gap_level:
  assumes "2 * \<bar>v\<bar> - 2 + (if v < 0 then 1 else 0) - (if adjust then 2 else 0) - e \<in> set code_gaps" "e \<in> {30, 60, 120, 240, 480, 960}"
  shows "v \<in> set level_gaps"
proof -
  define c where "c = 2 * \<bar>v\<bar> - 2 + (if v < 0 then 1 else 0) - (if adjust then 2 else 0) - e"
  have c: "c \<in> set code_gaps" using assms(1) by (simp only: c_def)
  then have "even c" by (auto simp: code_gaps_def)
  moreover have "even e" using assms(2) by auto
  ultimately have "\<not> v < 0" by (auto simp: c_def split: if_splits)
  then have "c + e = 2 * (v - 1 - (if adjust then 1 else 0))" by (simp add: c_def)
  then have "(c + e) div 2 = v - 1 - (if adjust then 1 else 0)" by simp
  then have "v = (c + e) div 2 + 1 \<or> v = (c + e) div 2 + 2" by (auto split: if_splits)
  then have "v \<in> set (gap_pair c e)" by (simp add: gap_pair_def)
  moreover have "(c, e) \<in> set (List.product code_gaps [30, 60, 120, 240, 480, 960])" using c assms(2) by simp
  ultimately show ?thesis unfolding level_gaps_def set_concat set_map by (fastforce intro: UN_I imageI)
qed


lemma escape_code_spec:
  assumes "level_fits profile v" "s \<le> 6" "c = level_code adjust v" "escape_code profile s c = (c', p)"
    and esc: "e = (if s = 0 then 30 else 15 * 2 ^ s)" "e \<le> c"
  shows "15 \<le> p" "p \<le> 19" "0 \<le> c'" "c' < 2 ^ (p - 3)" "c = e + c' + 2 ^ (p - 3) - 4096"
proof -
  have r: "int16_range v" using assms(1) by (auto simp: level_fits_def)
  have c: "c = 2 * \<bar>v\<bar> - 2 + (if v < 0 then 1 else 0) - (if adjust then 2 else 0)" using assms(3) level_code_eq[OF r] by simp
  have e: "escape_code profile s c =
    (if c - e \<ge> 2 ^ 12 then if profile \<ge> 100 then level_prefix_loop (c - e) 15 else (2 ^ 12 - 2 + ((c - e) AND 1), 15) else (c - e, 15))"
    by (simp add: escape_code_def esc(1) push_bit_eq_mult Let_def)
  have "s \<in> {0, 1, 2, 3, 4, 5, 6}" using assms(2) by (simp; linarith)
  then have "30 \<le> e" by (auto simp: esc(1))
  moreover have "e \<in> {30, 60, 120, 240, 480, 960}" using \<open>s \<in> _\<close> by (auto simp: esc(1))
  moreover have "c \<le> 65536" using c r by (auto split: if_splits)
  moreover have "c - e \<notin> set code_gaps" if "profile \<ge> 100" "c - e \<ge> 4096"
    using gap_level[of v adjust e] c calculation assms(1) that by (auto simp: level_fits_def split: if_splits)
  moreover have "c - e < 4096" if "\<not> profile \<ge> 100"
    using assms(1) that c calculation by (auto simp: level_fits_def split: if_splits)
  ultimately show "15 \<le> p" "p \<le> 19" "0 \<le> c'" "c' < 2 ^ (p - 3)" "c = e + c' + 2 ^ (p - 3) - 4096"
    using e assms(4) esc(2) level_prefix_loop_15[of "c - e" c' p] by (auto split: if_splits)
qed


lemma and_mask_mod: "(c :: int) AND (2 ^ s - 1) = c mod 2 ^ s"
  by (simp flip: take_bit_eq_mod mask_eq_exp_minus_1 add: take_bit_eq_mask)

lemma codes_escape_level:
  assumes "level_fits profile v" "v \<noteq> 0" "s \<le> 6" "(if s = 0 then 30 else 15 * 2 ^ s) \<le> level_code adjust v"
    and "escape_code profile s (level_code adjust v) = (c', p)"
  shows "codes (seqR [put_u (int p + 1) 1, put_u (int p - 3) (c' AND (2 ^ (p - 3) - 1))]) (get_level adjust s) v"
proof -
  have r: "int16_range v" using assms(1) by (auto simp: level_fits_def)
  note e = escape_code_spec[OF assms(1,3) refl assms(5) refl assms(4)]
  have z: "level_suffix_size s p = p - 3" using e(1) by (auto simp: level_suffix_size_def)
  have 1: "writes (put_u (int p + 1) 1) (replicate p False @ [True])"
    using writes_prefix[of 0 0 p] e(2) by simp
  have m: "c' AND (2 ^ (p - 3) - 1) = c'" "int p - 3 = int (p - 3)" using e(1,3,4) by (simp_all add: and_mask_mod)
  have 2: "writes (put_u (int p - 3) (c' AND (2 ^ (p - 3) - 1))) (to_bits (p - 3) (nat c'))"
    unfolding m by (rule writes_put_u[OF e(3,4)]) (use e(2) in simp)
  have w: "writes (seqR ([put_u (int p + 1) 1] @ [put_u (int p - 3) (c' AND (2 ^ (p - 3) - 1))]))
      ((replicate p False @ [True]) @ to_bits (p - 3) (nat c'))"
    by (rule writes_append) (simp_all only: writes_single 1 2)
  have "get_level adjust s ((replicate p False @ True # to_bits (level_suffix_size s p) (nat c')) @ rest) = Some (v, rest)" for rest
  proof (rule get_level_bits[OF assms(2)])
    show "c' < 2 ^ level_suffix_size s p" "0 \<le> c'" using e(3,4) by (simp_all add: z)
    have "min 15 p = 15" using e(1) by simp
    then show "int (min 15 p) * 2 ^ s + c' + (if p \<ge> 15 \<and> s = 0 then 15 else 0) + (if p \<ge> 16 then 2 ^ (p - 3) - 4096 else 0)
      + (if adjust then 2 else 0) = 2 * \<bar>v\<bar> - 2 + (if v < 0 then 1 else 0)"
      using e(1,5) level_code_eq[OF r, of adjust] by (cases "p = 15") auto
  qed
  moreover have "writes (seqR [put_u (int p + 1) 1, put_u (int p - 3) (c' AND (2 ^ (p - 3) - 1))])
      (replicate p False @ True # to_bits (level_suffix_size s p) (nat c'))" using w by (simp add: z del: seqR.simps)
  ultimately show ?thesis by (intro codesI)
qed

lemma codes_level:
  assumes "level_fits profile v" "v \<noteq> 0" "s \<le> 6" "adjust \<Longrightarrow> 2 \<le> \<bar>v\<bar>"
  shows "codes (seqR (write_level profile adjust s v)) (get_level adjust s) v"
proof -
  define c where "c = level_code adjust v"
  have r: "int16_range v" using assms(1) by (auto simp: level_fits_def)
  have c: "c + (if adjust then 2 else 0) = 2 * \<bar>v\<bar> - 2 + (if v < 0 then 1 else 0)"
    using level_code_eq[OF r] by (simp add: c_def)
  have c0: "0 \<le> c" using c assms(2,4) by (cases adjust) (auto split: if_splits)
  define q where "q = nat (c div 2 ^ s)"
  have q: "c div 2 ^ s = int q" using c0 by (simp add: q_def pos_imp_zdiv_nonneg_iff)
  have qr: "int q * 2 ^ s + c mod 2 ^ s = c" using div_mult_mod_eq[of c "2 ^ s"] by (simp add: q)
  have mod_bounds: "0 \<le> c mod 2 ^ s" "c mod 2 ^ s < 2 ^ s" by simp_all
  have short: "codes (seqR [put_u (int q + 1 + int s) (2 ^ s + c mod 2 ^ s)]) (get_level adjust s) v"
    if "q < 15" "\<not> (q = 14 \<and> s = 0)"
    by (rule codes_short_level[OF assms(2) mod_bounds that(1)]) (use that assms(3) qr c in \<open>auto simp: level_suffix_size_def\<close>)
  consider (a) "q < 14" | (b) "14 \<le> q" "s = 0" "c < 30" | (c) "q = 14" "0 < s" | (d) "14 \<le> q" "\<not> (s = 0 \<and> c < 30)" "\<not> (q = 14 \<and> 0 < s)"
    by linarith
  then show ?thesis
  proof cases
    case a
    then show ?thesis using short by (simp add: write_level_def c_def[symmetric] and_mask_mod drop_bit_eq_div q del: seqR.simps)
  next
    case b
    have "codes (seqR [put_u (int 14 + 1 + int 4) (2 ^ 4 + (c - 14))]) (get_level adjust s) v"
      by (rule codes_short_level[OF assms(2)]) (use b q c in \<open>auto simp: level_suffix_size_def\<close>)
    then show ?thesis using b q by (simp add: write_level_def c_def[symmetric] drop_bit_eq_div del: seqR.simps)
  next
    case c
    then show ?thesis using short by (simp add: write_level_def c_def[symmetric] and_mask_mod drop_bit_eq_div q del: seqR.simps)
  next
    case d
    have "(if s = 0 then 30 else 15 * 2 ^ s) \<le> c"
    proof (cases "s = 0")
      case False
      then have "15 * 2 ^ s \<le> int q * 2 ^ s" using d by (intro mult_right_mono) auto
      then have "15 * 2 ^ s \<le> c" using qr mod_bounds by linarith
      then show ?thesis using False by simp
    qed (use d in simp)
    then show ?thesis
      using codes_escape_level[OF assms(1,2,3), of adjust] d
      by (cases "escape_code profile s c") (auto simp: write_level_def c_def[symmetric] drop_bit_eq_div q simp del: seqR.simps)
  qed
qed

lemma codes_levels:
  assumes "\<And>v. v \<in> set vs \<Longrightarrow> level_fits profile v \<and> v \<noteq> 0" "s \<le> 6" "adjust \<Longrightarrow> vs \<noteq> [] \<Longrightarrow> 2 \<le> \<bar>hd vs\<bar>"
  shows "codes (seqR (write_levels profile adjust s vs)) (get_levels (length vs) adjust s) vs"
  using assms
proof (induction vs arbitrary: adjust s)
  case (Cons v vs)
  have r: "int16_range v" using Cons.prems(1)[of v] by (auto simp: level_fits_def)
  have 1: "codes (seqR (write_level profile adjust s v)) (get_level adjust s) v"
    by (rule codes_level) (use Cons.prems in auto)
  have 2: "codes (seqR (write_levels profile False (next_suffixLength s v) vs)) (get_levels (length vs) False (next_suffixLength s v)) vs"
    by (rule Cons.IH) (use Cons.prems next_suffix_le in auto)
  show ?case unfolding write_levels.simps next_suffix_eq[OF r] length_Cons get_levels.simps
    by (rule codes_append[OF 1]) (rule codes_map[OF 2])
qed (simp only: write_levels.simps list.size get_levels.simps codes_Nil)


section \<open>Trailing ones\<close>

lemma uint_of_small: "- 65536 \<le> x \<Longrightarrow> x < 65536 \<Longrightarrow> uint (word_of_int x :: u32) = (if x < 0 then x + 2 ^ 32 else x)"
proof (cases "x < 0")
  case True
  assume "- 65536 \<le> x"
  then have "x mod 2 ^ 32 = x + 2 ^ 32" using True by (intro int_mod_pos_eq[of x "2 ^ 32" "- 1" "x + 2 ^ 32"]) simp_all
  then show ?thesis using True by (simp add: uint_word_of_int)
qed (simp add: uint_word_of_int mod_pos_pos_trivial)

lemma not_one_iff: "int16_range v \<Longrightarrow> (word_of_int (v + 1) :: u32) > 2 \<longleftrightarrow> v < - 1 \<or> 1 < v"
  unfolding word_less_def by (subst uint_of_small) auto

lemma shift_in_sign: "push_bit 1 (a :: int) OR of_bool b = 2 * a + of_bool b"
  by (cases b) (simp_all add: push_bit_eq_mult or_one_eq)

lemma trailing_loop_spec:
  assumes "trailing_loop vs a = (n, sg)" "\<And>v. v \<in> set vs \<Longrightarrow> int16_range v \<and> v \<noteq> 0"
  shows "n \<le> length vs \<and> (\<forall>v \<in> set (take n vs). v = 1 \<or> v = - 1) \<and> (n < length vs \<longrightarrow> 2 \<le> \<bar>vs ! n\<bar>) \<and>
    sg = a * 2 ^ n + int (of_bits (map (\<lambda>v. v < 0) (take n vs)))"
  using assms
proof (induction vs a arbitrary: n sg rule: trailing_loop.induct)
  case (2 v vs a)
  have r: "int16_range v" "v \<noteq> 0" using 2(3) by auto
  show ?case
  proof (cases "(word_of_int (v + 1) :: u32) > 2")
    case True
    then show ?thesis using 2(2) r not_one_iff[OF r(1)] by auto
  next
    case False
    then obtain m where m: "trailing_loop vs (2 * a + of_bool (v < 0)) = (m, sg)" "n = Suc m"
      using 2(2) unfolding trailing_loop.simps shift_in_sign by (auto split: prod.splits)
    have "m \<le> length vs \<and> (\<forall>v \<in> set (take m vs). v = 1 \<or> v = - 1) \<and> (m < length vs \<longrightarrow> 2 \<le> \<bar>vs ! m\<bar>) \<and>
        sg = (2 * a + of_bool (v < 0)) * 2 ^ m + int (of_bits (map (\<lambda>v. v < 0) (take m vs)))"
      using 2(1)[OF False, of m sg] m 2(3) unfolding shift_in_sign by simp
    moreover have "v = 1 \<or> v = - 1" using False not_one_iff[OF r(1)] r by auto
    ultimately show ?thesis using m(2) by (auto simp: algebra_simps min_absorb2)
  qed
qed simp

lemma to_bits_of_bits: "to_bits (length bs) (of_bits bs) = bs"
proof (induction bs)
  case (Cons b bs)
  have t: "take_bit (length bs) (of_bits (b # bs)) = of_bits bs"
    using of_bits_less[of bs] by (simp add: take_bit_eq_mod)
  have "to_bits (length bs) (of_bits (b # bs)) = to_bits (length bs) (of_bits bs)"
    by (rule to_bits_cong) (metis t bit_take_bit_iff)
  moreover have "bit (of_bits (b # bs)) (length bs) = b"
    using of_bits_less[of bs] by (simp add: bit_iff_odd div_add_self1)
  ultimately show ?case using Cons by (simp add: to_bits_Suc)
qed simp

lemma get_signs: "prepeat (length bs) (get_u 1) (bs @ rest) = Some (map (\<lambda>b. of_bool b) bs, rest)"
proof (induction bs)
  case (Cons b bs)
  have "get_u 1 (b # bs @ rest) = Some (of_bool b, bs @ rest)" by (simp add: get_u_def read_u_def)
  then show ?case using Cons by simp
qed simp

lemma codes_signs:
  assumes "length bs \<le> 32"
  shows "codes (seqR (if length bs > 0 then [put_u (int (length bs)) (int (of_bits bs))] else []))
    (prepeat (length bs) (get_u 1)) (map (\<lambda>b. of_bool b) bs)"
proof (cases "bs = []")
  case False
  have "int (of_bits bs) < 2 ^ length bs"
    using of_bits_less[of bs] by (simp only: of_nat_less_iff[symmetric, where 'a = int] of_nat_power of_nat_numeral)
  then have "writes (put_u (int (length bs)) (int (of_bits bs))) bs"
    using writes_put_u[of "int (of_bits bs)" "length bs"] assms by (simp add: to_bits_of_bits)
  then have "codes (put_u (int (length bs)) (int (of_bits bs))) (prepeat (length bs) (get_u 1)) (map (\<lambda>b. of_bool b) bs)"
    by (rule codesI) (rule get_signs)
  then show ?thesis using False by (simp add: codes_single del: seqR.simps)
qed (simp add: codes_Nil del: seqR.simps preturn_bs)

section \<open>Runs\<close>

lemma run_before_used: "list_all (\<lambda>z. list_all (\<lambda>r. 0 < i_size (x264_run_before ! min (z - 1) 6 ! r)) [0..<Suc z]) [1..<15]"
  by code_simp

lemma run_before_length: "list_all (\<lambda>row. length row = 15) x264_run_before" "length x264_run_before = 7"
  by (simp_all add: x264_run_before_def)

lemma codes_run:
  assumes "0 < z" "z \<le> 14" "r \<le> z"
  shows "codes (put_vlc x264_run_before (min (int z - 1) 6) (int r)) (get_vlc (x264_run_before ! min (z - 1) 6)) r"
proof -
  have "min (int z - 1) 6 = int (min (z - 1) 6)" using assms(1) by auto
  moreover have "0 < i_size (x264_run_before ! min (z - 1) 6 ! r)"
    using run_before_used assms by (simp add: list_all_iff del: upt.simps)
  ultimately show ?thesis
    using codes_vlc[OF run_before_free, of "min (z - 1) 6" r] run_before_length assms by (simp add: list_all_length)
qed

lemma get_runs_zero: "codes (seqR []) (get_runs 0 n) (replicate n 0)"
proof -
  have "get_runs 0 n bs = Some (replicate n 0, bs)" for bs
    by (induction "0 :: nat" n rule: get_runs.induct) (simp_all add: pbind_def)
  then show ?thesis by (intro codesI[OF writes_Nil]) simp
qed

lemma codes_runs:
  assumes "sum_list rs = z" "2 \<le> length rs \<Longrightarrow> z \<le> 14" "rs \<noteq> []"
  shows "codes (seqR (write_runs (int z) rs)) (get_runs z (length rs)) rs"
  using assms
proof (induction "int z" rs arbitrary: z rule: write_runs.induct)
  case (1 r r' rs)
  show ?case
  proof (cases "z = 0")
    case True
    then have "r # r' # rs = replicate (length (r # r' # rs)) 0" using 1(2) by (auto intro!: replicate_length_same[symmetric])
    then show ?thesis using get_runs_zero[of "length (r # r' # rs)"] True by simp
  next
    case False
    have z: "r \<le> z" "z \<le> 14" using 1(2,3) by auto
    have 2: "codes (seqR (write_runs (int (z - r)) (r' # rs))) (get_runs (z - r) (length (r' # rs))) (r' # rs)"
      by (rule 1(1)) (use False z 1(2) in \<open>auto simp: of_nat_diff\<close>)
    have "codes (seqR (put_vlc x264_run_before (min (int z - 1) 6) (int r) # write_runs (int z - int r) (r' # rs)))
        (pbind (get_vlc (x264_run_before ! min (z - 1) 6)) (\<lambda>r. pbind (get_runs (z - r) (length (r' # rs))) (\<lambda>rs. preturn (r # rs)))) (r # r' # rs)"
      by (rule codes_Cons[OF codes_run]) (use False z codes_map[OF 2] in \<open>simp_all add: of_nat_diff del: seqR.simps\<close>)
    then show ?thesis using False by (simp del: seqR.simps)
  qed
qed (auto simp: codes_Nil simp del: seqR.simps preturn_bs)


section \<open>The number of coefficients\<close>

lemma coeff_token_used:
  "list_all (\<lambda>i. list_all (\<lambda>t. list_all (\<lambda>k. t < k \<or> 0 < i_size (x264_coeff_token ! i ! (t * 4 + k))) [0..<4]) [0..<(if i = 4 then 5 else 17)]) [0..<5]"
  by code_simp

lemma total_zeros_used: "list_all (\<lambda>t. list_all (\<lambda>z. 0 < i_size (x264_total_zeros ! t ! z)) [0..<16 - t]) [0..<15]"
  by code_simp

lemma total_zeros_dc_used: "list_all (\<lambda>t. list_all (\<lambda>z. 0 < i_size (x264_total_zeros_dc ! t ! z)) [0..<4 - t]) [0..<3]"
  by code_simp

lemma vlc_lengths:
  "list_all (\<lambda>row. length row = 68) x264_coeff_token" "length x264_coeff_token = 5"
  "list_all (\<lambda>row. length row = 16) x264_total_zeros" "length x264_total_zeros = 15"
  "list_all (\<lambda>row. length row = 4) x264_total_zeros_dc" "length x264_total_zeros_dc = 3"
  by code_simp+

lemma codes_token:
  assumes "i < 5" "t < (if i = 4 then 5 else 17)" "k < 4" "k \<le> t"
  shows "codes (put_vlc x264_coeff_token (int i) (int (t * 4 + k))) (get_vlc (x264_coeff_token ! i)) (t * 4 + k)"
proof (rule codes_vlc[OF coeff_token_free])
  show "i < length x264_coeff_token" "t * 4 + k < length (x264_coeff_token ! i)"
    using assms vlc_lengths(1,2) by (auto simp: list_all_length split: if_splits)
  show "0 < i_size (x264_coeff_token ! i ! (t * 4 + k))"
    using coeff_token_used assms unfolding list_all_iff set_upt by (metis atLeastLessThan_iff not_less zero_le)
qed

lemma codes_total_zeros:
  assumes "0 < t" "t + z \<le> n" "t < n" "if dc then n = 4 else n \<le> 16"
  shows "codes (put_vlc (if dc then x264_total_zeros_dc else x264_total_zeros) (int t - 1) (int z))
    (get_vlc ((if dc then x264_total_zeros_dc else x264_total_zeros) ! (t - 1))) z"
proof -
  have i: "int t - 1 = int (t - 1)" using assms(1) by simp
  have "0 < i_size (x264_total_zeros_dc ! (t - 1) ! z)" if dc
    using total_zeros_dc_used assms that by (auto simp: list_all_iff simp del: upt.simps)
  moreover have "0 < i_size (x264_total_zeros ! (t - 1) ! z)" if "\<not> dc"
    using total_zeros_used assms that by (auto simp: list_all_iff simp del: upt.simps)
  ultimately show ?thesis
    unfolding i using codes_vlc[OF total_zeros_free, of "t - 1" z] codes_vlc[OF total_zeros_dc_free, of "t - 1" z]
      vlc_lengths assms by (cases dc) (auto simp: list_all_length)
qed

definition nz_available :: "int \<Rightarrow> nat option" where
  "nz_available z = (if z = 0x80 then None else Some (nat z))"

abbreviation nz_ok :: "int \<Rightarrow> bool" where
  "nz_ok z \<equiv> z = 0x80 \<or> 0 \<le> z \<and> z \<le> 16"

lemma predict_expected:
  assumes "nz_ok (non_zero_count h ! (x264_scan8 ! idx - 1))" "nz_ok (non_zero_count h ! (x264_scan8 ! idx - 8))"
  shows "x264_mb_predict_non_zero_code h idx =
      int (expected_count (nz_available (non_zero_count h ! (x264_scan8 ! idx - 1))) (nz_available (non_zero_count h ! (x264_scan8 ! idx - 8))))"
    and "expected_count (nz_available (non_zero_count h ! (x264_scan8 ! idx - 1))) (nz_available (non_zero_count h ! (x264_scan8 ! idx - 8))) \<le> 16"
proof -
  define a b where "a = non_zero_count h ! (x264_scan8 ! idx - 1)" and "b = non_zero_count h ! (x264_scan8 ! idx - 8)"
  have m: "x AND 127 = x mod 128" for x :: int using and_mask_mod[of x 7] by simp
  have n: "nz_ok a" "nz_ok b" using assms by (simp_all add: a_def b_def)
  have k: "x264_mb_predict_non_zero_code h idx = (if a + b < 128 then (a + b + 1) div 2 else a + b) mod 128"
    by (simp add: x264_mb_predict_non_zero_code_def Let_def m drop_bit_eq_div a_def b_def)
  have "0 \<le> a \<Longrightarrow> a \<le> 16 \<Longrightarrow> 0 \<le> b \<Longrightarrow> b \<le> 16 \<Longrightarrow> int (Suc (nat a + nat b) div 2) = (a + b + 1) div 2" by (simp add: zdiv_int)
  moreover have "0 \<le> a \<Longrightarrow> a \<le> 16 \<Longrightarrow> 0 \<le> b \<Longrightarrow> b \<le> 16 \<Longrightarrow> (a + b + 1) div 2 < 128 \<and> 0 \<le> (a + b + 1) div 2" by linarith
  ultimately have "x264_mb_predict_non_zero_code h idx = int (expected_count (nz_available a) (nz_available b))"
    using n unfolding k by (auto simp: expected_count_def nz_available_def mod_pos_pos_trivial)
  moreover have "expected_count (nz_available a) (nz_available b) \<le> 16" using n by (auto simp: expected_count_def nz_available_def)
  ultimately show "x264_mb_predict_non_zero_code h idx =
      int (expected_count (nz_available (non_zero_count h ! (x264_scan8 ! idx - 1))) (nz_available (non_zero_count h ! (x264_scan8 ! idx - 8))))"
    "expected_count (nz_available (non_zero_count h ! (x264_scan8 ! idx - 1))) (nz_available (non_zero_count h ! (x264_scan8 ! idx - 8))) \<le> 16"
    by (simp_all add: a_def b_def)
qed

lemma ct_index_table: "n \<le> 16 \<Longrightarrow> ct_index ! n = token_table n"
proof -
  have "list_all (\<lambda>n. ct_index ! n = token_table n) [0..<17]" by code_simp
  then show "n \<le> 16 \<Longrightarrow> ct_index ! n = token_table n" by (simp add: list_all_iff del: upt.simps)
qed


section \<open>A block\<close>

lemma codes_zeros:
  assumes "0 < t" "t + z \<le> n" "if dc then n = 4 else n \<le> 16" "t = n \<Longrightarrow> z = 0"
  shows "codes (seqR (if t < n then [put_vlc (if dc then x264_total_zeros_dc else x264_total_zeros) (int t - 1) (int z)] else []))
    (if t < n then get_vlc ((if dc then x264_total_zeros_dc else x264_total_zeros) ! (t - 1)) else preturn 0) z"
proof (cases "t < n")
  case True
  then show ?thesis using codes_total_zeros[OF assms(1,2) True assms(3)] by (simp only: if_True codes_single)
next
  case False
  then have "z = 0" using assms(2,4) by auto
  then show ?thesis using False by (simp only: if_False codes_Nil)
qed

text \<open>A block with a coefficient, up to position \<open>m\<close>, and the calls that write it.\<close>

definition coefficient_writes :: "int \<Rightarrow> nat \<Rightarrow> bool \<Rightarrow> nat \<Rightarrow> (int \<times> nat) list \<Rightarrow> int \<Rightarrow> (bs_t \<Rightarrow> bs_t outcome) list" where
  "coefficient_writes profile nC dc n lr zeros =
     (case trailing_loop (take (min 3 (length lr)) (map fst lr)) 0 of (k, sg) \<Rightarrow>
        [put_vlc x264_coeff_token (int nC) (int (length lr * 4 + k))]
        @ (if k > 0 then [put_u (int k) sg] else [])
        @ write_levels profile (k < 3) (if length lr > 10 \<and> k < 3 then 1 else 0) (drop k (map fst lr))
        @ (if length lr < n then [put_vlc (if dc then x264_total_zeros_dc else x264_total_zeros) (int (length lr) - 1) zeros] else [])
        @ write_runs zeros (map snd lr))"

lemma signs_of_ones: "\<forall>v \<in> set vs. v = 1 \<or> v = - 1 \<Longrightarrow> map (\<lambda>b. if b = 1 then - 1 else 1) (map (\<lambda>b. of_bool b) (map (\<lambda>v. v < 0) vs)) = (vs :: int list)"
  by (induction vs) auto

lemma codes_coefficients:
  assumes len: "length l = n" "if dc then n = 4 else n \<le> 16" "if dc then nC = 4 else nC < 4"
    and last_pos: "0 < m" "m \<le> n" "l ! (m - 1) \<noteq> 0" "\<And>j. m \<le> j \<Longrightarrow> j < n \<Longrightarrow> l ! j = 0"
    and fits: "\<And>v. v \<in> set l \<Longrightarrow> level_fits profile v"
  shows "codes (seqR (coefficient_writes profile nC dc n (level_run l m) (int (m - length (level_run l m)))))
    (residual_block_cavlc nC dc n) l"
proof -
  define lr where "lr = level_run l m"
  define t where "t = length lr"
  obtain k sg where ks: "trailing_loop (take (min 3 t) (map fst lr)) 0 = (k, sg)" by force
  have cnt: "t + sum_list (map snd lr) = m" using level_run_count[of l m] by (simp add: lr_def t_def)
  have t0: "0 < t" using last_pos(1) by (cases m) (simp_all add: t_def lr_def)
  have n16: "n \<le> 16" using len(2) by (auto split: if_splits)
  have lv: "level_fits profile v \<and> v \<noteq> 0" if "v \<in> set (map fst lr)" for v
    using level_run_values[of v l m] level_run_nonzero[of m l v] that last_pos len(1) fits by (simp add: lr_def)
  have r16: "int16_range v \<and> v \<noteq> 0" if "v \<in> set (take (min 3 t) (map fst lr))" for v
    using lv[of v] in_set_takeD[OF that] by (auto simp: level_fits_def)
  note tr = trailing_loop_spec[OF ks, OF r16]
  have k: "k \<le> 3" "k \<le> t" using tr by (auto simp: t_def)
  have tk: "take k (take (min 3 t) (map fst lr)) = take k (map fst lr)" using k by (simp add: min_absorb1)
  define bs where "bs = map (\<lambda>v. v < 0) (take k (map fst lr))"
  have bs: "length bs = k" "sg = int (of_bits bs)" using k tr by (simp_all add: bs_def tk t_def min_absorb2)
  have ones: "map (\<lambda>b. if b = (1 :: int) then - 1 else 1) (map (\<lambda>b. of_bool b) bs) = take k (map fst lr)"
    unfolding bs_def by (rule signs_of_ones) (use tr tk in auto)
  have c2: "codes (seqR (if k > 0 then [put_u (int k) sg] else [])) (prepeat k (get_u 1)) (map (\<lambda>b. of_bool b) bs)"
    unfolding bs(2) by (rule codes_signs[of bs, unfolded bs(1)]) (use k in simp)
  have c3: "codes (seqR (write_levels profile (k < 3) (if t > 10 \<and> k < 3 then 1 else 0) (drop k (map fst lr))))
      (get_levels (t - k) (k < 3) (if t > 10 \<and> k < 3 then 1 else 0)) (drop k (map fst lr))"
  proof -
    have h: "2 \<le> \<bar>hd (drop k (map fst lr))\<bar>" if "k < 3" "drop k (map fst lr) \<noteq> []"
    proof -
      have "k < t" using that by (simp add: t_def)
      then show ?thesis using tr that by (simp add: hd_drop_conv_nth t_def)
    qed
    have "length (drop k (map fst lr)) = t - k" by (simp add: t_def)
    moreover have "codes (seqR (write_levels profile (k < 3) (if t > 10 \<and> k < 3 then 1 else 0) (drop k (map fst lr))))
      (get_levels (length (drop k (map fst lr))) (k < 3) (if t > 10 \<and> k < 3 then 1 else 0)) (drop k (map fst lr))"
      by (rule codes_levels) (rule lv[OF in_set_dropD], assumption, simp, rule h)
    ultimately show ?thesis by simp
  qed
  have c4: "codes (seqR (if t < n then [put_vlc (if dc then x264_total_zeros_dc else x264_total_zeros) (int t - 1) (int (m - t))] else []))
      (if t < n then get_vlc ((if dc then x264_total_zeros_dc else x264_total_zeros) ! (t - 1)) else preturn 0) (m - t)"
    by (rule codes_zeros) (use t0 cnt last_pos len in auto)
  have c5: "codes (seqR (write_runs (int (m - t)) (map snd lr))) (get_runs (m - t) t) (map snd lr)"
    using codes_runs[of "map snd lr" "m - t"] cnt t0 n16 last_pos by (simp add: t_def)
  have c1: "codes (put_vlc x264_coeff_token (int nC) (int (t * 4 + k))) (get_vlc (x264_coeff_token ! nC)) (t * 4 + k)"
    by (rule codes_token) (use len k cnt last_pos n16 in \<open>auto split: if_splits\<close>)
  define g where "g runs = (let xs = place (zip (map (\<lambda>b. if b = 1 then - 1 else 1) (map (\<lambda>b. of_bool b) bs :: int list) @ drop k (map fst lr)) runs)
      in xs @ replicate (n - length xs) 0)" for runs
  have "g (map snd lr) = place lr @ replicate (n - m) 0"
    unfolding g_def ones append_take_drop_id Let_def zip_map_fst_snd using length_place[of lr] cnt by (simp add: t_def)
  also have "\<dots> = l"
  proof (rule nth_equalityI)
    have p: "place lr = take m l" using place_level_run[of m l] last_pos len(1) by (simp add: lr_def)
    show "length (place lr @ replicate (n - m) 0) = length l" using p last_pos len(1) by simp
    show "(place lr @ replicate (n - m) 0) ! j = l ! j" if "j < length (place lr @ replicate (n - m) 0)" for j
      using p last_pos(2,4) len(1) that by (auto simp: nth_append not_less)
  qed
  finally have gl: "g (map snd lr) = l" .
  have td: "(t * 4 + k) div 4 = t" "(t * 4 + k) mod 4 = k" using k by simp_all
  have "codes (seqR ([put_vlc x264_coeff_token (int nC) (int (t * 4 + k))] @ (if k > 0 then [put_u (int k) sg] else [])
        @ write_levels profile (k < 3) (if t > 10 \<and> k < 3 then 1 else 0) (drop k (map fst lr))
        @ (if t < n then [put_vlc (if dc then x264_total_zeros_dc else x264_total_zeros) (int t - 1) (int (m - t))] else [])
        @ write_runs (int (m - t)) (map snd lr))) (residual_block_cavlc nC dc n) (g (map snd lr))"
    unfolding residual_block_cavlc_def
    apply (rule codes_append, subst codes_single, rule c1)
    apply (simp only: td Let_def t0[THEN gr_implies_not0] if_False)
    apply (rule codes_append[OF c2], rule codes_append[OF c3], rule codes_append[OF c4])
    using codes_map[OF c5, of g] unfolding g_def Let_def .
  then show ?thesis unfolding gl coefficient_writes_def lr_def[symmetric] t_def[symmetric] ks prod.case .
qed


text \<open>The blocks of a macroblock: their number, category and size.\<close>

definition block_kind :: "nat \<Rightarrow> dct_cat \<Rightarrow> nat \<Rightarrow> bool" where
  "block_kind i cat n \<longleftrightarrow>
     i < 16 \<and> (cat = DCT_LUMA_4x4 \<and> n = 16 \<or> cat = DCT_LUMA_AC \<and> n = 15) \<or> 16 \<le> i \<and> i < 24 \<and> cat = DCT_CHROMA_AC \<and> n = 15 \<or>
     i = 24 \<and> cat = DCT_LUMA_DC \<and> n = 16 \<or> (i = 25 \<or> i = 26) \<and> cat = DCT_CHROMA_DC \<and> n = 4"

definition cache_ok :: "'a x264_t_scheme \<Rightarrow> bool" where
  "cache_ok h \<longleftrightarrow> length (non_zero_count h) = 48 \<and> (\<forall>z \<in> set (non_zero_count h). nz_ok z)"

text \<open>The table of the standard for a block: by the neighbours to the left and above.\<close>

definition block_table :: "'a x264_t_scheme \<Rightarrow> nat \<Rightarrow> nat" where
  "block_table h i =
     (if i \<ge> 25 then 4
      else let pos = x264_scan8 ! (if i = 24 then 0 else i)
           in token_table (expected_count (nz_available (non_zero_count h ! (pos - 1))) (nz_available (non_zero_count h ! (pos - 8)))))"

lemma scan8_bound: "i < 27 \<Longrightarrow> 8 < x264_scan8 ! i \<and> x264_scan8 ! i < 48"
proof -
  have "list_all (\<lambda>i. 8 < x264_scan8 ! i \<and> x264_scan8 ! i < 48) [0..<27]" by code_simp
  then show "i < 27 \<Longrightarrow> 8 < x264_scan8 ! i \<and> x264_scan8 ! i < 48" by (simp add: list_all_iff del: upt.simps)
qed

lemma block_table_eq:
  assumes "cache_ok h" "i < 25"
  shows "ct_index ! nat (x264_mb_predict_non_zero_code h (if i = 24 then 0 else i)) = block_table h i" "block_table h i < 4"
proof -
  let ?i = "if i = 24 then 0 else i"
  have "nz_ok (non_zero_count h ! j)" if "j < 48" for j using assms(1) that nth_mem[of j "non_zero_count h"] by (simp add: cache_ok_def)
  moreover have "x264_scan8 ! ?i - 1 < 48" "x264_scan8 ! ?i - 8 < 48" using scan8_bound[of ?i] assms(2) by auto
  ultimately have "nz_ok (non_zero_count h ! (x264_scan8 ! ?i - 1))" "nz_ok (non_zero_count h ! (x264_scan8 ! ?i - 8))" by blast+
  note e = predict_expected[OF this]
  show "ct_index ! nat (x264_mb_predict_non_zero_code h ?i) = block_table h i"
    using e(1) ct_index_table[OF e(2)] assms(2) by (simp add: block_table_def Let_def)
  show "block_table h i < 4" using assms(2) by (simp add: block_table_def token_table_def Let_def)
qed

lemma codes_empty_block:
  assumes "nC < 5"
  shows "codes (seqR [put_vlc x264_coeff_token (int nC) 0]) (residual_block_cavlc nC dc n) (replicate n 0)"
proof -
  have "codes (put_vlc x264_coeff_token (int nC) 0) (get_vlc (x264_coeff_token ! nC)) 0"
    using codes_token[of nC 0 0] assms by simp
  then have "codes (seqR ([put_vlc x264_coeff_token (int nC) 0] @ [])) (residual_block_cavlc nC dc n) (replicate n 0)"
    unfolding residual_block_cavlc_def
    by (intro codes_append) (simp_all only: codes_single, simp only: Let_def div_0 refl if_True codes_Nil)
  then show ?thesis by (simp only: append_Nil2)
qed

lemma codes_block:
  assumes "cache_ok h" "block_kind i cat n" "length l = n"
    and "non_zero_count h ! (x264_scan8 ! i) = 0 \<longleftrightarrow> (\<forall>x \<in> set l. x = 0)" "\<And>v. v \<in> set l \<Longrightarrow> level_fits (i_profile_idc h) v"
  shows "codes (seqR (block_residual_write_cavlc h cat i l n)) (residual_block_cavlc (block_table h i) (i \<ge> 25) n) l"
proof -
  define nC where "nC = (if i \<ge> 25 then 4 else ct_index ! nat (x264_mb_predict_non_zero_code h (if i = 24 then 0 else i)))"
  have nC: "nC = block_table h i" "if i \<ge> 25 then nC = 4 else nC < 4"
    using block_table_eq[OF assms(1), of i] by (auto simp: nC_def block_table_def)
  show ?thesis
  proof (cases "\<forall>x \<in> set l. x = 0")
    case True
    then have "block_residual_write_cavlc h cat i l n = [put_vlc x264_coeff_token (int nC) 0]"
      using assms(4) by (simp add: block_residual_write_cavlc_def nC_def)
    moreover have "l = replicate n 0" using True assms(3) replicate_length_same[of l 0] by simp
    ultimately show ?thesis using codes_empty_block[of nC "i \<ge> 25" n] nC by (simp split: if_splits del: seqR.simps)
  next
    case False
    define e where "e = coeff_last cat l"
    have "x264_coeff_last_internal l (int n) = e"
      using assms(2) by (auto simp: e_def coeff_last_def block_kind_def)
    note e = coeff_last_internal_spec[OF assms(3) this]
    have "0 \<le> e"
    proof (rule ccontr)
      assume "\<not> 0 \<le> e"
      then have "\<And>j. j < n \<Longrightarrow> l ! j = 0" using e(3) by simp
      then show False using False assms(3) by (auto simp: in_set_conv_nth)
    qed
    have nz: "non_zero_count h ! (x264_scan8 ! i) \<noteq> 0" using False assms(4) by blast
    have w: "block_residual_write_cavlc h cat i l n =
        coefficient_writes (i_profile_idc h) nC (i \<ge> 25) n (level_run l (nat (e + 1))) (e + 1 - int (length (level_run l (nat (e + 1)))))"
      unfolding block_residual_write_cavlc_def coefficient_writes_def Let_def nC_def[symmetric] e_def[symmetric]
      using nz by (simp only: if_False length_map)
    have z: "e + 1 - int (length (level_run l (nat (e + 1)))) = int (nat (e + 1) - length (level_run l (nat (e + 1))))"
      using level_run_count[of l "nat (e + 1)"] \<open>0 \<le> e\<close> by linarith
    show ?thesis unfolding w z nC(1)[symmetric]
    proof (rule codes_coefficients[OF assms(3)])
      show "if i \<ge> 25 then n = 4 else n \<le> 16" using assms(2) by (auto simp: block_kind_def)
      show "l ! (nat (e + 1) - 1) \<noteq> 0" using e(4) \<open>0 \<le> e\<close> by (simp add: nat_diff_distrib nat_add_distrib)
      show "l ! j = 0" if "nat (e + 1) \<le> j" "j < n" for j using e(3) that by simp
    qed (use nC(2) e \<open>0 \<le> e\<close> assms(5) in auto)
  qed
qed



definition sample_x264 :: x264_t where
  "sample_x264 = \<lparr>non_zero_count = (replicate 48 0)[4 := 128, 11 := 128, 12 := 4], i_profile_idc = 66\<rparr>"

definition sample_block :: "int list" where
  "sample_block = [-7, 3, 0, 0, 1, 0, -1, 0, 0, 0, 0, 0, 0, 0, 0, 0]"


text \<open>
  C38. The exception is real: in the high profiles a block whose only coefficient is 2065 and a block whose only
  coefficient is 17 are written by the same calls, because the loop that lengthens the prefix compares with \<^verbatim>\<open>>\<close> where the
  suffix needs \<^verbatim>\<open>>=\<close>. No decoder can tell them apart.
\<close>

theorem cavlc_level_gap:
  assumes "i_profile_idc h \<ge> 100"
  shows "block_residual_write_cavlc h DCT_LUMA_4x4 i (2065 # replicate 15 0) 16 = block_residual_write_cavlc h DCT_LUMA_4x4 i (17 # replicate 15 0) 16 \<and>
    2065 \<in> set level_gaps"
proof
  have last0: "coeff_last DCT_LUMA_4x4 (v # replicate 15 0) = 0" if "v \<noteq> 0" for v
    using that by (simp add: coeff_last_def x264_coeff_last_internal_def coeff_last_skip.simps coeff_last_back.simps numeral_eq_Suc)
  have lv: "write_level (i_profile_idc h) True 0 2065 = write_level (i_profile_idc h) True 0 17"
    using assms by (simp add: write_level_def level_code_def escape_code_def level_prefix_loop.simps[of 4096])
  show "block_residual_write_cavlc h DCT_LUMA_4x4 i (2065 # replicate 15 0) 16 = block_residual_write_cavlc h DCT_LUMA_4x4 i (17 # replicate 15 0) 16"
    using lv by (simp add: block_residual_write_cavlc_def last0 Let_def)
  show "2065 \<in> set level_gaps" by code_simp
qed

theorem cavlc_level_gap_witness:
  "block_residual_write_cavlc (sample_x264\<lparr>i_profile_idc := 100\<rparr>) DCT_LUMA_4x4 0 (2065 # replicate 15 0) 16 =
   block_residual_write_cavlc (sample_x264\<lparr>i_profile_idc := 100\<rparr>) DCT_LUMA_4x4 0 (17 # replicate 15 0) 16"
  using cavlc_level_gap[of "sample_x264\<lparr>i_profile_idc := 100\<rparr>" 0] by simp

end
