(* ===== verification/X264_Macroblock.thy ===== *)
theory X264_Macroblock
  imports X264_Cavlc
begin

text \<open>
  Macroblocks of x264 (\<^verbatim>\<open>apps/x264/src/common/macroblock.h\<close>, \<^verbatim>\<open>common/macroblock.c\<close>, \<^verbatim>\<open>common/predict.h\<close>, \<^verbatim>\<open>common/common.h\<close>): their types and
  partitions, the cache of what is known about a macroblock and its neighbours, the prediction of motion vectors
  and of intra modes, and when the larger transform is allowed.
\<close>

unbundle bit_operations_syntax

section \<open>Types\<close>

datatype slice_type_e = SLICE_TYPE_P | SLICE_TYPE_B | SLICE_TYPE_I | SLICE_TYPE_SP | SLICE_TYPE_SI

datatype mb_class_e =
    I_4x4 | I_8x8 | I_16x16 | I_PCM | P_L0 | P_8x8 | P_SKIP | B_DIRECT
  | B_L0_L0 | B_L0_L1 | B_L0_BI | B_L1_L0 | B_L1_L1 | B_L1_BI | B_BI_L0 | B_BI_L1 | B_BI_BI | B_8x8 | B_SKIP

fun mb_num :: "mb_class_e \<Rightarrow> nat" where
  "mb_num I_4x4 = 0" | "mb_num I_8x8 = 1" | "mb_num I_16x16 = 2" | "mb_num I_PCM = 3"
| "mb_num P_L0 = 4" | "mb_num P_8x8 = 5" | "mb_num P_SKIP = 6" | "mb_num B_DIRECT = 7"
| "mb_num B_L0_L0 = 8" | "mb_num B_L0_L1 = 9" | "mb_num B_L0_BI = 10" | "mb_num B_L1_L0 = 11"
| "mb_num B_L1_L1 = 12" | "mb_num B_L1_BI = 13" | "mb_num B_BI_L0 = 14" | "mb_num B_BI_L1 = 15"
| "mb_num B_BI_BI = 16" | "mb_num B_8x8 = 17" | "mb_num B_SKIP = 18"

definition x264_mb_type_list0_table :: "nat list list" where
  "x264_mb_type_list0_table =
     [[0,0], [0,0], [0,0], [0,0], [1,1], [0,0], [1,1], [0,0],
      [1,1], [1,0], [1,1], [0,1], [0,0], [0,1], [1,1], [1,0], [1,1], [0,0], [0,0]]"

definition x264_mb_type_list1_table :: "nat list list" where
  "x264_mb_type_list1_table =
     [[0,0], [0,0], [0,0], [0,0], [0,0], [0,0], [0,0], [0,0],
      [0,0], [0,1], [0,1], [1,0], [1,1], [1,1], [1,0], [1,1], [1,1], [0,0], [0,0]]"

datatype mb_partition_e =
    D_L0_4x4 | D_L0_8x4 | D_L0_4x8 | D_L0_8x8 | D_L1_4x4 | D_L1_8x4 | D_L1_4x8 | D_L1_8x8
  | D_BI_4x4 | D_BI_8x4 | D_BI_4x8 | D_BI_8x8 | D_DIRECT_8x8 | D_8x8 | D_16x8 | D_8x16 | D_16x16

fun part_num :: "mb_partition_e \<Rightarrow> nat" where
  "part_num D_L0_4x4 = 0" | "part_num D_L0_8x4 = 1" | "part_num D_L0_4x8 = 2" | "part_num D_L0_8x8 = 3"
| "part_num D_L1_4x4 = 4" | "part_num D_L1_8x4 = 5" | "part_num D_L1_4x8 = 6" | "part_num D_L1_8x8 = 7"
| "part_num D_BI_4x4 = 8" | "part_num D_BI_8x4 = 9" | "part_num D_BI_4x8 = 10" | "part_num D_BI_8x8 = 11"
| "part_num D_DIRECT_8x8 = 12" | "part_num D_8x8 = 13" | "part_num D_16x8 = 14" | "part_num D_8x16 = 15" | "part_num D_16x16 = 16"

definition x264_mb_partition_listX_table :: "nat list list" where
  "x264_mb_partition_listX_table =
     [[1, 1, 1, 1, 0, 0, 0, 0, 1, 1, 1, 1, 0, 0, 0, 0, 0],
      [0, 0, 0, 0, 1, 1, 1, 1, 1, 1, 1, 1, 0, 0, 0, 0, 0]]"

section \<open>The state of a macroblock\<close>

text \<open>
  The fields of \<^verbatim>\<open>x264_t\<close> that the writer of macroblocks reads or changes. The arrays of two lists are lists of two arrays; the caches
  have 48 entries in rows of eight.
\<close>

record x264_mb = x264_t +
  sh_i_type :: slice_type_e
  sh_b_mbaff :: bool
  b_transform_8x8_mode :: bool
  b_direct8x8_inference :: bool
  analyse_psub8x8 :: bool
  b_interlaced :: bool
  i_mb_y :: int
  type_above :: mb_class_e
  i_type :: mb_class_e
  i_partition :: mb_partition_e
  i_sub_partition :: "mb_partition_e list"
  b_transform_8x8 :: bool
  i_cbp_luma :: nat
  i_cbp_chroma :: nat
  i_intra16x16_pred_mode :: nat
  i_chroma_pred_mode :: nat
  i_qp :: int
  i_last_qp :: int
  i_fref :: "int list"
  cache_ref :: "int list list"
  cache_mv :: "(int \<times> int) list list"
  intra4x4_pred_mode :: "int list"
  luma4x4 :: "int list list"
  luma8x8 :: "int list list"
  luma16x16_dc :: "int list"
  chroma_dc :: "int list list"
  p_fenc :: "byte list list"

section \<open>Motion vectors\<close>

definition x264_median :: "int \<Rightarrow> int \<Rightarrow> int \<Rightarrow> int" where
  "x264_median a b c =
     (let t = (a - b) AND drop_bit 31 (a - b);
          a = a - t; b = b + t;
          b = b - ((b - c) AND drop_bit 31 (b - c));
          b = b + ((a - b) AND drop_bit 31 (a - b))
      in b)"

definition x264_median_mv :: "int \<times> int \<Rightarrow> int \<times> int \<Rightarrow> int \<times> int \<Rightarrow> int \<times> int" where
  "x264_median_mv a b c = (x264_median (fst a) (fst b) (fst c), x264_median (snd a) (snd b) (snd c))"

definition x264_mb_predict_mv :: "x264_mb \<Rightarrow> nat \<Rightarrow> nat \<Rightarrow> nat \<Rightarrow> int \<times> int" where
  "x264_mb_predict_mv h i_list idx i_width =
     (let i8 = x264_scan8 ! idx;
          ref = cache_ref h ! i_list; mv = cache_mv h ! i_list;
          i_ref = ref ! i8;
          i_refa = ref ! (i8 - 1); mv_a = mv ! (i8 - 1);
          i_refb = ref ! (i8 - 8); mv_b = mv ! (i8 - 8);
          i_refc = ref ! (i8 - 8 + i_width); mv_c = mv ! (i8 - 8 + i_width);
          (i_refc, mv_c) =
            (if idx mod 4 = 3 \<or> i_width = 2 \<and> idx mod 4 = 2 \<or> i_refc = - 2 then (ref ! (i8 - 8 - 1), mv ! (i8 - 8 - 1))
             else (i_refc, mv_c));
          i_count = of_bool (i_refa = i_ref) + of_bool (i_refb = i_ref) + of_bool (i_refc = i_ref) :: nat
      in if i_partition h = D_16x8 \<and> idx = 0 \<and> i_refb = i_ref then mv_b
         else if i_partition h = D_16x8 \<and> idx \<noteq> 0 \<and> i_refa = i_ref then mv_a
         else if i_partition h = D_8x16 \<and> idx = 0 \<and> i_refa = i_ref then mv_a
         else if i_partition h = D_8x16 \<and> idx \<noteq> 0 \<and> i_refc = i_ref then mv_c
         else if i_count > 1 then x264_median_mv mv_a mv_b mv_c
         else if i_count = 1 then (if i_refa = i_ref then mv_a else if i_refb = i_ref then mv_b else mv_c)
         else if i_refb = - 2 \<and> i_refc = - 2 \<and> i_refa \<noteq> - 2 then mv_a
         else x264_median_mv mv_a mv_b mv_c)"

text \<open>The branch-free code computes the median.\<close>

lemma negative_part: "- (2 ^ 31) \<le> d \<Longrightarrow> d < 2 ^ 31 \<Longrightarrow> (d :: int) AND drop_bit 31 d = min d 0"
proof (cases "d < 0")
  case True
  assume "- (2 ^ 31) \<le> d"
  then have "d div 2147483648 = - 1" using True by (intro int_div_pos_eq[of d 2147483648 "- 1" "d + 2147483648"]) simp_all
  then show ?thesis using True by (simp add: drop_bit_eq_div)
qed (simp add: drop_bit_eq_div div_pos_pos_trivial)

lemma x264_median_eq:
  assumes "int16_range a" "int16_range b" "int16_range c"
  shows "x264_median a b c = a + b + c - min a (min b c) - max a (max b c)"
proof -
  have n: "x + (y - x AND drop_bit 31 (y - x)) = min x y" "x - (x - y AND drop_bit 31 (x - y)) = max x y"
    if "int16_range x" "int16_range y" for x y
    using that by (simp_all add: negative_part)
  have "b + min (a - b) 0 = b + (a - b AND drop_bit 31 (a - b))" using assms by (simp add: negative_part)
  then have "b + (a - b AND drop_bit 31 (a - b)) = min a b" by simp
  moreover have "a - (a - b AND drop_bit 31 (a - b)) = max a b" using assms by (simp add: negative_part)
  moreover have "int16_range (min a b)" "int16_range (max a b)" "int16_range (max (min a b) c)" using assms by auto
  ultimately have "x264_median a b c = min (max (min a b) c) (max a b)"
    using assms by (simp only: x264_median_def Let_def n)
  then show ?thesis by (simp add: min_def max_def)
qed

section \<open>Intra modes\<close>

definition x264_mb_pred_mode4x4_fix_table :: "int list" where
  "x264_mb_pred_mode4x4_fix_table = [-1, 0, 1, 2, 3, 4, 5, 6, 7, 8, 2, 2, 2]"

definition x264_mb_pred_mode4x4_fix :: "int \<Rightarrow> int" where
  "x264_mb_pred_mode4x4_fix t = x264_mb_pred_mode4x4_fix_table ! nat (t + 1)"

definition x264_mb_pred_mode8x8c_fix :: "nat list" where
  "x264_mb_pred_mode8x8c_fix = [0, 1, 2, 3, 0, 0, 0]"

definition x264_mb_pred_mode16x16_fix :: "nat list" where
  "x264_mb_pred_mode16x16_fix = [0, 1, 2, 3, 2, 2, 2]"

definition predict_intra4x4 :: "int list \<Rightarrow> nat \<Rightarrow> int" where
  "predict_intra4x4 modes idx =
     (let ma = modes ! (x264_scan8 ! idx - 1); mb = modes ! (x264_scan8 ! idx - 8);
          m = min (x264_mb_pred_mode4x4_fix ma) (x264_mb_pred_mode4x4_fix mb)
      in if m < 0 then 2 else m)"

definition x264_mb_predict_intra4x4_mode :: "x264_mb \<Rightarrow> nat \<Rightarrow> int" where
  "x264_mb_predict_intra4x4_mode h idx = predict_intra4x4 (intra4x4_pred_mode h) idx"

section \<open>Coefficients\<close>

definition array_non_zero_count :: "int list \<Rightarrow> int" where
  "array_non_zero_count v = int (length (filter (\<lambda>i. v ! i \<noteq> 0) [0..<16]))"

definition zigzag_interleave_8x8_cavlc :: "int list \<Rightarrow> int list list" where
  "zigzag_interleave_8x8_cavlc src = map (\<lambda>i. map (\<lambda>j. src ! (i + j * 4)) [0..<16]) [0..<4]"

definition x264_mb_transform_8x8_allowed :: "x264_mb \<Rightarrow> bool" where
  "x264_mb_transform_8x8_allowed h =
     (let partition_tab = [0,0,0,0,1,2,0,2,1,1,1,1,1,1,1,1,1,2,0 :: nat];
          p = partition_tab ! mb_num (i_type h)
      in if \<not> b_transform_8x8_mode h then False
         else if p < 2 then p = 1
         else if i_type h = B_DIRECT then b_direct8x8_inference h
         else if i_type h = P_8x8 then \<not> analyse_psub8x8 h \<or> (\<forall>i < 4. i_sub_partition h ! i = D_L0_8x8)
         else b_direct8x8_inference h \<or> (\<forall>i < 4. i_sub_partition h ! i \<noteq> D_DIRECT_8x8))"

end
