(* ===== verification/X264_Reference.thy ===== *)
theory X264_Reference
  imports X264_Macroblock
begin

text \<open>
  Lists of reference frames (\<^verbatim>\<open>x264_reference_build_list\<close> and the reordering commands of \<^verbatim>\<open>x264_slice_header_init\<close> in
  \<^verbatim>\<open>apps/x264/src/encoder/encoder.c\<close>), against the process by which a decoder builds and modifies its lists (8.2.4 of the
  standard, for frames that are short-term references).
\<close>

section \<open>Building the lists\<close>

record x264_frame_t =
  f_poc :: int
  f_frame_num :: int

text \<open>
  One pass of the sorting loop exchanges the first neighbours that are out of order and starts again; \<^verbatim>\<open>None\<close> is
  a pass that finds none. The key is the order count or its negation.
\<close>

fun exchange_first :: "('a \<Rightarrow> int) \<Rightarrow> 'a list \<Rightarrow> 'a list option" where
  "exchange_first k (a # b # xs) = (if k a > k b then Some (b # a # xs) else map_option ((#) a) (exchange_first k (b # xs)))"
| "exchange_first k xs = None"

fun inversions :: "('a \<Rightarrow> int) \<Rightarrow> 'a list \<Rightarrow> nat" where
  "inversions k [] = 0"
| "inversions k (x # xs) = length (filter (\<lambda>y. k x > k y) xs) + inversions k xs"

lemma exchange_first_Some:
  "exchange_first k xs = Some ys \<Longrightarrow> mset ys = mset xs \<and> inversions k ys < inversions k xs"
proof (induction k xs arbitrary: ys rule: exchange_first.induct)
  case (1 k a b xs)
  show ?case
  proof (cases "k a > k b")
    case True
    then show ?thesis using 1(2) by auto
  next
    case False
    then obtain zs where z: "exchange_first k (b # xs) = Some zs" "ys = a # zs" using 1(2) by auto
    have m: "mset zs = mset (b # xs)" "inversions k zs < inversions k (b # xs)" using 1(1)[OF False z(1)] by auto
    have "length (filter (\<lambda>y. k a > k y) zs) = length (filter (\<lambda>y. k a > k y) (b # xs))"
      using m(1) by (metis mset_filter size_mset)
    then show ?thesis using m z(2) by simp
  qed
qed auto

lemma exchange_first_None: "exchange_first k xs = None \<Longrightarrow> sorted (map k xs)"
proof (induction k xs rule: exchange_first.induct)
  case (1 k a b xs)
  then have "k a \<le> k b" "sorted (map k (b # xs))" by (auto split: if_splits)
  then show ?case by auto
qed auto

function sort_frames :: "('a \<Rightarrow> int) \<Rightarrow> 'a list \<Rightarrow> 'a list" where
  "sort_frames k xs = (case exchange_first k xs of None \<Rightarrow> xs | Some ys \<Rightarrow> sort_frames k ys)"
  by auto
termination
  by (relation "measure (\<lambda>(k, xs). inversions k xs)") (auto dest: exchange_first_Some)

declare sort_frames.simps [simp del]

lemma sort_frames_sorted: "mset (sort_frames k xs) = mset xs \<and> sorted (map k (sort_frames k xs))"
proof (induction k xs rule: sort_frames.induct)
  case (1 k xs)
  show ?case
  proof (cases "exchange_first k xs")
    case None
    then show ?thesis by (subst (1 2) sort_frames.simps) (simp add: exchange_first_None)
  next
    case (Some ys)
    then show ?thesis using 1[OF Some] exchange_first_Some[OF Some] by (subst (1 2) sort_frames.simps) simp
  qed
qed

lemma sorted_unique:
  fixes k :: "'a \<Rightarrow> int"
  assumes "sorted (map k xs)" "sorted (map k ys)" "mset xs = mset ys" "inj_on k (set xs)"
  shows "xs = ys"
proof -
  have "sort (map k xs) = map k xs" "sort (map k xs) = map k ys"
    by (rule properties_for_sort; simp add: assms)+
  then have "map k xs = map k ys" by simp
  moreover have "inj_on k (set xs \<union> set ys)" using assms(3,4) mset_eq_setD by fastforce
  ultimately show ?thesis by (rule map_inj_on)
qed

record ref_lists =
  fref0 :: "x264_frame_t list"
  fref1 :: "x264_frame_t list"
  i_ref0 :: int
  i_ref1 :: int
  b_ref_reorder :: "int list"

text \<open>The arguments are the slice type, the limits \<^verbatim>\<open>frames.i_max_ref0\<close>, \<^verbatim>\<open>frames.i_max_ref1\<close>, \<^verbatim>\<open>param.i_frame_reference\<close> and the array of references.\<close>

fun frame_num_rises :: "x264_frame_t list \<Rightarrow> bool" where
  "frame_num_rises (a # b # xs) = (f_frame_num a < f_frame_num b \<or> frame_num_rises (b # xs))"
| "frame_num_rises xs = False"

definition x264_reference_build_list :: "slice_type_e \<Rightarrow> int \<Rightarrow> int \<Rightarrow> int \<Rightarrow> x264_frame_t list \<Rightarrow> int \<Rightarrow> ref_lists outcome" where
  "x264_reference_build_list sh_type i_max_ref0 i_max_ref1 i_frame_reference reference i_poc =
     (let fref0 = sort_frames (\<lambda>f. - f_poc f) (filter (\<lambda>f. f_poc f < i_poc) reference);
          fref1 = sort_frames f_poc (filter (\<lambda>f. f_poc f > i_poc) reference);
          reorder0 = (if sh_type = SLICE_TYPE_P \<and> frame_num_rises fref0 then 1 else 0);
          i_ref1 = min (int (length fref1)) i_max_ref1;
          i_ref0 = min (min (int (length fref0)) i_max_ref0) i_frame_reference
      in assertR (i_ref0 + i_ref1 \<le> 16) ''h->i_ref0 + h->i_ref1 <= 16''
           (Inr \<lparr>fref0 = fref0, fref1 = fref1, i_ref0 = i_ref0, i_ref1 = i_ref1, b_ref_reorder = [reorder0, 0]\<rparr>))"

text \<open>The reordering commands of the slice header: sign and size of the difference to the number before.\<close>

fun reorder_commands :: "int \<Rightarrow> x264_frame_t list \<Rightarrow> (int \<times> int) list" where
  "reorder_commands pred_frame_num [] = []"
| "reorder_commands pred_frame_num (f # fs) =
     (let diff = f_frame_num f - pred_frame_num
      in (of_bool (diff > 0), \<bar>diff\<bar> - 1) # reorder_commands (f_frame_num f) fs)"

section \<open>The lists of a decoder\<close>

text \<open>
  The numbers of the frames relative to the current one, the initial lists of P and B slices and the commands that modify them.
\<close>

definition pic_num :: "int \<Rightarrow> int \<Rightarrow> x264_frame_t \<Rightarrow> int" where
  "pic_num max_frame_num frame_num f =
     (let n = f_frame_num f mod max_frame_num in if n > frame_num then n - max_frame_num else n)"

definition initial_P :: "int \<Rightarrow> int \<Rightarrow> x264_frame_t list \<Rightarrow> x264_frame_t list" where
  "initial_P max_frame_num frame_num dpb = sort_key (\<lambda>f. - pic_num max_frame_num frame_num f) dpb"

definition initial_B0 :: "int \<Rightarrow> x264_frame_t list \<Rightarrow> x264_frame_t list" where
  "initial_B0 poc dpb = sort_key (\<lambda>f. - f_poc f) (filter (\<lambda>f. f_poc f < poc) dpb) @ sort_key f_poc (filter (\<lambda>f. f_poc f > poc) dpb)"

definition initial_B1 :: "int \<Rightarrow> x264_frame_t list \<Rightarrow> x264_frame_t list" where
  "initial_B1 poc dpb =
     (let l = sort_key f_poc (filter (\<lambda>f. f_poc f > poc) dpb) @ sort_key (\<lambda>f. - f_poc f) (filter (\<lambda>f. f_poc f < poc) dpb)
      in if length l > 1 \<and> l = initial_B0 poc dpb then [l ! 1, l ! 0] @ drop 2 l else l)"

text \<open>A command moves the frame with the number it gives to the next place; a command for a number that no frame has fails.\<close>

definition next_pred :: "int \<Rightarrow> int \<Rightarrow> int \<times> int \<Rightarrow> int" where
  "next_pred m pred = (\<lambda>(idc, arg).
     if idc = 0 then (if pred - (arg + 1) < 0 then pred - (arg + 1) + m else pred - (arg + 1))
     else (if pred + (arg + 1) \<ge> m then pred + (arg + 1) - m else pred + (arg + 1)))"

fun modify_list :: "int \<Rightarrow> int \<Rightarrow> x264_frame_t list \<Rightarrow> int \<Rightarrow> nat \<Rightarrow> (int \<times> int) list \<Rightarrow> x264_frame_t list \<Rightarrow> x264_frame_t list option" where
  "modify_list m cur dpb pred r [] l = Some l"
| "modify_list m cur dpb pred r (c # cs) l =
     (let pred = next_pred m pred c; num = (if pred > cur then pred - m else pred)
      in case find (\<lambda>f. pic_num m cur f = num) dpb of
           None \<Rightarrow> None
         | Some f \<Rightarrow> modify_list m cur dpb pred (r + 1) cs (take r l @ f # filter (\<lambda>g. pic_num m cur g \<noteq> num) (drop r l)))"

text \<open>The two lists of a slice, from the numbers of entries and the commands for the first list in its header.\<close>

definition decoder_list0 :: "slice_type_e \<Rightarrow> int \<Rightarrow> int \<Rightarrow> int \<Rightarrow> x264_frame_t list \<Rightarrow> nat \<Rightarrow> (int \<times> int) list \<Rightarrow> x264_frame_t list option" where
  "decoder_list0 t m cur poc dpb n cs =
     map_option (take n) (modify_list m cur dpb cur 0 cs (take n (if t = SLICE_TYPE_B then initial_B0 poc dpb else initial_P m cur dpb)))"

definition decoder_list1 :: "int \<Rightarrow> x264_frame_t list \<Rightarrow> nat \<Rightarrow> x264_frame_t list" where
  "decoder_list1 poc dpb n = take n (initial_B1 poc dpb)"

section \<open>Agreement\<close>

lemma frame_num_falls: "\<not> frame_num_rises fs \<Longrightarrow> sorted (map (\<lambda>f. - f_frame_num f) fs)"
proof (induction fs rule: frame_num_rises.induct)
  case (1 a b xs)
  then show ?case by auto
qed auto

text \<open>The frame numbers of one sequence do not wrap, and every reference comes before the current frame in coding order.\<close>

definition refs_ok :: "int \<Rightarrow> int \<Rightarrow> x264_frame_t list \<Rightarrow> bool" where
  "refs_ok m cur dpb \<longleftrightarrow> cur < m \<and> distinct dpb \<and> inj_on f_frame_num (set dpb) \<and> inj_on f_poc (set dpb) \<and>
     (\<forall>f \<in> set dpb. 0 \<le> f_frame_num f \<and> f_frame_num f < cur)"

lemma pic_num_eq: "refs_ok m cur dpb \<Longrightarrow> f \<in> set dpb \<Longrightarrow> pic_num m cur f = f_frame_num f"
  by (auto simp: refs_ok_def pic_num_def Let_def)

lemma find_frame:
  assumes "refs_ok m cur dpb" "f \<in> set dpb"
  shows "find (\<lambda>g. pic_num m cur g = f_frame_num f) dpb = Some f"
proof -
  have "\<exists>g. find (\<lambda>g. pic_num m cur g = f_frame_num f) dpb = Some g" using assms pic_num_eq[OF assms] by (auto simp: find_None_iff simp flip: not_None_eq)
  then obtain g where g: "find (\<lambda>g. pic_num m cur g = f_frame_num f) dpb = Some g" by blast
  then have "g \<in> set dpb" "pic_num m cur g = f_frame_num f" by (auto simp: find_Some_iff)
  then have "g = f" using assms pic_num_eq[OF assms(1)] by (auto simp: refs_ok_def dest: inj_onD)
  then show ?thesis using g by simp
qed

lemma modify_list_commands:
  assumes "refs_ok m cur dpb" "set fs \<subseteq> set dpb" "distinct (ds @ fs)" "set ds \<subseteq> set dpb" "set rest \<subseteq> set dpb"
    and "0 \<le> pred" "pred < m" "fs = [] \<or> f_frame_num (hd fs) \<noteq> pred"
  shows "\<exists>rest'. modify_list m cur dpb pred (length ds) (reorder_commands pred fs) (ds @ rest) = Some (ds @ fs @ rest')"
  using assms
proof (induction fs arbitrary: ds rest pred)
  case (Cons f fs)
  have f: "f \<in> set dpb" "0 \<le> f_frame_num f" "f_frame_num f < cur" "cur < m" using Cons.prems(1,2) by (auto simp: refs_ok_def)
  have p: "next_pred m pred (of_bool (f_frame_num f - pred > 0), \<bar>f_frame_num f - pred\<bar> - 1) = f_frame_num f"
    using f Cons.prems(6-8) by (auto simp: next_pred_def)
  define rest1 where "rest1 = filter (\<lambda>g. pic_num m cur g \<noteq> f_frame_num f) rest"
  have "fs = [] \<or> f_frame_num (hd fs) \<noteq> f_frame_num f"
  proof (rule ccontr)
    assume "\<not> (fs = [] \<or> f_frame_num (hd fs) \<noteq> f_frame_num f)"
    then have "f_frame_num (hd fs) = f_frame_num f" "hd fs \<in> set fs" by simp_all
    then have "hd fs = f" using Cons.prems(1,2) f(1) by (auto simp: refs_ok_def dest: inj_onD)
    then show False using Cons.prems(3) \<open>hd fs \<in> set fs\<close> by auto
  qed
  then have "\<exists>rest'. modify_list m cur dpb (f_frame_num f) (length (ds @ [f])) (reorder_commands (f_frame_num f) fs) ((ds @ [f]) @ rest1) = Some ((ds @ [f]) @ fs @ rest')"
    using Cons.prems f by (intro Cons.IH) (auto simp: rest1_def)
  then show ?case using find_frame[OF Cons.prems(1) f(1)] f(3)
    by (simp add: Let_def p[simplified] rest1_def)
qed auto


lemma sort_frames_unique: "inj_on k (set xs) \<Longrightarrow> sort_frames k xs = sort_key k xs"
  by (rule sorted_unique[of k]) (use sort_frames_sorted[of k xs] in \<open>auto dest: mset_eq_setD\<close>)

text \<open>The commands that the header carries: none unless the order differs from the one the decoder starts from.\<close>

definition header_commands :: "int \<Rightarrow> ref_lists \<Rightarrow> (int \<times> int) list" where
  "header_commands cur L = (if b_ref_reorder L ! 0 \<noteq> 0 then reorder_commands cur (take (nat (i_ref0 L)) (fref0 L)) else [])"

lemma build_list_eq:
  assumes "x264_reference_build_list t m0 m1 fr dpb poc = Inr L" "inj_on f_poc (set dpb)"
  shows "fref0 L = sort_key (\<lambda>f. - f_poc f) (filter (\<lambda>f. f_poc f < poc) dpb)" "fref1 L = sort_key f_poc (filter (\<lambda>f. f_poc f > poc) dpb)"
    "i_ref0 L = min (min (int (length (fref0 L))) m0) fr" "i_ref1 L = min (int (length (fref1 L))) m1"
    "b_ref_reorder L ! 0 \<noteq> 0 \<longleftrightarrow> t = SLICE_TYPE_P \<and> frame_num_rises (fref0 L)"
proof -
  have i: "inj_on (\<lambda>f. - f_poc f) (set (filter P dpb))" "inj_on f_poc (set (filter P dpb))" for P using assms(2) by (auto simp: inj_on_def)
  have L: "L = \<lparr>fref0 = sort_key (\<lambda>f. - f_poc f) (filter (\<lambda>f. f_poc f < poc) dpb), fref1 = sort_key f_poc (filter (\<lambda>f. f_poc f > poc) dpb),
      i_ref0 = min (min (int (length (sort_key (\<lambda>f. - f_poc f) (filter (\<lambda>f. f_poc f < poc) dpb)))) m0) fr,
      i_ref1 = min (int (length (sort_key f_poc (filter (\<lambda>f. f_poc f > poc) dpb)))) m1,
      b_ref_reorder = [if t = SLICE_TYPE_P \<and> frame_num_rises (sort_key (\<lambda>f. - f_poc f) (filter (\<lambda>f. f_poc f < poc) dpb)) then 1 else 0, 0]\<rparr>"
    using assms(1) unfolding x264_reference_build_list_def Let_def assertR_eq_Inr sort_frames_unique[OF i(1)] sort_frames_unique[OF i(2)]
    by (simp only: sum.inject)
  show "fref0 L = sort_key (\<lambda>f. - f_poc f) (filter (\<lambda>f. f_poc f < poc) dpb)" "fref1 L = sort_key f_poc (filter (\<lambda>f. f_poc f > poc) dpb)"
    "i_ref0 L = min (min (int (length (fref0 L))) m0) fr" "i_ref1 L = min (int (length (fref1 L))) m1"
    unfolding L by (simp_all only: ref_lists.simps)
  show "b_ref_reorder L ! 0 \<noteq> 0 \<longleftrightarrow> t = SLICE_TYPE_P \<and> frame_num_rises (fref0 L)" unfolding L ref_lists.simps nth_Cons_0 by (simp split: if_splits)
qed

lemma decoder_list0_P:
  assumes L: "x264_reference_build_list SLICE_TYPE_P m0 m1 fr dpb poc = Inr L" and ok: "refs_ok m cur dpb" "0 < cur"
    and before: "\<forall>f \<in> set dpb. f_poc f < poc"
  shows "decoder_list0 SLICE_TYPE_P m cur poc dpb (nat (i_ref0 L)) (header_commands cur L) = Some (take (nat (i_ref0 L)) (fref0 L))"
proof -
  have inj: "inj_on f_poc (set dpb)" "inj_on f_frame_num (set dpb)" "distinct dpb" using ok(1) by (auto simp: refs_ok_def)
  note e = build_list_eq[OF L inj(1)]
  have "filter (\<lambda>f. f_poc f < poc) dpb = dpb" using before by (simp add: filter_id_conv)
  then have f0: "mset (fref0 L) = mset dpb" using e(1) by simp
  then have set0: "set (fref0 L) = set dpb" "distinct (fref0 L)" using inj(3) mset_eq_setD mset_eq_imp_distinct_iff by blast+
  let ?n = "nat (i_ref0 L)"
  show ?thesis
  proof (cases "frame_num_rises (fref0 L)")
    case True
    then have c: "header_commands cur L = reorder_commands cur (take ?n (fref0 L))" using e(5) by (simp add: header_commands_def)
    have sub: "set (take ?n (fref0 L)) \<subseteq> set dpb" using set0(1) set_take_subset by fastforce
    have hd: "take ?n (fref0 L) = [] \<or> f_frame_num (hd (take ?n (fref0 L))) \<noteq> cur"
      using sub hd_in_set[of "take ?n (fref0 L)"] ok(1) by (force simp: refs_ok_def)
    have i: "set (take ?n (initial_P m cur dpb)) \<subseteq> set dpb" using set_take_subset[of ?n "initial_P m cur dpb"] by (simp add: initial_P_def)
    have c0: "distinct ([] @ take ?n (fref0 L))" "0 \<le> cur" "cur < m" "set [] \<subseteq> set dpb" using ok set0(2) by (simp_all add: refs_ok_def)
    obtain rest where "modify_list m cur dpb cur 0 (reorder_commands cur (take ?n (fref0 L))) (take ?n (initial_P m cur dpb)) = Some (take ?n (fref0 L) @ rest)"
      using modify_list_commands[OF ok(1) sub c0(1,4) i c0(2,3) hd] by auto
    moreover have "?n \<le> length (fref0 L)" using e(3) by linarith
    ultimately show ?thesis by (simp add: decoder_list0_def c)
  next
    case False
    have s: "sorted (map (\<lambda>f. - f_frame_num f) (fref0 L))" by (rule frame_num_falls[OF False])
    have m: "map (\<lambda>f. - pic_num m cur f) xs = map (\<lambda>f. - f_frame_num f) xs" if "set xs \<subseteq> set dpb" for xs
      using that pic_num_eq[OF ok(1)] by auto
    have "sorted (map (\<lambda>f. - pic_num m cur f) (initial_P m cur dpb))" by (simp add: initial_P_def)
    moreover have "mset (initial_P m cur dpb) = mset dpb" "set (initial_P m cur dpb) = set dpb" by (simp_all add: initial_P_def)
    ultimately have "initial_P m cur dpb = fref0 L"
      using s f0 inj(2) m[of "initial_P m cur dpb"] by (intro sorted_unique[of "\<lambda>f. - f_frame_num f"]) (auto simp: inj_on_def)
    then show ?thesis using False e(5) by (simp add: decoder_list0_def header_commands_def)
  qed
qed

lemma decoder_lists_B:
  assumes L: "x264_reference_build_list SLICE_TYPE_B m0 m1 fr dpb poc = Inr L" and inj: "inj_on f_poc (set dpb)"
    and n: "i_ref0 L > 0" "i_ref1 L > 0"
  shows "decoder_list0 SLICE_TYPE_B m cur poc dpb (nat (i_ref0 L)) (header_commands cur L) = Some (take (nat (i_ref0 L)) (fref0 L))"
    "decoder_list1 poc dpb (nat (i_ref1 L)) = take (nat (i_ref1 L)) (fref1 L)"
proof -
  note e = build_list_eq[OF L inj]
  have len: "nat (i_ref0 L) \<le> length (fref0 L)" "nat (i_ref1 L) \<le> length (fref1 L)" using e(3,4) by linarith+
  have b0: "initial_B0 poc dpb = fref0 L @ fref1 L" by (simp add: initial_B0_def e)
  show "decoder_list0 SLICE_TYPE_B m cur poc dpb (nat (i_ref0 L)) (header_commands cur L) = Some (take (nat (i_ref0 L)) (fref0 L))"
    using e(5) len(1) by (simp add: decoder_list0_def header_commands_def b0)
  have ne: "fref0 L \<noteq> []" "fref1 L \<noteq> []" using n len by auto
  have "hd (fref0 L) \<in> set (fref0 L)" "hd (fref1 L) \<in> set (fref1 L)" using ne by simp_all
  then have "f_poc (hd (fref0 L)) < poc" "f_poc (hd (fref1 L)) > poc" by (simp_all add: e)
  then have "fref1 L @ fref0 L \<noteq> initial_B0 poc dpb" unfolding b0 using ne by (metis hd_append2 not_less_iff_gr_or_eq)
  then have "initial_B1 poc dpb = fref1 L @ fref0 L" by (simp add: initial_B1_def e Let_def)
  then show "decoder_list1 poc dpb (nat (i_ref1 L)) = take (nat (i_ref1 L)) (fref1 L)" using len(2) by (simp add: decoder_list1_def)
qed

end
