(* ===== verification/X264_Mb_Cavlc.thy ===== *)
theory X264_Mb_Cavlc
  imports X264_Macroblock
begin

text \<open>
  Writing a macroblock with variable-length codes (\<^verbatim>\<open>x264_macroblock_write_cavlc\<close> in
  \<^verbatim>\<open>apps/x264/src/encoder/cavlc.c\<close>): its type, prediction, coded block pattern, quantiser and coefficients. The result is the list of
  calls of the bit writer and the macroblock afterwards, whose numbers of coefficients and quantiser change. The statistics
  of bits spent and the copy of the picture for raw macroblocks are left out.
\<close>

section \<open>Tables\<close>

definition intra4x4_cbp_to_golomb :: "nat list" where
  "intra4x4_cbp_to_golomb =
     [3, 29, 30, 17, 31, 18, 37, 8, 32, 38, 19, 9, 20, 10, 11, 2,
      16, 33, 34, 21, 35, 22, 39, 4, 36, 40, 23, 5, 24, 6, 7, 1,
      41, 42, 43, 25, 44, 26, 46, 12, 45, 47, 27, 13, 28, 14, 15, 0]"

definition inter_cbp_to_golomb :: "nat list" where
  "inter_cbp_to_golomb =
     [0, 2, 3, 7, 4, 8, 17, 13, 5, 18, 9, 14, 10, 15, 16, 11,
      1, 32, 33, 36, 34, 37, 44, 40, 35, 45, 38, 41, 39, 42, 43, 19,
      6, 24, 25, 20, 26, 21, 46, 28, 27, 47, 22, 29, 23, 30, 31, 12]"

text \<open>The entries -1 are stored as 255.\<close>

definition mb_type_b_to_golomb :: "nat list list" where
  "mb_type_b_to_golomb =
     [[4, 8, 12, 10, 6, 14, 16, 18, 20],
      [5, 9, 13, 11, 7, 15, 17, 19, 21],
      [1, 255, 255, 255, 2, 255, 255, 255, 3]]"

definition sub_mb_type_p_to_golomb :: "nat list" where
  "sub_mb_type_p_to_golomb = [3, 1, 2, 0]"

definition sub_mb_type_b_to_golomb :: "nat list" where
  "sub_mb_type_b_to_golomb = [10, 4, 5, 1, 11, 6, 7, 2, 12, 8, 9, 3, 0]"

section \<open>Calls\<close>

type_synonym calls = "(bs_t \<Rightarrow> bs_t outcome) list"

definition put_uet :: "nat \<Rightarrow> bs_t \<Rightarrow> bs_t outcome" where
  "put_uet v s = bs_write_ue (int v) s"

definition put_te :: "int \<Rightarrow> int \<Rightarrow> bs_t \<Rightarrow> bs_t outcome" where
  "put_te x v s = bs_write_te x v s"

text \<open>The access of a table of codes outside its range.\<close>

definition put_entry :: "nat list \<Rightarrow> nat \<Rightarrow> bs_t \<Rightarrow> bs_t outcome" where
  "put_entry tab i s = (if i < length tab then put_uet (tab ! i) s else Inl Out_Of_Bounds)"

definition ref_of :: "x264_mb \<Rightarrow> nat \<Rightarrow> nat \<Rightarrow> int" where
  "ref_of h i_list idx = cache_ref h ! i_list ! (x264_scan8 ! idx)"

definition put_ref :: "x264_mb \<Rightarrow> nat \<Rightarrow> nat \<Rightarrow> bs_t \<Rightarrow> bs_t outcome" where
  "put_ref h i_list idx = put_te (i_fref h ! i_list - 1) (ref_of h i_list idx)"

definition cavlc_mb_mvd :: "x264_mb \<Rightarrow> nat \<Rightarrow> nat \<Rightarrow> nat \<Rightarrow> calls" where
  "cavlc_mb_mvd h i_list idx width =
     (let mvp = x264_mb_predict_mv h i_list idx width; mv = cache_mv h ! i_list ! (x264_scan8 ! idx)
      in [put_se (fst mv - fst mvp), put_se (snd mv - snd mvp)])"

definition uses_list :: "nat \<Rightarrow> mb_partition_e \<Rightarrow> bool" where
  "uses_list i_list p \<longleftrightarrow> x264_mb_partition_listX_table ! i_list ! part_num p \<noteq> 0"

definition cavlc_mb8x8_mvd :: "x264_mb \<Rightarrow> nat \<Rightarrow> nat \<Rightarrow> calls" where
  "cavlc_mb8x8_mvd h i_list i =
     (let p = i_sub_partition h ! i
      in if \<not> uses_list i_list p then []
         else if p \<in> {D_L0_8x8, D_L1_8x8, D_BI_8x8} then cavlc_mb_mvd h i_list (4 * i) 2
         else if p \<in> {D_L0_8x4, D_L1_8x4, D_BI_8x4} then cavlc_mb_mvd h i_list (4 * i + 0) 2 @ cavlc_mb_mvd h i_list (4 * i + 2) 2
         else if p \<in> {D_L0_4x8, D_L1_4x8, D_BI_4x8} then cavlc_mb_mvd h i_list (4 * i + 0) 1 @ cavlc_mb_mvd h i_list (4 * i + 1) 1
         else if p \<in> {D_L0_4x4, D_L1_4x4, D_BI_4x4}
         then cavlc_mb_mvd h i_list (4 * i + 0) 1 @ cavlc_mb_mvd h i_list (4 * i + 1) 1
              @ cavlc_mb_mvd h i_list (4 * i + 2) 1 @ cavlc_mb_mvd h i_list (4 * i + 3) 1
         else [])"

section \<open>Type and prediction\<close>

definition write_mb_field :: "x264_mb \<Rightarrow> calls" where
  "write_mb_field h =
     (if sh_b_mbaff h \<and> (even (i_mb_y h) \<or> type_above h = P_SKIP \<or> type_above h = B_SKIP)
      then [put_1 (of_bool (b_interlaced h))] else [])"

definition write_intra4x4_mode :: "x264_mb \<Rightarrow> nat \<Rightarrow> bs_t \<Rightarrow> bs_t outcome" where
  "write_intra4x4_mode h i =
     (let i_pred = x264_mb_predict_intra4x4_mode h i;
          i_mode = x264_mb_pred_mode4x4_fix (intra4x4_pred_mode h ! (x264_scan8 ! i))
      in if i_pred = i_mode then put_1 1 else put_u 4 (i_mode - of_bool (i_mode > i_pred)))"

definition write_intra_nxn :: "nat \<Rightarrow> x264_mb \<Rightarrow> calls" where
  "write_intra_nxn i_mb_i_offset h =
     [put_uet (i_mb_i_offset + 0)]
     @ (if b_transform_8x8_mode h then [put_1 (of_bool (b_transform_8x8 h))] else [])
     @ map (write_intra4x4_mode h) (if i_type h = I_8x8 then [0, 4, 8, 12] else [0..<16])
     @ [put_uet (x264_mb_pred_mode8x8c_fix ! i_chroma_pred_mode h)]"

definition write_intra_16x16 :: "nat \<Rightarrow> x264_mb \<Rightarrow> calls" where
  "write_intra_16x16 i_mb_i_offset h =
     [put_uet (i_mb_i_offset + 1 + x264_mb_pred_mode16x16_fix ! i_intra16x16_pred_mode h
               + i_cbp_chroma h * 4 + (if i_cbp_luma h = 0 then 0 else 12)),
      put_uet (x264_mb_pred_mode8x8c_fix ! i_chroma_pred_mode h)]"

definition write_P_L0 :: "x264_mb \<Rightarrow> calls" where
  "write_P_L0 h =
     (case i_partition h of
        D_16x16 \<Rightarrow>
          [put_uet 0] @ (if i_fref h ! 0 > 1 then [put_ref h 0 0] else []) @ cavlc_mb_mvd h 0 0 4
      | D_16x8 \<Rightarrow>
          [put_uet 1] @ (if i_fref h ! 0 > 1 then [put_ref h 0 0, put_ref h 0 8] else [])
          @ cavlc_mb_mvd h 0 0 4 @ cavlc_mb_mvd h 0 8 4
      | D_8x16 \<Rightarrow>
          [put_uet 2] @ (if i_fref h ! 0 > 1 then [put_ref h 0 0, put_ref h 0 4] else [])
          @ cavlc_mb_mvd h 0 0 2 @ cavlc_mb_mvd h 0 4 2
      | _ \<Rightarrow> [])"

definition write_P_8x8 :: "x264_mb \<Rightarrow> calls" where
  "write_P_8x8 h =
     (let b_sub_ref0 = (ref_of h 0 0 OR ref_of h 0 4 OR ref_of h 0 8 OR ref_of h 0 12 \<noteq> 0)
      in [put_uet (if b_sub_ref0 then 3 else 4)]
         @ (if analyse_psub8x8 h
            then map (\<lambda>i. put_entry sub_mb_type_p_to_golomb (part_num (i_sub_partition h ! i))) [0..<4]
            else [put_u 4 0xf])
         @ (if i_fref h ! 0 > 1 \<and> b_sub_ref0 then [put_ref h 0 0, put_ref h 0 4, put_ref h 0 8, put_ref h 0 12] else [])
         @ concat (map (cavlc_mb8x8_mvd h 0) [0..<4]))"

definition write_B_8x8 :: "x264_mb \<Rightarrow> calls" where
  "write_B_8x8 h =
     [put_uet 22]
     @ map (\<lambda>i. put_entry sub_mb_type_b_to_golomb (part_num (i_sub_partition h ! i))) [0..<4]
     @ concat (map (\<lambda>i. if uses_list 0 (i_sub_partition h ! i) then [put_ref h 0 (i * 4)] else []) [0..<4])
     @ concat (map (\<lambda>i. if uses_list 1 (i_sub_partition h ! i) then [put_ref h 1 (i * 4)] else []) [0..<4])
     @ concat (map (cavlc_mb8x8_mvd h 0) [0..<4])
     @ concat (map (cavlc_mb8x8_mvd h 1) [0..<4])"

text \<open>The first block and the width of the partitions of a macroblock.\<close>

definition partitions :: "mb_partition_e \<Rightarrow> (nat \<times> nat) list" where
  "partitions p = (case p of D_16x16 \<Rightarrow> [(0, 4)] | D_16x8 \<Rightarrow> [(0, 4), (8, 4)] | D_8x16 \<Rightarrow> [(0, 2), (4, 2)] | _ \<Rightarrow> [])"

definition b_list :: "x264_mb \<Rightarrow> nat \<Rightarrow> nat \<Rightarrow> bool" where
  "b_list h i_list k \<longleftrightarrow>
     (if i_list = 0 then x264_mb_type_list0_table else x264_mb_type_list1_table) ! mb_num (i_type h) ! k \<noteq> 0"

definition write_B_refs :: "x264_mb \<Rightarrow> nat \<Rightarrow> calls" where
  "write_B_refs h i_list =
     (if i_fref h ! i_list - 1 \<noteq> 0
      then concat (map (\<lambda>(k, idx, w). if b_list h i_list k then [put_ref h i_list idx] else []) (enumerate 0 (partitions (i_partition h))))
      else [])"

definition write_B_mvds :: "x264_mb \<Rightarrow> nat \<Rightarrow> calls" where
  "write_B_mvds h i_list =
     concat (map (\<lambda>(k, idx, w). if b_list h i_list k then cavlc_mb_mvd h i_list idx w else []) (enumerate 0 (partitions (i_partition h))))"

definition write_B :: "x264_mb \<Rightarrow> calls" where
  "write_B h =
     [if part_num (i_partition h) \<ge> part_num D_16x8 \<and> mb_num (i_type h) \<ge> mb_num B_L0_L0
      then put_entry (mb_type_b_to_golomb ! (part_num (i_partition h) - part_num D_16x8)) (mb_num (i_type h) - mb_num B_L0_L0)
      else (\<lambda>s. Inl Out_Of_Bounds)]
     @ write_B_refs h 0 @ write_B_refs h 1 @ write_B_mvds h 0 @ write_B_mvds h 1"

section \<open>Quantiser and coefficients\<close>

definition cavlc_qp_delta :: "x264_mb \<Rightarrow> calls \<times> x264_mb" where
  "cavlc_qp_delta h =
     (let i_dqp = i_qp h - i_last_qp h;
          (h, i_dqp) =
            (if i_type h = I_16x16 \<and> i_cbp_luma h = 0 \<and> i_cbp_chroma h = 0 \<and> non_zero_count h ! (x264_scan8 ! 24) = 0
             then (h\<lparr>i_qp := i_last_qp h\<rparr>, 0) else (h, i_dqp));
          i_dqp = (if i_dqp \<noteq> 0 then if i_dqp < - 26 then i_dqp + 52 else if i_dqp > 25 then i_dqp - 52 else i_dqp else i_dqp)
      in ([put_se i_dqp], h))"

text \<open>Blocks one after the other: the number of coefficients of a block is stored before it is written. The first \<open>first\<close> coefficients are skipped.\<close>

fun write_blocks :: "dct_cat \<Rightarrow> nat \<Rightarrow> nat list \<Rightarrow> x264_mb \<Rightarrow> calls \<times> x264_mb" where
  "write_blocks cat first [] h = ([], h)"
| "write_blocks cat first (i # is) h =
     (let h = h\<lparr>non_zero_count := (non_zero_count h)[x264_scan8 ! i := array_non_zero_count (luma4x4 h ! i)]\<rparr>;
          ws = block_residual_write_cavlc h cat i (drop first (luma4x4 h ! i)) (16 - first);
          (ws', h) = write_blocks cat first is h
      in (ws @ ws', h))"

definition interleave_block :: "x264_mb \<Rightarrow> nat \<Rightarrow> int list list \<Rightarrow> int list list" where
  "interleave_block h i8 l =
     (let z = zigzag_interleave_8x8_cavlc (luma8x8 h ! i8)
      in l[i8 * 4 := z ! 0, i8 * 4 + 1 := z ! 1, i8 * 4 + 2 := z ! 2, i8 * 4 + 3 := z ! 3])"

definition coded_8x8 :: "nat \<Rightarrow> nat \<Rightarrow> nat \<Rightarrow> nat list" where
  "coded_8x8 cbp i8start i8end = filter (\<lambda>i8. bit cbp i8) [i8start..<i8end + 1]"

definition blocks_of_8x8 :: "nat \<Rightarrow> nat list" where
  "blocks_of_8x8 i8 = map (\<lambda>i4. i4 + i8 * 4) [0..<4]"

definition x264_macroblock_luma_write_cavlc :: "nat \<Rightarrow> nat \<Rightarrow> x264_mb \<Rightarrow> calls \<times> x264_mb" where
  "x264_macroblock_luma_write_cavlc i8start i8end h =
     (let i8s = coded_8x8 (i_cbp_luma h) i8start i8end;
          h = (if b_transform_8x8 h then h\<lparr>luma4x4 := fold (interleave_block h) i8s (luma4x4 h)\<rparr> else h)
      in write_blocks DCT_LUMA_4x4 0 (concat (map blocks_of_8x8 i8s)) h)"

definition write_luma_residual :: "x264_mb \<Rightarrow> calls \<times> x264_mb" where
  "write_luma_residual h =
     (if i_type h = I_16x16
      then let (w1, h) = cavlc_qp_delta h;
               w2 = block_residual_write_cavlc h DCT_LUMA_DC 24 (luma16x16_dc h) 16;
               (w3, h) = (if i_cbp_luma h \<noteq> 0 then write_blocks DCT_LUMA_AC 1 [0..<16] h else ([], h))
           in (w1 @ w2 @ w3, h)
      else if i_cbp_luma h \<noteq> 0 \<or> i_cbp_chroma h \<noteq> 0
      then let (w1, h) = cavlc_qp_delta h; (w2, h) = x264_macroblock_luma_write_cavlc 0 3 h in (w1 @ w2, h)
      else ([], h))"

definition write_chroma_residual :: "x264_mb \<Rightarrow> calls \<times> x264_mb" where
  "write_chroma_residual h =
     (if i_cbp_chroma h \<noteq> 0
      then let w1 = block_residual_write_cavlc h DCT_CHROMA_DC 25 (chroma_dc h ! 0) 4;
               w2 = block_residual_write_cavlc h DCT_CHROMA_DC 26 (chroma_dc h ! 1) 4;
               (w3, h) = (if bit (i_cbp_chroma h) 1 then write_blocks DCT_CHROMA_AC 1 [16..<24] h else ([], h))
           in (w1 @ w2 @ w3, h)
      else ([], h))"

section \<open>The macroblock\<close>

text \<open>A raw macroblock: the bytes of the picture after the alignment.\<close>

definition put_raw :: "byte list \<Rightarrow> bs_t \<Rightarrow> bs_t outcome" where
  "put_raw bytes s = Inr (s\<lparr>bs_out := bs_out s @ bytes\<rparr>)"

definition write_pcm :: "nat \<Rightarrow> x264_mb \<Rightarrow> calls" where
  "write_pcm i_mb_i_offset h =
     [put_uet (i_mb_i_offset + 25), \<lambda>s. Inr (bs_align_0 s), put_raw (take 256 (p_fenc h ! 0))]
     @ map (\<lambda>i. put_raw (take 8 (drop (i * 16) (p_fenc h ! 1)))) [0..<8]
     @ map (\<lambda>i. put_raw (take 8 (drop (i * 16) (p_fenc h ! 2)))) [0..<8]"

definition write_mb_pred :: "nat \<Rightarrow> x264_mb \<Rightarrow> calls" where
  "write_mb_pred i_mb_i_offset h =
     (if i_type h = I_4x4 \<or> i_type h = I_8x8 then write_intra_nxn i_mb_i_offset h
      else if i_type h = I_16x16 then write_intra_16x16 i_mb_i_offset h
      else if i_type h = P_L0 then write_P_L0 h
      else if i_type h = P_8x8 then write_P_8x8 h
      else if i_type h = B_8x8 then write_B_8x8 h
      else if i_type h \<noteq> B_DIRECT then write_B h
      else [put_uet 0])"

definition write_cbp :: "x264_mb \<Rightarrow> calls" where
  "write_cbp h =
     (if i_type h = I_4x4 \<or> i_type h = I_8x8
      then [put_entry intra4x4_cbp_to_golomb (push_bit 4 (i_cbp_chroma h) OR i_cbp_luma h)]
      else if i_type h \<noteq> I_16x16
      then [put_entry inter_cbp_to_golomb (push_bit 4 (i_cbp_chroma h) OR i_cbp_luma h)]
      else [])
     @ (if x264_mb_transform_8x8_allowed h \<and> i_cbp_luma h \<noteq> 0 then [put_1 (of_bool (b_transform_8x8 h))] else [])"

definition mb_i_offset :: "slice_type_e \<Rightarrow> nat option" where
  "mb_i_offset t = (case t of SLICE_TYPE_I \<Rightarrow> Some 0 | SLICE_TYPE_P \<Rightarrow> Some 5 | SLICE_TYPE_B \<Rightarrow> Some 23 | _ \<Rightarrow> None)"

definition x264_macroblock_write_cavlc :: "x264_mb \<Rightarrow> calls \<times> x264_mb" where
  "x264_macroblock_write_cavlc h =
     (case mb_i_offset (sh_i_type h) of
        None \<Rightarrow> ([], h)
      | Some i_mb_i_offset \<Rightarrow>
          if i_type h = I_PCM then (write_mb_field h @ write_pcm i_mb_i_offset h, h)
          else let (w1, h1) = write_luma_residual h; (w2, h2) = write_chroma_residual h1
               in (write_mb_field h @ write_mb_pred i_mb_i_offset h @ write_cbp h @ w1 @ w2, h2))"

end
