(* ===== verification/X264_Mb_Parse.thy ===== *)
theory X264_Mb_Parse
  imports X264_Mb_Cavlc
begin

text \<open>
  The syntax of a macroblock in the standard (7.3.5, with tables 7-11, 7-13, 7-14, 7-17, 7-18 and 9-4) as a parser over
  bits. What a decoder knows before it parses a macroblock is the context: the slice type, the flags of the
  parameter sets, the sizes of the reference lists, the intra modes and the numbers of coefficients of the neighbours
  and the quantiser of the macroblock before. It derives the intra modes and the numbers of coefficients itself while it parses.
\<close>

section \<open>More parsers\<close>

fun ptraverse :: "('b \<Rightarrow> 'a parser) \<Rightarrow> 'b list \<Rightarrow> 'a list parser" where
  "ptraverse p [] = preturn []"
| "ptraverse p (x # xs) = pbind (p x) (\<lambda>y. pbind (ptraverse p xs) (\<lambda>ys. preturn (y # ys)))"

definition pfail :: "'a parser" where
  "pfail bs = None"

definition get_uen :: "nat parser" where
  "get_uen = read_ue"

definition get_te :: "int \<Rightarrow> int parser" where
  "get_te x = (if x > 1 then get_ue else pbind (get_u 1) (\<lambda>b. preturn (1 - b)))"

definition get_mvd :: "(int \<times> int) parser" where
  "get_mvd = pbind read_se (\<lambda>a. pbind read_se (\<lambda>b. preturn (a, b)))"

section \<open>Context and result\<close>

record mb_context =
  cx_slice :: slice_type_e
  cx_field :: bool
  cx_transform_8x8_mode :: bool
  cx_direct_8x8_inference :: bool
  cx_num_ref :: "int list"
  cx_modes :: "int list"
  cx_nz :: "int list"
  cx_qp :: int

datatype mb_pred =
    Intra_NxN bool "int list" nat
  | Intra_16x16 nat nat
  | Inter nat "nat list" "int option list" "int option list" "(int \<times> int) list list" "(int \<times> int) list list"

datatype luma_levels = No_Luma | Luma_DC_AC "int list" "int list list" | Luma_4x4 "int list list" | Luma_8x8 "int list list"

record mb_syntax =
  ms_field :: "int option"
  ms_pred :: mb_pred
  ms_cbp :: "nat \<times> nat"
  ms_transform_8x8 :: bool
  ms_qp :: int
  ms_luma :: luma_levels
  ms_chroma_dc :: "int list list"
  ms_chroma_ac :: "int list list"
  ms_nz :: "int list"

section \<open>Prediction\<close>

definition fill_mode :: "bool \<Rightarrow> nat \<Rightarrow> int \<Rightarrow> int list \<Rightarrow> int list" where
  "fill_mode b8 i m modes =
     (let p = x264_scan8 ! i in if b8 then modes[p := m, p + 1 := m, p + 8 := m, p + 9 := m] else modes[p := m])"

fun get_modes :: "bool \<Rightarrow> nat list \<Rightarrow> int list \<Rightarrow> int list parser" where
  "get_modes b8 [] modes = preturn []"
| "get_modes b8 (i # is) modes =
     (let pred = predict_intra4x4 modes i
      in pbind (get_u 1) (\<lambda>prev_flag.
         pbind (if prev_flag = 1 then preturn pred else pbind (get_u 3) (\<lambda>rem. preturn (if rem < pred then rem else rem + 1))) (\<lambda>m.
         pbind (get_modes b8 is (fill_mode b8 i m modes)) (\<lambda>ms. preturn (m # ms)))))"

text \<open>Whether the partitions of a macroblock of a B slice use the first and the second list.\<close>

definition b_partitions :: "(bool \<times> bool) list list" where
  "b_partitions =
     (let L0 = (True, False); L1 = (False, True); BI = (True, True)
      in [[], [L0], [L1], [BI], [L0, L0], [L0, L0], [L1, L1], [L1, L1], [L0, L1], [L0, L1], [L1, L0], [L1, L0],
          [L0, BI], [L0, BI], [L1, BI], [L1, BI], [BI, L0], [BI, L0], [BI, L1], [BI, L1], [BI, BI], [BI, BI]])"

definition p_partitions :: "(bool \<times> bool) list list" where
  "p_partitions = [[(True, False)], [(True, False), (True, False)], [(True, False), (True, False)]]"

text \<open>The sub-macroblock types: use of the lists and number of partitions. Direct prediction has neither.\<close>

definition p_sub_types :: "((bool \<times> bool) \<times> nat) list" where
  "p_sub_types = [((True, False), 1), ((True, False), 2), ((True, False), 2), ((True, False), 4)]"

definition b_sub_types :: "((bool \<times> bool) \<times> nat) list" where
  "b_sub_types =
     [((False, False), 4), ((True, False), 1), ((False, True), 1), ((True, True), 1), ((True, False), 2), ((True, False), 2),
      ((False, True), 2), ((False, True), 2), ((True, True), 2), ((True, True), 2), ((True, False), 4), ((False, True), 4), ((True, True), 4)]"

definition get_ref :: "mb_context \<Rightarrow> nat \<Rightarrow> bool \<Rightarrow> int option parser" where
  "get_ref cx l present = pwhen (present \<and> cx_num_ref cx ! l > 1) (get_te (cx_num_ref cx ! l - 1))"

definition get_inter :: "mb_context \<Rightarrow> nat \<Rightarrow> (bool \<times> bool) list \<Rightarrow> mb_pred parser" where
  "get_inter cx n ps =
     pbind (ptraverse (\<lambda>(u, v). get_ref cx 0 u) ps) (\<lambda>r0.
     pbind (ptraverse (\<lambda>(u, v). get_ref cx 1 v) ps) (\<lambda>r1.
     pbind (ptraverse (\<lambda>(u, v). prepeat (of_bool u) get_mvd) ps) (\<lambda>m0.
     pbind (ptraverse (\<lambda>(u, v). prepeat (of_bool v) get_mvd) ps) (\<lambda>m1.
       preturn (Inter n [] r0 r1 m0 m1)))))"

definition get_sub_inter :: "mb_context \<Rightarrow> nat \<Rightarrow> bool \<Rightarrow> ((bool \<times> bool) \<times> nat) list \<Rightarrow> mb_pred parser" where
  "get_sub_inter cx n refs tab =
     pbind (prepeat 4 get_uen) (\<lambda>subs.
     if \<not> list_all (\<lambda>t. t < length tab) subs then pfail
     else let ps = map (\<lambda>t. tab ! t) subs
     in pbind (ptraverse (\<lambda>((u, v), k). get_ref cx 0 (u \<and> refs)) ps) (\<lambda>r0.
        pbind (ptraverse (\<lambda>((u, v), k). get_ref cx 1 (v \<and> refs)) ps) (\<lambda>r1.
        pbind (ptraverse (\<lambda>((u, v), k). prepeat (of_bool u * k) get_mvd) ps) (\<lambda>m0.
        pbind (ptraverse (\<lambda>((u, v), k). prepeat (of_bool v * k) get_mvd) ps) (\<lambda>m1.
          preturn (Inter n subs r0 r1 m0 m1))))))"

text \<open>The result says for an intra macroblock of 16x16 the pattern of coded blocks, which is part of the type.\<close>

definition get_intra :: "mb_context \<Rightarrow> nat \<Rightarrow> (mb_pred \<times> (nat \<times> nat) option) parser" where
  "get_intra cx n =
     (if n = 0
      then pbind (if cx_transform_8x8_mode cx then get_u 1 else preturn 0) (\<lambda>t.
           pbind (get_modes (t = 1) (if t = 1 then [0, 4, 8, 12] else [0..<16]) (cx_modes cx)) (\<lambda>ms.
           pbind get_uen (\<lambda>c. preturn (Intra_NxN (t = 1) ms c, None))))
      else if n \<le> 24
      then pbind get_uen (\<lambda>c.
             preturn (Intra_16x16 ((n - 1) mod 4) c, Some (if n \<le> 12 then 0 else 15, (n - 1) div 4 mod 3)))
      else pfail)"

definition get_mb_pred :: "mb_context \<Rightarrow> (mb_pred \<times> (nat \<times> nat) option) parser" where
  "get_mb_pred cx =
     pbind get_uen (\<lambda>n.
       case cx_slice cx of
         SLICE_TYPE_I \<Rightarrow> get_intra cx n
       | SLICE_TYPE_P \<Rightarrow>
           if n < 3 then pbind (get_inter cx n (p_partitions ! n)) (\<lambda>p. preturn (p, None))
           else if n < 5 then pbind (get_sub_inter cx n (n = 3) p_sub_types) (\<lambda>p. preturn (p, None))
           else get_intra cx (n - 5)
       | SLICE_TYPE_B \<Rightarrow>
           if n < 22 then pbind (get_inter cx n (b_partitions ! n)) (\<lambda>p. preturn (p, None))
           else if n = 22 then pbind (get_sub_inter cx n True b_sub_types) (\<lambda>p. preturn (p, None))
           else get_intra cx (n - 23)
       | _ \<Rightarrow> pfail)"

section \<open>Pattern of coded blocks and transform\<close>

definition golomb_to_intra4x4_cbp :: "nat list" where
  "golomb_to_intra4x4_cbp =
     [47, 31, 15, 0, 23, 27, 29, 30, 7, 11, 13, 14, 39, 43, 45, 46,
      16, 3, 5, 10, 12, 19, 21, 26, 28, 35, 37, 42, 44, 1, 2, 4,
      8, 17, 18, 20, 24, 6, 9, 22, 25, 32, 33, 34, 36, 40, 38, 41]"

definition golomb_to_inter_cbp :: "nat list" where
  "golomb_to_inter_cbp =
     [0, 16, 1, 2, 4, 8, 32, 3, 5, 10, 12, 15, 47, 7, 11, 13,
      14, 6, 9, 31, 35, 37, 42, 44, 33, 34, 36, 40, 39, 43, 45, 46,
      17, 18, 20, 24, 19, 21, 26, 28, 23, 27, 29, 30, 22, 25, 38, 41]"

definition get_cbp :: "nat list \<Rightarrow> (nat \<times> nat) parser" where
  "get_cbp tab = pbind get_uen (\<lambda>n. if n < length tab then preturn (tab ! n mod 16, tab ! n div 16) else pfail)"

text \<open>Whether the flag of the larger transform may be present: no partition is smaller than 8x8.\<close>

definition large_partitions :: "mb_context \<Rightarrow> mb_pred \<Rightarrow> bool" where
  "large_partitions cx p =
     (case p of
        Inter n subs r0 r1 m0 m1 \<Rightarrow>
          if cx_slice cx = SLICE_TYPE_B \<and> n = 0 then cx_direct_8x8_inference cx
          else if cx_slice cx = SLICE_TYPE_B then list_all (\<lambda>t. if t = 0 then cx_direct_8x8_inference cx else snd (b_sub_types ! t) = 1) subs
          else list_all (\<lambda>t. snd (p_sub_types ! t) = 1) subs
      | _ \<Rightarrow> False)"

definition get_transform :: "mb_context \<Rightarrow> mb_pred \<Rightarrow> nat \<Rightarrow> bool parser" where
  "get_transform cx p cbp_luma =
     (case p of
        Intra_NxN t ms c \<Rightarrow> preturn t
      | _ \<Rightarrow>
          if cbp_luma > 0 \<and> cx_transform_8x8_mode cx \<and> large_partitions cx p then pbind (get_u 1) (\<lambda>b. preturn (b = 1))
          else preturn False)"

section \<open>Coefficients\<close>

definition nz_table :: "int list \<Rightarrow> nat \<Rightarrow> nat" where
  "nz_table nz i = block_table \<lparr>non_zero_count = nz, i_profile_idc = 0\<rparr> i"

definition nonzeros :: "int list \<Rightarrow> int" where
  "nonzeros l = int (length (filter (\<lambda>x. x \<noteq> 0) l))"

fun get_blocks :: "nat \<Rightarrow> nat list \<Rightarrow> int list \<Rightarrow> (int list list \<times> int list) parser" where
  "get_blocks n [] nz = preturn ([], nz)"
| "get_blocks n (i # is) nz =
     pbind (residual_block_cavlc (nz_table nz i) False n) (\<lambda>l.
     pbind (get_blocks n is (nz[x264_scan8 ! i := nonzeros l])) (\<lambda>(ls, nz). preturn (l # ls, nz)))"

text \<open>Four blocks of 16 coefficients are the coefficients of the larger transform in turn.\<close>

definition deinterleave :: "int list list \<Rightarrow> int list" where
  "deinterleave ls = map (\<lambda>k. ls ! (k mod 4) ! (k div 4)) [0..<64]"

fun groups_of_4 :: "'a list \<Rightarrow> 'a list list" where
  "groups_of_4 (a # b # c # d # xs) = [a, b, c, d] # groups_of_4 xs"
| "groups_of_4 xs = []"

definition get_luma :: "mb_pred \<Rightarrow> nat \<Rightarrow> bool \<Rightarrow> int list \<Rightarrow> (luma_levels \<times> int list) parser" where
  "get_luma p cbp_luma t8 nz =
     (case p of
        Intra_16x16 m c \<Rightarrow>
          pbind (residual_block_cavlc (nz_table nz 24) False 16) (\<lambda>dc.
          pbind (if cbp_luma \<noteq> 0 then get_blocks 15 [0..<16] nz else preturn ([], nz)) (\<lambda>(ls, nz).
            preturn (Luma_DC_AC dc ls, nz)))
      | _ \<Rightarrow>
          pbind (get_blocks 16 (concat (map blocks_of_8x8 (filter (bit cbp_luma) [0..<4]))) nz) (\<lambda>(ls, nz).
            preturn (if t8 then Luma_8x8 (map deinterleave (groups_of_4 ls)) else Luma_4x4 ls, nz)))"

definition get_chroma :: "nat \<Rightarrow> int list \<Rightarrow> (int list list \<times> int list list \<times> int list) parser" where
  "get_chroma cbp_chroma nz =
     (if cbp_chroma = 0 then preturn ([], [], nz)
      else pbind (prepeat 2 (residual_block_cavlc 4 True 4)) (\<lambda>dc.
           pbind (if cbp_chroma = 2 then get_blocks 15 [16..<24] nz else preturn ([], nz)) (\<lambda>(ac, nz).
             preturn (dc, ac, nz))))"

section \<open>A macroblock\<close>

definition macroblock_layer :: "mb_context \<Rightarrow> mb_syntax parser" where
  "macroblock_layer cx =
     pbind (pwhen (cx_field cx) (get_u 1)) (\<lambda>field.
     pbind (get_mb_pred cx) (\<lambda>(p, cbp16).
     pbind (case cbp16 of Some c \<Rightarrow> preturn c
            | None \<Rightarrow> get_cbp (case p of Intra_NxN t ms c \<Rightarrow> golomb_to_intra4x4_cbp | _ \<Rightarrow> golomb_to_inter_cbp)) (\<lambda>(cbp_luma, cbp_chroma).
     pbind (get_transform cx p cbp_luma) (\<lambda>t8.
     if cbp_luma > 0 \<or> cbp_chroma > 0 \<or> cbp16 \<noteq> None
     then pbind read_se (\<lambda>dqp.
          pbind (get_luma p cbp_luma t8 (cx_nz cx)) (\<lambda>(luma, nz).
          pbind (get_chroma cbp_chroma nz) (\<lambda>(dc, ac, nz).
            preturn \<lparr>ms_field = field, ms_pred = p, ms_cbp = (cbp_luma, cbp_chroma), ms_transform_8x8 = t8,
              ms_qp = (cx_qp cx + dqp + 52) mod 52, ms_luma = luma, ms_chroma_dc = dc, ms_chroma_ac = ac,
              ms_nz = map (\<lambda>i. nz ! (x264_scan8 ! i)) [0..<24]\<rparr>)))
     else preturn \<lparr>ms_field = field, ms_pred = p, ms_cbp = (cbp_luma, cbp_chroma), ms_transform_8x8 = t8,
              ms_qp = cx_qp cx, ms_luma = No_Luma, ms_chroma_dc = [], ms_chroma_ac = [],
              ms_nz = map (\<lambda>i. cx_nz cx ! (x264_scan8 ! i)) [0..<24]\<rparr>))))"

end
