(* ===== verification/X264_Mb_Roundtrip.thy ===== *)
theory X264_Mb_Roundtrip
  imports X264_Mb_Parse
begin

text \<open>
  The parser of the standard reads the macroblocks that the variable-length coder of x264 writes: type, prediction, pattern of
  coded blocks, quantiser and coefficients, with the intra modes and the numbers of coefficients that the decoder derives.
\<close>

section \<open>Calls\<close>

lemma codes_traverse:
  assumes "\<And>x. x \<in> set xs \<Longrightarrow> codes (seqR (f x)) (p (k x)) (g x)"
  shows "codes (seqR (concat (map f xs))) (ptraverse p (map k xs)) (map g xs)"
  using assms
proof (induction xs)
  case (Cons x xs)
  have 1: "codes (seqR (f x)) (p (k x)) (g x)" "codes (seqR (concat (map f xs))) (ptraverse p (map k xs)) (map g xs)"
    using Cons by auto
  show ?case unfolding list.map concat.simps ptraverse.simps
    by (rule codes_append[OF 1(1)]) (rule codes_map[OF 1(2)])
qed (simp only: list.map concat.simps ptraverse.simps codes_Nil)

lemma codes_uet: "v < 255 \<Longrightarrow> codes (put_uet v) get_uen v"
proof (rule codesI)
  assume "v < 255"
  then show "writes (put_uet v) (golomb (v + 1))"
    using bs_write_ue_ok[of _ "int v"] by (auto simp: writes_def put_uet_def)
  show "get_uen (golomb (v + 1) @ rest) = Some (v, rest)" for rest
    using read_ue_golomb[of "v + 1" rest] by (simp add: get_uen_def)
qed

lemma codes_entry: "i < length tab \<Longrightarrow> tab ! i < 255 \<Longrightarrow> codes (put_entry tab i) get_uen (tab ! i)"
proof -
  assume "i < length tab" "tab ! i < 255"
  moreover from this have "put_entry tab i = put_uet (tab ! i)" by (auto simp: put_entry_def)
  ultimately show ?thesis using codes_uet by simp
qed

lemma codes_te:
  assumes "0 < x" "0 \<le> v" "v \<le> x" "v < 255"
  shows "codes (put_te x v) (get_te x) v"
proof (cases "x = 1")
  case True
  then have v: "v = 0 \<or> v = 1" using assms by auto
  have "codes (put_1 (1 - v)) (get_u 1) (1 - v)" using codes_1[of "1 - v"] v by auto
  moreover have "put_te x v = put_1 (1 - v)" using True v by (auto simp: put_te_def put_1_def bs_write_te_def)
  ultimately have "codes (put_te x v) (pbind (get_u 1) (\<lambda>b. preturn (1 - b))) (1 - (1 - v))" using codes_map by metis
  then show ?thesis using True by (simp add: get_te_def)
next
  case False
  then have x: "1 < x" using assms by simp
  have "put_te x v = put_uet (nat v)" using x assms by (auto simp: put_te_def put_uet_def bs_write_te_def)
  moreover have "codes (put_uet (nat v)) get_uen (nat v)" using codes_uet assms by simp
  ultimately have c: "codes (put_te x v) get_uen (nat v)" by simp
  have "codes (put_te x v) (pbind get_uen (\<lambda>n. preturn (int n))) (int (nat v))" by (rule codes_map[OF c])
  moreover have "pbind get_uen (\<lambda>n. preturn (int n)) = get_ue"
    by (auto simp: fun_eq_iff get_ue_def get_uen_def pbind_def split: option.splits)
  ultimately show ?thesis using x assms by (simp add: get_te_def)
qed

definition mvd_of :: "x264_mb \<Rightarrow> nat \<Rightarrow> nat \<Rightarrow> nat \<Rightarrow> int \<times> int" where
  "mvd_of h i_list idx width =
     (let mvp = x264_mb_predict_mv h i_list idx width; mv = cache_mv h ! i_list ! (x264_scan8 ! idx)
      in (fst mv - fst mvp, snd mv - snd mvp))"

abbreviation mv_range :: "int \<times> int \<Rightarrow> bool" where
  "mv_range v \<equiv> \<bar>fst v\<bar> < 16384 \<and> \<bar>snd v\<bar> < 16384"

lemma median_in: "\<bar>a\<bar> < 16384 \<Longrightarrow> \<bar>b\<bar> < 16384 \<Longrightarrow> \<bar>c\<bar> < 16384 \<Longrightarrow> x264_median a b c = a \<or> x264_median a b c = b \<or> x264_median a b c = c"
proof -
  assume "\<bar>a\<bar> < 16384" "\<bar>b\<bar> < 16384" "\<bar>c\<bar> < 16384"
  then have "x264_median a b c = a + b + c - min a (min b c) - max a (max b c)" by (intro x264_median_eq) auto
  then show ?thesis by (simp add: min_def max_def)
qed

lemma median_bound: "\<bar>a\<bar> < 16384 \<Longrightarrow> \<bar>b\<bar> < 16384 \<Longrightarrow> \<bar>c\<bar> < 16384 \<Longrightarrow> \<bar>x264_median a b c\<bar> < 16384"
  by (frule (2) median_in) (elim disjE; simp only:)

lemma median_range: "mv_range a \<Longrightarrow> mv_range b \<Longrightarrow> mv_range c \<Longrightarrow> mv_range (x264_median_mv a b c)"
  by (simp add: x264_median_mv_def median_bound)

lemma if_range: "mv_range x \<Longrightarrow> mv_range y \<Longrightarrow> mv_range (if b then x else y)"
  by simp

lemma predict_mv_range:
  assumes "i_list < length (cache_mv h)" "length (cache_mv h ! i_list) = 48" "\<forall>v \<in> set (cache_mv h ! i_list). mv_range v" "idx < 16" "w \<le> 4"
  shows "mv_range (x264_mb_predict_mv h i_list idx w)" "mv_range (cache_mv h ! i_list ! (x264_scan8 ! idx))"
proof -
  have m: "mv_range (cache_mv h ! i_list ! j)" if "j < 48" for j using assms that nth_mem[of j "cache_mv h ! i_list"] by simp
  have s: "8 < x264_scan8 ! idx \<and> x264_scan8 ! idx < 48" using scan8_bound[of idx] assms(4) by simp
  show "mv_range (cache_mv h ! i_list ! (x264_scan8 ! idx))" using m s by blast
  have n: "mv_range (cache_mv h ! i_list ! (x264_scan8 ! idx - 1))" "mv_range (cache_mv h ! i_list ! (x264_scan8 ! idx - 8))"
    "mv_range (cache_mv h ! i_list ! (x264_scan8 ! idx - 8 + w))" "mv_range (cache_mv h ! i_list ! (x264_scan8 ! idx - 8 - 1))"
    by (rule m, use s assms(5) in linarith)+
  show "mv_range (x264_mb_predict_mv h i_list idx w)"
    unfolding x264_mb_predict_mv_def Let_def
    by (cases "idx mod 4 = 3 \<or> w = 2 \<and> idx mod 4 = 2 \<or> cache_ref h ! i_list ! (x264_scan8 ! idx - 8 + w) = - 2")
      (simp_all only: if_True if_False prod.case if_range n median_range)
qed


lemma codes_mvd:
  assumes "i_list < length (cache_mv h)" "length (cache_mv h ! i_list) = 48" "\<forall>v \<in> set (cache_mv h ! i_list). mv_range v" "idx < 16" "w \<le> 4"
  shows "codes (seqR (cavlc_mb_mvd h i_list idx w)) get_mvd (mvd_of h i_list idx w)"
proof -
  note r = predict_mv_range[OF assms]
  define a b where "a = fst (mvd_of h i_list idx w)" and "b = snd (mvd_of h i_list idx w)"
  have "\<bar>a\<bar> < 2 ^ 15" "\<bar>b\<bar> < 2 ^ 15" using r by (auto simp: a_def b_def mvd_of_def Let_def)
  then have c: "codes (put_se a) read_se a" "codes (put_se b) read_se b" using codes_se by blast+
  have 2: "codes (seqR [put_se b]) (pbind read_se (\<lambda>b. preturn (a, b))) (a, b)"
    unfolding codes_single by (rule codes_map[OF c(2)])
  have "codes (seqR [put_se a, put_se b]) get_mvd (a, b)"
    unfolding get_mvd_def by (rule codes_Cons[OF c(1)]) (rule 2)
  moreover have "cavlc_mb_mvd h i_list idx w = [put_se a, put_se b]" "mvd_of h i_list idx w = (a, b)"
    by (simp_all add: cavlc_mb_mvd_def mvd_of_def a_def b_def Let_def)
  ultimately show ?thesis by simp
qed

section \<open>Intra modes\<close>

text \<open>A block is predicted from positions that are not its own or those of later blocks.\<close>

lemma neighbours_before:
  assumes "i \<le> j" "j < 24"
  shows "x264_scan8 ! j \<noteq> x264_scan8 ! i - 1 \<and> x264_scan8 ! j \<noteq> x264_scan8 ! i - 8"
proof -
  have "list_all (\<lambda>j. list_all (\<lambda>i. x264_scan8 ! j \<noteq> x264_scan8 ! i - 1 \<and> x264_scan8 ! j \<noteq> x264_scan8 ! i - 8) [0..<Suc j]) [0..<24]"
    by code_simp
  then show ?thesis using assms unfolding list_all_iff set_upt by (metis atLeastLessThan_iff le_imp_less_Suc zero_le)
qed

definition mode_cells :: "bool \<Rightarrow> nat \<Rightarrow> nat set" where
  "mode_cells b8 i = (let p = x264_scan8 ! i in if b8 then {p, p + 1, p + 8, p + 9} else {p})"

definition mode_blocks :: "bool \<Rightarrow> nat list" where
  "mode_blocks b8 = (if b8 then [0, 4, 8, 12] else [0..<16])"

lemma fix_idem: "0 \<le> x264_mb_pred_mode4x4_fix m \<Longrightarrow> -1 \<le> m \<Longrightarrow> m \<le> 11 \<Longrightarrow> x264_mb_pred_mode4x4_fix (x264_mb_pred_mode4x4_fix m) = x264_mb_pred_mode4x4_fix m"
proof -
  have "list_all (\<lambda>m. x264_mb_pred_mode4x4_fix m < 0 \<or> x264_mb_pred_mode4x4_fix (x264_mb_pred_mode4x4_fix m) = x264_mb_pred_mode4x4_fix m) [-1..11]"
    by code_simp
  then show "0 \<le> x264_mb_pred_mode4x4_fix m \<Longrightarrow> -1 \<le> m \<Longrightarrow> m \<le> 11 \<Longrightarrow> x264_mb_pred_mode4x4_fix (x264_mb_pred_mode4x4_fix m) = x264_mb_pred_mode4x4_fix m"
    by (force simp: list_all_iff simp del: upto.simps)
qed

lemma fix_range: "-1 \<le> m \<Longrightarrow> m \<le> 11 \<Longrightarrow> -1 \<le> x264_mb_pred_mode4x4_fix m \<and> x264_mb_pred_mode4x4_fix m \<le> 8 \<and> (0 \<le> m \<longrightarrow> 0 \<le> x264_mb_pred_mode4x4_fix m)"
proof -
  have "list_all (\<lambda>m. -1 \<le> x264_mb_pred_mode4x4_fix m \<and> x264_mb_pred_mode4x4_fix m \<le> 8 \<and> (m < 0 \<or> 0 \<le> x264_mb_pred_mode4x4_fix m)) [-1..11]"
    by code_simp
  then show "-1 \<le> m \<Longrightarrow> m \<le> 11 \<Longrightarrow> -1 \<le> x264_mb_pred_mode4x4_fix m \<and> x264_mb_pred_mode4x4_fix m \<le> 8 \<and> (0 \<le> m \<longrightarrow> 0 \<le> x264_mb_pred_mode4x4_fix m)"
    unfolding list_all_iff set_upto by (auto dest!: bspec[of _ _ m])
qed


text \<open>
  One mode. The decoder's modes agree with the encoder's, up to the variants of the flat mode, on all cells but
  those that are still to come.
\<close>

definition modes_agree :: "int list \<Rightarrow> int list \<Rightarrow> nat set \<Rightarrow> bool" where
  "modes_agree D E pending \<longleftrightarrow> length D = 48 \<and> length E = 48 \<and>
     (\<forall>j < 48. j \<notin> pending \<longrightarrow> x264_mb_pred_mode4x4_fix (D ! j) = x264_mb_pred_mode4x4_fix (E ! j))"

lemma neighbour_bound: "i < 27 \<Longrightarrow> x264_scan8 ! i - 1 < 48 \<and> x264_scan8 ! i - 8 < 48"
  using scan8_bound[of i] by linarith

lemma predict_agree:
  assumes "modes_agree D E pending" "i < 16" "x264_scan8 ! i - 1 \<notin> pending" "x264_scan8 ! i - 8 \<notin> pending"
  shows "predict_intra4x4 D i = predict_intra4x4 E i"
proof -
  have "x264_mb_pred_mode4x4_fix (D ! (x264_scan8 ! i - 1)) = x264_mb_pred_mode4x4_fix (E ! (x264_scan8 ! i - 1))"
    "x264_mb_pred_mode4x4_fix (D ! (x264_scan8 ! i - 8)) = x264_mb_pred_mode4x4_fix (E ! (x264_scan8 ! i - 8))"
    using assms neighbour_bound[of i] by (simp_all add: modes_agree_def)
  then show ?thesis by (simp only: predict_intra4x4_def Let_def)
qed

lemma predict_bounds:
  assumes "length E = 48" "\<forall>m \<in> set E. -1 \<le> m \<and> m \<le> 11" "i < 16"
  shows "0 \<le> predict_intra4x4 E i" "predict_intra4x4 E i \<le> 8"
proof -
  have "-1 \<le> E ! j \<and> E ! j \<le> 11" if "j < 48" for j using assms(1,2) that nth_mem[of j E] by simp
  then have "-1 \<le> x264_mb_pred_mode4x4_fix (E ! j) \<and> x264_mb_pred_mode4x4_fix (E ! j) \<le> 8" if "j < 48" for j
    using fix_range that by blast
  moreover have "x264_scan8 ! i - 1 < 48" "x264_scan8 ! i - 8 < 48" using neighbour_bound[of i] assms(3) by simp_all
  ultimately have "-1 \<le> x264_mb_pred_mode4x4_fix (E ! (x264_scan8 ! i - 1)) \<and> x264_mb_pred_mode4x4_fix (E ! (x264_scan8 ! i - 1)) \<le> 8" by blast
  then show "0 \<le> predict_intra4x4 E i" "predict_intra4x4 E i \<le> 8"
    unfolding predict_intra4x4_def Let_def by (auto simp: min_def)
qed

lemma codes_mode:
  assumes "0 \<le> pred" "pred \<le> 8" "0 \<le> m" "m \<le> 8"
  shows "codes (if pred = m then put_1 1 else put_u 4 (m - of_bool (m > pred)))
    (pbind (get_u 1) (\<lambda>prev_flag. if prev_flag = 1 then preturn pred else pbind (get_u 3) (\<lambda>rem. preturn (if rem < pred then rem else rem + 1)))) m"
proof (cases "pred = m")
  case True
  obtain bs where "writes (put_1 1) bs" "\<And>rest. get_u 1 (bs @ rest) = Some (1, rest)"
    using codes_1[of 1] by (auto simp: codes_def)
  then show ?thesis using True by (intro codesI[of _ bs]) simp_all
next
  case False
  define r where "r = m - of_bool (m > pred)"
  have r: "0 \<le> r" "r < 2 ^ 3" "(if r < pred then r else r + 1) = m" using assms False by (auto simp: r_def)
  have w: "writes (put_u 4 r) (to_bits 4 (nat r))" using writes_put_u[of r 4] r by simp
  have "nat r < 8" using r by simp
  then have b: "to_bits 4 (nat r) = False # to_bits 3 (nat r)"
    using to_bits_Suc[of 3 "nat r"] by (simp add: bit_iff_odd)
  have "get_u 1 (to_bits 4 (nat r) @ rest) = Some (0, to_bits 3 (nat r) @ rest)" for rest
    by (simp add: b get_u_def read_u_def)
  then show ?thesis using False w r get_u_to_bits[OF r(1,2)] by (intro codesI[of _ "to_bits 4 (nat r)"]) (simp_all flip: r_def)
qed


fun mode_order :: "bool \<Rightarrow> nat list \<Rightarrow> bool" where
  "mode_order b8 [] \<longleftrightarrow> True"
| "mode_order b8 (i # is) \<longleftrightarrow> i < 16 \<and> (\<forall>j \<in> set (i # is). x264_scan8 ! i - 1 \<notin> mode_cells b8 j \<and> x264_scan8 ! i - 8 \<notin> mode_cells b8 j) \<and>
     (\<forall>p \<in> mode_cells b8 i. p < 48) \<and> mode_order b8 is"

lemma mode_order_blocks: "mode_order b8 (mode_blocks b8)"
proof -
  have "mode_order True (mode_blocks True)" "mode_order False (mode_blocks False)" by code_simp+
  then show ?thesis by (cases b8) simp_all
qed

lemma fill_mode_nth:
  assumes "length D = 48" "j < 48" "\<forall>p \<in> mode_cells b8 i. p < 48"
  shows "fill_mode b8 i m D ! j = (if j \<in> mode_cells b8 i then m else D ! j)" "length (fill_mode b8 i m D) = 48"
  using assms by (auto simp: fill_mode_def mode_cells_def Let_def nth_list_update split: if_splits)

lemma modes_agree_fill:
  assumes "modes_agree D E (mode_cells b8 i \<union> P)" "\<forall>p \<in> mode_cells b8 i. p < 48 \<and> x264_mb_pred_mode4x4_fix (E ! p) = x264_mb_pred_mode4x4_fix m"
  shows "modes_agree (fill_mode b8 i m D) E P"
  using assms fill_mode_nth[of D _ b8 i m] by (fastforce simp: modes_agree_def)

lemma codes_modes:
  assumes "mode_order b8 is" "modes_agree D (intra4x4_pred_mode h) (\<Union> (mode_cells b8 ` set is))"
    and "\<forall>m \<in> set (intra4x4_pred_mode h). -1 \<le> m \<and> m \<le> 11"
    and "\<forall>i \<in> set is. 0 \<le> intra4x4_pred_mode h ! (x264_scan8 ! i) \<and>
      (\<forall>p \<in> mode_cells b8 i. x264_mb_pred_mode4x4_fix (intra4x4_pred_mode h ! p) = x264_mb_pred_mode4x4_fix (intra4x4_pred_mode h ! (x264_scan8 ! i)))"
  shows "codes (seqR (map (write_intra4x4_mode h) is)) (get_modes b8 is D) (map (\<lambda>i. x264_mb_pred_mode4x4_fix (intra4x4_pred_mode h ! (x264_scan8 ! i))) is)"
  using assms
proof (induction "is" arbitrary: D)
  case (Cons i js)
  define E where "E = intra4x4_pred_mode h"
  define m where "m = x264_mb_pred_mode4x4_fix (E ! (x264_scan8 ! i))"
  have i: "i < 16" "\<forall>p \<in> mode_cells b8 i. p < 48" "mode_order b8 js" using Cons.prems(1) by auto
  have lE: "length E = 48" using Cons.prems(2) by (simp add: modes_agree_def E_def)
  have "-1 \<le> E ! (x264_scan8 ! i) \<and> E ! (x264_scan8 ! i) \<le> 11"
    using Cons.prems(3) scan8_bound[of i] i(1) lE nth_mem[of "x264_scan8 ! i" E] by (simp add: E_def)
  then have m: "0 \<le> m" "m \<le> 8" "x264_mb_pred_mode4x4_fix m = m"
    using fix_range[of "E ! (x264_scan8 ! i)"] fix_idem[of "E ! (x264_scan8 ! i)"] Cons.prems(4) by (simp_all add: m_def E_def)
  have pred: "predict_intra4x4 D i = predict_intra4x4 E i" unfolding E_def
    by (rule predict_agree[OF Cons.prems(2) i(1)]) (use Cons.prems(1) in auto)
  have pb: "0 \<le> predict_intra4x4 E i" "predict_intra4x4 E i \<le> 8" using predict_bounds[OF lE _ i(1)] Cons.prems(3) by (simp_all add: E_def)
  have w: "write_intra4x4_mode h i = (if predict_intra4x4 E i = m then put_1 1 else put_u 4 (m - of_bool (m > predict_intra4x4 E i)))"
    by (simp add: write_intra4x4_mode_def x264_mb_predict_intra4x4_mode_def E_def m_def Let_def)
  have "modes_agree (fill_mode b8 i m D) E (\<Union> (mode_cells b8 ` set js))"
    by (rule modes_agree_fill) (use Cons.prems(2,4) i(2) m(3) in \<open>auto simp: E_def m_def\<close>)
  then have ih: "codes (seqR (map (write_intra4x4_mode h) js)) (get_modes b8 js (fill_mode b8 i m D)) (map (\<lambda>i. x264_mb_pred_mode4x4_fix (E ! (x264_scan8 ! i))) js)"
    using Cons.IH[OF i(3)] Cons.prems(3,4) by (simp add: E_def del: seqR.simps)
  have "codes (seqR (write_intra4x4_mode h i # map (write_intra4x4_mode h) js))
      (pbind (pbind (get_u 1) (\<lambda>prev_flag. if prev_flag = 1 then preturn (predict_intra4x4 E i)
          else pbind (get_u 3) (\<lambda>rem. preturn (if rem < predict_intra4x4 E i then rem else rem + 1))))
        (\<lambda>m. pbind (get_modes b8 js (fill_mode b8 i m D)) (\<lambda>ms. preturn (m # ms)))) (m # map (\<lambda>i. x264_mb_pred_mode4x4_fix (E ! (x264_scan8 ! i))) js)"
    unfolding w by (rule codes_Cons[OF codes_mode[OF pb m(1,2)]]) (rule codes_map[OF ih])
  moreover have "get_modes b8 (i # js) D = (pbind (pbind (get_u 1) (\<lambda>prev_flag. if prev_flag = 1 then preturn (predict_intra4x4 E i)
          else pbind (get_u 3) (\<lambda>rem. preturn (if rem < predict_intra4x4 E i then rem else rem + 1))))
        (\<lambda>m. pbind (get_modes b8 js (fill_mode b8 i m D)) (\<lambda>ms. preturn (m # ms))))"
    by (auto simp: fun_eq_iff pbind_def pred Let_def split: option.splits prod.splits)
  ultimately show ?case by (simp only: list.map m_def E_def)
qed (simp only: list.map get_modes.simps codes_Nil)


section \<open>References and motion vectors\<close>

text \<open>A part of an inter macroblock: whether it uses the two lists, and its blocks with their widths.\<close>

type_synonym part = "(bool \<times> bool) \<times> (nat \<times> nat) list"

definition part_uses :: "nat \<Rightarrow> part \<Rightarrow> bool" where
  "part_uses l q = (if l = 0 then fst (fst q) else snd (fst q))"

definition part_refs :: "x264_mb \<Rightarrow> nat \<Rightarrow> bool \<Rightarrow> part \<Rightarrow> calls" where
  "part_refs h l present q = (if part_uses l q \<and> present \<and> i_fref h ! l > 1 then [put_ref h l (fst (hd (snd q)))] else [])"

definition part_mvds :: "x264_mb \<Rightarrow> nat \<Rightarrow> part \<Rightarrow> calls" where
  "part_mvds h l q = (if part_uses l q then concat (map (\<lambda>(idx, w). cavlc_mb_mvd h l idx w) (snd q)) else [])"

definition ref_value :: "x264_mb \<Rightarrow> nat \<Rightarrow> bool \<Rightarrow> part \<Rightarrow> int option" where
  "ref_value h l present q = (if part_uses l q \<and> present \<and> i_fref h ! l > 1 then Some (ref_of h l (fst (hd (snd q)))) else None)"

definition mvd_values :: "x264_mb \<Rightarrow> nat \<Rightarrow> part \<Rightarrow> (int \<times> int) list" where
  "mvd_values h l q = (if part_uses l q then map (\<lambda>(idx, w). mvd_of h l idx w) (snd q) else [])"

definition list_ok :: "x264_mb \<Rightarrow> nat \<Rightarrow> bool" where
  "list_ok h l \<longleftrightarrow> l < length (cache_mv h) \<and> length (cache_mv h ! l) = 48 \<and> (\<forall>v \<in> set (cache_mv h ! l). mv_range v) \<and>
     1 \<le> i_fref h ! l \<and> i_fref h ! l \<le> 32"

definition part_ok :: "x264_mb \<Rightarrow> nat \<Rightarrow> part \<Rightarrow> bool" where
  "part_ok h l q \<longleftrightarrow> \<not> part_uses l q \<or> list_ok h l \<and> (\<forall>(idx, w) \<in> set (snd q). idx < 16 \<and> w \<le> 4) \<and>
     0 \<le> ref_of h l (fst (hd (snd q))) \<and> ref_of h l (fst (hd (snd q))) < i_fref h ! l"

lemma codes_part_ref:
  assumes "part_ok h l q" "cx_num_ref cx = i_fref h"
  shows "codes (seqR (part_refs h l present q)) (get_ref cx l (part_uses l q \<and> present)) (ref_value h l present q)"
proof -
  have c: "codes (seqR [put_ref h l (fst (hd (snd q)))]) (get_te (i_fref h ! l - 1)) (ref_of h l (fst (hd (snd q))))"
    if "(part_uses l q \<and> present) \<and> i_fref h ! l > 1"
    unfolding codes_single put_ref_def by (rule codes_te) (use assms(1) that in \<open>auto simp: part_ok_def list_ok_def\<close>)
  show ?thesis unfolding part_refs_def get_ref_def assms(2) ref_value_def conj_assoc[symmetric]
    by (rule codes_when) (rule c)
qed

lemma codes_repeat_calls:
  assumes "\<And>x. x \<in> set xs \<Longrightarrow> codes (seqR (f x)) p (g x)"
  shows "codes (seqR (concat (map f xs))) (prepeat (length xs) p) (map g xs)"
  using assms
proof (induction xs)
  case (Cons x xs)
  have 1: "codes (seqR (f x)) p (g x)" "codes (seqR (concat (map f xs))) (prepeat (length xs) p) (map g xs)" using Cons by auto
  show ?case unfolding list.map concat.simps list.size prepeat.simps add_Suc_right add_0_right
    by (rule codes_append[OF 1(1)]) (rule codes_map[OF 1(2)])
qed (simp only: list.map concat.simps list.size prepeat.simps codes_Nil)

lemma codes_part_mvds:
  assumes "part_ok h l q"
  shows "codes (seqR (part_mvds h l q)) (prepeat (of_bool (part_uses l q) * length (snd q)) get_mvd) (mvd_values h l q)"
proof (cases "part_uses l q")
  case True
  have "codes (seqR (case x of (idx, w) \<Rightarrow> cavlc_mb_mvd h l idx w)) get_mvd (case x of (idx, w) \<Rightarrow> mvd_of h l idx w)" if "x \<in> set (snd q)" for x
    using assms True that codes_mvd[of l h "fst x" "snd x"] by (auto simp: part_ok_def list_ok_def split_beta)
  then have "codes (seqR (concat (map (\<lambda>(idx, w). cavlc_mb_mvd h l idx w) (snd q)))) (prepeat (length (snd q)) get_mvd) (map (\<lambda>(idx, w). mvd_of h l idx w) (snd q))"
    by (rule codes_repeat_calls)
  then show ?thesis using True by (simp add: part_mvds_def mvd_values_def del: seqR.simps)
qed (simp add: part_mvds_def mvd_values_def codes_Nil del: seqR.simps preturn_bs)

lemma codes_inter_parts:
  assumes ok: "\<forall>q \<in> set qs. part_ok h 0 q \<and> part_ok h 1 q"
    and R: "\<And>q. q \<in> set qs \<Longrightarrow> codes (seqR (R0 q)) (get_ref cx 0 (part_uses 0 q \<and> present)) (ref_value h 0 present q)"
      "\<And>q. q \<in> set qs \<Longrightarrow> codes (seqR (R1 q)) (get_ref cx 1 (part_uses 1 q \<and> present)) (ref_value h 1 present q)"
  shows "codes (seqR (concat (map R0 qs) @ concat (map R1 qs) @ concat (map (part_mvds h 0) qs) @ concat (map (part_mvds h 1) qs)))
    (pbind (ptraverse (\<lambda>((u, v), k). get_ref cx 0 (u \<and> present)) (map (\<lambda>q. (fst q, length (snd q))) qs)) (\<lambda>r0.
     pbind (ptraverse (\<lambda>((u, v), k). get_ref cx 1 (v \<and> present)) (map (\<lambda>q. (fst q, length (snd q))) qs)) (\<lambda>r1.
     pbind (ptraverse (\<lambda>((u, v), k). prepeat (of_bool u * k) get_mvd) (map (\<lambda>q. (fst q, length (snd q))) qs)) (\<lambda>m0.
     pbind (ptraverse (\<lambda>((u, v), k). prepeat (of_bool v * k) get_mvd) (map (\<lambda>q. (fst q, length (snd q))) qs)) (\<lambda>m1.
       preturn (Inter n subs r0 r1 m0 m1))))))
    (Inter n subs (map (ref_value h 0 present) qs) (map (ref_value h 1 present) qs) (map (mvd_values h 0) qs) (map (mvd_values h 1) qs))"
proof -
  have u: "part_uses 0 q = fst (fst q)" "part_uses 1 q = snd (fst q)" for q :: part by (simp_all add: part_uses_def)
  have r0: "codes (seqR (concat (map R0 qs))) (ptraverse (\<lambda>((u, v), k). get_ref cx 0 (u \<and> present)) (map (\<lambda>q. (fst q, length (snd q))) qs)) (map (ref_value h 0 present) qs)"
    by (rule codes_traverse; simp only: split_beta fst_conv snd_conv u[symmetric]; rule R(1); assumption)
  have r1: "codes (seqR (concat (map R1 qs))) (ptraverse (\<lambda>((u, v), k). get_ref cx 1 (v \<and> present)) (map (\<lambda>q. (fst q, length (snd q))) qs)) (map (ref_value h 1 present) qs)"
    by (rule codes_traverse; simp only: split_beta fst_conv snd_conv u[symmetric]; rule R(2); assumption)
  have m: "codes (seqR (concat (map (part_mvds h 0) qs))) (ptraverse (\<lambda>((u, v), k). prepeat (of_bool u * k) get_mvd) (map (\<lambda>q. (fst q, length (snd q))) qs)) (map (mvd_values h 0) qs)"
    "codes (seqR (concat (map (part_mvds h 1) qs))) (ptraverse (\<lambda>((u, v), k). prepeat (of_bool v * k) get_mvd) (map (\<lambda>q. (fst q, length (snd q))) qs)) (map (mvd_values h 1) qs)"
    by (rule codes_traverse; simp only: split_beta fst_conv snd_conv u[symmetric]; rule codes_part_mvds; use ok in blast)+
  show ?thesis
    by (rule codes_append[OF r0], rule codes_append[OF r1], rule codes_append[OF m(1)]) (rule codes_map[OF m(2)])
qed

text \<open>A reference that is written whenever its list is used: with one reference in the list, nothing is written.\<close>

lemma codes_ref_always:
  assumes "part_ok h l q" "cx_num_ref cx = i_fref h"
  shows "codes (seqR (if part_uses l q then [put_ref h l (fst (hd (snd q)))] else [])) (get_ref cx l (part_uses l q \<and> True)) (ref_value h l True q)"
proof (cases "part_uses l q \<and> i_fref h ! l = 1")
  case True
  then have "put_ref h l (fst (hd (snd q))) = Inr" by (auto simp: put_ref_def put_te_def bs_write_te_def)
  then have "writes (put_ref h l (fst (hd (snd q)))) []" by (simp add: writes_def)
  then have "codes (put_ref h l (fst (hd (snd q)))) (preturn None) None" by (rule codesI) simp
  then show ?thesis using True assms(2) by (simp add: get_ref_def pwhen_def ref_value_def codes_single del: seqR.simps)
next
  case False
  then have "(if part_uses l q then [put_ref h l (fst (hd (snd q)))] else []) = part_refs h l True q"
    using assms(1) by (auto simp: part_refs_def part_ok_def list_ok_def)
  then show ?thesis using codes_part_ref[OF assms, of True] by (simp only:)
qed

section \<open>The parts of a macroblock\<close>

definition sub_blocks :: "mb_partition_e \<Rightarrow> nat \<Rightarrow> (nat \<times> nat) list" where
  "sub_blocks p i =
     (if p \<in> {D_L0_8x4, D_L1_8x4, D_BI_8x4} then [(4 * i, 2), (4 * i + 2, 2)]
      else if p \<in> {D_L0_4x8, D_L1_4x8, D_BI_4x8} then [(4 * i, 1), (4 * i + 1, 1)]
      else if p \<in> {D_L0_4x4, D_L1_4x4, D_BI_4x4, D_DIRECT_8x8} then [(4 * i, 1), (4 * i + 1, 1), (4 * i + 2, 1), (4 * i + 3, 1)]
      else [(4 * i, 2)])"

definition sub_part :: "x264_mb \<Rightarrow> nat \<Rightarrow> part" where
  "sub_part h i = (let p = i_sub_partition h ! i in ((uses_list 0 p, uses_list 1 p), sub_blocks p i))"

definition parts_of :: "x264_mb \<Rightarrow> part list" where
  "parts_of h =
     (if i_type h = P_L0 then map (\<lambda>b. ((True, False), [b])) (partitions (i_partition h))
      else if i_type h = P_8x8 \<or> i_type h = B_8x8 then map (sub_part h) [0..<4]
      else if i_type h = B_DIRECT then []
      else map (\<lambda>(k, b). ((b_list h 0 k, b_list h 1 k), [b])) (enumerate 0 (partitions (i_partition h))))"

lemma uses_list_simps:
  "uses_list 0 p \<longleftrightarrow> p \<in> {D_L0_4x4, D_L0_8x4, D_L0_4x8, D_L0_8x8, D_BI_4x4, D_BI_8x4, D_BI_4x8, D_BI_8x8}"
  "uses_list (Suc 0) p \<longleftrightarrow> p \<in> {D_L1_4x4, D_L1_8x4, D_L1_4x8, D_L1_8x8, D_BI_4x4, D_BI_8x4, D_BI_4x8, D_BI_8x8}"
  by (cases p; simp add: uses_list_def x264_mb_partition_listX_table_def)+

lemma fst_hd_sub: "fst (hd (snd (sub_part h i))) = 4 * i"
  by (simp add: sub_part_def sub_blocks_def Let_def)

lemma sub_part_mvds: "l < 2 \<Longrightarrow> cavlc_mb8x8_mvd h l i = part_mvds h l (sub_part h i)"
proof -
  assume "l < 2"
  then consider "l = 0" | "l = Suc 0" by linarith
  then show ?thesis
    by cases (cases "i_sub_partition h ! i"; simp add: cavlc_mb8x8_mvd_def part_mvds_def sub_part_def part_uses_def uses_list_simps sub_blocks_def Let_def)+
qed


definition refs_present :: "x264_mb \<Rightarrow> bool" where
  "refs_present h \<longleftrightarrow> i_type h \<noteq> P_8x8 \<or> ref_of h 0 0 OR ref_of h 0 4 OR ref_of h 0 8 OR ref_of h 0 12 \<noteq> 0"

definition inter_number :: "x264_mb \<Rightarrow> nat" where
  "inter_number h =
     (if i_type h = P_L0 then (if i_partition h = D_16x16 then 0 else if i_partition h = D_16x8 then 1 else 2)
      else if i_type h = P_8x8 then (if refs_present h then 3 else 4)
      else if i_type h = B_8x8 then 22 else if i_type h = B_DIRECT then 0
      else mb_type_b_to_golomb ! (part_num (i_partition h) - 14) ! (mb_num (i_type h) - 8))"

definition sub_numbers :: "x264_mb \<Rightarrow> nat list" where
  "sub_numbers h =
     (if i_type h = P_8x8 then map (\<lambda>i. sub_mb_type_p_to_golomb ! part_num (i_sub_partition h ! i)) [0..<4]
      else if i_type h = B_8x8 then map (\<lambda>i. sub_mb_type_b_to_golomb ! part_num (i_sub_partition h ! i)) [0..<4] else [])"

definition inter_value :: "x264_mb \<Rightarrow> mb_pred" where
  "inter_value h =
     Inter (inter_number h) (sub_numbers h) (map (ref_value h 0 (refs_present h)) (parts_of h)) (map (ref_value h 1 (refs_present h)) (parts_of h))
       (map (mvd_values h 0) (parts_of h)) (map (mvd_values h 1) (parts_of h))"

definition inter_ok :: "x264_mb \<Rightarrow> bool" where
  "inter_ok h \<longleftrightarrow> (\<forall>q \<in> set (parts_of h). part_ok h 0 q \<and> part_ok h 1 q) \<and> 1 \<le> i_fref h ! 0 \<and>
     (case i_type h of
        P_L0 \<Rightarrow> i_partition h \<in> {D_16x16, D_16x8, D_8x16}
      | P_8x8 \<Rightarrow> (\<forall>i < 4. i_sub_partition h ! i \<in> {D_L0_4x4, D_L0_8x4, D_L0_4x8, D_L0_8x8}) \<and>
          (analyse_psub8x8 h \<or> (\<forall>i < 4. i_sub_partition h ! i = D_L0_8x8))
      | B_8x8 \<Rightarrow> 1 \<le> i_fref h ! 1 \<and> (\<forall>i < 4. part_num (i_sub_partition h ! i) \<le> 12) \<and>
          (\<not> b_transform_8x8_mode h \<or> (\<forall>i < 4. i_sub_partition h ! i \<in> {D_L0_8x8, D_L1_8x8, D_BI_8x8, D_DIRECT_8x8}))
      | B_DIRECT \<Rightarrow> True
      | t \<Rightarrow> 1 \<le> i_fref h ! 1 \<and> 8 \<le> mb_num t \<and> mb_num t \<le> 16 \<and>
          (i_partition h \<in> {D_16x8, D_8x16} \<or> i_partition h = D_16x16 \<and> t \<in> {B_L0_L0, B_L1_L1, B_BI_BI}))"

lemma ptraverse_map: "ptraverse p (map k xs) = ptraverse (\<lambda>x. p (k x)) xs"
  by (induction xs) simp_all

lemma get_inter_alt:
  "get_inter cx n ps =
     pbind (ptraverse (\<lambda>((u, v), k). get_ref cx 0 (u \<and> True)) (map (\<lambda>p. (p, 1 :: nat)) ps)) (\<lambda>r0.
     pbind (ptraverse (\<lambda>((u, v), k). get_ref cx 1 (v \<and> True)) (map (\<lambda>p. (p, 1 :: nat)) ps)) (\<lambda>r1.
     pbind (ptraverse (\<lambda>((u, v), k). prepeat (of_bool u * k) get_mvd) (map (\<lambda>p. (p, 1 :: nat)) ps)) (\<lambda>m0.
     pbind (ptraverse (\<lambda>((u, v), k). prepeat (of_bool v * k) get_mvd) (map (\<lambda>p. (p, 1 :: nat)) ps)) (\<lambda>m1.
       preturn (Inter n [] r0 r1 m0 m1)))))"
  by (simp add: get_inter_def ptraverse_map case_prod_beta')

lemma codes_partitions:
  assumes ok: "\<forall>q \<in> set qs. part_ok h 0 q \<and> part_ok h 1 q" "\<forall>q \<in> set qs. length (snd q) = 1" and cx: "cx_num_ref cx = i_fref h"
  shows "codes (seqR (concat (map (part_refs h 0 True) qs) @ concat (map (part_refs h 1 True) qs)
      @ concat (map (part_mvds h 0) qs) @ concat (map (part_mvds h 1) qs)))
    (get_inter cx n (map fst qs))
    (Inter n [] (map (ref_value h 0 True) qs) (map (ref_value h 1 True) qs) (map (mvd_values h 0) qs) (map (mvd_values h 1) qs))"
proof -
  have l: "map (\<lambda>q. (fst q, length (snd q))) qs = map (\<lambda>p. (p, 1)) (map fst qs)" using ok(2) by simp
  show ?thesis unfolding get_inter_alt l[symmetric]
    by (rule codes_inter_parts[OF ok(1)]) (rule codes_part_ref[OF _ cx]; use ok(1) in blast)+
qed

lemma codes_P_L0:
  assumes "i_type h = P_L0" "inter_ok h" "cx_num_ref cx = i_fref h" "cx_slice cx = SLICE_TYPE_P"
  shows "codes (seqR (write_P_L0 h)) (get_mb_pred cx) (inter_value h, None)"
proof -
  define n where "n = inter_number h"
  have p: "i_partition h \<in> {D_16x16, D_16x8, D_8x16}" using assms(1,2) by (simp add: inter_ok_def)
  then have n: "n < 3" "map fst (parts_of h) = p_partitions ! n" "\<forall>q \<in> set (parts_of h). length (snd q) = 1"
    using assms(1) by (auto simp: n_def inter_number_def parts_of_def partitions_def p_partitions_def)
  have w: "write_P_L0 h = put_uet n # (concat (map (part_refs h 0 True) (parts_of h)) @ concat (map (part_refs h 1 True) (parts_of h))
      @ concat (map (part_mvds h 0) (parts_of h)) @ concat (map (part_mvds h 1) (parts_of h)))"
    using p assms(1) by (auto simp: write_P_L0_def n_def inter_number_def parts_of_def partitions_def part_refs_def part_mvds_def part_uses_def)
  have c: "codes (seqR (concat (map (part_refs h 0 True) (parts_of h)) @ concat (map (part_refs h 1 True) (parts_of h))
      @ concat (map (part_mvds h 0) (parts_of h)) @ concat (map (part_mvds h 1) (parts_of h)))) (get_inter cx n (p_partitions ! n)) (inter_value h)"
    using codes_partitions[OF _ n(3) assms(3), of n] assms(1,2) n(2)
    by (simp add: inter_ok_def inter_value_def n_def sub_numbers_def refs_present_def del: seqR.simps)
  have u: "codes (put_uet n) get_uen n" using n(1) by (intro codes_uet) simp
  show ?thesis unfolding w get_mb_pred_def
    by (rule codes_Cons[OF u]) (simp only: assms(4) slice_type_e.case n(1) if_True, rule codes_map[OF c])
qed


lemma codes_sub_inter:
  assumes S: "codes (seqR S) (prepeat 4 get_uen) subs" "list_all (\<lambda>t. t < length tab) subs"
      "map (\<lambda>t. tab ! t) subs = map (\<lambda>q. (fst q, length (snd q))) qs"
    and ok: "\<forall>q \<in> set qs. part_ok h 0 q \<and> part_ok h 1 q"
    and R: "\<And>q. q \<in> set qs \<Longrightarrow> codes (seqR (R0 q)) (get_ref cx 0 (part_uses 0 q \<and> present)) (ref_value h 0 present q)"
      "\<And>q. q \<in> set qs \<Longrightarrow> codes (seqR (R1 q)) (get_ref cx 1 (part_uses 1 q \<and> present)) (ref_value h 1 present q)"
  shows "codes (seqR (S @ concat (map R0 qs) @ concat (map R1 qs) @ concat (map (part_mvds h 0) qs) @ concat (map (part_mvds h 1) qs)))
    (get_sub_inter cx n present tab)
    (Inter n subs (map (ref_value h 0 present) qs) (map (ref_value h 1 present) qs) (map (mvd_values h 0) qs) (map (mvd_values h 1) qs))"
  unfolding get_sub_inter_def
  by (rule codes_append[OF S(1)])
    (simp only: S(2,3) not_True_eq_False if_False Let_def, rule codes_inter_parts[OF ok R])

lemma forall_4: "(\<forall>i < 4. P i) \<longleftrightarrow> P 0 \<and> P (Suc 0) \<and> P 2 \<and> P (3 :: nat)"
  by (auto simp: less_Suc_eq numeral_eq_Suc)

lemma upt_4: "[0..<4] = [0, Suc 0, 2, 3]"
  by (simp add: numeral_eq_Suc)

lemma to_bits_15: "to_bits 4 (15 :: nat) = [True, True, True, True]"
  by (simp add: to_bits_def upt_4 bit_0 del: upt.simps)

lemma codes_four_ones: "codes (put_u 4 0xf) (prepeat 4 get_uen) [0, 0, 0, 0]"
proof (rule codesI)
  show "writes (put_u 4 0xf) [True, True, True, True]" using writes_put_u[of 15 4] by (simp add: to_bits_15)
  have "get_uen (True # bs) = Some (0, bs)" for bs using codes_uet[of 0] by (simp add: get_uen_def read_ue_def read_u_def)
  then show "prepeat 4 get_uen ([True, True, True, True] @ rest) = Some ([0, 0, 0, 0], rest)" for rest
    by (simp add: numeral_eq_Suc)
qed

lemma codes_sub_types:
  assumes "\<forall>i < 4. part_num (i_sub_partition h ! i) < length tab \<and> tab ! part_num (i_sub_partition h ! i) < 255"
  shows "codes (seqR (map (\<lambda>i. put_entry tab (part_num (i_sub_partition h ! i))) [0..<4])) (prepeat 4 get_uen)
    (map (\<lambda>i. tab ! part_num (i_sub_partition h ! i)) [0..<4])"
  using codes_repeat[of "[0..<4]" "\<lambda>i. put_entry tab (part_num (i_sub_partition h ! i))" get_uen "\<lambda>i. tab ! part_num (i_sub_partition h ! i)"]
    codes_entry assms by (simp del: seqR.simps upt.simps)

lemma codes_P_8x8:
  assumes t: "i_type h = P_8x8" and ok: "inter_ok h" and cx: "cx_num_ref cx = i_fref h" "cx_slice cx = SLICE_TYPE_P"
  shows "codes (seqR (write_P_8x8 h)) (get_mb_pred cx) (inter_value h, None)"
proof -
  define n where "n = inter_number h"
  define S where "S = (if analyse_psub8x8 h then map (\<lambda>i. put_entry sub_mb_type_p_to_golomb (part_num (i_sub_partition h ! i))) [0..<4] else [put_u 4 0xf])"
  have q: "\<forall>i < 4. i_sub_partition h ! i \<in> {D_L0_4x4, D_L0_8x4, D_L0_4x8, D_L0_8x8}"
    "analyse_psub8x8 h \<or> (\<forall>i < 4. i_sub_partition h ! i = D_L0_8x8)" "\<forall>q \<in> set (parts_of h). part_ok h 0 q \<and> part_ok h 1 q"
    using t ok by (simp_all add: inter_ok_def)
  have n: "n = (if refs_present h then 3 else 4)" using t by (simp add: n_def inter_number_def)
  have sub: "\<forall>i < 4. part_num (i_sub_partition h ! i) < length sub_mb_type_p_to_golomb \<and> sub_mb_type_p_to_golomb ! part_num (i_sub_partition h ! i) < 255 \<and>
      sub_mb_type_p_to_golomb ! part_num (i_sub_partition h ! i) < length p_sub_types \<and>
      p_sub_types ! (sub_mb_type_p_to_golomb ! part_num (i_sub_partition h ! i)) = (fst (sub_part h i), length (snd (sub_part h i)))"
    using q(1) by (auto simp: sub_mb_type_p_to_golomb_def p_sub_types_def sub_part_def uses_list_simps sub_blocks_def Let_def)
  have S: "codes (seqR S) (prepeat 4 get_uen) (sub_numbers h)"
  proof (cases "analyse_psub8x8 h")
    case True
    then show ?thesis using codes_sub_types[of h sub_mb_type_p_to_golomb] sub t by (simp add: S_def sub_numbers_def del: seqR.simps upt.simps)
  next
    case False
    then have "sub_numbers h = [0, 0, 0, 0]" using q(2) t by (simp add: sub_numbers_def upt_4 sub_mb_type_p_to_golomb_def del: upt.simps)
    then show ?thesis using False codes_four_ones by (simp add: S_def codes_single del: seqR.simps)
  qed
  have u01: "\<forall>i < 4. part_uses 0 (sub_part h i) \<and> \<not> part_uses (Suc 0) (sub_part h i)"
    using q(1) by (auto simp: part_uses_def sub_part_def uses_list_simps Let_def)
  then have no_mvds: "i < 4 \<Longrightarrow> part_mvds h (Suc 0) (sub_part h i) = []" for i by (simp add: part_mvds_def)
  have w: "write_P_8x8 h = put_uet n # (S @ concat (map (part_refs h 0 (refs_present h)) (parts_of h)) @ concat (map (part_refs h 1 (refs_present h)) (parts_of h))
      @ concat (map (part_mvds h 0) (parts_of h)) @ concat (map (part_mvds h 1) (parts_of h)))"
    using u01 t unfolding write_P_8x8_def Let_def
    by (simp add: n refs_present_def parts_of_def S_def part_refs_def sub_part_mvds no_mvds upt_4 fst_hd_sub del: upt.simps)
  have c: "codes (seqR (S @ concat (map (part_refs h 0 (refs_present h)) (parts_of h)) @ concat (map (part_refs h 1 (refs_present h)) (parts_of h))
      @ concat (map (part_mvds h 0) (parts_of h)) @ concat (map (part_mvds h 1) (parts_of h)))) (get_sub_inter cx n (refs_present h) p_sub_types) (inter_value h)"
    unfolding inter_value_def n_def[symmetric]
  proof (rule codes_sub_inter[OF S _ _ q(3)])
    show "list_all (\<lambda>t. t < length p_sub_types) (sub_numbers h)" using sub t by (simp add: sub_numbers_def list_all_iff)
    show "map (\<lambda>t. p_sub_types ! t) (sub_numbers h) = map (\<lambda>q. (fst q, length (snd q))) (parts_of h)"
      using sub t by (simp add: sub_numbers_def parts_of_def)
  qed (rule codes_part_ref[OF _ cx(1)]; use q(3) in blast)+
  have u: "codes (put_uet n) get_uen n" by (intro codes_uet) (simp add: n)
  have r: "(n = 3) = refs_present h" "\<not> n < 3" "n < 5" by (simp_all add: n)
  show ?thesis unfolding w get_mb_pred_def
    by (rule codes_Cons[OF u]) (simp only: cx(2) slice_type_e.case r if_True if_False, rule codes_map[OF c])
qed


lemma codes_B_8x8:
  assumes t: "i_type h = B_8x8" and ok: "inter_ok h" and cx: "cx_num_ref cx = i_fref h" "cx_slice cx = SLICE_TYPE_B"
  shows "codes (seqR (write_B_8x8 h)) (get_mb_pred cx) (inter_value h, None)"
proof -
  have q: "\<forall>i < 4. part_num (i_sub_partition h ! i) \<le> 12" "\<forall>q \<in> set (parts_of h). part_ok h 0 q \<and> part_ok h 1 q"
    using t ok by (simp_all add: inter_ok_def)
  have sub1: "part_num p < length sub_mb_type_b_to_golomb \<and> sub_mb_type_b_to_golomb ! part_num p < length b_sub_types \<and>
      b_sub_types ! (sub_mb_type_b_to_golomb ! part_num p) = ((uses_list 0 p, uses_list 1 p), length (sub_blocks p i))" if "part_num p \<le> 12" for p i
    using that by (cases p) (simp_all add: sub_mb_type_b_to_golomb_def b_sub_types_def uses_list_simps sub_blocks_def)
  have sub: "\<forall>i < 4. part_num (i_sub_partition h ! i) < length sub_mb_type_b_to_golomb \<and>
      sub_mb_type_b_to_golomb ! part_num (i_sub_partition h ! i) < length b_sub_types \<and>
      b_sub_types ! (sub_mb_type_b_to_golomb ! part_num (i_sub_partition h ! i)) = (fst (sub_part h i), length (snd (sub_part h i)))"
    using q(1) sub1 by (simp add: sub_part_def Let_def)
  have l: "length b_sub_types = 13" by (simp add: b_sub_types_def)
  define S where "S = map (\<lambda>i. put_entry sub_mb_type_b_to_golomb (part_num (i_sub_partition h ! i))) [0..<4]"
  have "\<forall>i < 4. part_num (i_sub_partition h ! i) < length sub_mb_type_b_to_golomb \<and> sub_mb_type_b_to_golomb ! part_num (i_sub_partition h ! i) < 255"
    using sub l by fastforce
  then have S: "codes (seqR S) (prepeat 4 get_uen) (sub_numbers h)"
    using codes_sub_types[of h sub_mb_type_b_to_golomb] t by (simp add: S_def sub_numbers_def del: seqR.simps upt.simps)
  define R where "R l q = (if part_uses l q then [put_ref h l (fst (hd (snd q)))] else [])" for l and q :: part
  have c: "codes (seqR (S @ concat (map (R 0) (parts_of h)) @ concat (map (R 1) (parts_of h))
      @ concat (map (part_mvds h 0) (parts_of h)) @ concat (map (part_mvds h 1) (parts_of h)))) (get_sub_inter cx 22 True b_sub_types)
      (Inter 22 (sub_numbers h) (map (ref_value h 0 True) (parts_of h)) (map (ref_value h 1 True) (parts_of h)) (map (mvd_values h 0) (parts_of h)) (map (mvd_values h 1) (parts_of h)))"
  proof (rule codes_sub_inter[OF S _ _ q(2)])
    show "list_all (\<lambda>t. t < length b_sub_types) (sub_numbers h)" using sub t by (simp add: sub_numbers_def list_all_iff)
    show "map (\<lambda>t. b_sub_types ! t) (sub_numbers h) = map (\<lambda>q. (fst q, length (snd q))) (parts_of h)"
      using sub t by (simp add: sub_numbers_def parts_of_def)
  qed (unfold R_def, (rule codes_ref_always[OF _ cx(1)]; use q(2) in blast)+)
  have v: "inter_value h = Inter 22 (sub_numbers h) (map (ref_value h 0 True) (parts_of h)) (map (ref_value h 1 True) (parts_of h)) (map (mvd_values h 0) (parts_of h)) (map (mvd_values h 1) (parts_of h))"
    using t by (simp add: inter_value_def inter_number_def refs_present_def)
  have us: "part_uses 0 (sub_part h i) = uses_list 0 (i_sub_partition h ! i)" "part_uses (Suc 0) (sub_part h i) = uses_list (Suc 0) (i_sub_partition h ! i)" for i
    by (simp_all add: part_uses_def sub_part_def Let_def)
  have w: "write_B_8x8 h = put_uet 22 # (S @ concat (map (R 0) (parts_of h)) @ concat (map (R 1) (parts_of h))
      @ concat (map (part_mvds h 0) (parts_of h)) @ concat (map (part_mvds h 1) (parts_of h)))"
    using t by (simp add: write_B_8x8_def S_def R_def parts_of_def us sub_part_mvds upt_4 fst_hd_sub del: upt.simps)
  have u: "codes (put_uet 22) get_uen 22" by (intro codes_uet) simp
  show ?thesis unfolding w get_mb_pred_def v
    by (rule codes_Cons[OF u]) (simp only: cx(2) slice_type_e.case less_irrefl refl if_True if_False, rule codes_map[OF c])
qed

lemma B_type_cases:
  assumes "i_type h \<notin> {P_L0, P_8x8, B_8x8, B_DIRECT}" "inter_ok h"
  shows "i_partition h \<in> {D_16x8, D_8x16} \<and> i_type h \<in> {B_L0_L0, B_L0_L1, B_L0_BI, B_L1_L0, B_L1_L1, B_L1_BI, B_BI_L0, B_BI_L1, B_BI_BI} \<or>
    i_partition h = D_16x16 \<and> i_type h \<in> {B_L0_L0, B_L1_L1, B_BI_BI}" "1 \<le> i_fref h ! 0" "1 \<le> i_fref h ! Suc 0"
proof -
  note k = assms(2)[unfolded inter_ok_def, THEN conjunct2]
  show "1 \<le> i_fref h ! 0" using k by blast
  show "1 \<le> i_fref h ! Suc 0" using k[THEN conjunct2] assms(1) by (cases "i_type h") simp_all
  show "i_partition h \<in> {D_16x8, D_8x16} \<and> i_type h \<in> {B_L0_L0, B_L0_L1, B_L0_BI, B_L1_L0, B_L1_L1, B_L1_BI, B_BI_L0, B_BI_L1, B_BI_BI} \<or>
    i_partition h = D_16x16 \<and> i_type h \<in> {B_L0_L0, B_L1_L1, B_BI_BI}"
    using k[THEN conjunct2] assms(1) by (cases "i_type h") simp_all
qed

text \<open>The types of the table of the encoder agree with the table of the standard.\<close>

definition B_entry_ok :: "mb_partition_e \<Rightarrow> mb_class_e \<Rightarrow> bool" where
  "B_entry_ok p t \<longleftrightarrow>
     (let row = mb_type_b_to_golomb ! (part_num p - 14); n = row ! (mb_num t - 8)
      in 14 \<le> part_num p \<and> 8 \<le> mb_num t \<and> mb_num t - 8 < length row \<and> n < 22 \<and>
         b_partitions ! n = map (\<lambda>k. (x264_mb_type_list0_table ! mb_num t ! k \<noteq> 0, x264_mb_type_list1_table ! mb_num t ! k \<noteq> 0)) [0..<length (partitions p)])"

lemma B_entries:
  assumes "i_type h \<notin> {P_L0, P_8x8, B_8x8, B_DIRECT}" "inter_ok h"
  shows "B_entry_ok (i_partition h) (i_type h)"
proof -
  have "list_all (\<lambda>p. list_all (B_entry_ok p) [B_L0_L0, B_L0_L1, B_L0_BI, B_L1_L0, B_L1_L1, B_L1_BI, B_BI_L0, B_BI_L1, B_BI_BI]) [D_16x8, D_8x16]"
    "list_all (B_entry_ok D_16x16) [B_L0_L0, B_L1_L1, B_BI_BI]" by code_simp+
  then show ?thesis using B_type_cases(1)[OF assms] unfolding list_all_iff list.set by (elim disjE conjE) (blast, simp only:)
qed

lemma map_fst_enumerate: "map (\<lambda>(k, b). f k) (enumerate 0 xs) = map f [0..<length xs]"
  by (rule nth_equalityI) (simp_all add: nth_enumerate_eq)

lemma codes_B:
  assumes t: "i_type h \<notin> {P_L0, P_8x8, B_8x8, B_DIRECT}" and ok: "inter_ok h" and cx: "cx_num_ref cx = i_fref h" "cx_slice cx = SLICE_TYPE_B"
  shows "codes (seqR (write_B h)) (get_mb_pred cx) (inter_value h, None)"
proof -
  define n where "n = inter_number h"
  note k = B_type_cases[OF t ok]
  have parts: "parts_of h = map (\<lambda>(k, b). ((b_list h 0 k, b_list h 1 k), [b])) (enumerate 0 (partitions (i_partition h)))"
    using t by (auto simp: parts_of_def)
  have e: "B_entry_ok (i_partition h) (i_type h)" by (rule B_entries[OF t ok])
  have n_eq: "n = mb_type_b_to_golomb ! (part_num (i_partition h) - 14) ! (mb_num (i_type h) - 8)"
    using t by (simp add: n_def inter_number_def)
  have fst_parts: "map fst (parts_of h) = map (\<lambda>k. (b_list h 0 k, b_list h 1 k)) [0..<length (partitions (i_partition h))]"
    unfolding parts map_fst_enumerate[symmetric] by (simp add: case_prod_beta' comp_def)
  have n: "n < 22" "map fst (parts_of h) = b_partitions ! n" "\<forall>q \<in> set (parts_of h). length (snd q) = 1"
    using e fst_parts by (simp_all add: B_entry_ok_def Let_def n_eq b_list_def) (auto simp: parts)
  have e: "codes (put_entry (mb_type_b_to_golomb ! (part_num (i_partition h) - 14)) (mb_num (i_type h) - 8)) get_uen n"
    unfolding n_eq by (rule codes_entry) (use e n(1) n_eq in \<open>simp_all add: B_entry_ok_def Let_def\<close>)
  have refs: "write_B_refs h l = concat (map (part_refs h l True) (parts_of h))" "write_B_mvds h l = concat (map (part_mvds h l) (parts_of h))" if "l < 2" for l
  proof -
    have l: "l = 0 \<or> l = Suc 0" using that by linarith
    then have f: "1 \<le> i_fref h ! l" using k by auto
    have "part_uses l ((b_list h 0 k, b_list h 1 k), [b]) = b_list h l k" for k b using l by (auto simp: part_uses_def)
    then show "write_B_refs h l = concat (map (part_refs h l True) (parts_of h))" "write_B_mvds h l = concat (map (part_mvds h l) (parts_of h))"
      unfolding parts write_B_refs_def write_B_mvds_def part_refs_def part_mvds_def using f
      by (auto simp: case_prod_beta' comp_def intro!: arg_cong[where f = concat])
  qed
  have w: "write_B h = put_entry (mb_type_b_to_golomb ! (part_num (i_partition h) - 14)) (mb_num (i_type h) - 8) #
      (concat (map (part_refs h 0 True) (parts_of h)) @ concat (map (part_refs h 1 True) (parts_of h))
      @ concat (map (part_mvds h 0) (parts_of h)) @ concat (map (part_mvds h 1) (parts_of h)))"
    using B_entries[OF t ok] refs by (simp add: write_B_def B_entry_ok_def Let_def)
  have "i_type h \<noteq> P_8x8" "i_type h \<noteq> B_8x8" using t by auto
  then have c: "codes (seqR (concat (map (part_refs h 0 True) (parts_of h)) @ concat (map (part_refs h 1 True) (parts_of h))
      @ concat (map (part_mvds h 0) (parts_of h)) @ concat (map (part_mvds h 1) (parts_of h)))) (get_inter cx n (b_partitions ! n)) (inter_value h)"
    using codes_partitions[OF _ n(3) cx(1), of n] ok n(2)
    by (simp add: inter_ok_def inter_value_def n_def sub_numbers_def refs_present_def del: seqR.simps)
  show ?thesis unfolding w get_mb_pred_def
    by (rule codes_Cons[OF e]) (simp only: cx(2) slice_type_e.case n(1) if_True, rule codes_map[OF c])
qed


lemma codes_direct:
  assumes "i_type h = B_DIRECT" "cx_slice cx = SLICE_TYPE_B"
  shows "codes (seqR [put_uet 0]) (get_mb_pred cx) (inter_value h, None)"
proof -
  have u: "codes (put_uet 0) get_uen 0" by (intro codes_uet) simp
  have v: "inter_value h = Inter 0 [] [] [] [] []" using assms(1) by (simp add: inter_value_def inter_number_def sub_numbers_def parts_of_def)
  have b: "b_partitions ! 0 = []" by (simp add: b_partitions_def Let_def)
  have "codes (seqR []) (get_inter cx 0 (b_partitions ! 0)) (Inter 0 [] [] [] [] [])"
    unfolding b get_inter_def by (intro codesI[OF writes_Nil]) simp
  note c = codes_map[OF this]
  show ?thesis unfolding get_mb_pred_def v
    by (rule codes_Cons[OF u]) (simp only: assms(2) slice_type_e.case zero_less_numeral if_True, rule c)
qed

section \<open>Intra macroblocks\<close>

definition intra_value :: "x264_mb \<Rightarrow> mb_pred" where
  "intra_value h =
     (if i_type h = I_16x16
      then Intra_16x16 (x264_mb_pred_mode16x16_fix ! i_intra16x16_pred_mode h) (x264_mb_pred_mode8x8c_fix ! i_chroma_pred_mode h)
      else Intra_NxN (i_type h = I_8x8)
             (map (\<lambda>i. x264_mb_pred_mode4x4_fix (intra4x4_pred_mode h ! (x264_scan8 ! i))) (mode_blocks (i_type h = I_8x8)))
             (x264_mb_pred_mode8x8c_fix ! i_chroma_pred_mode h))"

definition intra_ok :: "x264_mb \<Rightarrow> bool" where
  "intra_ok h \<longleftrightarrow> i_chroma_pred_mode h \<le> 6 \<and>
     (if i_type h = I_16x16 then i_intra16x16_pred_mode h \<le> 6 \<and> i_cbp_chroma h \<le> 2 \<and> i_cbp_luma h \<in> {0, 15} \<and> \<not> b_transform_8x8 h
      else b_transform_8x8 h = (i_type h = I_8x8) \<and> (i_type h = I_8x8 \<longrightarrow> b_transform_8x8_mode h) \<and>
        (\<forall>m \<in> set (intra4x4_pred_mode h). -1 \<le> m \<and> m \<le> 11) \<and>
        (\<forall>i \<in> set (mode_blocks (i_type h = I_8x8)). 0 \<le> intra4x4_pred_mode h ! (x264_scan8 ! i) \<and>
           (\<forall>p \<in> mode_cells (i_type h = I_8x8) i. x264_mb_pred_mode4x4_fix (intra4x4_pred_mode h ! p) = x264_mb_pred_mode4x4_fix (intra4x4_pred_mode h ! (x264_scan8 ! i)))))"

lemma fix_tables:
  "m \<le> 6 \<Longrightarrow> x264_mb_pred_mode8x8c_fix ! m < 4" "m \<le> 6 \<Longrightarrow> x264_mb_pred_mode16x16_fix ! m < 4"
proof -
  have "list_all (\<lambda>m. x264_mb_pred_mode8x8c_fix ! m < 4 \<and> x264_mb_pred_mode16x16_fix ! m < 4) [0..<7]" by code_simp
  then show "m \<le> 6 \<Longrightarrow> x264_mb_pred_mode8x8c_fix ! m < 4" "m \<le> 6 \<Longrightarrow> x264_mb_pred_mode16x16_fix ! m < 4"
    by (simp_all add: list_all_iff del: upt.simps)
qed

lemma codes_intra_type:
  assumes off: "mb_i_offset (cx_slice cx) = Some off" and m: "m \<le> 24" and c: "codes (seqR fs) (get_intra cx m) y"
  shows "codes (seqR (put_uet (off + m) # fs)) (get_mb_pred cx) y"
proof -
  have "off \<le> 23" using off by (auto simp: mb_i_offset_def split: slice_type_e.splits)
  then have u: "codes (put_uet (off + m)) get_uen (off + m)" using m by (intro codes_uet) simp
  have "(case cx_slice cx of
         SLICE_TYPE_I \<Rightarrow> get_intra cx (off + m)
       | SLICE_TYPE_P \<Rightarrow>
           if off + m < 3 then pbind (get_inter cx (off + m) (p_partitions ! (off + m))) (\<lambda>p. preturn (p, None))
           else if off + m < 5 then pbind (get_sub_inter cx (off + m) (off + m = 3) p_sub_types) (\<lambda>p. preturn (p, None))
           else get_intra cx (off + m - 5)
       | SLICE_TYPE_B \<Rightarrow>
           if off + m < 22 then pbind (get_inter cx (off + m) (b_partitions ! (off + m))) (\<lambda>p. preturn (p, None))
           else if off + m = 22 then pbind (get_sub_inter cx (off + m) True b_sub_types) (\<lambda>p. preturn (p, None))
           else get_intra cx (off + m - 23)
       | _ \<Rightarrow> pfail) = get_intra cx m"
    using off by (cases "cx_slice cx") (simp_all add: mb_i_offset_def)
  then show ?thesis unfolding get_mb_pred_def by (intro codes_Cons[OF u]) (simp only: c)
qed

lemma codes_intra_nxn:
  assumes t: "i_type h = I_4x4 \<or> i_type h = I_8x8" and ok: "intra_ok h" and off: "mb_i_offset (cx_slice cx) = Some off"
    and cx: "cx_transform_8x8_mode cx = b_transform_8x8_mode h"
      "modes_agree (cx_modes cx) (intra4x4_pred_mode h) (\<Union> (mode_cells (i_type h = I_8x8) ` set (mode_blocks (i_type h = I_8x8))))"
  shows "codes (seqR (write_intra_nxn off h)) (get_mb_pred cx) (intra_value h, None)"
proof -
  define b8 where "b8 = (i_type h = I_8x8)"
  have o: "b_transform_8x8 h = b8" "b8 \<longrightarrow> b_transform_8x8_mode h" "i_chroma_pred_mode h \<le> 6" "i_type h \<noteq> I_16x16"
    using ok t by (auto simp: intra_ok_def b8_def)
  have T: "codes (seqR (if b_transform_8x8_mode h then [put_1 (of_bool b8)] else [])) (if b_transform_8x8_mode h then get_u 1 else preturn 0) (of_bool b8)"
  proof (cases "b_transform_8x8_mode h")
    case True
    then show ?thesis using codes_1[of "of_bool b8"] by (simp only: if_True codes_single) auto
  next
    case False
    then show ?thesis using o(2) codes_Nil by (simp del: seqR.simps preturn_bs)
  qed
  have M: "codes (seqR (map (write_intra4x4_mode h) (mode_blocks b8))) (get_modes b8 (mode_blocks b8) (cx_modes cx))
      (map (\<lambda>i. x264_mb_pred_mode4x4_fix (intra4x4_pred_mode h ! (x264_scan8 ! i))) (mode_blocks b8))"
    by (rule codes_modes[OF mode_order_blocks]) (use cx(2) ok o(4) in \<open>simp_all add: intra_ok_def b8_def\<close>)
  have C: "codes (put_uet (x264_mb_pred_mode8x8c_fix ! i_chroma_pred_mode h)) get_uen (x264_mb_pred_mode8x8c_fix ! i_chroma_pred_mode h)"
    using fix_tables(1)[OF o(3)] by (intro codes_uet) simp
  have b: "((of_bool b8 :: int) = 1) = b8" "(if b8 then [0, 4, 8, 12] else [0..<16]) = mode_blocks b8" by (simp_all add: mode_blocks_def)
  have w: "write_intra_nxn off h = put_uet (off + 0) # ((if b_transform_8x8_mode h then [put_1 (of_bool b8)] else [])
      @ map (write_intra4x4_mode h) (mode_blocks b8) @ [put_uet (x264_mb_pred_mode8x8c_fix ! i_chroma_pred_mode h)])"
    by (simp add: write_intra_nxn_def o(1) mode_blocks_def b8_def)
  have v: "intra_value h = Intra_NxN b8 (map (\<lambda>i. x264_mb_pred_mode4x4_fix (intra4x4_pred_mode h ! (x264_scan8 ! i))) (mode_blocks b8))
      (x264_mb_pred_mode8x8c_fix ! i_chroma_pred_mode h)" using o(4) by (simp add: intra_value_def b8_def)
  show ?thesis unfolding w v
    by (rule codes_intra_type[OF off zero_le], simp only: get_intra_def refl if_True cx(1))
      (rule codes_append[OF T], simp only: b, rule codes_append[OF M], simp only: codes_single, rule codes_map[OF C])
qed

lemma codes_intra_16x16:
  assumes t: "i_type h = I_16x16" and ok: "intra_ok h" and off: "mb_i_offset (cx_slice cx) = Some off"
  shows "codes (seqR (write_intra_16x16 off h)) (get_mb_pred cx) (intra_value h, Some (i_cbp_luma h, i_cbp_chroma h))"
proof -
  define m where "m = 1 + x264_mb_pred_mode16x16_fix ! i_intra16x16_pred_mode h + i_cbp_chroma h * 4 + (if i_cbp_luma h = 0 then 0 else 12)"
  have o: "i_chroma_pred_mode h \<le> 6" "i_intra16x16_pred_mode h \<le> 6" "i_cbp_chroma h \<le> 2" "i_cbp_luma h = 0 \<or> i_cbp_luma h = 15"
    using ok t by (auto simp: intra_ok_def)
  have f: "x264_mb_pred_mode16x16_fix ! i_intra16x16_pred_mode h < 4" by (rule fix_tables(2)[OF o(2)])
  define d where "d = i_cbp_chroma h + (if i_cbp_luma h = 0 then 0 else 3)"
  have m_eq: "m = 1 + (x264_mb_pred_mode16x16_fix ! i_intra16x16_pred_mode h + 4 * d)" by (simp add: m_def d_def)
  have d: "d mod 3 = i_cbp_chroma h" "d \<le> 5" "d < 3 \<longleftrightarrow> i_cbp_luma h = 0" using o(3,4) by (auto simp: d_def)
  have m: "m \<noteq> 0" "m \<le> 24" "(m - 1) mod 4 = x264_mb_pred_mode16x16_fix ! i_intra16x16_pred_mode h"
    "(if m \<le> 12 then 0 else 15, (m - 1) div 4 mod 3) = (i_cbp_luma h, i_cbp_chroma h)"
    using o(4) f d unfolding m_eq by auto
  have C: "codes (put_uet (x264_mb_pred_mode8x8c_fix ! i_chroma_pred_mode h)) get_uen (x264_mb_pred_mode8x8c_fix ! i_chroma_pred_mode h)"
    using fix_tables(1)[OF o(1)] by (intro codes_uet) simp
  have w: "write_intra_16x16 off h = [put_uet (off + m), put_uet (x264_mb_pred_mode8x8c_fix ! i_chroma_pred_mode h)]"
    by (simp add: write_intra_16x16_def m_def add.assoc)
  have v: "intra_value h = Intra_16x16 (x264_mb_pred_mode16x16_fix ! i_intra16x16_pred_mode h) (x264_mb_pred_mode8x8c_fix ! i_chroma_pred_mode h)"
    using t by (simp add: intra_value_def)
  show ?thesis unfolding w v
    by (rule codes_intra_type[OF off m(2)]) (simp only: get_intra_def m if_True if_False codes_single, rule codes_map[OF C])
qed

end
