(* ===== verification/X264_Mb_Layer.thy ===== *)
theory X264_Mb_Layer
  imports X264_Mb_Roundtrip
begin

text \<open>
  The rest of a macroblock: the pattern of coded blocks, the transform flag, the quantiser and the coefficients, and the whole
  macroblock against the parser of the standard.
\<close>

section \<open>Numbers of coefficients\<close>

definition nz_agree :: "int list \<Rightarrow> int list \<Rightarrow> nat set \<Rightarrow> bool" where
  "nz_agree D E pending \<longleftrightarrow> length D = 48 \<and> length E = 48 \<and> (\<forall>j < 48. j \<notin> pending \<longrightarrow> D ! j = E ! j)"

lemma nz_table_agree:
  assumes "nz_agree D (non_zero_count h) pending" "i < 25"
    and "x264_scan8 ! (if i = 24 then 0 else i) - 1 \<notin> pending" "x264_scan8 ! (if i = 24 then 0 else i) - 8 \<notin> pending"
  shows "nz_table D i = block_table h i"
proof -
  let ?i = "if i = 24 then 0 else i"
  have "D ! (x264_scan8 ! ?i - 1) = non_zero_count h ! (x264_scan8 ! ?i - 1)" "D ! (x264_scan8 ! ?i - 8) = non_zero_count h ! (x264_scan8 ! ?i - 8)"
    using assms neighbour_bound[of ?i] unfolding nz_agree_def by simp_all
  then show ?thesis unfolding nz_table_def block_table_def Let_def by (simp only: x264_t.simps)
qed

lemma nonzeros_bounds: "0 \<le> nonzeros l" "nonzeros l \<le> int (length l)" "nonzeros l = 0 \<longleftrightarrow> (\<forall>x \<in> set l. x = 0)"
  by (auto simp: nonzeros_def filter_empty_conv)

lemma array_non_zero_count_eq: "length v = 16 \<Longrightarrow> array_non_zero_count v = nonzeros v"
proof -
  assume l: "length v = 16"
  have "filter (\<lambda>x. x \<noteq> 0) v = map ((!) v) (filter (\<lambda>i. v ! i \<noteq> 0) [0..<length v])"
    by (subst map_nth[of v, symmetric]) (simp add: filter_map comp_def)
  then show ?thesis using l by (simp add: array_non_zero_count_def nonzeros_def)
qed

lemma nonzeros_drop: "first \<le> 1 \<Longrightarrow> (first = 1 \<Longrightarrow> v ! 0 = 0) \<Longrightarrow> v \<noteq> [] \<Longrightarrow> nonzeros (drop first v) = nonzeros v"
  by (cases v; cases first) (auto simp: nonzeros_def)

section \<open>Blocks\<close>

definition block_ok :: "x264_mb \<Rightarrow> nat \<Rightarrow> nat \<Rightarrow> bool" where
  "block_ok h first i \<longleftrightarrow> length (luma4x4 h ! i) = 16 \<and> (first = 1 \<longrightarrow> luma4x4 h ! i ! 0 = 0) \<and>
     (\<forall>v \<in> set (drop first (luma4x4 h ! i)). level_fits (i_profile_idc h) v)"

lemma cache_ok_update: "cache_ok h \<Longrightarrow> 0 \<le> c \<Longrightarrow> c \<le> 16 \<Longrightarrow> cache_ok (h\<lparr>non_zero_count := (non_zero_count h)[p := c]\<rparr>)"
  using set_update_subset_insert[of "non_zero_count h" p c] by (auto simp: cache_ok_def)

lemma codes_blocks:
  assumes "write_blocks cat first is h = (ws, h')" "cache_ok h" "first \<le> 1" "sorted_wrt (<) is"
    and "\<forall>i \<in> set is. i < 24 \<and> block_kind i cat (16 - first) \<and> block_ok h first i"
    and "nz_agree D (non_zero_count h) (((!) x264_scan8) ` set is \<union> P)"
    and "\<forall>i \<in> set is. x264_scan8 ! i - 1 \<notin> P \<and> x264_scan8 ! i - 8 \<notin> P"
  shows "\<exists>D' nz. codes (seqR ws) (get_blocks (16 - first) is D) (map (\<lambda>i. drop first (luma4x4 h ! i)) is, D') \<and>
    h' = h\<lparr>non_zero_count := nz\<rparr> \<and> cache_ok h' \<and> nz_agree D' nz P \<and> (\<forall>j. j \<notin> ((!) x264_scan8) ` set is \<longrightarrow> nz ! j = non_zero_count h ! j)"
  using assms
proof (induction "is" arbitrary: h D ws)
  case Nil
  have "codes (seqR []) (get_blocks (16 - first) [] D) ([], D)" unfolding get_blocks.simps by (rule codes_Nil)
  then show ?case using Nil by (intro exI[of _ D] exI[of _ "non_zero_count h"]) (simp del: seqR.simps get_blocks.simps)
next
  case (Cons i js)
  define l where "l = drop first (luma4x4 h ! i)"
  define c where "c = array_non_zero_count (luma4x4 h ! i)"
  define h1 where "h1 = h\<lparr>non_zero_count := (non_zero_count h)[x264_scan8 ! i := c]\<rparr>"
  obtain ws' where w: "write_blocks cat first js h1 = (ws', h')"
    "ws = block_residual_write_cavlc h1 cat i l (16 - first) @ ws'"
    using Cons.prems(1) by (auto simp: h1_def c_def l_def Let_def split: prod.splits)
  have i: "i < 24" "block_kind i cat (16 - first)" "block_ok h first i" "\<forall>j \<in> set js. i < j \<and> j < 24" using Cons.prems by auto
  have "luma4x4 h ! i \<noteq> []" using i(3) by (auto simp: block_ok_def)
  then have cl: "c = nonzeros l" "length l = 16 - first"
    using i(3) Cons.prems(3) array_non_zero_count_eq[of "luma4x4 h ! i"] nonzeros_drop[of first "luma4x4 h ! i"]
    by (auto simp: c_def l_def block_ok_def)
  have p: "x264_scan8 ! i < 48" using scan8_bound[of i] i(1) by simp
  have len: "length (non_zero_count h) = 48" using Cons.prems(2) by (simp add: cache_ok_def)
  have ok1: "cache_ok h1" unfolding h1_def by (rule cache_ok_update[OF Cons.prems(2)]) (use cl nonzeros_bounds(1,2)[of l] in auto)
  have "x264_scan8 ! j \<noteq> x264_scan8 ! i - 1 \<and> x264_scan8 ! j \<noteq> x264_scan8 ! i - 8" if "j \<in> set (i # js)" for j
  proof -
    have "i \<le> j" "j < 24" using that i(1,4) by auto
    then show ?thesis by (rule neighbours_before)
  qed
  then have nb: "x264_scan8 ! i - 1 \<notin> ((!) x264_scan8) ` set (i # js) \<union> P" "x264_scan8 ! i - 8 \<notin> ((!) x264_scan8) ` set (i # js) \<union> P"
    using Cons.prems(7) by (fastforce, fastforce)
  have "nz_agree D (non_zero_count h1) (((!) x264_scan8) ` set (i # js) \<union> P)"
    using Cons.prems(6) by (auto simp: h1_def nz_agree_def nth_list_update)
  then have tab: "nz_table D i = block_table h1 i" using nz_table_agree[of D h1 _ i] nb i(1) by auto
  have c1: "codes (seqR (block_residual_write_cavlc h1 cat i l (16 - first))) (residual_block_cavlc (nz_table D i) False (16 - first)) l"
  proof -
    have "non_zero_count h1 ! (x264_scan8 ! i) = 0 \<longleftrightarrow> (\<forall>x \<in> set l. x = 0)"
      using nonzeros_bounds(3)[of l] cl p len by (simp add: h1_def)
    moreover have "\<And>v. v \<in> set l \<Longrightarrow> level_fits (i_profile_idc h1) v" using i(3) by (simp add: h1_def block_ok_def l_def)
    ultimately have "codes (seqR (block_residual_write_cavlc h1 cat i l (16 - first))) (residual_block_cavlc (block_table h1 i) (25 \<le> i) (16 - first)) l"
      using codes_block[OF ok1 i(2) cl(2)] by blast
    moreover have "(25 \<le> i) = False" using i(1) by simp
    ultimately show ?thesis by (simp only: tab)
  qed
  have ag: "nz_agree (D[x264_scan8 ! i := nonzeros l]) (non_zero_count h1) (((!) x264_scan8) ` set js \<union> P)"
    using Cons.prems(6) p cl(1) by (auto simp: nz_agree_def h1_def nth_list_update)
  have "\<forall>j \<in> set js. j < 24 \<and> block_kind j cat (16 - first) \<and> block_ok h1 first j" using Cons.prems(5) by (simp add: block_ok_def h1_def)
  then obtain D' nz where r: "codes (seqR ws') (get_blocks (16 - first) js (D[x264_scan8 ! i := nonzeros l])) (map (\<lambda>i. drop first (luma4x4 h1 ! i)) js, D')"
    "h' = h1\<lparr>non_zero_count := nz\<rparr>" "cache_ok h'" "nz_agree D' nz P" "\<forall>j. j \<notin> ((!) x264_scan8) ` set js \<longrightarrow> nz ! j = non_zero_count h1 ! j"
    using Cons.IH[OF w(1) ok1 Cons.prems(3) _ _ ag] Cons.prems(4,7) by auto
  have "codes (seqR ws) (get_blocks (16 - first) (i # js) D) (l # map (\<lambda>i. drop first (luma4x4 h1 ! i)) js, D')"
    unfolding w(2) get_blocks.simps
    by (rule codes_append[OF c1]) (use codes_map[OF r(1), of "\<lambda>(ls, nz). (l # ls, nz)"] in \<open>simp add: case_prod_beta' del: seqR.simps preturn_bs\<close>)
  moreover have "nz ! j = non_zero_count h ! j" if "j \<notin> ((!) x264_scan8) ` set (i # js)" for j using r(5) that by (simp add: h1_def)
  ultimately show ?case using r(2-4) by (intro exI[of _ D'] exI[of _ nz]) (simp add: h1_def l_def del: seqR.simps get_blocks.simps)
qed


section \<open>Pattern of coded blocks, transform and quantiser\<close>

lemma cbp_tables:
  assumes "i < 48"
  shows "i < length intra4x4_cbp_to_golomb" "intra4x4_cbp_to_golomb ! i < 48" "golomb_to_intra4x4_cbp ! (intra4x4_cbp_to_golomb ! i) = i"
    "i < length inter_cbp_to_golomb" "inter_cbp_to_golomb ! i < 48" "golomb_to_inter_cbp ! (inter_cbp_to_golomb ! i) = i"
proof -
  have "list_all (\<lambda>i. i < length intra4x4_cbp_to_golomb \<and> intra4x4_cbp_to_golomb ! i < 48 \<and> golomb_to_intra4x4_cbp ! (intra4x4_cbp_to_golomb ! i) = i \<and>
    i < length inter_cbp_to_golomb \<and> inter_cbp_to_golomb ! i < 48 \<and> golomb_to_inter_cbp ! (inter_cbp_to_golomb ! i) = i) [0..<48]" by code_simp
  then show "i < length intra4x4_cbp_to_golomb" "intra4x4_cbp_to_golomb ! i < 48" "golomb_to_intra4x4_cbp ! (intra4x4_cbp_to_golomb ! i) = i"
    "i < length inter_cbp_to_golomb" "inter_cbp_to_golomb ! i < 48" "golomb_to_inter_cbp ! (inter_cbp_to_golomb ! i) = i"
    using assms by (simp_all add: list_all_iff del: upt.simps)
qed

lemma cbp_index:
  assumes "l < 16" "c \<le> 2"
  shows "push_bit 4 c OR l < 48" "(push_bit 4 c OR l) mod 16 = l" "(push_bit 4 c OR l) div 16 = (c :: nat)"
proof -
  have "list_all (\<lambda>c. list_all (\<lambda>l. push_bit 4 c OR l = 16 * c + l) [0..<16]) [0..<3 :: nat]" by code_simp
  then have "push_bit 4 c OR l = 16 * c + l" using assms by (simp add: list_all_iff del: upt.simps)
  then show "push_bit 4 c OR l < 48" "(push_bit 4 c OR l) mod 16 = l" "(push_bit 4 c OR l) div 16 = c" using assms by simp_all
qed

lemma codes_cbp:
  assumes "i < length tab" "tab ! i < 48" "dec ! (tab ! i) = i" "length dec = 48"
  shows "codes (seqR [put_entry tab i]) (get_cbp dec) (i mod 16, i div 16)"
proof -
  have u: "codes (put_entry tab i) get_uen (tab ! i)" using assms by (intro codes_entry) simp_all
  have "codes (seqR ([put_entry tab i] @ [])) (get_cbp dec) (dec ! (tab ! i) mod 16, dec ! (tab ! i) div 16)"
    unfolding get_cbp_def
    by (rule codes_append, subst codes_single, rule u) (use assms in \<open>simp only: if_True, intro codes_Nil\<close>)
  then show ?thesis by (simp only: append_Nil2 assms(3))
qed

lemma golomb_lengths: "length golomb_to_intra4x4_cbp = 48" "length golomb_to_inter_cbp = 48"
  by (simp_all add: golomb_to_intra4x4_cbp_def golomb_to_inter_cbp_def)

lemma codes_qp:
  assumes "cavlc_qp_delta h = (ws, h')" "0 \<le> i_qp h" "i_qp h \<le> 51" "0 \<le> i_last_qp h" "i_last_qp h \<le> 51"
  shows "\<exists>d. codes (seqR ws) read_se d \<and> (i_last_qp h + d + 52) mod 52 = i_qp h' \<and> (\<exists>q. h' = h\<lparr>i_qp := q\<rparr>)"
proof -
  define b where "b = (i_type h = I_16x16 \<and> i_cbp_luma h = 0 \<and> i_cbp_chroma h = 0 \<and> non_zero_count h ! (x264_scan8 ! 24) = 0)"
  define e where "e = (if b then 0 else i_qp h - i_last_qp h)"
  define d where "d = (if e < - 26 then e + 52 else if e > 25 then e - 52 else e)"
  have w: "ws = [put_se d]" "h' = (if b then h\<lparr>i_qp := i_last_qp h\<rparr> else h)"
  proof -
    have "cavlc_qp_delta h = (case (if b then (h\<lparr>i_qp := i_last_qp h\<rparr>, 0) else (h, i_qp h - i_last_qp h)) of (h', x) \<Rightarrow>
        ([put_se (if x \<noteq> 0 then if x < - 26 then x + 52 else if x > 25 then x - 52 else x else x)], h'))"
      unfolding cavlc_qp_delta_def Let_def b_def ..
    also have "\<dots> = ([put_se (if e \<noteq> 0 then if e < - 26 then e + 52 else if e > 25 then e - 52 else e else e)],
        if b then h\<lparr>i_qp := i_last_qp h\<rparr> else h)" unfolding e_def by (cases b) (simp_all only: if_True if_False prod.case)
    also have "(if e \<noteq> 0 then if e < - 26 then e + 52 else if e > 25 then e - 52 else e else e) = d" by (simp add: d_def)
    finally show "ws = [put_se d]" "h' = (if b then h\<lparr>i_qp := i_last_qp h\<rparr> else h)" using assms(1) by (simp_all only: prod.inject)
  qed
  have "\<bar>d\<bar> < 2 ^ 15" using assms(2-5) by (auto simp: d_def e_def)
  then have c: "codes (seqR ws) read_se d" unfolding w codes_single by (rule codes_se)
  have "d = e + 52 * 1 \<or> d = e + 52 * (- 1) \<or> d = e + 52 * 0" by (simp add: d_def)
  then obtain k where "d = e + 52 * k" by metis
  then have "i_last_qp h + d + 52 = i_last_qp h + e + 52 * (k + 1)" by simp
  then have "(i_last_qp h + d + 52) mod 52 = (i_last_qp h + e) mod 52" by (simp only: mod_mult_self2)
  also have "i_last_qp h + e = i_qp h'" using w by (simp add: e_def)
  also have "i_qp h' mod 52 = i_qp h'" using assms(2-5) w by simp
  finally have "(i_last_qp h + d + 52) mod 52 = i_qp h'" .
  moreover have "\<exists>q. h' = h\<lparr>i_qp := q\<rparr>" using w(2) by (cases b) (auto intro: exI[of _ "i_qp h"])
  ultimately show ?thesis using c by blast
qed


section \<open>Luma\<close>

lemma blocks_of_8x8_eq: "blocks_of_8x8 i8 = [4 * i8, 4 * i8 + 1, 4 * i8 + 2, 4 * i8 + 3]"
  by (simp add: blocks_of_8x8_def upt_4 del: upt.simps)

lemma coded_blocks:
  assumes "cbp < 16"
  shows "sorted_wrt (<) (concat (map blocks_of_8x8 (coded_8x8 cbp 0 3)))" "\<forall>i \<in> set (concat (map blocks_of_8x8 (coded_8x8 cbp 0 3))). i < 16"
proof -
  have "list_all (\<lambda>cbp. sorted_wrt (<) (concat (map blocks_of_8x8 (coded_8x8 cbp 0 3))) \<and> list_all (\<lambda>i. i < 16) (concat (map blocks_of_8x8 (coded_8x8 cbp 0 3)))) [0..<16]"
    by code_simp
  then show "sorted_wrt (<) (concat (map blocks_of_8x8 (coded_8x8 cbp 0 3)))" "\<forall>i \<in> set (concat (map blocks_of_8x8 (coded_8x8 cbp 0 3))). i < 16"
    using assms by (simp_all add: list_all_iff del: upt.simps)
qed

lemma coded_8x8_less: "i8 \<in> set (coded_8x8 cbp 0 3) \<Longrightarrow> i8 < 4"
  by (simp add: coded_8x8_def)

lemma length_interleave: "length (interleave_block h i8 l) = length l"
  by (simp add: interleave_block_def Let_def)

lemma interleave_nth:
  assumes "length l = 24" "i8 < 4" "j8 < 4" "k < 4"
  shows "interleave_block h i8 l ! (4 * j8 + k) = (if j8 = i8 then zigzag_interleave_8x8_cavlc (luma8x8 h ! i8) ! k else l ! (4 * j8 + k))"
proof -
  have k: "k = 0 \<or> k = 1 \<or> k = 2 \<or> k = 3" using assms(4) by linarith
  have b: "4 * j8 + k < 24" "4 * i8 + 3 < 24" using assms by linarith+
  show ?thesis
  proof (cases "j8 = i8")
    case True
    then show ?thesis using k assms(1) b by (elim disjE) (simp_all add: interleave_block_def Let_def mult.commute[of _ 4])
  next
    case False
    have "4 * i8 + m \<noteq> 4 * j8 + k" if "m < 4" for m
    proof
      assume "4 * i8 + m = 4 * j8 + k"
      then have "(4 * i8 + m) div 4 = (4 * j8 + k) div 4" by (simp only:)
      then show False using False that assms(4) by simp
    qed
    from this[of 0] this[of 1] this[of 2] this[of 3] show ?thesis
      using False by (simp add: interleave_block_def Let_def mult.commute[of _ 4])
  qed
qed

lemma interleave_fold:
  assumes "length l = 24" "\<forall>i8 \<in> set is. i8 < 4" "j8 < 4" "k < 4"
  shows "fold (interleave_block h) is l ! (4 * j8 + k) = (if j8 \<in> set is then zigzag_interleave_8x8_cavlc (luma8x8 h ! j8) ! k else l ! (4 * j8 + k))"
  using assms
proof (induction "is" arbitrary: l)
  case (Cons i8 js)
  have "length (interleave_block h i8 l) = 24" using Cons.prems(1) by (simp add: length_interleave)
  from Cons.IH[OF this] show ?case using Cons.prems interleave_nth[of l i8 j8 k h] by auto
qed simp

lemma deinterleave_zigzag: "length src = 64 \<Longrightarrow> deinterleave (zigzag_interleave_8x8_cavlc src) = src"
proof (rule nth_equalityI)
  assume l: "length src = 64"
  show "length (deinterleave (zigzag_interleave_8x8_cavlc src)) = length src" using l by (simp add: deinterleave_def)
  fix k assume "k < length (deinterleave (zigzag_interleave_8x8_cavlc src))"
  then have k: "k < 64" by (simp add: deinterleave_def)
  have "k div 4 < 16" using k by simp
  then have "zigzag_interleave_8x8_cavlc src ! (k mod 4) ! (k div 4) = src ! (k mod 4 + k div 4 * 4)"
    by (simp add: zigzag_interleave_8x8_cavlc_def)
  then show "deinterleave (zigzag_interleave_8x8_cavlc src) ! k = src ! k" using k by (simp add: deinterleave_def)
qed

lemma zigzag_four: "zigzag_interleave_8x8_cavlc src = [z ! 0, z ! 1, z ! 2, z ! 3]" if "z = zigzag_interleave_8x8_cavlc src"
  using that by (simp add: zigzag_interleave_8x8_cavlc_def upt_4 del: upt.simps)

lemma groups_blocks: "groups_of_4 (map f (concat (map blocks_of_8x8 is))) = map (\<lambda>i8. [f (4 * i8), f (4 * i8 + 1), f (4 * i8 + 2), f (4 * i8 + 3)]) is"
  by (induction "is") (simp_all add: blocks_of_8x8_eq)

definition luma_ok :: "x264_mb \<Rightarrow> bool" where
  "luma_ok h \<longleftrightarrow> length (luma4x4 h) = 24 \<and> i_cbp_luma h < 16 \<and>
     (\<forall>i8 \<in> set (coded_8x8 (i_cbp_luma h) 0 3).
        if b_transform_8x8 h then length (luma8x8 h ! i8) = 64 \<and> (\<forall>v \<in> set (luma8x8 h ! i8). level_fits (i_profile_idc h) v)
        else \<forall>i \<in> set (blocks_of_8x8 i8). block_ok h 0 i)"

definition luma_value :: "x264_mb \<Rightarrow> bool \<Rightarrow> luma_levels" where
  "luma_value h t8 =
     (let i8s = coded_8x8 (i_cbp_luma h) 0 3
      in if t8 then Luma_8x8 (map (\<lambda>i8. luma8x8 h ! i8) i8s)
         else Luma_4x4 (map (\<lambda>i. luma4x4 h ! i) (concat (map blocks_of_8x8 i8s))))"

text \<open>The blocks of 16 coefficients that are written, with both transforms.\<close>

definition luma_blocks :: "x264_mb \<Rightarrow> x264_mb" where
  "luma_blocks h = (if b_transform_8x8 h then h\<lparr>luma4x4 := fold (interleave_block h) (coded_8x8 (i_cbp_luma h) 0 3) (luma4x4 h)\<rparr> else h)"

lemma luma_blocks_8x8:
  assumes "luma_ok h" "b_transform_8x8 h" "i8 \<in> set (coded_8x8 (i_cbp_luma h) 0 3)" "k < 4"
  shows "luma4x4 (luma_blocks h) ! (4 * i8 + k) = zigzag_interleave_8x8_cavlc (luma8x8 h ! i8) ! k"
  using interleave_fold[of "luma4x4 h" "coded_8x8 (i_cbp_luma h) 0 3" i8 k h] assms coded_8x8_less
  by (auto simp: luma_blocks_def luma_ok_def)

lemma luma_blocks_ok:
  assumes "luma_ok h" "i \<in> set (concat (map blocks_of_8x8 (coded_8x8 (i_cbp_luma h) 0 3)))"
  shows "block_ok (luma_blocks h) 0 i"
proof -
  obtain i8 where i8: "i8 \<in> set (coded_8x8 (i_cbp_luma h) 0 3)" "i \<in> set (blocks_of_8x8 i8)" using assms(2) by auto
  show ?thesis
  proof (cases "b_transform_8x8 h")
    case True
    define k where "k = i - 4 * i8"
    have k: "i = 4 * i8 + k" "k < 4" using i8(2) by (auto simp: blocks_of_8x8_eq k_def)
    have src: "length (luma8x8 h ! i8) = 64" "\<forall>v \<in> set (luma8x8 h ! i8). level_fits (i_profile_idc h) v"
      using assms(1) i8(1) True by (auto simp: luma_ok_def)
    have z: "luma4x4 (luma_blocks h) ! i = map (\<lambda>j. luma8x8 h ! i8 ! (k + j * 4)) [0..<16]"
      using luma_blocks_8x8[OF assms(1) True i8(1) k(2)] k by (simp add: zigzag_interleave_8x8_cavlc_def)
    have "luma8x8 h ! i8 ! (k + j * 4) \<in> set (luma8x8 h ! i8)" if "j < 16" for j using that k(2) src(1) by (intro nth_mem) linarith
    then show ?thesis using src(2) z True by (auto simp: block_ok_def luma_blocks_def)
  next
    case False
    then have "\<forall>i \<in> set (blocks_of_8x8 i8). block_ok h 0 i" using assms(1) i8(1) by (simp add: luma_ok_def)
    then show ?thesis using False i8(2) by (simp add: luma_blocks_def)
  qed
qed

lemma luma_value_blocks:
  assumes "luma_ok h" "i_cbp_luma h \<noteq> 0 \<Longrightarrow> t8 = b_transform_8x8 h"
    and ls: "ls = map (\<lambda>i. luma4x4 (luma_blocks h) ! i) (concat (map blocks_of_8x8 (coded_8x8 (i_cbp_luma h) 0 3)))"
  shows "(if t8 then Luma_8x8 (map deinterleave (groups_of_4 ls)) else Luma_4x4 ls) = luma_value h t8"
proof (cases "i_cbp_luma h = 0")
  case True
  then have "coded_8x8 (i_cbp_luma h) 0 3 = []" by (simp add: coded_8x8_def)
  then show ?thesis by (simp add: ls luma_value_def)
next
  case False
  then have t8: "t8 = b_transform_8x8 h" by (rule assms(2))
  show ?thesis
  proof (cases "b_transform_8x8 h")
    case True
    have "deinterleave [luma4x4 (luma_blocks h) ! (4 * i8), luma4x4 (luma_blocks h) ! (4 * i8 + 1), luma4x4 (luma_blocks h) ! (4 * i8 + 2), luma4x4 (luma_blocks h) ! (4 * i8 + 3)]
        = luma8x8 h ! i8" if "i8 \<in> set (coded_8x8 (i_cbp_luma h) 0 3)" for i8
      using luma_blocks_8x8[OF assms(1) True that, of 0] luma_blocks_8x8[OF assms(1) True that, of 1] luma_blocks_8x8[OF assms(1) True that, of 2]
        luma_blocks_8x8[OF assms(1) True that, of 3] zigzag_four[OF refl, of "luma8x8 h ! i8"] deinterleave_zigzag[of "luma8x8 h ! i8"] assms(1) True that
      by (auto simp: luma_ok_def)
    then show ?thesis using True t8 unfolding ls groups_blocks by (simp add: luma_value_def Let_def comp_def)
  qed (use t8 ls in \<open>simp add: luma_value_def luma_blocks_def Let_def\<close>)
qed

lemma neighbours_later:
  assumes "i \<le> j" "i < 24" "j < 27"
  shows "x264_scan8 ! i - 1 \<noteq> x264_scan8 ! j \<and> x264_scan8 ! i - 8 \<noteq> x264_scan8 ! j"
proof (cases "j < 24")
  case True
  then show ?thesis using neighbours_before[OF assms(1)] by metis
next
  case False
  have "list_all (\<lambda>i. list_all (\<lambda>j. x264_scan8 ! i - 1 \<noteq> x264_scan8 ! j \<and> x264_scan8 ! i - 8 \<noteq> x264_scan8 ! j) [24..<27]) [0..<24]" by code_simp
  then show ?thesis using False assms unfolding list_all_iff set_upt by (metis atLeastLessThan_iff not_less zero_le)
qed

lemma not_later:
  assumes "P \<subseteq> ((!) x264_scan8) ` {k..<27}" "i < 24" "i \<le> k"
  shows "x264_scan8 ! i - 1 \<notin> P \<and> x264_scan8 ! i - 8 \<notin> P"
proof -
  have "x264_scan8 ! i - 1 \<noteq> x \<and> x264_scan8 ! i - 8 \<noteq> x" if xP: "x \<in> P" for x
  proof -
    obtain j where "x = x264_scan8 ! j" "k \<le> j" "j < 27" using subsetD[OF assms(1) xP] by auto
    then show ?thesis using neighbours_later[of i j] assms(2,3) by simp
  qed
  then show ?thesis by blast
qed

lemma codes_luma_nxn:
  assumes w: "x264_macroblock_luma_write_cavlc 0 3 h = (ws, h')" and ok: "luma_ok h" "cache_ok h"
    and D: "nz_agree D (non_zero_count h) (((!) x264_scan8) ` set (concat (map blocks_of_8x8 (coded_8x8 (i_cbp_luma h) 0 3))) \<union> P)"
    and P: "P \<subseteq> ((!) x264_scan8) ` {16..<27}" and p: "\<not> (\<exists>m c. p = Intra_16x16 m c)" and t8: "i_cbp_luma h \<noteq> 0 \<Longrightarrow> t8 = b_transform_8x8 h"
  shows "\<exists>D' nz. codes (seqR ws) (get_luma p (i_cbp_luma h) t8 D) (luma_value h t8, D') \<and>
    h' = (luma_blocks h)\<lparr>non_zero_count := nz\<rparr> \<and> cache_ok h' \<and> nz_agree D' nz P \<and> (\<forall>j. j \<notin> ((!) x264_scan8) ` {0..<16} \<longrightarrow> nz ! j = non_zero_count h ! j)"
proof -
  define bl where "bl = concat (map blocks_of_8x8 (coded_8x8 (i_cbp_luma h) 0 3))"
  have cbp: "i_cbp_luma h < 16" using ok(1) by (simp add: luma_ok_def)
  note bl = coded_blocks[OF cbp, folded bl_def]
  have w': "write_blocks DCT_LUMA_4x4 0 bl (luma_blocks h) = (ws, h')"
    using w by (simp add: x264_macroblock_luma_write_cavlc_def luma_blocks_def Let_def bl_def)
  have n: "non_zero_count (luma_blocks h) = non_zero_count h" by (simp add: luma_blocks_def)
  have c: "cache_ok (luma_blocks h)" using ok(2) by (simp add: cache_ok_def n)
  have k: "\<forall>i \<in> set bl. i < 24 \<and> block_kind i DCT_LUMA_4x4 (16 - 0) \<and> block_ok (luma_blocks h) 0 i"
    using bl(2) luma_blocks_ok[OF ok(1)] by (fastforce simp: block_kind_def bl_def)
  have nb: "\<forall>i \<in> set bl. x264_scan8 ! i - 1 \<notin> P \<and> x264_scan8 ! i - 8 \<notin> P" using not_later[OF P] bl(2) by fastforce
  obtain D' nz where r: "codes (seqR ws) (get_blocks (16 - 0) bl D) (map (\<lambda>i. drop 0 (luma4x4 (luma_blocks h) ! i)) bl, D')"
    "h' = (luma_blocks h)\<lparr>non_zero_count := nz\<rparr>" "cache_ok h'" "nz_agree D' nz P" "\<forall>j. j \<notin> ((!) x264_scan8) ` set bl \<longrightarrow> nz ! j = non_zero_count h ! j"
    using codes_blocks[OF w' c _ bl(1) k _ nb, of D] D unfolding n bl_def[symmetric] by auto
  have "((!) x264_scan8) ` set bl \<subseteq> ((!) x264_scan8) ` {0..<16}" using bl(2) by auto
  then have kept: "\<forall>j. j \<notin> ((!) x264_scan8) ` {0..<16} \<longrightarrow> nz ! j = non_zero_count h ! j" using r(5) by blast
  define ls where "ls = map (\<lambda>i. luma4x4 (luma_blocks h) ! i) bl"
  have r1: "codes (seqR ws) (get_blocks 16 bl D) (ls, D')" using r(1) by (simp add: ls_def del: seqR.simps)
  have g: "get_luma p (i_cbp_luma h) t8 D = pbind (get_blocks 16 bl D) (\<lambda>x. preturn (case x of (ls, nz) \<Rightarrow>
      (if t8 then Luma_8x8 (map deinterleave (groups_of_4 ls)) else Luma_4x4 ls, nz)))"
    using p by (cases p) (auto simp: get_luma_def bl_def coded_8x8_def case_prod_beta')
  have "codes (seqR ws) (get_luma p (i_cbp_luma h) t8 D) (if t8 then Luma_8x8 (map deinterleave (groups_of_4 ls)) else Luma_4x4 ls, D')"
    unfolding g using codes_map[OF r1, of "\<lambda>(ls, nz). (if t8 then Luma_8x8 (map deinterleave (groups_of_4 ls)) else Luma_4x4 ls, nz)"] by (simp del: seqR.simps preturn_bs)
  moreover have "(if t8 then Luma_8x8 (map deinterleave (groups_of_4 ls)) else Luma_4x4 ls) = luma_value h t8"
    by (rule luma_value_blocks[OF ok(1) t8]) (simp_all add: ls_def bl_def)
  ultimately have "codes (seqR ws) (get_luma p (i_cbp_luma h) t8 D) (luma_value h t8, D')" by (simp only:)
  then show ?thesis using r(2-4) kept by blast
qed


definition luma16_ok :: "x264_mb \<Rightarrow> bool" where
  "luma16_ok h \<longleftrightarrow> length (luma16x16_dc h) = 16 \<and> (\<forall>v \<in> set (luma16x16_dc h). level_fits (i_profile_idc h) v) \<and>
     (non_zero_count h ! (x264_scan8 ! 24) = 0 \<longleftrightarrow> (\<forall>x \<in> set (luma16x16_dc h). x = 0)) \<and>
     (i_cbp_luma h \<noteq> 0 \<longrightarrow> (\<forall>i < 16. block_ok h 1 i))"

definition blocks16 :: "x264_mb \<Rightarrow> nat list" where
  "blocks16 h = (if i_cbp_luma h \<noteq> 0 then [0..<16] else [])"

lemma codes_luma_16x16:
  assumes w: "(if i_cbp_luma h \<noteq> 0 then write_blocks DCT_LUMA_AC 1 [0..<16] h else ([], h)) = (ws, h')"
    and ok: "luma16_ok h" "cache_ok h"
    and D: "nz_agree D (non_zero_count h) (((!) x264_scan8) ` set (blocks16 h) \<union> P)" and P: "P \<subseteq> ((!) x264_scan8) ` {16..<27}"
  shows "\<exists>D' nz. codes (seqR (block_residual_write_cavlc h DCT_LUMA_DC 24 (luma16x16_dc h) 16 @ ws)) (get_luma (Intra_16x16 m c) (i_cbp_luma h) t8 D)
      (Luma_DC_AC (luma16x16_dc h) (map (\<lambda>i. drop 1 (luma4x4 h ! i)) (blocks16 h)), D') \<and>
    h' = h\<lparr>non_zero_count := nz\<rparr> \<and> cache_ok h' \<and> nz_agree D' nz P \<and> (\<forall>j. j \<notin> ((!) x264_scan8) ` {0..<16} \<longrightarrow> nz ! j = non_zero_count h ! j)"
proof -
  have "((!) x264_scan8) ` set (blocks16 h) \<union> P \<subseteq> ((!) x264_scan8) ` {0..<27}" using P by (auto simp: blocks16_def)
  from not_later[OF this, of 0] have "nz_table D 24 = block_table h 24" by (intro nz_table_agree[OF D]) simp_all
  moreover have "codes (seqR (block_residual_write_cavlc h DCT_LUMA_DC 24 (luma16x16_dc h) 16)) (residual_block_cavlc (block_table h 24) (25 \<le> (24 :: nat)) 16) (luma16x16_dc h)"
    by (rule codes_block[OF ok(2)]) (use ok(1) in \<open>auto simp: luma16_ok_def block_kind_def\<close>)
  moreover have "(25 \<le> (24 :: nat)) = False" by simp
  ultimately have dc: "codes (seqR (block_residual_write_cavlc h DCT_LUMA_DC 24 (luma16x16_dc h) 16)) (residual_block_cavlc (nz_table D 24) False 16) (luma16x16_dc h)"
    by (simp only:)
  obtain D' nz where r: "codes (seqR ws) (if i_cbp_luma h \<noteq> 0 then get_blocks 15 [0..<16] D else preturn ([], D)) (map (\<lambda>i. drop 1 (luma4x4 h ! i)) (blocks16 h), D')"
    "h' = h\<lparr>non_zero_count := nz\<rparr>" "cache_ok h'" "nz_agree D' nz P" "\<forall>j. j \<notin> ((!) x264_scan8) ` {0..<16} \<longrightarrow> nz ! j = non_zero_count h ! j"
  proof (cases "i_cbp_luma h = 0")
    case True
    then have w0: "ws = []" "h' = h" using w by simp_all
    have "nz_agree D (non_zero_count h) P" using D True by (simp add: blocks16_def)
    then show ?thesis using True w0 ok(2) codes_Nil[of "([], D)"] by (intro that[of D "non_zero_count h"]) (simp_all add: blocks16_def del: seqR.simps preturn_bs)
  next
    case False
    then have w1: "write_blocks DCT_LUMA_AC 1 [0..<16] h = (ws, h')" using w by simp
    have k: "\<forall>i \<in> set [0..<16]. i < 24 \<and> block_kind i DCT_LUMA_AC (16 - 1) \<and> block_ok h 1 i"
      using ok(1) False by (simp add: luma16_ok_def block_kind_def)
    have nb: "\<forall>i \<in> set [0..<16]. x264_scan8 ! i - 1 \<notin> P \<and> x264_scan8 ! i - 8 \<notin> P" using not_later[OF P] by fastforce
    have "sorted_wrt (<) [0..<16]" by (simp add: sorted_wrt_upt del: upt.simps)
    from codes_blocks[OF w1 ok(2) _ this k _ nb, of D] obtain D' nz where r: "codes (seqR ws) (get_blocks (16 - 1) [0..<16] D) (map (\<lambda>i. drop 1 (luma4x4 h ! i)) [0..<16], D')"
      "h' = h\<lparr>non_zero_count := nz\<rparr>" "cache_ok h'" "nz_agree D' nz P" "\<forall>j. j \<notin> ((!) x264_scan8) ` set [0..<16] \<longrightarrow> nz ! j = non_zero_count h ! j"
      using D False by (auto simp: blocks16_def simp del: upt.simps)
    show ?thesis by (rule that[of D' nz]) (use r False in \<open>simp_all add: blocks16_def del: upt.simps seqR.simps\<close>)
  qed
  have g: "get_luma (Intra_16x16 m c) (i_cbp_luma h) t8 D = pbind (residual_block_cavlc (nz_table D 24) False 16) (\<lambda>dc.
      pbind (if i_cbp_luma h \<noteq> 0 then get_blocks 15 [0..<16] D else preturn ([], D)) (\<lambda>x. preturn (case x of (ls, nz) \<Rightarrow> (Luma_DC_AC dc ls, nz))))"
    by (simp add: get_luma_def case_prod_beta' del: upt.simps)
  have "codes (seqR (block_residual_write_cavlc h DCT_LUMA_DC 24 (luma16x16_dc h) 16 @ ws)) (get_luma (Intra_16x16 m c) (i_cbp_luma h) t8 D)
      (case (map (\<lambda>i. drop 1 (luma4x4 h ! i)) (blocks16 h), D') of (ls, nz) \<Rightarrow> (Luma_DC_AC (luma16x16_dc h) ls, nz))"
    unfolding g by (rule codes_append[OF dc]) (rule codes_map[OF r(1)])
  then show ?thesis using r(2-5) unfolding prod.case by blast
qed

section \<open>Chroma\<close>

definition chroma_ok :: "x264_mb \<Rightarrow> bool" where
  "chroma_ok h \<longleftrightarrow> i_cbp_chroma h \<le> 2 \<and>
     (i_cbp_chroma h \<noteq> 0 \<longrightarrow> (\<forall>k < 2. length (chroma_dc h ! k) = 4 \<and> (\<forall>v \<in> set (chroma_dc h ! k). level_fits (i_profile_idc h) v) \<and>
        (non_zero_count h ! (x264_scan8 ! (25 + k)) = 0 \<longleftrightarrow> (\<forall>x \<in> set (chroma_dc h ! k). x = 0)))) \<and>
     (i_cbp_chroma h = 2 \<longrightarrow> (\<forall>i \<in> {16..<24}. block_ok h 1 i))"

definition blocks_chroma :: "x264_mb \<Rightarrow> nat list" where
  "blocks_chroma h = (if i_cbp_chroma h = 2 then [16..<24] else [])"

lemma codes_chroma:
  assumes w: "write_chroma_residual h = (ws, h')" and ok: "chroma_ok h" "cache_ok h"
    and D: "nz_agree D (non_zero_count h) (((!) x264_scan8) ` set (blocks_chroma h) \<union> P)" and P: "P \<subseteq> ((!) x264_scan8) ` {24..<27}"
  shows "\<exists>D' nz. codes (seqR ws) (get_chroma (i_cbp_chroma h) D)
      (if i_cbp_chroma h = 0 then [] else [chroma_dc h ! 0, chroma_dc h ! 1], map (\<lambda>i. drop 1 (luma4x4 h ! i)) (blocks_chroma h), D') \<and>
    h' = h\<lparr>non_zero_count := nz\<rparr> \<and> nz_agree D' nz P"
proof (cases "i_cbp_chroma h = 0")
  case True
  then have "ws = []" "h' = h" "nz_agree D (non_zero_count h) P" using w D by (simp_all add: write_chroma_residual_def blocks_chroma_def)
  then show ?thesis using True codes_Nil[of "([], [], D)"] by (intro exI[of _ D] exI[of _ "non_zero_count h"]) (simp add: get_chroma_def blocks_chroma_def del: seqR.simps preturn_bs)
next
  case False
  have b: "bit (i_cbp_chroma h) 1 \<longleftrightarrow> i_cbp_chroma h = 2"
  proof -
    have "i_cbp_chroma h = 1 \<or> i_cbp_chroma h = 2" using ok(1) False by (auto simp: chroma_ok_def)
    then show ?thesis by (auto simp: bit_1_0 bit_iff_odd)
  qed
  define f where "f k = block_residual_write_cavlc h DCT_CHROMA_DC (25 + k) (chroma_dc h ! k) 4" for k
  obtain w3 h3 where x: "(if i_cbp_chroma h = 2 then write_blocks DCT_CHROMA_AC 1 [16..<24] h else ([], h)) = (w3, h3)" by (rule prod.exhaust)
  have f: "f 0 = block_residual_write_cavlc h DCT_CHROMA_DC 25 (chroma_dc h ! 0) 4" "f 1 = block_residual_write_cavlc h DCT_CHROMA_DC 26 (chroma_dc h ! 1) 4"
    by (simp_all add: f_def)
  have "write_chroma_residual h = (f 0 @ f 1 @ w3, h3)"
    unfolding write_chroma_residual_def Let_def b x prod.case f using False by (simp only: if_True not_False_eq_True)
  then have w3: "(if i_cbp_chroma h = 2 then write_blocks DCT_CHROMA_AC 1 [16..<24] h else ([], h)) = (w3, h')" "ws = concat (map f [0, 1]) @ w3"
    using w x by (simp_all only: prod.inject list.map concat.simps append_Nil2 append.assoc)
  have "codes (seqR (f k)) (residual_block_cavlc 4 True 4) (chroma_dc h ! k)" if "k \<in> set [0, 1]" for k
  proof -
    have k: "k < 2" using that by auto
    have "codes (seqR (f k)) (residual_block_cavlc (block_table h (25 + k)) (25 \<le> 25 + k) 4) (chroma_dc h ! k)"
      unfolding f_def by (rule codes_block[OF ok(2)]) (use ok(1) k False in \<open>auto simp: chroma_ok_def block_kind_def\<close>)
    then show ?thesis by (simp add: block_table_def del: seqR.simps)
  qed
  then have "codes (seqR (concat (map f [0, 1]))) (prepeat (length [0 :: nat, 1]) (residual_block_cavlc 4 True 4)) (map (\<lambda>k. chroma_dc h ! k) [0, 1])"
    by (rule codes_repeat_calls)
  moreover have "length [0 :: nat, 1] = 2" by simp
  ultimately have dc: "codes (seqR (concat (map f [0, 1]))) (prepeat 2 (residual_block_cavlc 4 True 4)) [chroma_dc h ! 0, chroma_dc h ! 1]"
    by (simp only: list.map)
  obtain D' nz where r: "codes (seqR w3) (if i_cbp_chroma h = 2 then get_blocks 15 [16..<24] D else preturn ([], D)) (map (\<lambda>i. drop 1 (luma4x4 h ! i)) (blocks_chroma h), D')"
    "h' = h\<lparr>non_zero_count := nz\<rparr>" "nz_agree D' nz P"
  proof (cases "i_cbp_chroma h = 2")
    case False
    then have w0: "w3 = []" "h' = h" using w3 by simp_all
    have "nz_agree D (non_zero_count h) P" using D False by (simp add: blocks_chroma_def)
    then show ?thesis using False w0 codes_Nil[of "([], D)"] by (intro that[of D "non_zero_count h"]) (simp_all add: blocks_chroma_def del: seqR.simps preturn_bs)
  next
    case True
    then have w1: "write_blocks DCT_CHROMA_AC 1 [16..<24] h = (w3, h')" using w3 by simp
    have k: "\<forall>i \<in> set [16..<24]. i < 24 \<and> block_kind i DCT_CHROMA_AC (16 - 1) \<and> block_ok h 1 i"
      using ok(1) True by (simp add: chroma_ok_def block_kind_def)
    have nb: "\<forall>i \<in> set [16..<24]. x264_scan8 ! i - 1 \<notin> P \<and> x264_scan8 ! i - 8 \<notin> P" using not_later[OF P] by fastforce
    have "sorted_wrt (<) [16..<24]" by (simp add: sorted_wrt_upt del: upt.simps)
    then show ?thesis using codes_blocks[OF w1 ok(2) _ _ k _ nb, of D] D True that by (auto simp: blocks_chroma_def simp del: upt.simps)
  qed
  have g: "get_chroma (i_cbp_chroma h) D = pbind (prepeat 2 (residual_block_cavlc 4 True 4)) (\<lambda>dc.
      pbind (if i_cbp_chroma h = 2 then get_blocks 15 [16..<24] D else preturn ([], D)) (\<lambda>x. preturn (case x of (ac, nz) \<Rightarrow> (dc, ac, nz))))"
    using False by (simp add: get_chroma_def case_prod_beta' del: upt.simps prepeat.simps)
  have "codes (seqR ws) (get_chroma (i_cbp_chroma h) D)
      (case (map (\<lambda>i. drop 1 (luma4x4 h ! i)) (blocks_chroma h), D') of (ac, nz) \<Rightarrow> ([chroma_dc h ! 0, chroma_dc h ! 1], ac, nz))"
    unfolding g w3(2) by (rule codes_append[OF dc]) (rule codes_map[OF r(1)])
  then show ?thesis using r(2,3) False by (auto simp del: seqR.simps)
qed

end
