(* ===== verification/X264_Mb_Decode.thy ===== *)
theory X264_Mb_Decode
  imports X264_Mb_Layer
begin

text \<open>
  A whole macroblock. What a decoder knows before a macroblock is derived from the state of the encoder by forgetting the macroblock itself;
  what it must find is written down from the state of the encoder; and the parser of the standard finds it in the bits that are written.
\<close>

section \<open>What the decoder knows\<close>

definition decoder_context :: "x264_mb \<Rightarrow> mb_context" where
  "decoder_context h =
     \<lparr>cx_slice = sh_i_type h,
      cx_field = (sh_b_mbaff h \<and> (even (i_mb_y h) \<or> type_above h = P_SKIP \<or> type_above h = B_SKIP)),
      cx_transform_8x8_mode = b_transform_8x8_mode h, cx_direct_8x8_inference = b_direct8x8_inference h,
      cx_num_ref = i_fref h,
      cx_modes = map (\<lambda>j. if j \<in> set (take 16 x264_scan8) then 2 else intra4x4_pred_mode h ! j) [0..<48],
      cx_nz = map (\<lambda>j. if j \<in> set x264_scan8 then 0 else non_zero_count h ! j) [0..<48],
      cx_qp = i_last_qp h\<rparr>"

text \<open>The blocks whose coefficients are written.\<close>

definition coded_luma :: "x264_mb \<Rightarrow> nat list" where
  "coded_luma h = (if i_type h = I_16x16 then blocks16 h else concat (map blocks_of_8x8 (coded_8x8 (i_cbp_luma h) 0 3)))"

definition is_intra :: "x264_mb \<Rightarrow> bool" where
  "is_intra h \<longleftrightarrow> i_type h = I_4x4 \<or> i_type h = I_8x8 \<or> i_type h = I_16x16"

text \<open>The macroblocks that the analysis of the encoder produces.\<close>

definition mb_ok :: "x264_mb \<Rightarrow> bool" where
  "mb_ok h \<longleftrightarrow>
     (if is_intra h then sh_i_type h \<in> {SLICE_TYPE_I, SLICE_TYPE_P, SLICE_TYPE_B} \<and> intra_ok h \<and> length (intra4x4_pred_mode h) = 48
      else inter_ok h \<and> (if i_type h = P_L0 \<or> i_type h = P_8x8 then sh_i_type h = SLICE_TYPE_P else sh_i_type h = SLICE_TYPE_B) \<and>
        (b_transform_8x8 h \<longrightarrow> x264_mb_transform_8x8_allowed h)) \<and>
     cache_ok h \<and> i_cbp_luma h < 16 \<and> (if i_type h = I_16x16 then luma16_ok h else luma_ok h) \<and> chroma_ok h \<and>
     0 \<le> i_qp h \<and> i_qp h \<le> 51 \<and> 0 \<le> i_last_qp h \<and> i_last_qp h \<le> 51 \<and>
     (\<forall>i < 24. i \<notin> set (coded_luma h @ blocks_chroma h) \<longrightarrow> non_zero_count h ! (x264_scan8 ! i) = 0) \<and> length (luma4x4 h) = 24"

section \<open>What the decoder must find\<close>

definition pred_value :: "x264_mb \<Rightarrow> mb_pred" where
  "pred_value h = (if is_intra h then intra_value h else inter_value h)"

definition transform_value :: "x264_mb \<Rightarrow> bool" where
  "transform_value h =
     (if i_type h = I_4x4 \<or> i_type h = I_8x8 then i_type h = I_8x8
      else x264_mb_transform_8x8_allowed h \<and> i_cbp_luma h \<noteq> 0 \<and> b_transform_8x8 h)"

definition has_residual :: "x264_mb \<Rightarrow> bool" where
  "has_residual h \<longleftrightarrow> i_type h = I_16x16 \<or> i_cbp_luma h \<noteq> 0 \<or> i_cbp_chroma h \<noteq> 0"

definition luma_levels_of :: "x264_mb \<Rightarrow> luma_levels" where
  "luma_levels_of h =
     (if \<not> has_residual h then No_Luma
      else if i_type h = I_16x16 then Luma_DC_AC (luma16x16_dc h) (map (\<lambda>i. drop 1 (luma4x4 h ! i)) (blocks16 h))
      else luma_value h (transform_value h))"

definition syntax_of :: "x264_mb \<Rightarrow> x264_mb \<Rightarrow> mb_syntax" where
  "syntax_of h h' =
     \<lparr>ms_field = (if sh_b_mbaff h \<and> (even (i_mb_y h) \<or> type_above h = P_SKIP \<or> type_above h = B_SKIP) then Some (of_bool (b_interlaced h)) else None),
      ms_pred = pred_value h, ms_cbp = (i_cbp_luma h, i_cbp_chroma h), ms_transform_8x8 = transform_value h,
      ms_qp = (if has_residual h then i_qp h' else i_last_qp h), ms_luma = luma_levels_of h,
      ms_chroma_dc = (if i_cbp_chroma h = 0 then [] else [chroma_dc h ! 0, chroma_dc h ! 1]),
      ms_chroma_ac = map (\<lambda>i. drop 1 (luma4x4 h ! i)) (blocks_chroma h),
      ms_nz = map (\<lambda>i. non_zero_count h' ! (x264_scan8 ! i)) [0..<24]\<rparr>"

section \<open>Prediction and pattern\<close>

lemma cx_simps [simp]:
  "cx_slice (decoder_context h) = sh_i_type h" "cx_num_ref (decoder_context h) = i_fref h"
  "cx_transform_8x8_mode (decoder_context h) = b_transform_8x8_mode h" "cx_direct_8x8_inference (decoder_context h) = b_direct8x8_inference h"
  "cx_qp (decoder_context h) = i_last_qp h"
  by (simp_all add: decoder_context_def)

lemma mode_cells_cover: "j \<in> set (take 16 x264_scan8) \<Longrightarrow> j \<in> \<Union> (mode_cells b8 ` set (mode_blocks b8))"
proof -
  have "list_all (\<lambda>j. list_ex (\<lambda>b. j \<in> mode_cells True b) (mode_blocks True) \<and> list_ex (\<lambda>b. j \<in> mode_cells False b) (mode_blocks False)) (take 16 x264_scan8)"
    by code_simp
  then show "j \<in> set (take 16 x264_scan8) \<Longrightarrow> j \<in> \<Union> (mode_cells b8 ` set (mode_blocks b8))"
    by (cases b8) (auto simp: list_all_iff list_ex_iff)
qed

lemma context_modes:
  "length (intra4x4_pred_mode h) = 48 \<Longrightarrow> modes_agree (cx_modes (decoder_context h)) (intra4x4_pred_mode h) (\<Union> (mode_cells b8 ` set (mode_blocks b8)))"
  using mode_cells_cover[of _ b8] by (auto simp: modes_agree_def decoder_context_def simp del: upt.simps)

lemma length_scan8: "length x264_scan8 = 27"
  by (simp add: x264_scan8_def)

text \<open>The encoder and the decoder agree on the numbers of coefficients of every block that is not going to be written.\<close>

definition dc_cells :: "nat set" where
  "dc_cells = ((!) x264_scan8) ` {24..<27}"

definition chroma_cells :: "x264_mb \<Rightarrow> nat set" where
  "chroma_cells h = ((!) x264_scan8) ` set (blocks_chroma h) \<union> dc_cells"

lemma chroma_cells_later: "chroma_cells h \<subseteq> ((!) x264_scan8) ` {16..<27}"
  by (auto simp: chroma_cells_def dc_cells_def blocks_chroma_def simp del: upt.simps split: if_splits)

lemma context_nz:
  assumes "mb_ok h"
  shows "nz_agree (cx_nz (decoder_context h)) (non_zero_count h) (((!) x264_scan8) ` set (coded_luma h) \<union> chroma_cells h)"
proof -
  have ok: "length (non_zero_count h) = 48" "\<forall>i < 24. i \<notin> set (coded_luma h @ blocks_chroma h) \<longrightarrow> non_zero_count h ! (x264_scan8 ! i) = 0"
    using assms by (simp_all add: mb_ok_def cache_ok_def)
  have z: "non_zero_count h ! j = 0" if j: "j \<in> set x264_scan8" "j \<notin> ((!) x264_scan8) ` set (coded_luma h) \<union> chroma_cells h" for j
  proof -
    obtain i where i: "i < 27" "j = x264_scan8 ! i" using j(1) by (auto simp: in_set_conv_nth length_scan8)
    then have "i < 24" using j(2) by (cases "i < 24") (auto simp: chroma_cells_def dc_cells_def)
    moreover have "i \<notin> set (coded_luma h @ blocks_chroma h)" using j(2) i(2) by (auto simp: chroma_cells_def)
    ultimately show ?thesis using ok(2) i(2) by blast
  qed
  show ?thesis unfolding nz_agree_def using z ok(1) by (auto simp: decoder_context_def simp del: upt.simps)
qed

text \<open>
  What has to hold of the knowledge of a decoder for a macroblock: it knows the parameters, and what it derived from the neighbours
  agrees with the encoder on every block that is not going to be written.
\<close>

definition context_agrees :: "mb_context \<Rightarrow> x264_mb \<Rightarrow> bool" where
  "context_agrees cx h \<longleftrightarrow> cx_slice cx = sh_i_type h \<and>
     cx_field cx = (sh_b_mbaff h \<and> (even (i_mb_y h) \<or> type_above h = P_SKIP \<or> type_above h = B_SKIP)) \<and>
     cx_transform_8x8_mode cx = b_transform_8x8_mode h \<and> cx_direct_8x8_inference cx = b_direct8x8_inference h \<and> cx_qp cx = i_last_qp h \<and>
     (\<not> is_intra h \<longrightarrow> cx_num_ref cx = i_fref h) \<and>
     (is_intra h \<longrightarrow> (\<forall>b8. modes_agree (cx_modes cx) (intra4x4_pred_mode h) (\<Union> (mode_cells b8 ` set (mode_blocks b8))))) \<and>
     nz_agree (cx_nz cx) (non_zero_count h) (((!) x264_scan8) ` set (coded_luma h) \<union> chroma_cells h)"

lemma context_agreesD:
  assumes "context_agrees cx h"
  shows "cx_slice cx = sh_i_type h" "cx_field cx = (sh_b_mbaff h \<and> (even (i_mb_y h) \<or> type_above h = P_SKIP \<or> type_above h = B_SKIP))"
    "cx_transform_8x8_mode cx = b_transform_8x8_mode h" "cx_direct_8x8_inference cx = b_direct8x8_inference h" "cx_qp cx = i_last_qp h"
    "\<not> is_intra h \<Longrightarrow> cx_num_ref cx = i_fref h"
    "is_intra h \<Longrightarrow> modes_agree (cx_modes cx) (intra4x4_pred_mode h) (\<Union> (mode_cells b8 ` set (mode_blocks b8)))"
    "nz_agree (cx_nz cx) (non_zero_count h) (((!) x264_scan8) ` set (coded_luma h) \<union> chroma_cells h)"
  using assms by (simp_all add: context_agrees_def)

lemma decoder_context_agrees:
  assumes "mb_ok h"
  shows "context_agrees (decoder_context h) h"
proof -
  have "length (intra4x4_pred_mode h) = 48" if "is_intra h" using assms that by (simp add: mb_ok_def)
  moreover have "cx_field (decoder_context h) = (sh_b_mbaff h \<and> (even (i_mb_y h) \<or> type_above h = P_SKIP \<or> type_above h = B_SKIP))"
    by (simp add: decoder_context_def)
  ultimately show ?thesis using context_nz[OF assms] context_modes[of h] by (simp add: context_agrees_def)
qed

lemma codes_pred:
  assumes "mb_ok h" "mb_i_offset (sh_i_type h) = Some off" and cx: "context_agrees cx h"
  shows "codes (seqR (write_mb_pred off h)) (get_mb_pred cx) (pred_value h, if i_type h = I_16x16 then Some (i_cbp_luma h, i_cbp_chroma h) else None)"
proof (cases "is_intra h")
  case True
  note D = context_agreesD[OF cx]
  have ok: "intra_ok h" "length (intra4x4_pred_mode h) = 48" using assms(1) True by (simp_all add: mb_ok_def)
  show ?thesis
  proof (cases "i_type h = I_16x16")
    case True
    then show ?thesis using codes_intra_16x16[OF True ok(1), of cx off] assms(2) D(1)
      by (simp add: write_mb_pred_def pred_value_def is_intra_def del: seqR.simps)
  next
    case False
    then have t: "i_type h = I_4x4 \<or> i_type h = I_8x8" using \<open>is_intra h\<close> by (auto simp: is_intra_def)
    then show ?thesis using codes_intra_nxn[OF t ok(1), of cx off] D(7)[OF \<open>is_intra h\<close>] assms(2) False D(1,3)
      by (auto simp: write_mb_pred_def pred_value_def is_intra_def simp del: seqR.simps)
  qed
next
  case False
  note D = context_agreesD[OF cx]
  have r: "cx_num_ref cx = i_fref h" by (rule D(6)[OF False])
  have ok: "inter_ok h" "if i_type h = P_L0 \<or> i_type h = P_8x8 then sh_i_type h = SLICE_TYPE_P else sh_i_type h = SLICE_TYPE_B"
    using assms(1) False by (simp_all add: mb_ok_def)
  have ni: "i_type h \<noteq> I_4x4" "i_type h \<noteq> I_8x8" "i_type h \<noteq> I_16x16" using False by (simp_all add: is_intra_def)
  have v: "pred_value h = inter_value h" using False by (simp add: pred_value_def)
  consider (a) "i_type h = P_L0" | (b) "i_type h = P_8x8" | (c) "i_type h = B_8x8" | (d) "i_type h = B_DIRECT"
    | (e) "i_type h \<notin> {P_L0, P_8x8, B_8x8, B_DIRECT}" by blast
  then show ?thesis
  proof cases
    case a
    then show ?thesis using codes_P_L0[OF a ok(1), of cx] ok(2) r D(1) by (simp add: write_mb_pred_def v del: seqR.simps)
  next
    case b
    then show ?thesis using codes_P_8x8[OF b ok(1), of cx] ok(2) r D(1) by (simp add: write_mb_pred_def v del: seqR.simps)
  next
    case c
    then show ?thesis using codes_B_8x8[OF c ok(1), of cx] ok(2) r D(1) by (simp add: write_mb_pred_def v del: seqR.simps)
  next
    case d
    then show ?thesis using codes_direct[OF d, of cx] ok(2) r D(1) by (simp add: write_mb_pred_def v del: seqR.simps)
  next
    case e
    then show ?thesis using codes_B[OF e ok(1), of cx] ok(2) r D(1) ni by (simp add: write_mb_pred_def v del: seqR.simps)
  qed
qed


text \<open>The pattern, which an intra macroblock of 16x16 has in its type, and the flag of the transform.\<close>

lemma mb_ok_pattern:
  assumes "mb_ok h"
  shows "i_cbp_luma h < 16" "i_cbp_chroma h \<le> 2"
  using assms by (simp_all add: mb_ok_def chroma_ok_def)

lemma codes_pattern:
  assumes "mb_ok h"
  shows "codes (seqR (if i_type h = I_4x4 \<or> i_type h = I_8x8 then [put_entry intra4x4_cbp_to_golomb (push_bit 4 (i_cbp_chroma h) OR i_cbp_luma h)]
      else if i_type h \<noteq> I_16x16 then [put_entry inter_cbp_to_golomb (push_bit 4 (i_cbp_chroma h) OR i_cbp_luma h)] else []))
    (case (if i_type h = I_16x16 then Some (i_cbp_luma h, i_cbp_chroma h) else None) of Some c \<Rightarrow> preturn c
     | None \<Rightarrow> get_cbp (case pred_value h of Intra_NxN t ms c \<Rightarrow> golomb_to_intra4x4_cbp | _ \<Rightarrow> golomb_to_inter_cbp))
    (i_cbp_luma h, i_cbp_chroma h)"
proof -
  let ?i = "push_bit 4 (i_cbp_chroma h) OR i_cbp_luma h"
  note i = cbp_index[OF mb_ok_pattern[OF assms]]
  note c = codes_cbp[OF cbp_tables(1-3)[OF i(1)] golomb_lengths(1), unfolded i(2,3)] codes_cbp[OF cbp_tables(4-6)[OF i(1)] golomb_lengths(2), unfolded i(2,3)]
  consider (a) "i_type h = I_4x4 \<or> i_type h = I_8x8" | (b) "i_type h = I_16x16" | (d) "\<not> is_intra h" by (auto simp: is_intra_def)
  then show ?thesis
  proof cases
    case a
    then have "i_type h \<noteq> I_16x16" "is_intra h" by (auto simp: is_intra_def)
    then show ?thesis using a c(1) by (simp add: pred_value_def intra_value_def del: seqR.simps)
  next
    case b
    then show ?thesis using codes_Nil[of "(i_cbp_luma h, i_cbp_chroma h)"] by (simp del: seqR.simps preturn_bs)
  next
    case d
    then show ?thesis using c(2) by (auto simp: is_intra_def pred_value_def inter_value_def simp del: seqR.simps)
  qed
qed

lemma sub_type_sizes:
  "p \<in> {D_L0_4x4, D_L0_8x4, D_L0_4x8, D_L0_8x8} \<Longrightarrow> snd (p_sub_types ! (sub_mb_type_p_to_golomb ! part_num p)) = 1 \<longleftrightarrow> p = D_L0_8x8"
  "p \<in> {D_L0_8x8, D_L1_8x8, D_BI_8x8, D_DIRECT_8x8} \<Longrightarrow>
     (if sub_mb_type_b_to_golomb ! part_num p = 0 then d else snd (b_sub_types ! (sub_mb_type_b_to_golomb ! part_num p)) = 1) \<longleftrightarrow> d \<or> p \<noteq> D_DIRECT_8x8"
  by (auto simp: p_sub_types_def b_sub_types_def sub_mb_type_p_to_golomb_def sub_mb_type_b_to_golomb_def)

lemma large_partitions_allowed:
  assumes "mb_ok h" "\<not> is_intra h" and cx: "context_agrees cx h"
  shows "b_transform_8x8_mode h \<and> large_partitions cx (inter_value h) \<longleftrightarrow> x264_mb_transform_8x8_allowed h"
proof -
  note D = context_agreesD(1,4)[OF cx]
  have ok: "inter_ok h" "if i_type h = P_L0 \<or> i_type h = P_8x8 then sh_i_type h = SLICE_TYPE_P else sh_i_type h = SLICE_TYPE_B"
    using assms by (simp_all add: mb_ok_def)
  consider (a) "i_type h = P_L0" | (b) "i_type h = P_8x8" | (c) "i_type h = B_8x8" | (d) "i_type h = B_DIRECT"
    | (e) "i_type h \<notin> {P_L0, P_8x8, B_8x8, B_DIRECT}" by blast
  then show ?thesis
  proof cases
    case a
    then show ?thesis using ok(2) by (simp add: large_partitions_def D inter_value_def sub_numbers_def x264_mb_transform_8x8_allowed_def Let_def)
  next
    case b
    have "\<forall>i < 4. i_sub_partition h ! i \<in> {D_L0_4x4, D_L0_8x4, D_L0_4x8, D_L0_8x8}" "analyse_psub8x8 h \<or> (\<forall>i < 4. i_sub_partition h ! i = D_L0_8x8)"
      using ok(1) b by (simp_all add: inter_ok_def)
    then show ?thesis using b ok(2) sub_type_sizes(1)
      by (auto simp: large_partitions_def D inter_value_def sub_numbers_def x264_mb_transform_8x8_allowed_def Let_def list_all_iff simp del: upt.simps)
  next
    case c
    have "\<not> b_transform_8x8_mode h \<or> (\<forall>i < 4. i_sub_partition h ! i \<in> {D_L0_8x8, D_L1_8x8, D_BI_8x8, D_DIRECT_8x8})"
      using ok(1) c by (simp add: inter_ok_def)
    then show ?thesis
    proof
      assume s: "\<forall>i < 4. i_sub_partition h ! i \<in> {D_L0_8x8, D_L1_8x8, D_BI_8x8, D_DIRECT_8x8}"
      have "large_partitions cx (inter_value h) \<longleftrightarrow>
          (\<forall>i \<in> set [0..<4]. if sub_mb_type_b_to_golomb ! part_num (i_sub_partition h ! i) = 0 then b_direct8x8_inference h
             else snd (b_sub_types ! (sub_mb_type_b_to_golomb ! part_num (i_sub_partition h ! i))) = 1)"
        using c ok(2) by (simp add: large_partitions_def D inter_value_def inter_number_def sub_numbers_def list_all_iff del: upt.simps set_upt)
      also have "\<dots> \<longleftrightarrow> (\<forall>i \<in> set [0..<4]. b_direct8x8_inference h \<or> i_sub_partition h ! i \<noteq> D_DIRECT_8x8)"
        by (rule ball_cong[OF refl], rule sub_type_sizes(2)) (use s in simp)
      finally show ?thesis using c by (auto simp: x264_mb_transform_8x8_allowed_def Let_def)
    qed (simp add: x264_mb_transform_8x8_allowed_def)
  next
    case d
    then show ?thesis using ok(2) by (simp add: large_partitions_def D inter_value_def inter_number_def x264_mb_transform_8x8_allowed_def Let_def)
  next
    case e
    have n: "inter_number h \<noteq> 0" "[0,0,0,0,1,2,0,2,1,1,1,1,1,1,1,1,1,2,0 :: nat] ! mb_num (i_type h) = 1"
      using B_type_cases[OF e ok(1)] by (auto simp: inter_number_def mb_type_b_to_golomb_def)
    then show ?thesis using ok(2) e by (auto simp: large_partitions_def D inter_value_def sub_numbers_def x264_mb_transform_8x8_allowed_def Let_def)
  qed
qed

lemma codes_transform:
  assumes "mb_ok h" and cx: "context_agrees cx h"
  shows "codes (seqR (if x264_mb_transform_8x8_allowed h \<and> i_cbp_luma h \<noteq> 0 then [put_1 (of_bool (b_transform_8x8 h))] else []))
    (get_transform cx (pred_value h) (i_cbp_luma h)) (transform_value h)"
proof (cases "is_intra h")
  case True
  then have "\<not> x264_mb_transform_8x8_allowed h" by (auto simp: is_intra_def x264_mb_transform_8x8_allowed_def Let_def)
  moreover have "get_transform cx (pred_value h) (i_cbp_luma h) = preturn (transform_value h)"
    using True \<open>\<not> x264_mb_transform_8x8_allowed h\<close>
    by (auto simp: get_transform_def pred_value_def intra_value_def transform_value_def is_intra_def large_partitions_def)
  ultimately show ?thesis using codes_Nil by (simp del: seqR.simps preturn_bs)
next
  case False
  let ?c = "x264_mb_transform_8x8_allowed h \<and> i_cbp_luma h \<noteq> 0"
  have g: "get_transform cx (pred_value h) (i_cbp_luma h) = (if ?c then pbind (get_u 1) (\<lambda>b. preturn (b = 1)) else preturn False)"
  proof -
    have "pred_value h = inter_value h" using False by (simp add: pred_value_def)
    moreover have "i_cbp_luma h > 0 \<and> b_transform_8x8_mode h \<and> large_partitions cx (inter_value h) \<longleftrightarrow> ?c"
      using large_partitions_allowed[OF assms(1) False cx] by auto
    ultimately show ?thesis by (simp add: get_transform_def inter_value_def context_agreesD(3)[OF cx])
  qed
  have v: "transform_value h \<longleftrightarrow> ?c \<and> b_transform_8x8 h" using False by (auto simp: transform_value_def is_intra_def)
  show ?thesis
  proof (cases ?c)
    case True
    have "codes (seqR [put_1 (of_bool (b_transform_8x8 h))]) (get_u 1) (of_bool (b_transform_8x8 h))"
      unfolding codes_single by (rule codes_1) simp
    note c = codes_map[OF this, of "\<lambda>b. b = 1"]
    have "((of_bool (b_transform_8x8 h) :: int) = 1) = transform_value h" using v True by simp
    then show ?thesis using c unfolding g by (simp only: True if_True simp_thms)
  next
    case False
    then have "transform_value h = False" using v by blast
    then show ?thesis unfolding g using codes_Nil[of False] by (simp only: False if_False)
  qed
qed


section \<open>Coefficients\<close>

text \<open>What writing the luma coefficients leaves as it was.\<close>

definition chroma_kept :: "x264_mb \<Rightarrow> x264_mb \<Rightarrow> bool" where
  "chroma_kept h h1 \<longleftrightarrow> i_cbp_chroma h1 = i_cbp_chroma h \<and> chroma_dc h1 = chroma_dc h \<and> i_profile_idc h1 = i_profile_idc h \<and>
     (\<forall>i. 16 \<le> i \<longrightarrow> luma4x4 h1 ! i = luma4x4 h ! i) \<and> (\<forall>i. 16 \<le> i \<and> i < 27 \<longrightarrow> non_zero_count h1 ! (x264_scan8 ! i) = non_zero_count h ! (x264_scan8 ! i))"

lemma chroma_kept_ok: "chroma_kept h h1 \<Longrightarrow> chroma_ok h \<Longrightarrow> chroma_ok h1"
  by (simp add: chroma_kept_def chroma_ok_def block_ok_def)

lemma chroma_kept_blocks:
  assumes "chroma_kept h h1"
  shows "blocks_chroma h1 = blocks_chroma h" "map (\<lambda>i. drop 1 (luma4x4 h1 ! i)) (blocks_chroma h) = map (\<lambda>i. drop 1 (luma4x4 h ! i)) (blocks_chroma h)"
  using assms by (auto simp: chroma_kept_def blocks_chroma_def simp del: upt.simps)

lemma scan8_separate: "16 \<le> i \<Longrightarrow> i < 27 \<Longrightarrow> x264_scan8 ! i \<notin> ((!) x264_scan8) ` {0..<16}"
proof -
  have "list_all (\<lambda>i. list_all (\<lambda>j. x264_scan8 ! i \<noteq> x264_scan8 ! j) [0..<16]) [16..<27]" by code_simp
  then show "16 \<le> i \<Longrightarrow> i < 27 \<Longrightarrow> x264_scan8 ! i \<notin> ((!) x264_scan8) ` {0..<16}" unfolding list_all_iff set_upt by fastforce
qed

lemma interleave_later: "16 \<le> i \<Longrightarrow> \<forall>i8 \<in> set js. i8 < 4 \<Longrightarrow> fold (interleave_block h) js l ! i = l ! i"
  by (induction js arbitrary: l) (simp_all add: interleave_block_def Let_def)

lemma chroma_kept_luma_blocks: "chroma_kept h ((luma_blocks (h\<lparr>i_qp := q\<rparr>))\<lparr>non_zero_count := nz\<rparr>)"
  if "\<forall>j. j \<notin> ((!) x264_scan8) ` {0..<16} \<longrightarrow> nz ! j = non_zero_count h ! j"
proof -
  have "fold (interleave_block g) (coded_8x8 c 0 3) l ! i = l ! i" if "16 \<le> i" for g c l i by (rule interleave_later[OF that]) (simp add: coded_8x8_less)
  then show ?thesis using that scan8_separate by (simp add: chroma_kept_def luma_blocks_def)
qed

lemma codes_luma:
  assumes w: "write_luma_residual h = (ws, h1)" and ok: "mb_ok h" and res: "has_residual h" and cx: "context_agrees cx h"
  shows "\<exists>w1 w2 d D'. ws = w1 @ w2 \<and> codes (seqR w1) read_se d \<and> (i_last_qp h + d + 52) mod 52 = i_qp h1 \<and>
    codes (seqR w2) (get_luma (pred_value h) (i_cbp_luma h) (transform_value h) (cx_nz cx)) (luma_levels_of h, D') \<and>
    cache_ok h1 \<and> nz_agree D' (non_zero_count h1) (chroma_cells h) \<and> chroma_kept h h1"
proof -
  obtain w1 h0 where q: "cavlc_qp_delta h = (w1, h0)" by fastforce
  have "0 \<le> i_qp h" "i_qp h \<le> 51" "0 \<le> i_last_qp h" "i_last_qp h \<le> 51" using ok by (simp_all add: mb_ok_def)
  from codes_qp[OF q this] obtain d qp where d: "codes (seqR w1) read_se d" "(i_last_qp h + d + 52) mod 52 = i_qp h0" and h0: "h0 = h\<lparr>i_qp := qp\<rparr>" by blast
  have cache: "cache_ok h0" using ok by (simp add: mb_ok_def h0 cache_ok_def)
  note D = context_agreesD(8)[OF cx]
  show ?thesis
  proof (cases "i_type h = I_16x16")
    case True
    obtain w3 where w3: "(if i_cbp_luma h0 \<noteq> 0 then write_blocks DCT_LUMA_AC 1 [0..<16] h0 else ([], h0)) = (w3, h1)"
      "ws = w1 @ block_residual_write_cavlc h0 DCT_LUMA_DC 24 (luma16x16_dc h0) 16 @ w3"
      using w True by (auto simp: write_luma_residual_def q Let_def split: prod.splits simp del: upt.simps)
    have "luma16_ok h" using ok True by (simp add: mb_ok_def)
    then have o: "luma16_ok h0" unfolding h0 luma16_ok_def block_ok_def by simp
    have D0: "nz_agree (cx_nz cx) (non_zero_count h0) (((!) x264_scan8) ` set (blocks16 h0) \<union> chroma_cells h)"
      using D True by (simp add: h0 coded_luma_def blocks16_def del: upt.simps)
    have v: "luma_levels_of h = Luma_DC_AC (luma16x16_dc h0) (map (\<lambda>i. drop 1 (luma4x4 h0 ! i)) (blocks16 h0))"
      using res True by (simp add: luma_levels_of_def h0 blocks16_def del: upt.simps)
    obtain m c where p: "pred_value h = Intra_16x16 m c" using True by (simp add: pred_value_def is_intra_def intra_value_def)
    have cl: "i_cbp_luma h0 = i_cbp_luma h" by (simp add: h0)
    obtain D' nz where r: "codes (seqR (block_residual_write_cavlc h0 DCT_LUMA_DC 24 (luma16x16_dc h0) 16 @ w3))
        (get_luma (pred_value h) (i_cbp_luma h) (transform_value h) (cx_nz cx)) (luma_levels_of h, D')"
      "h1 = h0\<lparr>non_zero_count := nz\<rparr>" "cache_ok h1" "nz_agree D' nz (chroma_cells h)" "\<forall>j. j \<notin> ((!) x264_scan8) ` {0..<16} \<longrightarrow> nz ! j = non_zero_count h0 ! j"
      using codes_luma_16x16[OF w3(1) o cache D0 chroma_cells_later, of m c "transform_value h"] unfolding p v cl by blast
    have "chroma_kept h h1" using r(5) scan8_separate by (simp add: r(2) h0 chroma_kept_def)
    then show ?thesis using d r(1-4) w3(2) h0 by (intro exI[of _ w1] exI[of _ "block_residual_write_cavlc h0 DCT_LUMA_DC 24 (luma16x16_dc h0) 16 @ w3"] exI[of _ d] exI[of _ D'])
      (simp del: seqR.simps)
  next
    case False
    obtain w2 where w2: "x264_macroblock_luma_write_cavlc 0 3 h0 = (w2, h1)" "ws = w1 @ w2"
      using w False res by (auto simp: write_luma_residual_def has_residual_def q Let_def split: prod.splits if_splits)
    have "luma_ok h" using ok False by (simp add: mb_ok_def)
    then have o: "luma_ok h0" unfolding h0 luma_ok_def block_ok_def by simp
    have D0: "nz_agree (cx_nz cx) (non_zero_count h0) (((!) x264_scan8) ` set (concat (map blocks_of_8x8 (coded_8x8 (i_cbp_luma h0) 0 3))) \<union> chroma_cells h)"
    proof -
      have "non_zero_count h0 = non_zero_count h" "i_cbp_luma h0 = i_cbp_luma h" by (simp_all add: h0)
      then show ?thesis using D False unfolding coded_luma_def by (simp only: if_False)
    qed
    have v: "luma_levels_of h = luma_value h0 (transform_value h)"
      using res False by (simp add: luma_levels_of_def h0 luma_value_def Let_def)
    have p: "\<not> (\<exists>m c. pred_value h = Intra_16x16 m c)" using False by (simp add: pred_value_def intra_value_def inter_value_def)
    have t8: "transform_value h = b_transform_8x8 h0" if "i_cbp_luma h0 \<noteq> 0"
    proof -
      have "i_cbp_luma h \<noteq> 0" using that by (simp add: h0)
      then show ?thesis using ok False by (auto simp: h0 transform_value_def mb_ok_def is_intra_def intra_ok_def split: if_splits)
    qed
    have cl: "i_cbp_luma h0 = i_cbp_luma h" by (simp add: h0)
    obtain D' nz where r: "codes (seqR w2) (get_luma (pred_value h) (i_cbp_luma h) (transform_value h) (cx_nz cx)) (luma_levels_of h, D')"
      "h1 = (luma_blocks h0)\<lparr>non_zero_count := nz\<rparr>" "cache_ok h1" "nz_agree D' nz (chroma_cells h)" "\<forall>j. j \<notin> ((!) x264_scan8) ` {0..<16} \<longrightarrow> nz ! j = non_zero_count h0 ! j"
      using codes_luma_nxn[OF w2(1) o cache D0 chroma_cells_later p t8] unfolding v cl by blast
    have "chroma_kept h h1" unfolding r(2) h0 by (rule chroma_kept_luma_blocks) (use r(5) in \<open>simp add: h0\<close>)
    moreover have "i_qp h1 = i_qp h0" by (simp add: r(2) luma_blocks_def)
    ultimately show ?thesis using d r(1-4) w2(2) by (intro exI[of _ w1] exI[of _ w2] exI[of _ d] exI[of _ D']) (simp del: seqR.simps)
  qed
qed


section \<open>A macroblock\<close>

lemma nz_counts: "nz_agree D nz dc_cells \<Longrightarrow> map (\<lambda>i. D ! (x264_scan8 ! i)) [0..<24] = map (\<lambda>i. nz ! (x264_scan8 ! i)) [0..<24]"
proof -
  assume a: "nz_agree D nz dc_cells"
  have "list_all (\<lambda>i. list_all (\<lambda>j. x264_scan8 ! i \<noteq> x264_scan8 ! j) [24..<27]) [0..<24]" by code_simp
  then have "x264_scan8 ! i \<notin> dc_cells" if "i < 24" for i using that unfolding dc_cells_def list_all_iff set_upt by fastforce
  then show ?thesis using a scan8_bound by (simp add: nz_agree_def del: upt.simps)
qed

text \<open>The quantiser and the coefficients, when there are any.\<close>

definition get_residual :: "mb_context \<Rightarrow> int option \<Rightarrow> mb_pred \<Rightarrow> bool \<Rightarrow> nat \<Rightarrow> nat \<Rightarrow> bool \<Rightarrow> mb_syntax parser" where
  "get_residual cx field p intra16 cbp_luma cbp_chroma t8 =
     (if cbp_luma > 0 \<or> cbp_chroma > 0 \<or> intra16
      then pbind read_se (\<lambda>dqp.
           pbind (get_luma p cbp_luma t8 (cx_nz cx)) (\<lambda>(luma, nz).
           pbind (get_chroma cbp_chroma nz) (\<lambda>(dc, ac, nz).
             preturn \<lparr>ms_field = field, ms_pred = p, ms_cbp = (cbp_luma, cbp_chroma), ms_transform_8x8 = t8,
               ms_qp = (cx_qp cx + dqp + 52) mod 52, ms_luma = luma, ms_chroma_dc = dc, ms_chroma_ac = ac,
               ms_nz = map (\<lambda>i. nz ! (x264_scan8 ! i)) [0..<24]\<rparr>)))
      else preturn \<lparr>ms_field = field, ms_pred = p, ms_cbp = (cbp_luma, cbp_chroma), ms_transform_8x8 = t8,
               ms_qp = cx_qp cx, ms_luma = No_Luma, ms_chroma_dc = [], ms_chroma_ac = [],
               ms_nz = map (\<lambda>i. cx_nz cx ! (x264_scan8 ! i)) [0..<24]\<rparr>)"

lemma macroblock_layer_alt:
  "macroblock_layer cx =
     pbind (pwhen (cx_field cx) (get_u 1)) (\<lambda>field.
     pbind (get_mb_pred cx) (\<lambda>(p, cbp16).
     pbind (case cbp16 of Some c \<Rightarrow> preturn c
            | None \<Rightarrow> get_cbp (case p of Intra_NxN t ms c \<Rightarrow> golomb_to_intra4x4_cbp | _ \<Rightarrow> golomb_to_inter_cbp)) (\<lambda>(cbp_luma, cbp_chroma).
     pbind (get_transform cx p cbp_luma) (\<lambda>t8. get_residual cx field p (cbp16 \<noteq> None) cbp_luma cbp_chroma t8))))"
  unfolding macroblock_layer_def get_residual_def ..

lemma codes_residual:
  assumes ok: "mb_ok h" and cx: "context_agrees cx h" and w: "write_luma_residual h = (ws1, h1)" "write_chroma_residual h1 = (ws2, h')"
    and f: "field = (if cx_field cx then Some (of_bool (b_interlaced h)) else None)"
  shows "codes (seqR (ws1 @ ws2)) (get_residual cx field (pred_value h) (i_type h = I_16x16) (i_cbp_luma h) (i_cbp_chroma h) (transform_value h))
    (syntax_of h h')"
proof (cases "has_residual h")
  case True
  then have c: "i_cbp_luma h > 0 \<or> i_cbp_chroma h > 0 \<or> i_type h = I_16x16" by (auto simp: has_residual_def)
  obtain wq wl d D1 where l: "ws1 = wq @ wl" "codes (seqR wq) read_se d" "(i_last_qp h + d + 52) mod 52 = i_qp h1"
    "codes (seqR wl) (get_luma (pred_value h) (i_cbp_luma h) (transform_value h) (cx_nz cx)) (luma_levels_of h, D1)"
    "cache_ok h1" "nz_agree D1 (non_zero_count h1) (chroma_cells h)" "chroma_kept h h1"
    using codes_luma[OF w(1) ok True cx] by blast
  note k = chroma_kept_blocks[OF l(7)]
  have same: "i_cbp_chroma h1 = i_cbp_chroma h" "chroma_dc h1 = chroma_dc h" using l(7) by (simp_all add: chroma_kept_def)
  have "chroma_ok h1" using chroma_kept_ok[OF l(7)] ok by (simp add: mb_ok_def)
  moreover have "nz_agree D1 (non_zero_count h1) (((!) x264_scan8) ` set (blocks_chroma h1) \<union> dc_cells)" using l(6) by (simp add: k(1) chroma_cells_def)
  ultimately obtain D2 nz where r: "codes (seqR ws2) (get_chroma (i_cbp_chroma h) D1)
      (if i_cbp_chroma h = 0 then [] else [chroma_dc h ! 0, chroma_dc h ! 1], map (\<lambda>i. drop 1 (luma4x4 h ! i)) (blocks_chroma h), D2)"
    "h' = h1\<lparr>non_zero_count := nz\<rparr>" "nz_agree D2 nz dc_cells"
    using codes_chroma[OF w(2) _ l(5), of D1 dc_cells] unfolding same k dc_cells_def by blast
  let ?r = "\<lambda>(dc, ac, nz). \<lparr>ms_field = field, ms_pred = pred_value h, ms_cbp = (i_cbp_luma h, i_cbp_chroma h), ms_transform_8x8 = transform_value h,
    ms_qp = (cx_qp cx + d + 52) mod 52, ms_luma = luma_levels_of h, ms_chroma_dc = dc, ms_chroma_ac = ac,
    ms_nz = map (\<lambda>i. nz ! (x264_scan8 ! i)) [0..<24]\<rparr>"
  have "i_qp h' = i_qp h1" "non_zero_count h' = nz" by (simp_all add: r(2))
  then have v: "?r (if i_cbp_chroma h = 0 then [] else [chroma_dc h ! 0, chroma_dc h ! 1], map (\<lambda>i. drop 1 (luma4x4 h ! i)) (blocks_chroma h), D2) = syntax_of h h'"
    unfolding prod.case syntax_of_def context_agreesD(2,5)[OF cx] l(3) nz_counts[OF r(3)] f using True by (simp only: if_True)
  have "codes (seqR ws2) (pbind (get_chroma (i_cbp_chroma h) D1) (\<lambda>x. preturn (?r x))) (syntax_of h h')"
    using codes_map[OF r(1), of ?r] unfolding v .
  then have ch: "codes (seqR ws2) (pbind (get_chroma (i_cbp_chroma h) D1) (\<lambda>(dc, ac, nz). preturn (?r (dc, ac, nz)))) (syntax_of h h')"
    by (simp only: case_prod_beta' prod.collapse)
  show ?thesis unfolding get_residual_def if_P[OF c] l(1) append.assoc
    by (rule codes_append[OF l(2)], rule codes_append[OF l(4)]) (use ch in \<open>simp only: prod.case\<close>)
next
  case False
  then have c: "\<not> (i_cbp_luma h > 0 \<or> i_cbp_chroma h > 0 \<or> i_type h = I_16x16)" by (simp add: has_residual_def)
  then have e: "ws1 = []" "h1 = h" using w(1) by (simp_all add: write_luma_residual_def)
  then have e2: "ws2 = []" "h' = h" using w(2) c by (simp_all add: write_chroma_residual_def)
  have "coded_luma h = []" "blocks_chroma h = []" using c by (simp_all add: coded_luma_def coded_8x8_def blocks_chroma_def)
  then have "nz_agree (cx_nz cx) (non_zero_count h) dc_cells" using context_agreesD(8)[OF cx] by (simp add: chroma_cells_def)
  note n = nz_counts[OF this]
  have "i_cbp_chroma h = 0" using c by simp
  then have v: "syntax_of h h = \<lparr>ms_field = field, ms_pred = pred_value h, ms_cbp = (i_cbp_luma h, i_cbp_chroma h), ms_transform_8x8 = transform_value h,
               ms_qp = cx_qp cx, ms_luma = No_Luma, ms_chroma_dc = [], ms_chroma_ac = [],
               ms_nz = map (\<lambda>i. cx_nz cx ! (x264_scan8 ! i)) [0..<24]\<rparr>"
    unfolding syntax_of_def n f context_agreesD(2,5)[OF cx] using False \<open>blocks_chroma h = []\<close> by (simp add: luma_levels_of_def del: upt.simps)
  show ?thesis unfolding get_residual_def if_not_P[OF c] e e2 v append_Nil by (rule codes_Nil)
qed

lemma codes_macroblock:
  assumes ok: "mb_ok h" and cx: "context_agrees cx h" and w: "x264_macroblock_write_cavlc h = (ws, h')"
  shows "codes (seqR ws) (macroblock_layer cx) (syntax_of h h')"
proof -
  have "sh_i_type h \<in> {SLICE_TYPE_I, SLICE_TYPE_P, SLICE_TYPE_B}" using ok by (auto simp: mb_ok_def split: if_splits)
  then obtain off where off: "mb_i_offset (sh_i_type h) = Some off" by (auto simp: mb_i_offset_def)
  have "i_type h \<noteq> I_PCM"
  proof
    assume "i_type h = I_PCM"
    then have "inter_ok h" using ok by (simp add: mb_ok_def is_intra_def)
    then show False using \<open>i_type h = I_PCM\<close> by (simp add: inter_ok_def)
  qed
  obtain ws1 h1 where l: "write_luma_residual h = (ws1, h1)" by fastforce
  obtain ws2 h2 where c: "write_chroma_residual h1 = (ws2, h2)" by fastforce
  have e: "ws = write_mb_field h @ write_mb_pred off h @ write_cbp h @ ws1 @ ws2" "h' = h2"
    using w off \<open>i_type h \<noteq> I_PCM\<close> by (simp_all add: x264_macroblock_write_cavlc_def l c)
  have fd: "codes (seqR (write_mb_field h)) (pwhen (cx_field cx) (get_u 1)) (if cx_field cx then Some (of_bool (b_interlaced h)) else None)"
  proof -
    have "codes (seqR [put_1 (of_bool (b_interlaced h))]) (get_u 1) (of_bool (b_interlaced h))" unfolding codes_single by (rule codes_1) simp
    then have "codes (seqR (if cx_field cx then [put_1 (of_bool (b_interlaced h))] else [])) (pwhen (cx_field cx) (get_u 1))
      (if cx_field cx then Some (of_bool (b_interlaced h)) else None)" by (rule codes_when)
    then show ?thesis by (simp only: write_mb_field_def context_agreesD(2)[OF cx])
  qed
  have n: "((if i_type h = I_16x16 then Some (i_cbp_luma h, i_cbp_chroma h) else None) \<noteq> None) = (i_type h = I_16x16)" by simp
  note r = codes_residual[OF ok cx l c refl]
  show ?thesis unfolding e macroblock_layer_alt write_cbp_def append.assoc
    by (rule codes_append[OF fd], rule codes_append[OF codes_pred[OF ok off cx]], simp only: prod.case, rule codes_append[OF codes_pattern[OF ok]],
        simp only: prod.case n, rule codes_append[OF codes_transform[OF ok cx]], rule r)
qed


text \<open>A macroblock of two halves with the larger transform in one quarter.\<close>

definition sample_mb :: x264_mb where
  "sample_mb =
     \<lparr>non_zero_count = (replicate 48 0)[4 := 128, 11 := 128, 18 := 128, x264_scan8 ! 25 := 1],
      i_profile_idc = 100, sh_i_type = SLICE_TYPE_P, sh_b_mbaff = False, b_transform_8x8_mode = True, b_direct8x8_inference = True,
      analyse_psub8x8 = True, b_interlaced = False, i_mb_y = 0, type_above = P_L0, i_type = P_L0, i_partition = D_16x8,
      i_sub_partition = replicate 4 D_L0_8x8, b_transform_8x8 = True, i_cbp_luma = 2, i_cbp_chroma = 2,
      i_intra16x16_pred_mode = 0, i_chroma_pred_mode = 0, i_qp = 28, i_last_qp = 26, i_fref = [3, 0],
      cache_ref = [(replicate 48 0)[x264_scan8 ! 8 := 2], replicate 48 (-2)], cache_mv = [(replicate 48 (0, 0))[x264_scan8 ! 0 := (-5, 7)], replicate 48 (0, 0)],
      intra4x4_pred_mode = replicate 48 (-1),
      luma4x4 = replicate 16 [] @ replicate 8 (0 # 3 # replicate 14 0),
      luma8x8 = [[], [9, 0, -4, 1, 0, 2] @ replicate 58 0, [], []], luma16x16_dc = [], chroma_dc = [[5, 0, 0, -1], [0, 0, 0, 0]], p_fenc = []\<rparr>"


end
