(* ===== verification/X264_Slice_Header.thy ===== *)
theory X264_Slice_Header
  imports X264_Reference X264_Mb_Decode X264_Pps
begin

text \<open>
  Slice headers (\<^verbatim>\<open>x264_slice_header_init\<close>, \<^verbatim>\<open>x264_slice_init\<close> and \<^verbatim>\<open>x264_slice_header_write\<close> in \<^verbatim>\<open>apps/x264/src/encoder/encoder.c\<close>)
  against the slice header syntax of the standard (7.3.3). A decoder has the parameter sets, and knows from the header
  of the unit whether the picture starts a new sequence and whether it is a reference.
\<close>

section \<open>Slice headers\<close>

fun slice_num :: "slice_type_e \<Rightarrow> int" where
  "slice_num SLICE_TYPE_P = 0" | "slice_num SLICE_TYPE_B = 1" | "slice_num SLICE_TYPE_I = 2" | "slice_num SLICE_TYPE_SP = 3" | "slice_num SLICE_TYPE_SI = 4"

record x264_slice_header_t =
  sh_sps :: x264_sps_t
  sh_pps :: x264_pps_t
  slice_type :: slice_type_e
  i_first_mb :: int
  i_last_mb :: int
  i_pps_id :: int
  i_frame_num :: int
  b_mbaff :: int
  b_field_pic :: int
  b_bottom_field :: int
  i_idr_pic_id :: int
  i_poc_lsb :: int
  i_delta_poc_bottom :: int
  i_delta_poc :: "int list"
  i_redundant_pic_cnt :: int
  b_direct_spatial_mv_pred :: int
  b_num_ref_idx_override :: int
  slice_num_ref_idx_l0_active :: int
  slice_num_ref_idx_l1_active :: int
  b_ref_pic_list_reordering_l0 :: int
  b_ref_pic_list_reordering_l1 :: int
  ref_pic_list_order :: "(int \<times> int) list list"
  slice_cabac_init_idc :: int
  slice_qp :: int
  i_qp_delta :: int
  b_sp_for_swidth :: int
  i_qs_delta :: int
  i_disable_deblocking_filter_idc :: int
  i_alpha_c0_offset :: int
  i_beta_offset :: int

text \<open>What the initialisation reads besides: parameters, flags of the analysis, statistics and the lists of references.\<close>

record slice_param = x264_param_t +
  p_direct_mv_pred :: int
  p_cabac_init_idc :: int
  p_deblocking_filter :: int
  p_deblocking_filter_alphac0 :: int
  p_deblocking_filter_beta :: int

record slice_state =
  st_param :: slice_param
  st_sps :: x264_sps_t
  st_pps :: x264_pps_t
  b_direct_auto_read :: int
  b_direct_auto_write :: int
  i_direct_score :: "int list"
  b_variable_qp :: int
  st_refs :: ref_lists
  st_idr_pic_id :: int
  st_frame_num :: int
  fdec_poc :: int
  fdec_frame_num :: int
  st_sh :: x264_slice_header_t

definition X264_DIRECT_PRED_SPATIAL :: int where "X264_DIRECT_PRED_SPATIAL = 1"

definition x264_slice_header_init :: "slice_state \<Rightarrow> int \<Rightarrow> int \<Rightarrow> int \<Rightarrow> x264_slice_header_t \<Rightarrow> x264_slice_header_t" where
  "x264_slice_header_init h idr_pic_id i_frame qp sh =
     (let param = st_param h; sps = st_sps h; pps = st_pps h; refs = st_refs h;
          sh = sh\<lparr>sh_sps := sps, sh_pps := pps, i_first_mb := 0, i_last_mb := i_mb_width sps * i_mb_height sps, i_pps_id := pps_id pps,
                  i_frame_num := i_frame, b_mbaff := p_interlaced param, b_field_pic := 0, b_bottom_field := 0,
                  i_idr_pic_id := idr_pic_id, i_poc_lsb := 0, i_delta_poc_bottom := 0, i_delta_poc := [0, 0], i_redundant_pic_cnt := 0\<rparr>;
          sh = (if b_direct_auto_read h = 0
                then sh\<lparr>b_direct_spatial_mv_pred :=
                          (if b_direct_auto_write h \<noteq> 0 then of_bool (i_direct_score h ! 1 > i_direct_score h ! 0)
                           else of_bool (p_direct_mv_pred param = X264_DIRECT_PRED_SPATIAL))\<rparr>
                else sh);
          sh = sh\<lparr>b_num_ref_idx_override := 0, slice_num_ref_idx_l0_active := 1, slice_num_ref_idx_l1_active := 1,
                  b_ref_pic_list_reordering_l0 := b_ref_reorder refs ! 0, b_ref_pic_list_reordering_l1 := b_ref_reorder refs ! 1\<rparr>;
          sh = (if b_ref_pic_list_reordering_l0 sh \<noteq> 0
                then sh\<lparr>ref_pic_list_order := (ref_pic_list_order sh)[0 := reorder_commands i_frame (take (nat (i_ref0 refs)) (fref0 refs))
                          @ drop (nat (i_ref0 refs)) (ref_pic_list_order sh ! 0)]\<rparr>
                else sh);
          sh = sh\<lparr>slice_cabac_init_idc := p_cabac_init_idc param, slice_qp := qp, i_qp_delta := qp - i_pic_init_qp pps,
                  b_sp_for_swidth := 0, i_qs_delta := 0,
                  i_disable_deblocking_filter_idc :=
                    (if p_deblocking_filter param \<noteq> 0 \<and> (b_variable_qp h \<noteq> 0 \<or>
                          15 < qp + 2 * min (p_deblocking_filter_alphac0 param) (p_deblocking_filter_beta param)) then 0 else 1),
                  i_alpha_c0_offset := push_bit 1 (p_deblocking_filter_alphac0 param), i_beta_offset := push_bit 1 (p_deblocking_filter_beta param)\<rparr>
      in sh)"

text \<open>\<^verbatim>\<open>NAL_SLICE_IDR\<close> is the type of a unit that starts a new sequence. The last call, \<^verbatim>\<open>x264_macroblock_slice_init\<close>, prepares the analysis.\<close>

definition x264_slice_init :: "slice_state \<Rightarrow> bool \<Rightarrow> int \<Rightarrow> slice_state" where
  "x264_slice_init h idr i_global_qp =
     (let h = (if idr
               then h\<lparr>st_sh := x264_slice_header_init h (st_idr_pic_id h) (st_frame_num h) i_global_qp (st_sh h),
                      st_idr_pic_id := (st_idr_pic_id h + 1) mod 65536\<rparr>
               else h\<lparr>st_sh := (x264_slice_header_init h (- 1) (st_frame_num h) i_global_qp (st_sh h))
                        \<lparr>b_num_ref_idx_override := 1,
                         slice_num_ref_idx_l0_active := (if i_ref0 (st_refs h) \<le> 0 then 1 else i_ref0 (st_refs h)),
                         slice_num_ref_idx_l1_active := (if i_ref1 (st_refs h) \<le> 0 then 1 else i_ref1 (st_refs h))\<rparr>\<rparr>);
          h = h\<lparr>fdec_frame_num := i_frame_num (st_sh h)\<rparr>
      in if i_poc_type (st_sps h) = 0
         then h\<lparr>st_sh := (st_sh h)\<lparr>i_poc_lsb := take_bit (nat (i_log2_max_poc_lsb (st_sps h))) (fdec_poc h), i_delta_poc_bottom := 0\<rparr>\<rparr>
         else h)"

section \<open>Writing a slice header\<close>

definition put_first_mb :: "x264_slice_header_t \<Rightarrow> bs_t \<Rightarrow> bs_t outcome" where
  "put_first_mb sh =
     (if b_mbaff sh \<noteq> 0
      then \<lambda>s. assertR (i_first_mb sh mod (2 * i_mb_width (sh_sps sh)) = 0) ''sh->i_first_mb % (2*sh->sps->i_mb_width) == 0''
                 (put_ue (drop_bit 1 (i_first_mb sh)) s)
      else put_ue (i_first_mb sh))"

definition field_write :: "x264_slice_header_t \<Rightarrow> calls" where
  "field_write sh = put_1 (b_field_pic sh) # (if b_field_pic sh \<noteq> 0 then [put_1 (b_bottom_field sh)] else [])"

definition poc_lsb_write :: "x264_slice_header_t \<Rightarrow> calls" where
  "poc_lsb_write sh =
     put_u (i_log2_max_poc_lsb (sh_sps sh)) (i_poc_lsb sh)
     # (if b_pic_order (sh_pps sh) \<noteq> 0 \<and> b_field_pic sh = 0 then [put_se (i_delta_poc_bottom sh)] else [])"

definition delta_poc_write :: "x264_slice_header_t \<Rightarrow> calls" where
  "delta_poc_write sh =
     put_se (i_delta_poc sh ! 0) # (if b_pic_order (sh_pps sh) \<noteq> 0 \<and> b_field_pic sh = 0 then [put_se (i_delta_poc sh ! 1)] else [])"

definition num_ref_write :: "x264_slice_header_t \<Rightarrow> calls" where
  "num_ref_write sh =
     put_1 (b_num_ref_idx_override sh)
     # (if b_num_ref_idx_override sh \<noteq> 0
        then put_ue (slice_num_ref_idx_l0_active sh - 1)
             # (if slice_type sh = SLICE_TYPE_B then [put_ue (slice_num_ref_idx_l1_active sh - 1)] else [])
        else [])"

definition reordering_write :: "int \<Rightarrow> int \<Rightarrow> (int \<times> int) list \<Rightarrow> calls" where
  "reordering_write b n order =
     put_1 b # (if b \<noteq> 0 then concat (map (\<lambda>i. [put_ue (fst (order ! i)), put_ue (snd (order ! i))]) [0..<nat n]) @ [put_ue 3] else [])"

definition marking_write :: "x264_slice_header_t \<Rightarrow> calls" where
  "marking_write sh = (if i_idr_pic_id sh \<ge> 0 then [put_1 0, put_1 0] else [put_1 0])"

definition deblock_write :: "x264_slice_header_t \<Rightarrow> calls" where
  "deblock_write sh =
     put_ue (i_disable_deblocking_filter_idc sh)
     # (if i_disable_deblocking_filter_idc sh \<noteq> 1 then [put_se (drop_bit 1 (i_alpha_c0_offset sh)), put_se (drop_bit 1 (i_beta_offset sh))] else [])"

definition x264_slice_header_write :: "x264_slice_header_t \<Rightarrow> int \<Rightarrow> calls" where
  "x264_slice_header_write sh i_nal_ref_idc =
     (let sps = sh_sps sh; pps = sh_pps sh; t = slice_type sh
      in [put_first_mb sh, put_ue (slice_num t + 5), put_ue (i_pps_id sh), put_u (i_log2_max_frame_num sps) (i_frame_num sh)]
         @ (if b_frame_mbs_only sps = 0 then field_write sh else [])
         @ (if i_idr_pic_id sh \<ge> 0 then [put_ue (i_idr_pic_id sh)] else [])
         @ (if i_poc_type sps = 0 then poc_lsb_write sh
            else if i_poc_type sps = 1 \<and> b_delta_pic_order_always_zero sps = 0 then delta_poc_write sh else [])
         @ (if b_redundant_pic_cnt pps \<noteq> 0 then [put_ue (i_redundant_pic_cnt sh)] else [])
         @ (if t = SLICE_TYPE_B then [put_1 (b_direct_spatial_mv_pred sh)] else [])
         @ (if t = SLICE_TYPE_P \<or> t = SLICE_TYPE_SP \<or> t = SLICE_TYPE_B then num_ref_write sh else [])
         @ (if t \<noteq> SLICE_TYPE_I
            then reordering_write (b_ref_pic_list_reordering_l0 sh) (slice_num_ref_idx_l0_active sh) (ref_pic_list_order sh ! 0) else [])
         @ (if t = SLICE_TYPE_B
            then reordering_write (b_ref_pic_list_reordering_l1 sh) (slice_num_ref_idx_l1_active sh) (ref_pic_list_order sh ! 1) else [])
         @ (if i_nal_ref_idc \<noteq> 0 then marking_write sh else [])
         @ (if pps_cabac pps \<noteq> 0 \<and> t \<noteq> SLICE_TYPE_I then [put_ue (slice_cabac_init_idc sh)] else [])
         @ [put_se (i_qp_delta sh)]
         @ (if b_deblocking_filter_control pps \<noteq> 0 then deblock_write sh else []))"

section \<open>The syntax of a slice header\<close>

record slice_syntax =
  sl_first_mb :: int
  sl_type :: int
  sl_pps_id :: int
  sl_frame_num :: int
  sl_field :: "(int \<times> int option) option"
  sl_idr_pic_id :: "int option"
  sl_poc_lsb :: "(int \<times> int option) option"
  sl_delta_poc :: "(int \<times> int option) option"
  sl_redundant :: "int option"
  sl_direct_spatial :: "int option"
  sl_num_ref :: "(int \<times> int option) option option"
  sl_reordering0 :: "(int \<times> int) list option option"
  sl_reordering1 :: "(int \<times> int) list option option"
  sl_marking :: "int list option"
  sl_cabac_init :: "int option"
  sl_qp_delta :: int
  sl_deblock :: "(int \<times> (int \<times> int) option) option"

text \<open>
  A list has at most 32 entries, so that more commands are an error. Long-term references, explicit weights, adaptive marking,
  slice groups and the two switching types of slices have more syntax; no parameter set or slice here uses it, and the parser fails.
\<close>

fun get_commands :: "nat \<Rightarrow> (int \<times> int) list parser" where
  "get_commands 0 = pfail"
| "get_commands (Suc n) =
     pbind get_ue (\<lambda>idc.
       if idc = 3 then preturn []
       else if idc > 1 then pfail
       else pbind get_ue (\<lambda>arg. pbind (get_commands n) (\<lambda>cs. preturn ((idc, arg) # cs))))"

definition get_field :: "(int \<times> int option) parser" where
  "get_field = pbind (get_u 1) (\<lambda>f. pbind (pwhen (f \<noteq> 0) (get_u 1)) (\<lambda>b. preturn (f, b)))"

definition get_poc_lsb :: "nat \<Rightarrow> bool \<Rightarrow> (int \<times> int option) parser" where
  "get_poc_lsb n bottom = pbind (get_u n) (\<lambda>l. pbind (pwhen bottom read_se) (\<lambda>d. preturn (l, d)))"

definition get_delta_poc :: "bool \<Rightarrow> (int \<times> int option) parser" where
  "get_delta_poc bottom = pbind read_se (\<lambda>a. pbind (pwhen bottom read_se) (\<lambda>b. preturn (a, b)))"

definition get_num_ref :: "bool \<Rightarrow> (int \<times> int option) option parser" where
  "get_num_ref second =
     pbind (get_u 1) (\<lambda>v. pbind (pwhen (v \<noteq> 0) (pbind get_ue (\<lambda>a. pbind (pwhen second get_ue) (\<lambda>b. preturn (a, b))))) (\<lambda>r. preturn r))"

definition get_reordering :: "(int \<times> int) list option parser" where
  "get_reordering = pbind (get_u 1) (\<lambda>b. pbind (pwhen (b \<noteq> 0) (get_commands 33)) (\<lambda>r. preturn r))"

definition get_marking :: "bool \<Rightarrow> int list parser" where
  "get_marking idr =
     (if idr then prepeat 2 (get_u 1) else pbind (get_u 1) (\<lambda>a. if a = 0 then preturn [a] else pfail))"

definition get_deblock :: "(int \<times> (int \<times> int) option) parser" where
  "get_deblock =
     pbind get_ue (\<lambda>d. pbind (pwhen (d \<noteq> 1) (pbind read_se (\<lambda>a. pbind read_se (\<lambda>b. preturn (a, b))))) (\<lambda>v. preturn (d, v)))"

definition unsupported :: "x264_pps_t \<Rightarrow> int \<Rightarrow> bool" where
  "unsupported pps t \<longleftrightarrow> t > 2 \<or> i_num_slice_groups pps \<noteq> 1 \<or> b_weighted_pred pps \<noteq> 0 \<and> t = 0 \<or> b_weighted_bipred pps = 1 \<and> t = 1"

definition slice_header :: "x264_sps_t \<Rightarrow> x264_pps_t \<Rightarrow> bool \<Rightarrow> int \<Rightarrow> slice_syntax parser" where
  "slice_header sps pps idr ref_idc =
     pbind get_ue (\<lambda>first. pbind get_ue (\<lambda>ty.
     if unsupported pps (ty mod 5) then pfail else
     pbind get_ue (\<lambda>id. pbind (get_u (nat (i_log2_max_frame_num sps))) (\<lambda>fn.
     pbind (pwhen (b_frame_mbs_only sps = 0) get_field) (\<lambda>field.
     pbind (pwhen idr get_ue) (\<lambda>idr_id.
     pbind (pwhen (i_poc_type sps = 0) (get_poc_lsb (nat (i_log2_max_poc_lsb sps)) (b_pic_order pps \<noteq> 0 \<and> map_option fst field \<in> {None, Some 0}))) (\<lambda>poc0.
     pbind (pwhen (i_poc_type sps = 1 \<and> b_delta_pic_order_always_zero sps = 0) (get_delta_poc (b_pic_order pps \<noteq> 0 \<and> map_option fst field \<in> {None, Some 0}))) (\<lambda>poc1.
     pbind (pwhen (b_redundant_pic_cnt pps \<noteq> 0) get_ue) (\<lambda>red.
     pbind (pwhen (ty mod 5 = 1) (get_u 1)) (\<lambda>direct.
     pbind (pwhen (ty mod 5 \<noteq> 2) (get_num_ref (ty mod 5 = 1))) (\<lambda>num.
     pbind (pwhen (ty mod 5 \<noteq> 2) get_reordering) (\<lambda>r0.
     pbind (pwhen (ty mod 5 = 1) get_reordering) (\<lambda>r1.
     pbind (pwhen (ref_idc \<noteq> 0) (get_marking idr)) (\<lambda>mark.
     pbind (pwhen (pps_cabac pps \<noteq> 0 \<and> ty mod 5 \<noteq> 2) get_ue) (\<lambda>cabac.
     pbind read_se (\<lambda>qp.
     pbind (pwhen (b_deblocking_filter_control pps \<noteq> 0) get_deblock) (\<lambda>deb.
       preturn \<lparr>sl_first_mb = first, sl_type = ty, sl_pps_id = id, sl_frame_num = fn, sl_field = field, sl_idr_pic_id = idr_id,
                sl_poc_lsb = poc0, sl_delta_poc = poc1, sl_redundant = red, sl_direct_spatial = direct, sl_num_ref = num,
                sl_reordering0 = r0, sl_reordering1 = r1, sl_marking = mark, sl_cabac_init = cabac, sl_qp_delta = qp, sl_deblock = deb\<rparr>)))))))))))))))))"

section \<open>Writing codes the syntax\<close>

definition reordering_abs :: "int \<Rightarrow> int \<Rightarrow> (int \<times> int) list \<Rightarrow> (int \<times> int) list option" where
  "reordering_abs b n order = (if b \<noteq> 0 then Some (take (nat n) order) else None)"

definition header_abs :: "x264_slice_header_t \<Rightarrow> int \<Rightarrow> slice_syntax" where
  "header_abs sh ref_idc =
     (let sps = sh_sps sh; pps = sh_pps sh; t = slice_type sh; bottom = (b_pic_order pps \<noteq> 0 \<and> b_field_pic sh = 0)
      in \<lparr>sl_first_mb = (if b_mbaff sh \<noteq> 0 then i_first_mb sh div 2 else i_first_mb sh), sl_type = slice_num t + 5, sl_pps_id = i_pps_id sh,
          sl_frame_num = i_frame_num sh,
          sl_field = (if b_frame_mbs_only sps = 0 then Some (b_field_pic sh, if b_field_pic sh \<noteq> 0 then Some (b_bottom_field sh) else None) else None),
          sl_idr_pic_id = (if i_idr_pic_id sh \<ge> 0 then Some (i_idr_pic_id sh) else None),
          sl_poc_lsb = (if i_poc_type sps = 0 then Some (i_poc_lsb sh, if bottom then Some (i_delta_poc_bottom sh) else None) else None),
          sl_delta_poc = (if i_poc_type sps = 1 \<and> b_delta_pic_order_always_zero sps = 0
                          then Some (i_delta_poc sh ! 0, if bottom then Some (i_delta_poc sh ! 1) else None) else None),
          sl_redundant = (if b_redundant_pic_cnt pps \<noteq> 0 then Some (i_redundant_pic_cnt sh) else None),
          sl_direct_spatial = (if t = SLICE_TYPE_B then Some (b_direct_spatial_mv_pred sh) else None),
          sl_num_ref = (if t \<noteq> SLICE_TYPE_I
                        then Some (if b_num_ref_idx_override sh \<noteq> 0
                                   then Some (slice_num_ref_idx_l0_active sh - 1, if t = SLICE_TYPE_B then Some (slice_num_ref_idx_l1_active sh - 1) else None)
                                   else None)
                        else None),
          sl_reordering0 = (if t \<noteq> SLICE_TYPE_I then Some (reordering_abs (b_ref_pic_list_reordering_l0 sh) (slice_num_ref_idx_l0_active sh) (ref_pic_list_order sh ! 0)) else None),
          sl_reordering1 = (if t = SLICE_TYPE_B then Some (reordering_abs (b_ref_pic_list_reordering_l1 sh) (slice_num_ref_idx_l1_active sh) (ref_pic_list_order sh ! 1)) else None),
          sl_marking = (if ref_idc \<noteq> 0 then Some (if i_idr_pic_id sh \<ge> 0 then [0, 0] else [0]) else None),
          sl_cabac_init = (if pps_cabac pps \<noteq> 0 \<and> t \<noteq> SLICE_TYPE_I then Some (slice_cabac_init_idc sh) else None),
          sl_qp_delta = i_qp_delta sh,
          sl_deblock = (if b_deblocking_filter_control pps \<noteq> 0
                        then Some (i_disable_deblocking_filter_idc sh,
                               if i_disable_deblocking_filter_idc sh \<noteq> 1 then Some (drop_bit 1 (i_alpha_c0_offset sh), drop_bit 1 (i_beta_offset sh)) else None)
                        else None)\<rparr>)"

definition reordering_ok :: "int \<Rightarrow> int \<Rightarrow> (int \<times> int) list \<Rightarrow> bool" where
  "reordering_ok b n order \<longleftrightarrow> flag b \<and>
     (b \<noteq> 0 \<longrightarrow> n \<le> 32 \<and> nat n \<le> length order \<and> list_all (\<lambda>(idc, arg). flag idc \<and> ue_ok arg) (take (nat n) order))"

definition header_ok :: "x264_slice_header_t \<Rightarrow> bool" where
  "header_ok sh \<longleftrightarrow> slice_type sh \<in> {SLICE_TYPE_P, SLICE_TYPE_B, SLICE_TYPE_I} \<and>
     i_num_slice_groups (sh_pps sh) = 1 \<and> b_weighted_pred (sh_pps sh) = 0 \<and> b_weighted_bipred (sh_pps sh) \<noteq> 1 \<and>
     (b_mbaff sh \<noteq> 0 \<longrightarrow> i_first_mb sh mod (2 * i_mb_width (sh_sps sh)) = 0) \<and>
     list_all ue_ok [i_first_mb sh, i_pps_id sh, i_redundant_pic_cnt sh, slice_num_ref_idx_l0_active sh - 1, slice_num_ref_idx_l1_active sh - 1,
       slice_cabac_init_idc sh, i_disable_deblocking_filter_idc sh] \<and>
     (0 \<le> i_idr_pic_id sh \<longrightarrow> ue_ok (i_idr_pic_id sh)) \<and>
     list_all flag [b_field_pic sh, b_bottom_field sh, b_direct_spatial_mv_pred sh, b_num_ref_idx_override sh] \<and>
     (b_frame_mbs_only (sh_sps sh) \<noteq> 0 \<longrightarrow> b_field_pic sh = 0) \<and>
     0 \<le> i_log2_max_frame_num (sh_sps sh) \<and> i_log2_max_frame_num (sh_sps sh) \<le> 32 \<and> u_ok (nat (i_log2_max_frame_num (sh_sps sh))) (i_frame_num sh) \<and>
     (i_poc_type (sh_sps sh) = 0 \<longrightarrow> 0 \<le> i_log2_max_poc_lsb (sh_sps sh) \<and> i_log2_max_poc_lsb (sh_sps sh) \<le> 32 \<and> u_ok (nat (i_log2_max_poc_lsb (sh_sps sh))) (i_poc_lsb sh)) \<and>
     list_all (\<lambda>x. \<bar>x\<bar> < 2 ^ 15) [i_delta_poc_bottom sh, i_delta_poc sh ! 0, i_delta_poc sh ! 1, i_qp_delta sh, drop_bit 1 (i_alpha_c0_offset sh), drop_bit 1 (i_beta_offset sh)] \<and>
     (slice_type sh \<noteq> SLICE_TYPE_I \<longrightarrow> reordering_ok (b_ref_pic_list_reordering_l0 sh) (slice_num_ref_idx_l0_active sh) (ref_pic_list_order sh ! 0)) \<and>
     (slice_type sh = SLICE_TYPE_B \<longrightarrow> reordering_ok (b_ref_pic_list_reordering_l1 sh) (slice_num_ref_idx_l1_active sh) (ref_pic_list_order sh ! 1))"


lemma codes_commands:
  assumes "list_all (\<lambda>(idc, arg). flag idc \<and> ue_ok arg) cs" "length cs < n"
  shows "codes (seqR (concat (map (\<lambda>c. [put_ue (fst c), put_ue (snd c)]) cs) @ [put_ue 3])) (get_commands n) cs"
  using assms
proof (induction cs arbitrary: n)
  case Nil
  then obtain m where n: "n = Suc m" using not0_implies_Suc by (metis list.size(3) not_less0)
  have "ue_ok 3" by (simp add: ue_ok_def)
  then show ?case unfolding n get_commands.simps list.map concat.simps append_Nil
    by (intro codes_Cons[OF codes_put_ue]) (simp_all only: refl if_True codes_Nil)
next
  case (Cons c cs)
  obtain m where n: "n = Suc m" "length cs < m" using Cons.prems(2) by (cases n) auto
  obtain i a where c: "c = (i, a)" by (rule prod.exhaust)
  have ok: "flag i" "ue_ok a" "list_all (\<lambda>(idc, arg). flag idc \<and> ue_ok arg) cs" using Cons.prems(1) by (simp_all add: c)
  have i: "ue_ok i" "i \<noteq> 3" "\<not> i > 1" using ok(1) by (auto simp: flag_def ue_ok_def)
  note r = codes_map[OF Cons.IH[OF ok(3) n(2)], of "\<lambda>cs. (i, a) # cs"]
  show ?case unfolding n c get_commands.simps list.map concat.simps append.simps fst_conv snd_conv
    by (rule codes_Cons[OF codes_put_ue[OF i(1)]], simp only: i(2,3) if_False, rule codes_Cons[OF codes_put_ue[OF ok(2)]], rule r)
qed

lemma reordering_codes:
  assumes "reordering_ok b n order"
  shows "codes (seqR (reordering_write b n order)) get_reordering (reordering_abs b n order)"
proof -
  have f: "flag b" using assms by (simp add: reordering_ok_def)
  have m: "map (\<lambda>i. [put_ue (fst (order ! i)), put_ue (snd (order ! i))]) [0..<nat n] = map (\<lambda>c. [put_ue (fst c), put_ue (snd c)]) (take (nat n) order)" if "b \<noteq> 0"
    using assms that by (intro nth_equalityI) (auto simp: reordering_ok_def simp del: upt.simps)
  have c: "codes (seqR (concat (map (\<lambda>i. [put_ue (fst (order ! i)), put_ue (snd (order ! i))]) [0..<nat n]) @ [put_ue 3])) (get_commands 33) (take (nat n) order)" if "b \<noteq> 0"
    unfolding m[OF that] by (rule codes_commands) (use assms that in \<open>auto simp: reordering_ok_def\<close>)
  show ?thesis unfolding reordering_write_def get_reordering_def reordering_abs_def
    by (rule codes_Cons[OF codes_flag[OF f]], rule codes_when_last[OF c], assumption, rule codes_Nil)
qed

lemma marking_codes: "codes (seqR (marking_write sh)) (get_marking (i_idr_pic_id sh \<ge> 0)) (if i_idr_pic_id sh \<ge> 0 then [0, 0] else [0])"
proof -
  have z: "codes (put_1 0) (get_u 1) (0 :: int)" by (rule codes_1) simp
  have "codes (seqR (map (\<lambda>x. put_1 0) [(), ()])) (prepeat (length [(), ()]) (get_u 1)) (map (\<lambda>x. 0 :: int) [(), ()])"
    by (rule codes_repeat) (rule z)
  then have two: "codes (seqR [put_1 0, put_1 0]) (prepeat 2 (get_u 1)) [0, 0 :: int]" by (simp add: eval_nat_numeral del: seqR.simps prepeat.simps)
  have one: "codes (seqR [put_1 0]) (pbind (get_u 1) (\<lambda>a. if a = 0 then preturn [a] else pfail)) [0]"
    by (rule codes_Cons[OF z]) (simp only: refl if_True codes_Nil)
  show ?thesis using two one by (simp add: marking_write_def get_marking_def del: seqR.simps prepeat.simps)
qed

lemma codes_u_nat: "u_ok (nat n) x \<Longrightarrow> 0 \<le> n \<Longrightarrow> n \<le> 32 \<Longrightarrow> codes (put_u n x) (get_u (nat n)) x"
  using codes_u[of x "nat n"] by (simp add: u_ok_def)

lemma field_codes: "flag (b_field_pic sh) \<Longrightarrow> flag (b_bottom_field sh) \<Longrightarrow>
    codes (seqR (field_write sh)) get_field (b_field_pic sh, if b_field_pic sh \<noteq> 0 then Some (b_bottom_field sh) else None)"
  unfolding field_write_def get_field_def by (rule code_steps code_calls codes_single[THEN iffD2] | simp; fail)+

lemma deblock_codes:
  assumes "ue_ok (i_disable_deblocking_filter_idc sh)" "\<bar>drop_bit 1 (i_alpha_c0_offset sh)\<bar> < 2 ^ 15" "\<bar>drop_bit 1 (i_beta_offset sh)\<bar> < 2 ^ 15"
  shows "codes (seqR (deblock_write sh)) get_deblock (i_disable_deblocking_filter_idc sh,
    if i_disable_deblocking_filter_idc sh \<noteq> 1 then Some (drop_bit 1 (i_alpha_c0_offset sh), drop_bit 1 (i_beta_offset sh)) else None)"
  unfolding deblock_write_def get_deblock_def by (rule code_steps code_calls assms | simp; fail)+

lemma poc_lsb_codes:
  assumes "u_ok (nat (i_log2_max_poc_lsb (sh_sps sh))) (i_poc_lsb sh)" "0 \<le> i_log2_max_poc_lsb (sh_sps sh)" "i_log2_max_poc_lsb (sh_sps sh) \<le> 32" "\<bar>i_delta_poc_bottom sh\<bar> < 2 ^ 15"
  shows "codes (seqR (poc_lsb_write sh)) (get_poc_lsb (nat (i_log2_max_poc_lsb (sh_sps sh))) (b_pic_order (sh_pps sh) \<noteq> 0 \<and> b_field_pic sh = 0))
    (i_poc_lsb sh, if b_pic_order (sh_pps sh) \<noteq> 0 \<and> b_field_pic sh = 0 then Some (i_delta_poc_bottom sh) else None)"
  unfolding poc_lsb_write_def get_poc_lsb_def by (rule code_steps codes_u_nat codes_se codes_single[THEN iffD2] assms | simp; fail)+

lemma delta_poc_codes:
  assumes "\<bar>i_delta_poc sh ! 0\<bar> < 2 ^ 15" "\<bar>i_delta_poc sh ! 1\<bar> < 2 ^ 15"
  shows "codes (seqR (delta_poc_write sh)) (get_delta_poc (b_pic_order (sh_pps sh) \<noteq> 0 \<and> b_field_pic sh = 0))
    (i_delta_poc sh ! 0, if b_pic_order (sh_pps sh) \<noteq> 0 \<and> b_field_pic sh = 0 then Some (i_delta_poc sh ! 1) else None)"
  unfolding delta_poc_write_def get_delta_poc_def by (rule code_steps codes_se codes_single[THEN iffD2] assms | simp; fail)+

lemma num_ref_codes:
  assumes "flag (b_num_ref_idx_override sh)" "ue_ok (slice_num_ref_idx_l0_active sh - 1)" "ue_ok (slice_num_ref_idx_l1_active sh - 1)"
  shows "codes (seqR (num_ref_write sh)) (get_num_ref (slice_type sh = SLICE_TYPE_B))
    (if b_num_ref_idx_override sh \<noteq> 0 then Some (slice_num_ref_idx_l0_active sh - 1, if slice_type sh = SLICE_TYPE_B then Some (slice_num_ref_idx_l1_active sh - 1) else None) else None)"
  unfolding num_ref_write_def get_num_ref_def by (rule code_steps code_calls codes_single[THEN iffD2] assms | simp; fail)+


lemma first_mb_codes:
  assumes "header_ok sh"
  shows "codes (put_first_mb sh) get_ue (if b_mbaff sh \<noteq> 0 then i_first_mb sh div 2 else i_first_mb sh)"
proof -
  have "ue_ok (i_first_mb sh)" using assms by (simp add: header_ok_def)
  moreover from this have "ue_ok (drop_bit 1 (i_first_mb sh))" by (auto simp: ue_ok_def drop_bit_eq_div)
  ultimately show ?thesis using assms codes_put_ue[of "i_first_mb sh"] codes_put_ue[of "drop_bit 1 (i_first_mb sh)"]
    by (auto simp: put_first_mb_def header_ok_def drop_bit_eq_div)
qed

lemma slice_num_mod:
  assumes "t \<in> {SLICE_TYPE_P, SLICE_TYPE_B, SLICE_TYPE_I}"
  shows "(slice_num t + 5) mod 5 = slice_num t" "slice_num t = 1 \<longleftrightarrow> t = SLICE_TYPE_B" "slice_num t = 2 \<longleftrightarrow> t = SLICE_TYPE_I" "slice_num t \<le> 2" "ue_ok (slice_num t + 5)"
  using assms by (auto simp: ue_ok_def)

lemma codes_poc:
  assumes "c \<Longrightarrow> codes (seqR fs) p x" "d \<Longrightarrow> codes (seqR gs) q y" "c \<Longrightarrow> \<not> d"
    and "codes (seqR hs) (r (if c then Some x else None) (if d then Some y else None)) z"
  shows "codes (seqR ((if c then fs else if d then gs else []) @ hs)) (pbind (pwhen c p) (\<lambda>a. pbind (pwhen d q) (\<lambda>b. r a b))) z"
proof -
  have e: "(if c then fs else if d then gs else []) @ hs = (if c then fs else []) @ (if d then gs else []) @ hs" using assms(3) by auto
  show ?thesis unfolding e by (rule codes_when_append[OF assms(1)], assumption, rule codes_when_append[OF assms(2)], assumption, rule assms(4))
qed

lemma header_codes:
  assumes "header_ok sh"
  shows "codes (seqR (x264_slice_header_write sh ref_idc)) (slice_header (sh_sps sh) (sh_pps sh) (i_idr_pic_id sh \<ge> 0) ref_idc) (header_abs sh ref_idc)"
proof -
  let ?t = "slice_type sh"
  note ok = assms[unfolded header_ok_def list.pred_inject]
  have t: "?t \<in> {SLICE_TYPE_P, SLICE_TYPE_B, SLICE_TYPE_I}" using ok by simp
  note n = slice_num_mod[OF t]
  have u: "\<not> unsupported (sh_pps sh) (slice_num ?t)" using ok n(4) by (auto simp: unsupported_def)
  have fld: "(map_option fst (if b_frame_mbs_only (sh_sps sh) = 0 then Some (b_field_pic sh, x) else None) \<in> {None, Some 0}) = (b_field_pic sh = 0)" for x :: "int option"
    using ok by auto
  have p: "(?t = SLICE_TYPE_P \<or> ?t = SLICE_TYPE_SP \<or> ?t = SLICE_TYPE_B) = (?t \<noteq> SLICE_TYPE_I)" using t by auto
  have id: "codes (put_ue (i_pps_id sh)) get_ue (i_pps_id sh)" using ok by (intro codes_put_ue) simp
  have num: "codes (put_u (i_log2_max_frame_num (sh_sps sh)) (i_frame_num sh)) (get_u (nat (i_log2_max_frame_num (sh_sps sh)))) (i_frame_num sh)"
    using ok by (intro codes_u_nat) simp_all
  have field: "codes (seqR (field_write sh)) get_field (b_field_pic sh, if b_field_pic sh \<noteq> 0 then Some (b_bottom_field sh) else None)"
    using ok by (intro field_codes) simp_all
  have idr: "codes (seqR [put_ue (i_idr_pic_id sh)]) get_ue (i_idr_pic_id sh)" if "i_idr_pic_id sh \<ge> 0"
    unfolding codes_single using ok that by (intro codes_put_ue) simp
  have poc0: "codes (seqR (poc_lsb_write sh)) (get_poc_lsb (nat (i_log2_max_poc_lsb (sh_sps sh))) (b_pic_order (sh_pps sh) \<noteq> 0 \<and> b_field_pic sh = 0))
      (i_poc_lsb sh, if b_pic_order (sh_pps sh) \<noteq> 0 \<and> b_field_pic sh = 0 then Some (i_delta_poc_bottom sh) else None)" if "i_poc_type (sh_sps sh) = 0"
    using ok that by (intro poc_lsb_codes) simp_all
  have poc1: "codes (seqR (delta_poc_write sh)) (get_delta_poc (b_pic_order (sh_pps sh) \<noteq> 0 \<and> b_field_pic sh = 0))
      (i_delta_poc sh ! 0, if b_pic_order (sh_pps sh) \<noteq> 0 \<and> b_field_pic sh = 0 then Some (i_delta_poc sh ! 1) else None)"
    using ok by (intro delta_poc_codes) simp_all
  have excl: "\<not> (i_poc_type (sh_sps sh) = 1 \<and> b_delta_pic_order_always_zero (sh_sps sh) = 0)" if "i_poc_type (sh_sps sh) = 0" using that by simp
  have red: "codes (seqR [put_ue (i_redundant_pic_cnt sh)]) get_ue (i_redundant_pic_cnt sh)" unfolding codes_single using ok by (intro codes_put_ue) simp
  have direct: "codes (seqR [put_1 (b_direct_spatial_mv_pred sh)]) (get_u 1) (b_direct_spatial_mv_pred sh)" unfolding codes_single using ok by (intro codes_flag) simp
  have refs: "codes (seqR (num_ref_write sh)) (get_num_ref (?t = SLICE_TYPE_B))
      (if b_num_ref_idx_override sh \<noteq> 0 then Some (slice_num_ref_idx_l0_active sh - 1, if ?t = SLICE_TYPE_B then Some (slice_num_ref_idx_l1_active sh - 1) else None) else None)"
    using ok by (intro num_ref_codes) simp_all
  have r0: "codes (seqR (reordering_write (b_ref_pic_list_reordering_l0 sh) (slice_num_ref_idx_l0_active sh) (ref_pic_list_order sh ! 0))) get_reordering
      (reordering_abs (b_ref_pic_list_reordering_l0 sh) (slice_num_ref_idx_l0_active sh) (ref_pic_list_order sh ! 0))" if "?t \<noteq> SLICE_TYPE_I"
    using ok that by (intro reordering_codes) simp
  have r1: "codes (seqR (reordering_write (b_ref_pic_list_reordering_l1 sh) (slice_num_ref_idx_l1_active sh) (ref_pic_list_order sh ! 1))) get_reordering
      (reordering_abs (b_ref_pic_list_reordering_l1 sh) (slice_num_ref_idx_l1_active sh) (ref_pic_list_order sh ! 1))" if "?t = SLICE_TYPE_B"
    using ok that by (intro reordering_codes) simp
  have cabac: "codes (seqR [put_ue (slice_cabac_init_idc sh)]) get_ue (slice_cabac_init_idc sh)" unfolding codes_single using ok by (intro codes_put_ue) simp
  have qp: "codes (put_se (i_qp_delta sh)) read_se (i_qp_delta sh)" using ok by (intro codes_se) simp
  have deb: "codes (seqR (deblock_write sh)) get_deblock (i_disable_deblocking_filter_idc sh,
      if i_disable_deblocking_filter_idc sh \<noteq> 1 then Some (drop_bit 1 (i_alpha_c0_offset sh), drop_bit 1 (i_beta_offset sh)) else None)"
    using ok by (intro deblock_codes) simp_all
  show ?thesis
    unfolding x264_slice_header_write_def slice_header_def Let_def append.simps p
    by (rule codes_Cons[OF first_mb_codes[OF assms]], rule codes_Cons[OF codes_put_ue[OF n(5)]], unfold n(1-3) if_not_P[OF u],
        rule codes_Cons[OF id], rule codes_Cons[OF num], rule codes_when_append[OF field], unfold fld, rule codes_when_append[OF idr], assumption,
        rule codes_poc[OF poc0 poc1 excl], assumption, assumption, rule codes_when_append[OF red], rule codes_when_append[OF direct], rule codes_when_append[OF refs],
        rule codes_when_append[OF r0], assumption, rule codes_when_append[OF r1], assumption, rule codes_when_append[OF marking_codes],
        rule codes_when_append[OF cabac], rule codes_Cons[OF qp], rule codes_when_last[OF deb], rule codes_preturn, simp only: header_abs_def Let_def)
qed


section \<open>The header that the initialisation makes\<close>

text \<open>
  What holds of the encoder before a slice: the parameter sets are those of \<^verbatim>\<open>x264_pps_init\<close> and \<^verbatim>\<open>x264_sps_init\<close>, the lists were
  built from the references \<open>dpb\<close>, and a slice that predicts has references.
\<close>

definition slice_ok :: "slice_state \<Rightarrow> bool \<Rightarrow> int \<Rightarrow> x264_frame_t list \<Rightarrow> bool" where
  "slice_ok h idr qp dpb \<longleftrightarrow>
     (let sps = st_sps h; pps = st_pps h; sh = st_sh h; L = st_refs h; t = slice_type sh
      in t \<in> {SLICE_TYPE_P, SLICE_TYPE_B, SLICE_TYPE_I} \<and> (idr \<longrightarrow> t = SLICE_TYPE_I) \<and>
         i_num_slice_groups pps = 1 \<and> b_weighted_pred pps = 0 \<and> b_weighted_bipred pps \<noteq> 1 \<and> ue_ok (pps_id pps) \<and> ue_ok (p_cabac_init_idc (st_param h)) \<and>
         0 \<le> st_idr_pic_id h \<and> st_idr_pic_id h < 65536 \<and> (b_direct_auto_read h = 0 \<or> flag (b_direct_spatial_mv_pred sh)) \<and>
         4 \<le> i_log2_max_frame_num sps \<and> i_log2_max_frame_num sps \<le> 16 \<and> 0 < st_frame_num h + of_bool idr \<and>
         u_ok (nat (i_log2_max_frame_num sps)) (st_frame_num h) \<and>
         i_poc_type sps = 0 \<and> 4 \<le> i_log2_max_poc_lsb sps \<and> i_log2_max_poc_lsb sps \<le> 17 \<and>
         0 \<le> qp \<and> qp \<le> 51 \<and> 0 \<le> i_pic_init_qp pps \<and> i_pic_init_qp pps \<le> 51 \<and>
         \<bar>p_deblocking_filter_alphac0 (st_param h)\<bar> \<le> 6 \<and> \<bar>p_deblocking_filter_beta (st_param h)\<bar> \<le> 6 \<and> length (ref_pic_list_order sh) = 2 \<and>
         (\<exists>m0 m1 fr. 0 \<le> m0 \<and> 0 \<le> m1 \<and> 0 \<le> fr \<and> x264_reference_build_list t m0 m1 fr dpb (fdec_poc h) = Inr L) \<and> refs_ok (2 ^ nat (i_log2_max_frame_num sps)) (st_frame_num h) dpb \<and>
         (t = SLICE_TYPE_P \<longrightarrow> (\<forall>f \<in> set dpb. f_poc f < fdec_poc h)) \<and>
         (t \<noteq> SLICE_TYPE_I \<longrightarrow> i_ref0 L > 0) \<and> (t = SLICE_TYPE_B \<longrightarrow> i_ref1 L > 0))"

lemma length_commands: "length (reorder_commands p fs) = length fs"
  by (induction fs arbitrary: p) (simp_all add: Let_def)

lemma commands_ok:
  assumes "\<forall>f \<in> set fs. 0 \<le> f_frame_num f \<and> f_frame_num f < 65536" "distinct (map f_frame_num fs)" "0 \<le> p" "p < 65536" "p \<notin> f_frame_num ` set fs"
  shows "list_all (\<lambda>(idc, arg). flag idc \<and> ue_ok arg) (reorder_commands p fs)"
  using assms
proof (induction fs arbitrary: p)
  case (Cons f fs)
  then have "list_all (\<lambda>(idc, arg). flag idc \<and> ue_ok arg) (reorder_commands (f_frame_num f) fs)" by simp
  moreover have "flag (of_bool (f_frame_num f - p > 0))" "ue_ok (\<bar>f_frame_num f - p\<bar> - 1)" using Cons.prems by (auto simp: flag_def ue_ok_def)
  ultimately show ?case by (simp add: Let_def)
qed simp

lemma reorder_flags: "x264_reference_build_list t m0 m1 fr dpb poc = Inr L \<Longrightarrow> \<exists>r. flag r \<and> b_ref_reorder L = [r, 0]"
  by (auto simp: x264_reference_build_list_def Let_def assertR_eq_Inr flag_def)

lemma build_list_sum: "x264_reference_build_list t m0 m1 fr dpb poc = Inr L \<Longrightarrow> i_ref0 L + i_ref1 L \<le> 16"
  by (auto simp: x264_reference_build_list_def Let_def assertR_eq_Inr)

lemma build_list_bounds:
  assumes "x264_reference_build_list t m0 m1 fr dpb poc = Inr L" "inj_on f_poc (set dpb)"
  shows "nat (i_ref0 L) \<le> length (fref0 L)" "set (fref0 L) \<subseteq> set dpb" "distinct dpb \<Longrightarrow> distinct (fref0 L)"
  using build_list_eq[OF assms] by auto


definition header_of :: "slice_state \<Rightarrow> bool \<Rightarrow> int \<Rightarrow> x264_slice_header_t" where
  "header_of h idr qp = st_sh (x264_slice_init h idr qp)"

lemma header_init_fields:
  fixes h :: slice_state and idr_pic_id i_frame qp :: int
  defines "sh \<equiv> x264_slice_header_init h idr_pic_id i_frame qp (st_sh h)"
  shows "sh_sps sh = st_sps h" "sh_pps sh = st_pps h" "slice_type sh = slice_type (st_sh h)" "i_first_mb sh = 0" "i_pps_id sh = pps_id (st_pps h)"
    "i_frame_num sh = i_frame" "b_mbaff sh = p_interlaced (st_param h)" "b_field_pic sh = 0" "b_bottom_field sh = 0" "i_idr_pic_id sh = idr_pic_id"
    "i_poc_lsb sh = 0" "i_delta_poc_bottom sh = 0" "i_delta_poc sh = [0, 0]" "i_redundant_pic_cnt sh = 0"
    "b_num_ref_idx_override sh = 0" "slice_num_ref_idx_l0_active sh = 1" "slice_num_ref_idx_l1_active sh = 1"
    "b_ref_pic_list_reordering_l0 sh = b_ref_reorder (st_refs h) ! 0" "b_ref_pic_list_reordering_l1 sh = b_ref_reorder (st_refs h) ! 1"
    "slice_cabac_init_idc sh = p_cabac_init_idc (st_param h)" "slice_qp sh = qp" "i_qp_delta sh = qp - i_pic_init_qp (st_pps h)"
    "i_alpha_c0_offset sh = push_bit 1 (p_deblocking_filter_alphac0 (st_param h))" "i_beta_offset sh = push_bit 1 (p_deblocking_filter_beta (st_param h))"
    "i_last_mb sh = i_mb_width (st_sps h) * i_mb_height (st_sps h)"
  unfolding sh_def x264_slice_header_init_def Let_def by simp_all

lemma header_init_cases:
  fixes h :: slice_state and idr_pic_id i_frame qp :: int
  defines "sh \<equiv> x264_slice_header_init h idr_pic_id i_frame qp (st_sh h)"
  shows "i_disable_deblocking_filter_idc sh = 0 \<or> i_disable_deblocking_filter_idc sh = 1"
    "b_direct_auto_read h = 0 \<or> flag (b_direct_spatial_mv_pred (st_sh h)) \<Longrightarrow> flag (b_direct_spatial_mv_pred sh)"
    "b_ref_reorder (st_refs h) ! 0 \<noteq> 0 \<Longrightarrow> length (ref_pic_list_order (st_sh h)) = 2 \<Longrightarrow>
       ref_pic_list_order sh ! 0 = reorder_commands i_frame (take (nat (i_ref0 (st_refs h))) (fref0 (st_refs h))) @ drop (nat (i_ref0 (st_refs h))) (ref_pic_list_order (st_sh h) ! 0)"
  unfolding sh_def x264_slice_header_init_def Let_def flag_def by (simp, (auto; fail), simp)


lemma slice_init_cases:
  "header_of h True qp = (let sh = x264_slice_header_init h (st_idr_pic_id h) (st_frame_num h) qp (st_sh h)
     in if i_poc_type (st_sps h) = 0 then sh\<lparr>i_poc_lsb := take_bit (nat (i_log2_max_poc_lsb (st_sps h))) (fdec_poc h), i_delta_poc_bottom := 0\<rparr> else sh)"
  "header_of h False qp = (let sh = (x264_slice_header_init h (- 1) (st_frame_num h) qp (st_sh h))
        \<lparr>b_num_ref_idx_override := 1,
         slice_num_ref_idx_l0_active := (if i_ref0 (st_refs h) \<le> 0 then 1 else i_ref0 (st_refs h)),
         slice_num_ref_idx_l1_active := (if i_ref1 (st_refs h) \<le> 0 then 1 else i_ref1 (st_refs h))\<rparr>
     in if i_poc_type (st_sps h) = 0 then sh\<lparr>i_poc_lsb := take_bit (nat (i_log2_max_poc_lsb (st_sps h))) (fdec_poc h), i_delta_poc_bottom := 0\<rparr> else sh)"
  unfolding header_of_def x264_slice_init_def Let_def by simp_all

definition active0 :: "slice_state \<Rightarrow> bool \<Rightarrow> int" where
  "active0 h idr = (if idr \<or> i_ref0 (st_refs h) \<le> 0 then 1 else i_ref0 (st_refs h))"

definition active1 :: "slice_state \<Rightarrow> bool \<Rightarrow> int" where
  "active1 h idr = (if idr \<or> i_ref1 (st_refs h) \<le> 0 then 1 else i_ref1 (st_refs h))"

abbreviation initial_header :: "slice_state \<Rightarrow> bool \<Rightarrow> int \<Rightarrow> x264_slice_header_t" where
  "initial_header h idr qp \<equiv> x264_slice_header_init h (if idr then st_idr_pic_id h else - 1) (st_frame_num h) qp (st_sh h)"

lemma header_of_eq:
  assumes "i_poc_type (st_sps h) = 0"
  shows "header_of h idr qp = (initial_header h idr qp)\<lparr>b_num_ref_idx_override := of_bool (\<not> idr), slice_num_ref_idx_l0_active := active0 h idr,
     slice_num_ref_idx_l1_active := active1 h idr, i_poc_lsb := take_bit (nat (i_log2_max_poc_lsb (st_sps h))) (fdec_poc h), i_delta_poc_bottom := 0\<rparr>"
proof (cases idr)
  case True
  define sh where "sh = x264_slice_header_init h (st_idr_pic_id h) (st_frame_num h) qp (st_sh h)"
  have "sh = sh\<lparr>b_num_ref_idx_override := 0, slice_num_ref_idx_l0_active := 1, slice_num_ref_idx_l1_active := 1\<rparr>"
    using header_init_fields(15-17)[of h "st_idr_pic_id h" "st_frame_num h" qp, folded sh_def] by (cases sh) simp
  then show ?thesis using True assms by (simp add: slice_init_cases(1) Let_def active0_def active1_def flip: sh_def)
qed (use assms in \<open>simp add: slice_init_cases(2) Let_def active0_def active1_def\<close>)

lemma header_of_fields:
  assumes "i_poc_type (st_sps h) = 0"
  shows "sh_sps (header_of h idr qp) = st_sps h" "sh_pps (header_of h idr qp) = st_pps h" "slice_type (header_of h idr qp) = slice_type (st_sh h)"
    "i_first_mb (header_of h idr qp) = 0" "i_pps_id (header_of h idr qp) = pps_id (st_pps h)" "i_frame_num (header_of h idr qp) = st_frame_num h"
    "b_mbaff (header_of h idr qp) = p_interlaced (st_param h)" "b_field_pic (header_of h idr qp) = 0" "b_bottom_field (header_of h idr qp) = 0"
    "i_idr_pic_id (header_of h idr qp) = (if idr then st_idr_pic_id h else - 1)"
    "i_poc_lsb (header_of h idr qp) = take_bit (nat (i_log2_max_poc_lsb (st_sps h))) (fdec_poc h)" "i_delta_poc_bottom (header_of h idr qp) = 0"
    "i_delta_poc (header_of h idr qp) = [0, 0]" "i_redundant_pic_cnt (header_of h idr qp) = 0" "b_num_ref_idx_override (header_of h idr qp) = of_bool (\<not> idr)"
    "slice_num_ref_idx_l0_active (header_of h idr qp) = active0 h idr" "slice_num_ref_idx_l1_active (header_of h idr qp) = active1 h idr"
    "b_ref_pic_list_reordering_l0 (header_of h idr qp) = b_ref_reorder (st_refs h) ! 0" "b_ref_pic_list_reordering_l1 (header_of h idr qp) = b_ref_reorder (st_refs h) ! 1"
    "slice_cabac_init_idc (header_of h idr qp) = p_cabac_init_idc (st_param h)" "slice_qp (header_of h idr qp) = qp" "i_qp_delta (header_of h idr qp) = qp - i_pic_init_qp (st_pps h)"
    "i_alpha_c0_offset (header_of h idr qp) = push_bit 1 (p_deblocking_filter_alphac0 (st_param h))" "i_beta_offset (header_of h idr qp) = push_bit 1 (p_deblocking_filter_beta (st_param h))"
    "i_last_mb (header_of h idr qp) = i_mb_width (st_sps h) * i_mb_height (st_sps h)"
    "i_disable_deblocking_filter_idc (header_of h idr qp) = i_disable_deblocking_filter_idc (initial_header h idr qp)"
    "b_direct_spatial_mv_pred (header_of h idr qp) = b_direct_spatial_mv_pred (initial_header h idr qp)"
    "ref_pic_list_order (header_of h idr qp) = ref_pic_list_order (initial_header h idr qp)"
  unfolding header_of_eq[OF assms] by (simp_all add: header_init_fields)

lemma slice_ok_refs:
  assumes "slice_ok h idr qp dpb"
  obtains m0 m1 fr r where "x264_reference_build_list (slice_type (st_sh h)) m0 m1 fr dpb (fdec_poc h) = Inr (st_refs h)" "0 \<le> i_ref0 (st_refs h)" "0 \<le> i_ref1 (st_refs h)"
    "i_ref0 (st_refs h) + i_ref1 (st_refs h) \<le> 16" "flag r" "b_ref_reorder (st_refs h) ! 0 = r" "b_ref_reorder (st_refs h) ! 1 = 0"
    "inj_on f_poc (set dpb)" "distinct dpb" "inj_on f_frame_num (set dpb)" "\<forall>f \<in> set dpb. 0 \<le> f_frame_num f \<and> f_frame_num f < st_frame_num h"
proof -
  obtain m0 m1 fr where L: "0 \<le> m0" "0 \<le> m1" "0 \<le> fr" "x264_reference_build_list (slice_type (st_sh h)) m0 m1 fr dpb (fdec_poc h) = Inr (st_refs h)"
    using assms unfolding slice_ok_def Let_def by blast
  have inj: "inj_on f_poc (set dpb)" "distinct dpb" "inj_on f_frame_num (set dpb)" "\<forall>f \<in> set dpb. 0 \<le> f_frame_num f \<and> f_frame_num f < st_frame_num h"
    using assms by (simp_all add: slice_ok_def Let_def refs_ok_def)
  obtain r where r: "flag r" "b_ref_reorder (st_refs h) = [r, 0]" using reorder_flags[OF L(4)] by blast
  note e = build_list_eq[OF L(4) inj(1)]
  show thesis by (rule that[OF L(4) _ _ build_list_sum[OF L(4)] r(1)]) (use L(1-3) e(3,4) r(2) inj in simp_all)
qed

lemma slice_ok_frame_num:
  assumes "slice_ok h idr qp dpb"
  shows "0 \<le> st_frame_num h" "st_frame_num h < 65536"
proof -
  note ok = assms[unfolded slice_ok_def Let_def]
  have "(2 :: int) ^ nat (i_log2_max_frame_num (st_sps h)) \<le> 2 ^ 16" using ok by (intro power_increasing) auto
  then show "0 \<le> st_frame_num h" "st_frame_num h < 65536" using ok by (auto simp: u_ok_def)
qed

lemma header_reordering_ok:
  assumes "slice_ok h idr qp dpb"
  shows "reordering_ok (b_ref_reorder (st_refs h) ! 0) (i_ref0 (st_refs h)) (ref_pic_list_order (initial_header h idr qp) ! 0)"
proof -
  let ?L = "st_refs h"
  obtain m0 m1 fr r where L: "x264_reference_build_list (slice_type (st_sh h)) m0 m1 fr dpb (fdec_poc h) = Inr ?L" "0 \<le> i_ref0 ?L" "0 \<le> i_ref1 ?L"
    "i_ref0 ?L + i_ref1 ?L \<le> 16" "flag r" "b_ref_reorder ?L ! 0 = r" "b_ref_reorder ?L ! 1 = 0"
    "inj_on f_poc (set dpb)" "distinct dpb" "inj_on f_frame_num (set dpb)" "\<forall>f \<in> set dpb. 0 \<le> f_frame_num f \<and> f_frame_num f < st_frame_num h" by (rule slice_ok_refs[OF assms])
  note b = build_list_bounds[OF L(1,8)] and fn = slice_ok_frame_num[OF assms]
  show ?thesis
  proof (cases "r = 0")
    case False
    then have o: "ref_pic_list_order (initial_header h idr qp) ! 0 =
        reorder_commands (st_frame_num h) (take (nat (i_ref0 ?L)) (fref0 ?L)) @ drop (nat (i_ref0 ?L)) (ref_pic_list_order (st_sh h) ! 0)"
      using L(6) assms by (intro header_init_cases(3)) (simp_all add: slice_ok_def Let_def)
    have sub: "set (take (nat (i_ref0 ?L)) (fref0 ?L)) \<subseteq> set dpb" using b(2) set_take_subset by fast
    have "list_all (\<lambda>(idc, arg). flag idc \<and> ue_ok arg) (reorder_commands (st_frame_num h) (take (nat (i_ref0 ?L)) (fref0 ?L)))"
    proof (rule commands_ok)
      show "distinct (map f_frame_num (take (nat (i_ref0 ?L)) (fref0 ?L)))" using b(3)[OF L(9)] L(10) sub by (simp add: distinct_map inj_on_subset)
      show "\<forall>f \<in> set (take (nat (i_ref0 ?L)) (fref0 ?L)). 0 \<le> f_frame_num f \<and> f_frame_num f < 65536" using sub L(11) fn by fastforce
      show "st_frame_num h \<notin> f_frame_num ` set (take (nat (i_ref0 ?L)) (fref0 ?L))" using sub L(11) by fastforce
    qed (use fn in auto)
    then show ?thesis using L(2-6) b(1) by (simp add: reordering_ok_def o length_commands)
  qed (simp add: L(6) reordering_ok_def flag_def)
qed

lemma header_of_ok:
  assumes "slice_ok h idr qp dpb"
  shows "header_ok (header_of h idr qp)"
proof -
  note ok = assms[unfolded slice_ok_def Let_def]
  let ?L = "st_refs h" and ?id = "if idr then st_idr_pic_id h else - 1"
  have "i_poc_type (st_sps h) = 0" using ok by simp
  note F = header_of_fields[OF this, of idr qp] and C = header_init_cases[of h ?id "st_frame_num h" qp]
  obtain m0 m1 fr r where L: "x264_reference_build_list (slice_type (st_sh h)) m0 m1 fr dpb (fdec_poc h) = Inr ?L" "0 \<le> i_ref0 ?L" "0 \<le> i_ref1 ?L"
    "i_ref0 ?L + i_ref1 ?L \<le> 16" "flag r" "b_ref_reorder ?L ! 0 = r" "b_ref_reorder ?L ! 1 = 0" by (rule slice_ok_refs[OF assms])
  have dp: "drop_bit 1 (push_bit 1 x) = x" for x :: int by (simp add: drop_bit_eq_div push_bit_eq_mult)
  have tb: "u_ok k (take_bit k x)" for k x by (simp add: u_ok_def)
  have dis: "ue_ok (i_disable_deblocking_filter_idc (initial_header h idr qp))" using C(1) by (auto simp: ue_ok_def)
  have dir: "flag (b_direct_spatial_mv_pred (initial_header h idr qp))" using C(2) ok by blast
  have id: "0 \<le> ?id \<longrightarrow> ue_ok ?id" using ok by (simp add: ue_ok_def)
  have "0 \<le> qp" "qp \<le> 51" "0 \<le> i_pic_init_qp (st_pps h)" "i_pic_init_qp (st_pps h) \<le> 51" using ok by simp_all
  then have qp: "\<bar>qp - i_pic_init_qp (st_pps h)\<bar> < 32768" by (simp add: abs_less_iff)
  have ab: "\<bar>p_deblocking_filter_alphac0 (st_param h)\<bar> < 32768" "\<bar>p_deblocking_filter_beta (st_param h)\<bar> < 32768" using ok by simp_all
  have lg: "0 \<le> i_log2_max_frame_num (st_sps h)" "i_log2_max_frame_num (st_sps h) \<le> 32" "0 \<le> i_log2_max_poc_lsb (st_sps h)" "i_log2_max_poc_lsb (st_sps h) \<le> 32" using ok by simp_all
  have n01: "ue_ok (active0 h idr - 1)" "ue_ok (active1 h idr - 1)" using L(2-4) by (simp_all add: active0_def active1_def ue_ok_def)
  have ro0: "reordering_ok r (active0 h idr) (ref_pic_list_order (initial_header h idr qp) ! 0)" if "slice_type (st_sh h) \<noteq> SLICE_TYPE_I"
  proof -
    have "active0 h idr = i_ref0 ?L" using ok that by (auto simp: active0_def)
    then show ?thesis using header_reordering_ok[OF assms] L(6) by simp
  qed
  have ro1: "reordering_ok 0 n order" for n order by (simp add: reordering_ok_def flag_def)
  have fl: "flag (of_bool b)" for b by (simp add: flag_def)
  have ty: "slice_type (st_sh h) \<in> {SLICE_TYPE_P, SLICE_TYPE_B, SLICE_TYPE_I}" using ok by simp
  show ?thesis unfolding header_ok_def F L(6,7) dp list.pred_inject
    by (intro conjI impI ty; (simp add: ok small_ok lg dis dir id qp ab tb n01 ro0 ro1 fl nth_Cons_0 split del: if_split; fail))
qed

end
