(* ===== verification/X264_Slice_Refs.thy ===== *)
theory X264_Slice_Refs
  imports X264_Slice_Header
begin

text \<open>
  What a decoder makes of a slice header: the order count of the picture (8.2.1.1) and the two reference lists (8.2.4), which are
  those that the encoder predicts from.
\<close>

section \<open>Order count\<close>

definition decode_poc :: "int \<Rightarrow> int \<Rightarrow> int \<Rightarrow> int" where
  "decode_poc m prev lsb =
     (let prev_lsb = prev mod m; prev_msb = prev - prev_lsb;
          msb = (if lsb < prev_lsb \<and> prev_lsb - lsb \<ge> m div 2 then prev_msb + m
                 else if lsb > prev_lsb \<and> lsb - prev_lsb > m div 2 then prev_msb - m else prev_msb)
      in msb + lsb)"

lemma decode_poc_eq:
  assumes "0 < k" "2 * \<bar>poc - prev\<bar> < 2 ^ k"
  shows "decode_poc (2 ^ k) prev (poc mod 2 ^ k) = poc"
proof -
  define m :: int where "m = 2 ^ k"
  obtain w where w: "m = 2 * w" "0 < w" using assms(1) by (cases k) (auto simp: m_def)
  define a b where "a = poc mod m" and "b = prev mod m"
  obtain p q where p: "poc = m * p + a" "prev = m * q + b" using mult_div_mod_eq[of m poc] mult_div_mod_eq[of m prev] unfolding a_def b_def by metis
  have r: "0 \<le> a" "a < m" "0 \<le> b" "b < m" using w by (simp_all add: a_def b_def)
  have "\<bar>m * (p - q) + (a - b)\<bar> < w" using assms(2) p w by (simp add: m_def[symmetric] right_diff_distrib)
  then have d: "m * (p - q) < w + b - a" "- w - a + b < m * (p - q)" by linarith+
  have "p - q < 2"
  proof (rule ccontr)
    assume "\<not> p - q < 2"
    then have "m * 2 \<le> m * (p - q)" using w by (intro mult_left_mono) auto
    then show False using d r w by linarith
  qed
  moreover have "- 2 < p - q"
  proof (rule ccontr)
    assume "\<not> - 2 < p - q"
    then have "m * (p - q) \<le> m * (- 2)" using w by (intro mult_left_mono) auto
    then show False using d r w by linarith
  qed
  ultimately consider "p = q" | "p = q + 1" | "p = q - 1" by linarith
  then have "decode_poc m prev a = poc"
  proof cases
    case 1
    then show ?thesis unfolding decode_poc_def Let_def b_def[symmetric] using d r w p by simp
  next
    case 2
    then have "m * (p - q) = m" by simp
    then have "a < b" "b - a \<ge> m div 2" using d r w by simp_all
    then show ?thesis unfolding decode_poc_def Let_def b_def[symmetric] using p 2 by (simp add: distrib_left)
  next
    case 3
    then have "m * (p - q) = - m" by simp
    then have "b < a" "a - b > m div 2" using d r w by simp_all
    then show ?thesis unfolding decode_poc_def Let_def b_def[symmetric] using p 3 by (simp add: right_diff_distrib)
  qed
  then show ?thesis by (simp only: m_def a_def)
qed

section \<open>Reference lists\<close>

definition slice_references :: "x264_sps_t \<Rightarrow> x264_pps_t \<Rightarrow> int \<Rightarrow> x264_frame_t list \<Rightarrow> slice_syntax \<Rightarrow> (x264_frame_t list \<times> x264_frame_t list) option" where
  "slice_references sps pps poc dpb hdr =
     (let t = sl_type hdr mod 5;
          n0 = (case sl_num_ref hdr of Some (Some (a, b)) \<Rightarrow> a + 1 | _ \<Rightarrow> i_num_ref_idx_l0_active pps);
          n1 = (case sl_num_ref hdr of Some (Some (a, Some b)) \<Rightarrow> b + 1 | _ \<Rightarrow> i_num_ref_idx_l1_active pps);
          cs = (case sl_reordering0 hdr of Some (Some cs) \<Rightarrow> cs | _ \<Rightarrow> [])
      in if t = 2 then Some ([], [])
         else if sl_reordering1 hdr \<noteq> None \<and> sl_reordering1 hdr \<noteq> Some None then None
         else map_option (\<lambda>l0. (l0, if t = 1 then decoder_list1 poc dpb (nat n1) else []))
                (decoder_list0 (if t = 1 then SLICE_TYPE_B else SLICE_TYPE_P) (2 ^ nat (i_log2_max_frame_num sps)) (sl_frame_num hdr) poc dpb (nat n0) cs))"

definition decoded_poc :: "x264_sps_t \<Rightarrow> int \<Rightarrow> slice_syntax \<Rightarrow> int" where
  "decoded_poc sps prev hdr = decode_poc (2 ^ nat (i_log2_max_poc_lsb sps)) prev (case sl_poc_lsb hdr of Some (l, d) \<Rightarrow> l | None \<Rightarrow> 0)"

lemma decoded_poc_header:
  assumes "slice_ok h idr qp dpb" "2 * \<bar>fdec_poc h - prev\<bar> < 2 ^ nat (i_log2_max_poc_lsb (st_sps h))"
  shows "decoded_poc (st_sps h) prev (header_abs (header_of h idr qp) ref_idc) = fdec_poc h"
proof -
  note ok = assms(1)[unfolded slice_ok_def Let_def]
  have z: "i_poc_type (st_sps h) = 0" "0 < nat (i_log2_max_poc_lsb (st_sps h))" using ok by simp_all
  show ?thesis using decode_poc_eq[OF z(2) assms(2)] by (simp add: decoded_poc_def header_abs_def Let_def header_of_fields[OF z(1)] z(1) take_bit_eq_mod)
qed

lemma references_header:
  assumes "slice_ok h idr qp dpb"
  shows "slice_references (st_sps h) (st_pps h) (fdec_poc h) dpb (header_abs (header_of h idr qp) ref_idc) =
    Some (if slice_type (st_sh h) = SLICE_TYPE_I then [] else take (nat (i_ref0 (st_refs h))) (fref0 (st_refs h)),
          if slice_type (st_sh h) = SLICE_TYPE_B then take (nat (i_ref1 (st_refs h))) (fref1 (st_refs h)) else [])"
proof -
  note ok = assms[unfolded slice_ok_def Let_def]
  let ?t = "slice_type (st_sh h)" and ?L = "st_refs h" and ?hdr = "header_abs (header_of h idr qp) ref_idc"
  have z: "i_poc_type (st_sps h) = 0" using ok by simp
  note F = header_of_fields[OF z]
  have t: "?t \<in> {SLICE_TYPE_P, SLICE_TYPE_B, SLICE_TYPE_I}" using ok by simp
  obtain m0 m1 fr r where L: "x264_reference_build_list ?t m0 m1 fr dpb (fdec_poc h) = Inr ?L" "0 \<le> i_ref0 ?L" "0 \<le> i_ref1 ?L"
    "i_ref0 ?L + i_ref1 ?L \<le> 16" "flag r" "b_ref_reorder ?L ! 0 = r" "b_ref_reorder ?L ! 1 = 0"
    "inj_on f_poc (set dpb)" "distinct dpb" "inj_on f_frame_num (set dpb)" "\<forall>f \<in> set dpb. 0 \<le> f_frame_num f \<and> f_frame_num f < st_frame_num h"
    by (rule slice_ok_refs[OF assms])
  have ty: "sl_type ?hdr mod 5 = slice_num ?t" using t by (auto simp: header_abs_def Let_def F)
  show ?thesis
  proof (cases "?t = SLICE_TYPE_I")
    case True
    then show ?thesis by (simp add: slice_references_def ty)
  next
    case False
    then have idr: "\<not> idr" and a0: "active0 h idr = i_ref0 ?L" and a1: "?t = SLICE_TYPE_B \<Longrightarrow> active1 h idr = i_ref1 ?L" using ok by (auto simp: active0_def active1_def)
    have num: "sl_num_ref ?hdr = Some (Some (i_ref0 ?L - 1, if ?t = SLICE_TYPE_B then Some (i_ref1 ?L - 1) else None))"
      using False idr a0 a1 by (simp add: header_abs_def Let_def F)
    have b: "nat (i_ref0 ?L) \<le> length (fref0 ?L)" by (rule build_list_bounds[OF L(1,8)])
    have cs: "(case sl_reordering0 ?hdr of Some (Some cs) \<Rightarrow> cs | _ \<Rightarrow> []) = header_commands (st_frame_num h) ?L"
    proof (cases "r = 0")
      case True
      then show ?thesis using False by (simp add: header_abs_def Let_def F reordering_abs_def L(6) header_commands_def)
    next
      case r: False
      then have "ref_pic_list_order (initial_header h idr qp) ! 0 =
          reorder_commands (st_frame_num h) (take (nat (i_ref0 ?L)) (fref0 ?L)) @ drop (nat (i_ref0 ?L)) (ref_pic_list_order (st_sh h) ! 0)"
        using L(6) ok by (intro header_init_cases(3)) simp_all
      then show ?thesis using False r b a0 by (simp add: header_abs_def Let_def F reordering_abs_def L(6) header_commands_def length_commands)
    qed
    have r1: "sl_reordering1 ?hdr = None \<or> sl_reordering1 ?hdr = Some None" by (simp add: header_abs_def Let_def F reordering_abs_def L(7)[unfolded One_nat_def])
    have fn: "sl_frame_num ?hdr = st_frame_num h" by (simp add: header_abs_def Let_def F)
    have ok': "refs_ok (2 ^ nat (i_log2_max_frame_num (st_sps h))) (st_frame_num h) dpb" "0 < st_frame_num h" using ok idr by simp_all
    show ?thesis
    proof (cases "?t = SLICE_TYPE_B")
      case True
      have n: "i_ref0 ?L > 0" "i_ref1 ?L > 0" using ok True by auto
      note D = decoder_lists_B[OF L(1)[unfolded True] L(8) n]
      show ?thesis using True r1 n by (simp add: slice_references_def ty num cs fn D Let_def)
    next
      case B: False
      then have P: "?t = SLICE_TYPE_P" using t False by simp
      have "\<forall>f \<in> set dpb. f_poc f < fdec_poc h" using ok P by simp
      note D = decoder_list0_P[OF L(1)[unfolded P] ok' this]
      show ?thesis using P r1 by (simp add: slice_references_def ty num cs fn D Let_def)
    qed
  qed
qed

section \<open>Slice headers\<close>

text \<open>
  C30. The header of every slice, as \<^verbatim>\<open>x264_slice_init\<close> fills it in and \<^verbatim>\<open>x264_slice_header_write\<close> writes it, is read back by the slice
  header syntax of the standard. From it and the frames in its buffer a decoder derives the order count of the
  picture and exactly the reference lists that the encoder predicts from: the sorting loops of \<^verbatim>\<open>x264_reference_build_list\<close> end in the
  order that the standard starts from, or the reordering commands of the header lead to it.
\<close>

theorem slice_header_roundtrip:
  assumes "slice_ok h idr qp dpb" "2 * \<bar>fdec_poc h - prev\<bar> < 2 ^ nat (i_log2_max_poc_lsb (st_sps h))"
  shows "\<exists>cs. (\<forall>s. bs_inv s \<longrightarrow> (\<exists>s'. seqR (x264_slice_header_write (st_sh (x264_slice_init h idr qp)) ref_idc) s = Inr s' \<and> bs_inv s' \<and> bs_bits s' = bs_bits s @ cs)) \<and>
    (\<forall>rest. slice_header (st_sps h) (st_pps h) idr ref_idc (cs @ rest) = Some (header_abs (st_sh (x264_slice_init h idr qp)) ref_idc, rest)) \<and>
    decoded_poc (st_sps h) prev (header_abs (st_sh (x264_slice_init h idr qp)) ref_idc) = fdec_poc h \<and>
    slice_references (st_sps h) (st_pps h) (fdec_poc h) dpb (header_abs (st_sh (x264_slice_init h idr qp)) ref_idc) =
      Some (if slice_type (st_sh h) = SLICE_TYPE_I then [] else take (nat (i_ref0 (st_refs h))) (fref0 (st_refs h)),
            if slice_type (st_sh h) = SLICE_TYPE_B then take (nat (i_ref1 (st_refs h))) (fref1 (st_refs h)) else [])"
proof -
  have z: "i_poc_type (st_sps h) = 0" "0 \<le> st_idr_pic_id h" using assms(1) by (simp_all add: slice_ok_def Let_def)
  have "(i_idr_pic_id (header_of h idr qp) \<ge> 0) = idr" using z by (simp add: header_of_fields)
  then have "codes (seqR (x264_slice_header_write (header_of h idr qp) ref_idc)) (slice_header (st_sps h) (st_pps h) idr ref_idc) (header_abs (header_of h idr qp) ref_idc)"
    using header_codes[OF header_of_ok[OF assms(1)], of ref_idc] by (simp add: header_of_fields[OF z(1)] del: seqR.simps)
  then show ?thesis unfolding codes_def writes_def header_of_def[symmetric]
    using decoded_poc_header[OF assms(1,2), of ref_idc] references_header[OF assms(1), of ref_idc] by blast
qed

text \<open>A P slice after a frame that was displayed earlier than it was coded: its list needs commands.\<close>

definition sample_dpb :: "x264_frame_t list" where
  "sample_dpb = [\<lparr>f_poc = 0, f_frame_num = 0\<rparr>, \<lparr>f_poc = 8, f_frame_num = 1\<rparr>, \<lparr>f_poc = 4, f_frame_num = 2\<rparr>]"

definition sample_refs :: ref_lists where
  "sample_refs = \<lparr>fref0 = [\<lparr>f_poc = 8, f_frame_num = 1\<rparr>, \<lparr>f_poc = 4, f_frame_num = 2\<rparr>, \<lparr>f_poc = 0, f_frame_num = 0\<rparr>], fref1 = [],
     i_ref0 = 3, i_ref1 = 0, b_ref_reorder = [1, 0]\<rparr>"

definition sample_slice_param :: slice_param where
  "sample_slice_param = x264_param_t.extend (sample_param\<lparr>p_interlaced := 0, p_cabac := 0\<rparr>) (slice_param.fields 1 0 1 (- 1) 2)"

definition sample_header :: x264_slice_header_t where
  "sample_header =
     \<lparr>sh_sps = sps_zero, sh_pps = pps_zero, slice_type = SLICE_TYPE_P, i_first_mb = 0, i_last_mb = 0, i_pps_id = 0, i_frame_num = 0, b_mbaff = 0,
      b_field_pic = 0, b_bottom_field = 0, i_idr_pic_id = 0, i_poc_lsb = 0, i_delta_poc_bottom = 0, i_delta_poc = [0, 0], i_redundant_pic_cnt = 0,
      b_direct_spatial_mv_pred = 0, b_num_ref_idx_override = 0, slice_num_ref_idx_l0_active = 0, slice_num_ref_idx_l1_active = 0,
      b_ref_pic_list_reordering_l0 = 0, b_ref_pic_list_reordering_l1 = 0, ref_pic_list_order = [replicate 16 (0, 0), replicate 16 (0, 0)],
      slice_cabac_init_idc = 0, slice_qp = 0, i_qp_delta = 0, b_sp_for_swidth = 0, i_qs_delta = 0, i_disable_deblocking_filter_idc = 0,
      i_alpha_c0_offset = 0, i_beta_offset = 0\<rparr>"

definition sample_state :: slice_state where
  "sample_state =
     \<lparr>st_param = sample_slice_param, st_sps = sps_zero\<lparr>i_log2_max_frame_num := 9, i_log2_max_poc_lsb := 10, i_mb_width := 2, i_mb_height := 2\<rparr>,
      st_pps = pps_zero\<lparr>i_num_slice_groups := 1, i_pic_init_qp := 26, b_deblocking_filter_control := 1\<rparr>,
      b_direct_auto_read = 0, b_direct_auto_write = 0, i_direct_score = [0, 0], b_variable_qp = 0, st_refs = sample_refs, st_idr_pic_id = 1,
      st_frame_num = 3, fdec_poc = 16, fdec_frame_num = - 1, st_sh = sample_header\<rparr>"

lemma sample_refs_built: "x264_reference_build_list SLICE_TYPE_P 16 1 4 sample_dpb 16 = Inr sample_refs"
  by (simp add: x264_reference_build_list_def sample_dpb_def sample_refs_def sort_frames.simps Let_def)

lemma sample_state_ok: "slice_ok sample_state False 28 sample_dpb"
proof -
  have "\<exists>m0 m1 fr. 0 \<le> m0 \<and> 0 \<le> m1 \<and> 0 \<le> fr \<and> x264_reference_build_list SLICE_TYPE_P m0 m1 fr sample_dpb 16 = Inr sample_refs"
    using sample_refs_built by (intro exI[of _ 16] exI[of _ 1] exI[of _ 4]) simp
  moreover have "refs_ok (2 ^ 9) 3 sample_dpb" by (auto simp: refs_ok_def sample_dpb_def)
  ultimately show ?thesis
    by (auto simp: slice_ok_def Let_def sample_state_def sample_header_def sps_zero_def pps_zero_def sample_slice_param_def x264_param_t.defs slice_param.defs
        sample_refs_def sample_dpb_def ue_ok_def u_ok_def)
qed

theorem slice_header_roundtrip_witness:
  "slice_references (st_sps sample_state) (st_pps sample_state) 16 sample_dpb (header_abs (st_sh (x264_slice_init sample_state False 28)) 1) =
     Some (fref0 sample_refs, []) \<and> sl_reordering0 (header_abs (st_sh (x264_slice_init sample_state False 28)) 1) = Some (Some [(0, 1), (1, 0), (0, 1)])"
proof -
  have e: "fdec_poc sample_state = 16" "slice_type (st_sh sample_state) = SLICE_TYPE_P" "st_refs sample_state = sample_refs"
    by code_simp+
  have p: "2 * \<bar>fdec_poc sample_state - 8\<bar> < 2 ^ nat (i_log2_max_poc_lsb (st_sps sample_state))" by code_simp
  have "sl_reordering0 (header_abs (st_sh (x264_slice_init sample_state False 28)) 1) = Some (Some [(0, 1), (1, 0), (0, 1)])" by code_simp
  moreover have "take (nat (i_ref0 sample_refs)) (fref0 sample_refs) = fref0 sample_refs" by code_simp
  ultimately show ?thesis using slice_header_roundtrip[OF sample_state_ok p, of 1] by (auto simp: e)
qed

end
