(* ===== verification/X264_Mb_Cache.thy ===== *)
theory X264_Mb_Cache
  imports X264_Mb_Decode
begin

text \<open>
  How a macroblock gets to know its neighbours (\<^verbatim>\<open>x264_macroblock_cache_load\<close> and \<^verbatim>\<open>x264_macroblock_cache_save\<close> in
  \<^verbatim>\<open>apps/x264/src/common/macroblock.c\<close>): the types, intra modes and numbers of coefficients of the macroblocks of a picture are kept in tables, and the
  row above and the column to the left are loaded into the cache of a macroblock. The parts that concern pixels, motion vectors, the flags of the
  neighbours that only the analysis reads, and the arithmetic coder are left out.
\<close>

section \<open>Tables\<close>

record mb_tables =
  mb_type :: "mb_class_e list"
  mb_intra4x4_pred_mode :: "int list list"
  mb_non_zero_count :: "int list list"

text \<open>An assignment of the cache: of a constant, or of an entry of the table of the macroblock above or to the left.\<close>

datatype source = Const int | Top_MB nat | Left_MB nat

definition store :: "(source \<Rightarrow> int) \<Rightarrow> (nat \<times> source) list \<Rightarrow> int list \<Rightarrow> int list" where
  "store val us l = fold (\<lambda>(p, v) l. l[p := val v]) us l"

definition entry :: "int list \<Rightarrow> int list \<Rightarrow> source \<Rightarrow> int" where
  "entry up lf v = (case v of Const c \<Rightarrow> c | Top_MB i \<Rightarrow> up ! i | Left_MB i \<Rightarrow> lf ! i)"

abbreviation scan8 :: "nat \<Rightarrow> nat" where
  "scan8 i \<equiv> x264_scan8 ! i"

definition load_top_modes :: "bool \<Rightarrow> (nat \<times> source) list" where
  "load_top_modes avail =
     (if avail then [(scan8 0 - 8, Top_MB 0), (scan8 0 - 7, Top_MB 1), (scan8 0 - 6, Top_MB 2), (scan8 0 - 5, Top_MB 3)]
      else [(scan8 5 - 8, Const (- 1)), (scan8 4 - 8, Const (- 1)), (scan8 1 - 8, Const (- 1)), (scan8 0 - 8, Const (- 1))])"

definition load_left_modes :: "bool \<Rightarrow> (nat \<times> source) list" where
  "load_left_modes avail =
     (if avail then [(scan8 0 - 1, Left_MB 4), (scan8 2 - 1, Left_MB 5), (scan8 8 - 1, Left_MB 6), (scan8 10 - 1, Left_MB 3)]
      else [(scan8 10 - 1, Const (- 1)), (scan8 8 - 1, Const (- 1)), (scan8 2 - 1, Const (- 1)), (scan8 0 - 1, Const (- 1))])"

text \<open>A word is stored where two entries are wanted, so that the cells beside them become 0.\<close>

definition load_top_nz :: "bool \<Rightarrow> (nat \<times> source) list" where
  "load_top_nz avail =
     (if avail
      then [(scan8 0 - 8, Top_MB 12), (scan8 0 - 7, Top_MB 13), (scan8 0 - 6, Top_MB 14), (scan8 0 - 5, Top_MB 15),
            (scan8 16 - 9, Const 0), (scan8 16 - 8, Top_MB 18), (scan8 16 - 7, Top_MB 19), (scan8 16 - 6, Const 0),
            (scan8 20 - 9, Const 0), (scan8 20 - 8, Top_MB 22), (scan8 20 - 7, Top_MB 23), (scan8 20 - 6, Const 0)]
      else [(scan8 21 - 8, Const 0x80), (scan8 20 - 8, Const 0x80), (scan8 17 - 8, Const 0x80), (scan8 16 - 8, Const 0x80),
            (scan8 5 - 8, Const 0x80), (scan8 4 - 8, Const 0x80), (scan8 1 - 8, Const 0x80), (scan8 0 - 8, Const 0x80)])"

definition load_left_nz :: "bool \<Rightarrow> (nat \<times> source) list" where
  "load_left_nz avail =
     (if avail
      then [(scan8 0 - 1, Left_MB 3), (scan8 2 - 1, Left_MB 7), (scan8 8 - 1, Left_MB 11), (scan8 10 - 1, Left_MB 15),
            (scan8 16 - 1, Left_MB 17), (scan8 18 - 1, Left_MB 19), (scan8 20 - 1, Left_MB 21), (scan8 22 - 1, Left_MB 23)]
      else [(scan8 22 - 1, Const 0x80), (scan8 20 - 1, Const 0x80), (scan8 18 - 1, Const 0x80), (scan8 16 - 1, Const 0x80),
            (scan8 10 - 1, Const 0x80), (scan8 8 - 1, Const 0x80), (scan8 2 - 1, Const 0x80), (scan8 0 - 1, Const 0x80)])"

text \<open>
  The first macroblock of the slice is an argument; \<^verbatim>\<open>b_interlaced\<close> takes the row above from the same field. The type of the macroblock above is
  what the writer of macroblocks reads in the table of types.
\<close>

definition x264_macroblock_cache_load :: "mb_tables \<Rightarrow> int \<Rightarrow> int \<Rightarrow> int \<Rightarrow> int \<Rightarrow> x264_mb \<Rightarrow> x264_mb" where
  "x264_macroblock_cache_load T i_first_mb i_mb_stride i_mb_x mb_y h =
     (let i_mb_xy = mb_y * i_mb_stride + i_mb_x;
          i_top_y = mb_y - (if b_interlaced h then 2 else 1);
          i_top_xy = i_top_y * i_mb_stride + i_mb_x;
          i_left_xy = i_mb_xy - 1;
          ta = (i_top_xy \<ge> i_first_mb); la = (i_mb_x > 0 \<and> i_mb_xy > i_first_mb);
          modes = entry (mb_intra4x4_pred_mode T ! nat i_top_xy) (mb_intra4x4_pred_mode T ! nat i_left_xy);
          nz = entry (mb_non_zero_count T ! nat i_top_xy) (mb_non_zero_count T ! nat i_left_xy)
      in h\<lparr>i_mb_y := mb_y,
           type_above := (if i_mb_xy - i_mb_stride \<ge> 0 then mb_type T ! nat (i_mb_xy - i_mb_stride) else type_above h),
           intra4x4_pred_mode := store modes (load_left_modes la) (store modes (load_top_modes ta) (intra4x4_pred_mode h)),
           non_zero_count := store nz (load_left_nz la) (store nz (load_top_nz ta) (non_zero_count h))\<rparr>)"

section \<open>Saving\<close>

definition x264_mb_type_fix :: "mb_class_e \<Rightarrow> mb_class_e" where
  "x264_mb_type_fix t = (if t = I_8x8 then I_4x4 else t)"

definition mode_save_cells :: "nat list" where
  "mode_save_cells = [scan8 10, scan8 10 + 1, scan8 10 + 2, scan8 10 + 3, scan8 5, scan8 7, scan8 13]"

definition nz_save_cells :: "nat list" where
  "nz_save_cells =
     map (\<lambda>x. scan8 0 + 0 * 8 + x) [0..<4] @ map (\<lambda>x. scan8 0 + 1 * 8 + x) [0..<4] @ map (\<lambda>x. scan8 0 + 2 * 8 + x) [0..<4] @ map (\<lambda>x. scan8 0 + 3 * 8 + x) [0..<4]
     @ [scan8 16, scan8 16 + 1, scan8 18, scan8 18 + 1, scan8 20, scan8 20 + 1, scan8 22, scan8 22 + 1]"

definition x264_macroblock_cache_save :: "nat \<Rightarrow> mb_tables \<times> x264_mb \<Rightarrow> mb_tables \<times> x264_mb" where
  "x264_macroblock_cache_save i_mb_xy = (\<lambda>(T, h).
     let i_mb_type = x264_mb_type_fix (i_type h);
         T = T\<lparr>mb_type := (mb_type T)[i_mb_xy := i_mb_type],
               mb_intra4x4_pred_mode := (mb_intra4x4_pred_mode T)[i_mb_xy :=
                 (if i_mb_type = I_4x4 then map ((!) (intra4x4_pred_mode h)) mode_save_cells @ [0] else replicate 8 2)]\<rparr>;
         (T, h) =
           (if i_mb_type = I_PCM
            then (T\<lparr>mb_non_zero_count := (mb_non_zero_count T)[i_mb_xy := replicate 24 16]\<rparr>,
                  h\<lparr>i_cbp_chroma := 2, i_cbp_luma := 0xf, b_transform_8x8 := False\<rparr>)
            else let h = (if i_type h \<noteq> I_16x16 \<and> i_cbp_luma h = 0 \<and> i_cbp_chroma h = 0 then h\<lparr>i_qp := i_last_qp h\<rparr> else h)
                 in (T\<lparr>mb_non_zero_count := (mb_non_zero_count T)[i_mb_xy := map ((!) (non_zero_count h)) nz_save_cells]\<rparr>,
                     h\<lparr>i_last_qp := i_qp h\<rparr>))
     in (T, if i_cbp_luma h = 0 \<and> i_type h \<noteq> I_8x8 then h\<lparr>b_transform_8x8 := False\<rparr> else h))"


lemma length_store [simp]: "length (store val us l) = length l"
  by (induction us arbitrary: l) (auto simp: store_def)

lemma nth_store:
  assumes "j < length l"
  shows "store val us l ! j = (case map_of (rev us) j of None \<Rightarrow> l ! j | Some v \<Rightarrow> val v)"
  using assms
proof (induction us rule: rev_induct)
  case (snoc u us)
  obtain p v where u: "u = (p, v)" by (cases u)
  have "store val (us @ [u]) l = (store val us l)[p := val v]" by (simp add: store_def u)
  then show ?case using snoc by (auto simp: u nth_list_update)
qed (simp add: store_def)

lemma store_append: "store val vs (store val us l) = store val (us @ vs) l"
  by (simp add: store_def)

section \<open>The derivation of a decoder\<close>

text \<open>
  A decoder (8.3.1.1 and 9.2.1) takes modes and numbers of coefficients from the blocks of the macroblocks above and to the left, by their
  block numbers: the right column of blocks is 5, 7, 13, 15, the lower row 10, 11, 14, 15.
\<close>

definition nz_neighbours :: "(nat \<times> source) list" where
  "nz_neighbours =
     [(scan8 0 - 8, Top_MB 10), (scan8 1 - 8, Top_MB 11), (scan8 4 - 8, Top_MB 14), (scan8 5 - 8, Top_MB 15),
      (scan8 16 - 8, Top_MB 18), (scan8 17 - 8, Top_MB 19), (scan8 20 - 8, Top_MB 22), (scan8 21 - 8, Top_MB 23),
      (scan8 0 - 1, Left_MB 5), (scan8 2 - 1, Left_MB 7), (scan8 8 - 1, Left_MB 13), (scan8 10 - 1, Left_MB 15),
      (scan8 16 - 1, Left_MB 17), (scan8 18 - 1, Left_MB 19), (scan8 20 - 1, Left_MB 21), (scan8 22 - 1, Left_MB 23)]"

definition mode_neighbours :: "(nat \<times> source) list" where
  "mode_neighbours =
     [(scan8 0 - 8, Top_MB 10), (scan8 1 - 8, Top_MB 11), (scan8 4 - 8, Top_MB 14), (scan8 5 - 8, Top_MB 15),
      (scan8 0 - 1, Left_MB 5), (scan8 2 - 1, Left_MB 7), (scan8 8 - 1, Left_MB 13), (scan8 10 - 1, Left_MB 15)]"

definition derived :: "int \<Rightarrow> int list option \<Rightarrow> int list option \<Rightarrow> source \<Rightarrow> int" where
  "derived u up lf v =
     (case v of Const c \<Rightarrow> c | Top_MB b \<Rightarrow> (case up of None \<Rightarrow> u | Some r \<Rightarrow> r ! b) | Left_MB b \<Rightarrow> (case lf of None \<Rightarrow> u | Some r \<Rightarrow> r ! b))"

definition derive :: "int \<Rightarrow> (nat \<times> source) list \<Rightarrow> int list option \<Rightarrow> int list option \<Rightarrow> int list" where
  "derive u cells up lf = store (derived u up lf) cells (replicate 48 0)"

lemma length_derive [simp]: "length (derive u cells up lf) = 48"
  by (simp add: derive_def)

text \<open>The place of a block in the tables of the encoder.\<close>

definition nz_place :: "nat \<Rightarrow> nat" where
  "nz_place b = [0, 1, 4, 5, 2, 3, 6, 7, 8, 9, 12, 13, 10, 11, 14, 15, 16, 17, 18, 19, 20, 21, 22, 23] ! b"

definition mode_place :: "nat \<Rightarrow> nat" where
  "mode_place b = (if b = 10 then 0 else if b = 11 then 1 else if b = 14 then 2 else if b = 15 then 3 else if b = 5 then 4 else if b = 7 then 5 else 6)"

definition mode_border :: "nat list" where
  "mode_border = [5, 7, 10, 11, 13, 14, 15]"

text \<open>What is loaded into a cell and what is derived for it.\<close>

definition cell_match :: "(nat \<times> source) list \<Rightarrow> (nat \<times> source) list \<Rightarrow> (nat \<Rightarrow> nat) \<Rightarrow> nat list \<Rightarrow> int \<Rightarrow> bool \<Rightarrow> bool \<Rightarrow> nat \<Rightarrow> bool" where
  "cell_match loads cells pos bs u ta la j \<longleftrightarrow>
     (case map_of (rev cells) j of
        None \<Rightarrow> map_of (rev loads) j = None \<or> map_of (rev loads) j = Some (Const 0)
      | Some (Const c) \<Rightarrow> False
      | Some (Top_MB b) \<Rightarrow> b \<in> set bs \<and> map_of (rev loads) j = Some (if ta then Top_MB (pos b) else Const u)
      | Some (Left_MB b) \<Rightarrow> b \<in> set bs \<and> map_of (rev loads) j = Some (if la then Left_MB (pos b) else Const u))"

lemma loaded_derived:
  assumes m: "cell_match loads cells pos bs u ta la j" and j: "j < 48" "length E = 48" and pad: "map_of (rev cells) j = None \<Longrightarrow> E ! j = 0"
    and top: "ta \<Longrightarrow> \<forall>b \<in> set bs. f (up ! pos b) = f (vt ! b)" and left: "la \<Longrightarrow> \<forall>b \<in> set bs. f (lf ! pos b) = f (vl ! b)"
  shows "f (store (entry up lf) loads E ! j) = f (derive u cells (if ta then Some vt else None) (if la then Some vl else None) ! j)"
  using m pad top left j unfolding cell_match_def derive_def
  by (auto simp: nth_store entry_def derived_def split: option.splits source.splits if_splits)

lemma loaded_padding:
  assumes "cell_match loads cells pos bs u ta la j" "j < length E" "j \<notin> fst ` set cells" "E ! j = 0"
  shows "store (entry up lf) loads E ! j = 0"
proof -
  have "map_of (rev cells) j = None" using assms(3) by (simp add: map_of_eq_None_iff)
  then have "map_of (rev loads) j = None \<or> map_of (rev loads) j = Some (Const 0)" using assms(1) by (simp add: cell_match_def)
  then show ?thesis unfolding nth_store[OF assms(2)] using assms(4) by (elim disjE) (simp_all only: option.case entry_def source.case)
qed

text \<open>The cells by number.\<close>

lemma load_numbers:
  "load_top_nz True = [(4, Top_MB 12), (5, Top_MB 13), (6, Top_MB 14), (7, Top_MB 15), (0, Const 0), (1, Top_MB 18), (2, Top_MB 19), (3, Const 0),
     (24, Const 0), (25, Top_MB 22), (26, Top_MB 23), (27, Const 0)]"
  "load_top_nz False = [(26, Const 0x80), (25, Const 0x80), (2, Const 0x80), (1, Const 0x80), (7, Const 0x80), (6, Const 0x80), (5, Const 0x80), (4, Const 0x80)]"
  "load_left_nz True = [(11, Left_MB 3), (19, Left_MB 7), (27, Left_MB 11), (35, Left_MB 15), (8, Left_MB 17), (16, Left_MB 19), (32, Left_MB 21), (40, Left_MB 23)]"
  "load_left_nz False = [(40, Const 0x80), (32, Const 0x80), (16, Const 0x80), (8, Const 0x80), (35, Const 0x80), (27, Const 0x80), (19, Const 0x80), (11, Const 0x80)]"
  by (simp_all add: load_top_nz_def load_left_nz_def x264_scan8_def)

lemma neighbour_numbers:
  "nz_neighbours = [(4, Top_MB 10), (5, Top_MB 11), (6, Top_MB 14), (7, Top_MB 15), (1, Top_MB 18), (2, Top_MB 19), (25, Top_MB 22), (26, Top_MB 23),
     (11, Left_MB 5), (19, Left_MB 7), (27, Left_MB 13), (35, Left_MB 15), (8, Left_MB 17), (16, Left_MB 19), (32, Left_MB 21), (40, Left_MB 23)]"
  "mode_neighbours = [(4, Top_MB 10), (5, Top_MB 11), (6, Top_MB 14), (7, Top_MB 15), (11, Left_MB 5), (19, Left_MB 7), (27, Left_MB 13), (35, Left_MB 15)]"
  by (simp_all add: nz_neighbours_def mode_neighbours_def x264_scan8_def)

lemma mode_numbers:
  "load_top_modes True = [(4, Top_MB 0), (5, Top_MB 1), (6, Top_MB 2), (7, Top_MB 3)]"
  "load_top_modes False = [(7, Const (- 1)), (6, Const (- 1)), (5, Const (- 1)), (4, Const (- 1))]"
  "load_left_modes True = [(11, Left_MB 4), (19, Left_MB 5), (27, Left_MB 6), (35, Left_MB 3)]"
  "load_left_modes False = [(35, Const (- 1)), (27, Const (- 1)), (19, Const (- 1)), (11, Const (- 1))]"
  by (simp_all add: load_top_modes_def load_left_modes_def x264_scan8_def)

lemma nz_match:
  assumes "j < 48" "j \<notin> set x264_scan8"
  shows "cell_match (load_top_nz ta @ load_left_nz la) nz_neighbours nz_place [0..<24] 0x80 ta la j"
proof -
  let ?P = "\<lambda>ta la. list_all (\<lambda>j. j \<in> set x264_scan8 \<or> cell_match (load_top_nz ta @ load_left_nz la) nz_neighbours nz_place [0..<24] 0x80 ta la j) [0..<48]"
  have "?P False False" "?P False True" "?P True False" "?P True True" unfolding load_numbers neighbour_numbers by code_simp+
  then have "?P ta la" by (cases ta; cases la) simp_all
  then show ?thesis using assms unfolding list_all_iff set_upt by (metis atLeastLessThan_iff le0)
qed

lemma mode_match:
  assumes "j < 48" "j \<notin> set (take 16 x264_scan8)"
  shows "cell_match (load_top_modes ta @ load_left_modes la) mode_neighbours mode_place mode_border (- 1) ta la j"
proof -
  let ?P = "\<lambda>ta la. list_all (\<lambda>j. j \<in> set (take 16 x264_scan8) \<or> cell_match (load_top_modes ta @ load_left_modes la) mode_neighbours mode_place mode_border (- 1) ta la j) [0..<48]"
  have "?P False False" "?P False True" "?P True False" "?P True True" unfolding mode_numbers neighbour_numbers by code_simp+
  then have "?P ta la" by (cases ta; cases la) simp_all
  then show ?thesis using assms unfolding list_all_iff set_upt by (metis atLeastLessThan_iff le0)
qed

section \<open>Rows of the tables\<close>

datatype mb_result = Skipped | Coded mb_syntax

text \<open>The numbers of coefficients and the modes of the blocks of a decoded macroblock. A macroblock without modes of its own counts as flat.\<close>

definition result_nz :: "mb_result \<Rightarrow> int list" where
  "result_nz r = (case r of Skipped \<Rightarrow> replicate 24 0 | Coded m \<Rightarrow> ms_nz m)"

definition result_modes :: "mb_result \<Rightarrow> int list" where
  "result_modes r =
     (case r of
        Skipped \<Rightarrow> replicate 16 2
      | Coded m \<Rightarrow> (case ms_pred m of Intra_NxN t ms c \<Rightarrow> (if t then map (\<lambda>b. ms ! (b div 4)) [0..<16] else ms) | _ \<Rightarrow> replicate 16 2))"

definition nz_row :: "int list \<Rightarrow> mb_result \<Rightarrow> bool" where
  "nz_row row r \<longleftrightarrow> length row = 24 \<and> (\<forall>z \<in> set row. nz_ok z) \<and> (\<forall>b \<in> set [0..<24]. row ! nz_place b = result_nz r ! b)"

definition mode_row :: "int list \<Rightarrow> mb_result \<Rightarrow> bool" where
  "mode_row row r \<longleftrightarrow> length row = 8 \<and> (\<forall>m \<in> set row. - 1 \<le> m \<and> m \<le> 11) \<and>
     (\<forall>b \<in> set mode_border. x264_mb_pred_mode4x4_fix (row ! mode_place b) = x264_mb_pred_mode4x4_fix (result_modes r ! b))"

lemma save_numbers: "nz_save_cells = [12, 13, 14, 15, 20, 21, 22, 23, 28, 29, 30, 31, 36, 37, 38, 39, 9, 10, 17, 18, 33, 34, 41, 42]"
  by (simp add: nz_save_cells_def x264_scan8_def upt_rec)

lemma save_places:
  "b < 24 \<Longrightarrow> nz_place b < 24 \<and> nz_save_cells ! nz_place b = scan8 b"
  "b \<in> set mode_border \<Longrightarrow> b < 16 \<and> mode_place b < 7 \<and> mode_save_cells ! mode_place b = scan8 b"
proof -
  have "list_all (\<lambda>b. nz_place b < 24 \<and> nz_save_cells ! nz_place b = scan8 b) [0..<24]" unfolding save_numbers by code_simp
  then show "b < 24 \<Longrightarrow> nz_place b < 24 \<and> nz_save_cells ! nz_place b = scan8 b" unfolding list_all_iff set_upt by simp
  have "list_all (\<lambda>b. b < 16 \<and> mode_place b < 7 \<and> mode_save_cells ! mode_place b = scan8 b) mode_border" by code_simp
  then show "b \<in> set mode_border \<Longrightarrow> b < 16 \<and> mode_place b < 7 \<and> mode_save_cells ! mode_place b = scan8 b" unfolding list_all_iff by simp
qed

lemma save_cells: "length nz_save_cells = 24" "\<forall>p \<in> set nz_save_cells. p < 48" "length mode_save_cells = 7" "\<forall>p \<in> set mode_save_cells. p < 48"
proof -
  have "length nz_save_cells = 24" "list_all (\<lambda>p. p < 48) nz_save_cells" "length mode_save_cells = 7" "list_all (\<lambda>p. p < 48) mode_save_cells" by code_simp+
  then show "length nz_save_cells = 24" "\<forall>p \<in> set nz_save_cells. p < 48" "length mode_save_cells = 7" "\<forall>p \<in> set mode_save_cells. p < 48"
    unfolding list_all_iff by simp_all
qed

lemma saved_nz:
  assumes "length nz = 48" "\<forall>z \<in> set nz. nz_ok z" "result_nz r = map (\<lambda>i. nz ! scan8 i) [0..<24]"
  shows "nz_row (map ((!) nz) nz_save_cells) r"
proof -
  have "map ((!) nz) nz_save_cells ! nz_place b = result_nz r ! b" if "b < 24" for b
    using save_places(1)[OF that] that assms(3) by (simp add: save_cells(1) del: upt.simps)
  moreover have "nz_ok (nz ! p)" if "p \<in> set nz_save_cells" for p using that save_cells(2) assms(1,2) by simp
  ultimately show ?thesis by (auto simp: nz_row_def save_cells(1) simp del: upt.simps)
qed

lemma nth_flat: "b \<in> set mode_border \<Longrightarrow> replicate 8 (2 :: int) ! mode_place b = 2 \<and> replicate 16 (2 :: int) ! b = 2"
  using save_places(2)[of b] by (simp del: replicate.simps)

lemma saved_flat: "result_modes r = replicate 16 2 \<Longrightarrow> mode_row (replicate 8 2) r"
  using nth_flat by (simp add: mode_row_def del: replicate.simps)

lemma mode_cells_blocks: "b < 16 \<Longrightarrow> scan8 b \<in> mode_cells True (4 * (b div 4)) \<and> [0, 4, 8, 12] ! (b div 4) = 4 * (b div 4) \<and> b div 4 < 4 \<and> 4 * (b div 4) \<in> set (mode_blocks True)"
proof -
  have "list_all (\<lambda>b. scan8 b \<in> mode_cells True (4 * (b div 4)) \<and> [0, 4, 8, 12] ! (b div 4) = 4 * (b div 4) \<and> b div 4 < 4 \<and> 4 * (b div 4) \<in> set (mode_blocks True)) [0..<16]" by code_simp
  then show "b < 16 \<Longrightarrow> scan8 b \<in> mode_cells True (4 * (b div 4)) \<and> [0, 4, 8, 12] ! (b div 4) = 4 * (b div 4) \<and> b div 4 < 4 \<and> 4 * (b div 4) \<in> set (mode_blocks True)" unfolding list_all_iff set_upt by simp
qed

lemma saved_modes:
  assumes ok: "intra_ok h" "length (intra4x4_pred_mode h) = 48" and t: "i_type h = I_4x4 \<or> i_type h = I_8x8" and r: "r = Coded m" "ms_pred m = intra_value h"
  shows "mode_row (map ((!) (intra4x4_pred_mode h)) mode_save_cells @ [0]) r"
proof -
  let ?E = "intra4x4_pred_mode h" and ?fix = x264_mb_pred_mode4x4_fix
  have n: "i_type h \<noteq> I_16x16" using t by auto
  have range: "\<forall>m \<in> set ?E. - 1 \<le> m \<and> m \<le> 11"
    and blk: "\<forall>i \<in> set (mode_blocks (i_type h = I_8x8)). 0 \<le> ?E ! scan8 i \<and> (\<forall>p \<in> mode_cells (i_type h = I_8x8) i. ?fix (?E ! p) = ?fix (?E ! scan8 i))"
    using ok(1) n by (simp_all add: intra_ok_def)
  have idem: "?fix (?fix (?E ! p)) = ?fix (?E ! p)" if "p < 48" "0 \<le> ?E ! p" for p
  proof -
    have "- 1 \<le> ?E ! p \<and> ?E ! p \<le> 11" using range that(1) ok(2) by simp
    then show ?thesis using fix_idem fix_range that(2) by blast
  qed
  have "?fix (?E ! scan8 b) = ?fix (result_modes r ! b)" if b: "b < 16" for b
  proof (cases "i_type h = I_8x8")
    case True
    note c = mode_cells_blocks[OF b]
    have i: "4 * (b div 4) \<in> set (mode_blocks True)" using c by blast
    have "result_modes r ! b = ?fix (?E ! scan8 (4 * (b div 4)))"
      using r True n b c unfolding mode_blocks_def
      by (auto simp: result_modes_def intra_value_def mode_blocks_def simp del: upt.simps)
    moreover have "4 * (b div 4) < 16" using b by simp
    ultimately show ?thesis using blk i c True idem[of "scan8 (4 * (b div 4))"] scan8_bound[of "4 * (b div 4)"] by simp
  next
    case False
    have "result_modes r ! b = ?fix (?E ! scan8 b)" using r False n b by (simp add: result_modes_def intra_value_def mode_blocks_def del: upt.simps)
    moreover have "b \<in> set (mode_blocks False)" using b by (simp add: mode_blocks_def del: upt.simps)
    ultimately show ?thesis using blk False idem[of "scan8 b"] scan8_bound[of b] b by simp
  qed
  then have "?fix ((map ((!) ?E) mode_save_cells @ [0]) ! mode_place b) = ?fix (result_modes r ! b)" if "b \<in> set mode_border" for b
    using save_places(2)[OF that] by (simp add: nth_append save_cells(3))
  moreover have "- 1 \<le> ?E ! p \<and> ?E ! p \<le> 11" if "p \<in> set mode_save_cells" for p using that save_cells(4) ok(2) range by simp
  ultimately show ?thesis by (auto simp: mode_row_def save_cells(3))
qed

section \<open>What the writer of macroblocks changes\<close>

definition nz_kept :: "int list \<Rightarrow> int list \<Rightarrow> bool" where
  "nz_kept a b \<longleftrightarrow> length b = length a \<and> (\<forall>j. j \<notin> set x264_scan8 \<longrightarrow> b ! j = a ! j) \<and> ((\<forall>z \<in> set a. nz_ok z) \<longrightarrow> (\<forall>z \<in> set b. nz_ok z))"

definition erased :: "x264_mb \<Rightarrow> x264_mb" where
  "erased h = h\<lparr>non_zero_count := [], luma4x4 := [], i_qp := 0\<rparr>"

definition mb_written :: "x264_mb \<Rightarrow> x264_mb \<Rightarrow> bool" where
  "mb_written h h' \<longleftrightarrow> erased h' = erased h \<and> nz_kept (non_zero_count h) (non_zero_count h') \<and> (i_qp h' = i_qp h \<or> i_qp h' = i_last_qp h)"

lemma erased_fields:
  assumes "erased h' = erased h"
  shows "sh_i_type h' = sh_i_type h" "sh_b_mbaff h' = sh_b_mbaff h" "b_transform_8x8_mode h' = b_transform_8x8_mode h" "b_direct8x8_inference h' = b_direct8x8_inference h"
    "b_interlaced h' = b_interlaced h" "i_fref h' = i_fref h" "i_type h' = i_type h" "i_cbp_luma h' = i_cbp_luma h" "i_cbp_chroma h' = i_cbp_chroma h"
    "i_last_qp h' = i_last_qp h" "intra4x4_pred_mode h' = intra4x4_pred_mode h"
  using arg_cong[OF assms, of sh_i_type] arg_cong[OF assms, of sh_b_mbaff] arg_cong[OF assms, of b_transform_8x8_mode] arg_cong[OF assms, of b_direct8x8_inference]
    arg_cong[OF assms, of b_interlaced] arg_cong[OF assms, of i_fref] arg_cong[OF assms, of i_type] arg_cong[OF assms, of i_cbp_luma] arg_cong[OF assms, of i_cbp_chroma]
    arg_cong[OF assms, of i_last_qp] arg_cong[OF assms, of intra4x4_pred_mode]
  unfolding erased_def by simp_all

lemma mb_written_refl: "mb_written h h"
  by (simp add: mb_written_def nz_kept_def)

lemma nz_kept_trans: "nz_kept a b \<Longrightarrow> nz_kept b c \<Longrightarrow> nz_kept a c"
  unfolding nz_kept_def by (elim conjE, intro conjI) (simp, simp, blast)

lemma mb_written_trans:
  assumes "mb_written h h1" "mb_written h1 h2"
  shows "mb_written h h2"
proof -
  have "nz_kept (non_zero_count h) (non_zero_count h2)" using assms nz_kept_trans unfolding mb_written_def by blast
  moreover have "erased h2 = erased h" "i_qp h2 = i_qp h \<or> i_qp h2 = i_last_qp h" using assms erased_fields(10)[of h1 h] unfolding mb_written_def by metis+
  ultimately show ?thesis by (simp only: mb_written_def)
qed

lemma scan8_mem: "i < 27 \<Longrightarrow> x264_scan8 ! i \<in> set x264_scan8"
  by (rule nth_mem) (simp add: length_scan8)

lemma mb_written_nz: "i < 27 \<Longrightarrow> mb_written h (h\<lparr>non_zero_count := (non_zero_count h)[x264_scan8 ! i := array_non_zero_count v]\<rparr>)"
proof -
  assume i: "i < 27"
  have "length (filter (\<lambda>i. v ! i \<noteq> 0) [0..<16]) \<le> 16" using length_filter_le[of _ "[0..<16]"] by (simp del: upt.simps)
  then have "nz_ok (array_non_zero_count v)" by (simp add: array_non_zero_count_def)
  then have "\<forall>z \<in> set ((non_zero_count h)[x264_scan8 ! i := array_non_zero_count v]). nz_ok z" if "\<forall>z \<in> set (non_zero_count h). nz_ok z"
    using that set_update_subset_insert[of "non_zero_count h" "x264_scan8 ! i" "array_non_zero_count v"] by blast
  moreover have "(non_zero_count h)[x264_scan8 ! i := array_non_zero_count v] ! j = non_zero_count h ! j" if "j \<notin> set x264_scan8" for j
    using that scan8_mem[OF i] by (metis nth_list_update_neq)
  ultimately have "nz_kept (non_zero_count h) ((non_zero_count h)[x264_scan8 ! i := array_non_zero_count v])"
    unfolding nz_kept_def by (simp only: length_list_update) blast
  moreover have "erased (h\<lparr>non_zero_count := nz\<rparr>) = erased h" for nz unfolding erased_def by simp
  ultimately show "mb_written h (h\<lparr>non_zero_count := (non_zero_count h)[x264_scan8 ! i := array_non_zero_count v]\<rparr>)" by (simp add: mb_written_def)
qed

lemma write_blocks_written: "write_blocks cat first is h = (ws, h') \<Longrightarrow> \<forall>i \<in> set is. i < 27 \<Longrightarrow> mb_written h h'"
proof (induction "is" arbitrary: h ws)
  case (Cons i js)
  then have "mb_written (h\<lparr>non_zero_count := (non_zero_count h)[x264_scan8 ! i := array_non_zero_count (luma4x4 h ! i)]\<rparr>) h'"
    by (auto simp: Let_def split: prod.splits)
  moreover have "i < 27" using Cons.prems(2) by simp
  ultimately show ?case using mb_written_trans[OF mb_written_nz] by blast
qed (simp add: mb_written_refl)

lemma mb_written_qp: "mb_written h (h\<lparr>i_qp := i_last_qp h\<rparr>)"
  by (simp add: mb_written_def nz_kept_def erased_def)

lemma mb_written_luma: "mb_written h (h\<lparr>luma4x4 := l\<rparr>)"
  by (simp add: mb_written_def nz_kept_def erased_def)

lemma qp_delta_written: "cavlc_qp_delta h = (ws, h') \<Longrightarrow> mb_written h h'"
  using mb_written_qp[of h] mb_written_refl[of h] by (auto simp: cavlc_qp_delta_def Let_def split: if_splits)

lemma luma_written: "x264_macroblock_luma_write_cavlc a b h = (ws, h') \<Longrightarrow> b < 6 \<Longrightarrow> mb_written h h'"
proof -
  assume w: "x264_macroblock_luma_write_cavlc a b h = (ws, h')" and b: "b < 6"
  define bl where "bl = concat (map blocks_of_8x8 (coded_8x8 (i_cbp_luma h) a b))"
  obtain g where g: "write_blocks DCT_LUMA_4x4 0 bl g = (ws, h')" "g = h \<or> (\<exists>l. g = h\<lparr>luma4x4 := l\<rparr>)"
    using w unfolding x264_macroblock_luma_write_cavlc_def Let_def bl_def by (cases "b_transform_8x8 h") auto
  have "\<forall>i \<in> set bl. i < 27" using b by (auto simp: bl_def blocks_of_8x8_eq coded_8x8_def)
  note r = write_blocks_written[OF g(1) this]
  then show "mb_written h h'" using g(2) mb_written_luma mb_written_trans by blast
qed

lemma luma_residual_written:
  assumes "write_luma_residual h = (ws, h')"
  shows "mb_written h h'"
proof -
  obtain w1 h1 where q: "cavlc_qp_delta h = (w1, h1)" by fastforce
  have "mb_written h1 h'" if "i_type h = I_16x16"
    using assms that write_blocks_written[of DCT_LUMA_AC 1 "[0..<16]" h1 _ h'] mb_written_refl[of h1]
    by (auto simp: write_luma_residual_def q Let_def simp del: upt.simps split: prod.splits if_splits)
  moreover have "mb_written h1 h'" if "i_type h \<noteq> I_16x16" "i_cbp_luma h \<noteq> 0 \<or> i_cbp_chroma h \<noteq> 0"
    using assms that luma_written[of 0 3 h1 _ h'] by (auto simp: write_luma_residual_def q Let_def split: prod.splits)
  moreover have "h' = h" if "i_type h \<noteq> I_16x16" "\<not> (i_cbp_luma h \<noteq> 0 \<or> i_cbp_chroma h \<noteq> 0)" using assms that by (simp add: write_luma_residual_def)
  ultimately show ?thesis using mb_written_trans[OF qp_delta_written[OF q]] mb_written_refl by blast
qed

lemma chroma_residual_written: "write_chroma_residual h = (ws, h') \<Longrightarrow> mb_written h h'"
  using write_blocks_written[of DCT_CHROMA_AC 1 "[16..<24]" h _ h'] mb_written_refl[of h]
  by (auto simp: write_chroma_residual_def Let_def simp del: upt.simps split: prod.splits if_splits)

lemma macroblock_written:
  assumes "x264_macroblock_write_cavlc h = (ws, h')"
  shows "mb_written h h'"
proof -
  obtain w1 h1 where l: "write_luma_residual h = (w1, h1)" by fastforce
  obtain w2 h2 where c: "write_chroma_residual h1 = (w2, h2)" by fastforce
  have "h' = h \<or> h' = h2" using assms unfolding x264_macroblock_write_cavlc_def Let_def l c prod.case by (cases "mb_i_offset (sh_i_type h)"; cases "i_type h = I_PCM") simp_all
  then show ?thesis using mb_written_refl mb_written_trans[OF luma_residual_written[OF l] chroma_residual_written[OF c]] by (elim disjE) simp_all
qed

end
