(* ===== verification/X264_Slice_Data.thy ===== *)
theory X264_Slice_Data
  imports X264_Mb_Cache
begin

text \<open>
  The macroblocks of a slice one after the other: the loop of \<^verbatim>\<open>x264_slice_write\<close> in \<^verbatim>\<open>apps/x264/src/encoder/encoder.c\<close> with variable-length codes, and the
  slice data syntax of the standard (7.3.4). A decoder derives the context of a macroblock from the
  macroblocks of the slice that it has decoded before.
\<close>

section \<open>The context of a macroblock\<close>

definition derive_context :: "mb_context \<Rightarrow> nat \<Rightarrow> nat \<Rightarrow> mb_result list \<Rightarrow> int \<Rightarrow> mb_context" where
  "derive_context cx first w rs qp =
     (let up = (if length rs \<ge> w then Some (rs ! (length rs - w)) else None);
          lf = (if (first + length rs) mod w \<noteq> 0 \<and> rs \<noteq> [] then Some (last rs) else None)
      in cx\<lparr>cx_modes := derive (- 1) mode_neighbours (map_option result_modes up) (map_option result_modes lf),
            cx_nz := derive 0x80 nz_neighbours (map_option result_nz up) (map_option result_nz lf), cx_qp := qp\<rparr>)"

section \<open>Invariants\<close>

text \<open>The cells of the caches that belong to no block and to no neighbour are never changed.\<close>

definition caches_ok :: "x264_mb \<Rightarrow> bool" where
  "caches_ok h \<longleftrightarrow> cache_ok h \<and> length (intra4x4_pred_mode h) = 48 \<and> (\<forall>m \<in> set (intra4x4_pred_mode h). - 1 \<le> m \<and> m \<le> 11) \<and>
     (\<forall>j < 48. j \<notin> set x264_scan8 \<and> j \<notin> fst ` set nz_neighbours \<longrightarrow> non_zero_count h ! j = 0) \<and>
     (\<forall>j < 48. j \<notin> set (take 16 x264_scan8) \<and> j \<notin> fst ` set mode_neighbours \<longrightarrow> intra4x4_pred_mode h ! j = 0)"

definition tables_ok :: "mb_tables \<Rightarrow> nat \<Rightarrow> nat \<Rightarrow> mb_result list \<Rightarrow> bool" where
  "tables_ok T n first rs \<longleftrightarrow> length (mb_type T) = n \<and> length (mb_intra4x4_pred_mode T) = n \<and> length (mb_non_zero_count T) = n \<and> first + length rs \<le> n \<and>
     (\<forall>k < length rs. nz_row (mb_non_zero_count T ! (first + k)) (rs ! k) \<and> mode_row (mb_intra4x4_pred_mode T ! (first + k)) (rs ! k))"

text \<open>What stays the same during a slice.\<close>

definition slice_const :: "x264_mb \<Rightarrow> slice_type_e \<times> bool \<times> bool \<times> bool \<times> bool \<times> int list" where
  "slice_const h = (sh_i_type h, sh_b_mbaff h, b_transform_8x8_mode h, b_direct8x8_inference h, b_interlaced h, i_fref h)"

section \<open>Loading\<close>

lemma set_store: "set (store val us l) \<subseteq> set l \<union> (\<lambda>u. val (snd u)) ` set us"
proof (induction us rule: rev_induct)
  case (snoc u us)
  have "store val (us @ [u]) l = (store val us l)[fst u := val (snd u)]" by (simp add: store_def case_prod_beta')
  then show ?case using snoc set_update_subset_insert[of "store val us l" "fst u" "val (snd u)"] by auto
qed (simp add: store_def)

lemma nz_sources:
  assumes "u \<in> set (load_top_nz ta @ load_left_nz la)"
  shows "snd u \<in> {Const 0, Const 0x80} \<or> ta \<and> (\<exists>i < 24. snd u = Top_MB i) \<or> la \<and> (\<exists>i < 24. snd u = Left_MB i)"
  using assms by (auto simp: load_top_nz_def load_left_nz_def split: if_splits)

lemma mode_sources:
  assumes "u \<in> set (load_top_modes ta @ load_left_modes la)"
  shows "snd u = Const (- 1) \<or> ta \<and> (\<exists>i < 8. snd u = Top_MB i) \<or> la \<and> (\<exists>i < 8. snd u = Left_MB i)"
  using assms by (auto simp: load_top_modes_def load_left_modes_def split: if_splits)

text \<open>The macroblock at the address \<open>first + length rs\<close> of a picture without fields, after the decoded macroblocks \<open>rs\<close>.\<close>

lemma cache_load_cells:
  fixes h :: x264_mb and T :: mb_tables and first w :: nat and rs :: "mb_result list"
  defines "xy \<equiv> first + length rs"
  defines "ta \<equiv> length rs \<ge> w" and "la \<equiv> xy mod w \<noteq> 0 \<and> rs \<noteq> []"
  defines "up \<equiv> xy - w" and "lf \<equiv> xy - 1"
  assumes w: "0 < w" and i: "\<not> b_interlaced h"
  shows "x264_macroblock_cache_load T (int first) (int w) (int (xy mod w)) (int (xy div w)) h =
    h\<lparr>i_mb_y := int (xy div w), type_above := (if xy \<ge> w then mb_type T ! up else type_above h),
      intra4x4_pred_mode := store (entry (mb_intra4x4_pred_mode T ! up) (mb_intra4x4_pred_mode T ! lf)) (load_top_modes ta @ load_left_modes la) (intra4x4_pred_mode h),
      non_zero_count := store (entry (mb_non_zero_count T ! up) (mb_non_zero_count T ! lf)) (load_top_nz ta @ load_left_nz la) (non_zero_count h)\<rparr>"
proof -
  have xy: "int (xy div w) * int w + int (xy mod w) = int xy" by (metis div_mult_mod_eq of_nat_add of_nat_mult)
  then have top: "(int (xy div w) - 1) * int w + int (xy mod w) = int xy - int w" by (simp add: left_diff_distrib)
  have t: "(int first \<le> int xy - int w) = ta" unfolding ta_def xy_def by linarith
  have l: "(0 < int (xy mod w) \<and> int first < int xy) = la" unfolding la_def xy_def by auto
  have n: "nat (int xy - int w) = up" "nat (int xy - 1) = lf" "(0 \<le> int xy - int w) = (xy \<ge> w)" unfolding up_def lf_def by simp_all
  show ?thesis unfolding x264_macroblock_cache_load_def Let_def if_not_P[OF i] xy top t l n store_append ..
qed

lemma cache_load_derived:
  assumes c: "caches_ok h" and T: "tables_ok T n first rs" and w: "0 < w" and i: "\<not> b_interlaced h"
    and h1: "h1 = x264_macroblock_cache_load T (int first) (int w) (int ((first + length rs) mod w)) (int ((first + length rs) div w)) h"
  shows "caches_ok h1" "\<forall>j < 48. j \<notin> set x264_scan8 \<longrightarrow> non_zero_count h1 ! j = cx_nz (derive_context cx first w rs qp) ! j"
    "\<forall>j < 48. j \<notin> set (take 16 x264_scan8) \<longrightarrow>
      x264_mb_pred_mode4x4_fix (intra4x4_pred_mode h1 ! j) = x264_mb_pred_mode4x4_fix (cx_modes (derive_context cx first w rs qp) ! j)"
    "slice_const h1 = slice_const h" "i_last_qp h1 = i_last_qp h"
proof -
  let ?xy = "first + length rs"
  define ta la where "ta \<longleftrightarrow> length rs \<ge> w" and "la \<longleftrightarrow> ?xy mod w \<noteq> 0 \<and> rs \<noteq> []"
  define nu nl mu ml where "nu = mb_non_zero_count T ! (?xy - w)" and "nl = mb_non_zero_count T ! (?xy - 1)"
    and "mu = mb_intra4x4_pred_mode T ! (?xy - w)" and "ml = mb_intra4x4_pred_mode T ! (?xy - 1)"
  define ru rl where "ru = rs ! (length rs - w)" and "rl = last rs"
  note e = h1[unfolded cache_load_cells[OF w i], folded ta_def la_def nu_def nl_def mu_def ml_def]
  have up: "nz_row nu ru \<and> mode_row mu ru" if ta
  proof -
    have "?xy - w = first + (length rs - w)" "length rs - w < length rs" using that w by (simp_all add: ta_def)
    then show ?thesis using T by (simp add: tables_ok_def nu_def mu_def ru_def)
  qed
  have lf: "nz_row nl rl \<and> mode_row ml rl" if la
  proof -
    have "rs \<noteq> []" using that by (simp add: la_def)
    then have "?xy - 1 = first + (length rs - 1)" "length rs - 1 < length rs" "rs ! (length rs - 1) = rl" by (cases rs; simp add: rl_def last_conv_nth)+
    then show ?thesis using T by (metis tables_ok_def nl_def ml_def)
  qed
  have len: "length (non_zero_count h) = 48" "length (intra4x4_pred_mode h) = 48" using c by (simp_all add: caches_ok_def cache_ok_def)
  have cx: "cx_nz (derive_context cx first w rs qp) = derive 0x80 nz_neighbours (if ta then Some (result_nz ru) else None) (if la then Some (result_nz rl) else None)"
    "cx_modes (derive_context cx first w rs qp) = derive (- 1) mode_neighbours (if ta then Some (result_modes ru) else None) (if la then Some (result_modes rl) else None)"
    by (simp_all add: derive_context_def Let_def ta_def la_def ru_def rl_def)
  have nz: "non_zero_count h1 = store (entry nu nl) (load_top_nz ta @ load_left_nz la) (non_zero_count h)"
    and md: "intra4x4_pred_mode h1 = store (entry mu ml) (load_top_modes ta @ load_left_modes la) (intra4x4_pred_mode h)" using e by simp_all
  show D: "\<forall>j < 48. j \<notin> set x264_scan8 \<longrightarrow> non_zero_count h1 ! j = cx_nz (derive_context cx first w rs qp) ! j"
  proof (intro allI impI)
    fix j assume j: "j < 48" "j \<notin> set x264_scan8"
    have "map_of (rev nz_neighbours) j = None \<Longrightarrow> non_zero_count h ! j = 0" using c j by (simp add: caches_ok_def map_of_eq_None_iff)
    then show "non_zero_count h1 ! j = cx_nz (derive_context cx first w rs qp) ! j" unfolding nz cx
      by (rule loaded_derived[where f = "\<lambda>x. x", OF nz_match[OF j] j(1) len(1)]) (use up lf in \<open>simp_all add: nz_row_def del: upt.simps\<close>)
  qed
  show "\<forall>j < 48. j \<notin> set (take 16 x264_scan8) \<longrightarrow>
      x264_mb_pred_mode4x4_fix (intra4x4_pred_mode h1 ! j) = x264_mb_pred_mode4x4_fix (cx_modes (derive_context cx first w rs qp) ! j)"
  proof (intro allI impI)
    fix j assume j: "j < 48" "j \<notin> set (take 16 x264_scan8)"
    have "map_of (rev mode_neighbours) j = None \<Longrightarrow> intra4x4_pred_mode h ! j = 0" using c j by (simp add: caches_ok_def map_of_eq_None_iff)
    then show "x264_mb_pred_mode4x4_fix (intra4x4_pred_mode h1 ! j) = x264_mb_pred_mode4x4_fix (cx_modes (derive_context cx first w rs qp) ! j)" unfolding md cx
      by (rule loaded_derived[where f = x264_mb_pred_mode4x4_fix, OF mode_match[OF j] j(1) len(2)]) (use up lf in \<open>simp_all add: mode_row_def\<close>)
  qed
  show "slice_const h1 = slice_const h" "i_last_qp h1 = i_last_qp h" unfolding e slice_const_def by simp_all
  have "nz_ok (entry nu nl (snd u))" if u: "u \<in> set (load_top_nz ta @ load_left_nz la)" for u
  proof -
    have "nz_ok (nu ! i)" if ta "i < 24" for i using up[OF that(1)] that(2) unfolding nz_row_def by (metis nth_mem)
    moreover have "nz_ok (nl ! i)" if la "i < 24" for i using lf[OF that(1)] that(2) unfolding nz_row_def by (metis nth_mem)
    ultimately show ?thesis using nz_sources[OF u] by (elim disjE conjE exE insertE emptyE) (simp_all add: entry_def)
  qed
  then have "\<forall>z \<in> (\<lambda>u. entry nu nl (snd u)) ` set (load_top_nz ta @ load_left_nz la). nz_ok z" by (simp only: ball_simps(9)) (intro ballI)
  moreover have "\<forall>z \<in> set (non_zero_count h). nz_ok z" using c unfolding caches_ok_def cache_ok_def by (elim conjE)
  ultimately have n: "\<forall>z \<in> set (non_zero_count h1). nz_ok z"
    using subsetD[OF set_store[of "entry nu nl" "load_top_nz ta @ load_left_nz la" "non_zero_count h"]] unfolding nz by (meson UnE)
  have "- 1 \<le> entry mu ml (snd u) \<and> entry mu ml (snd u) \<le> 11" if u: "u \<in> set (load_top_modes ta @ load_left_modes la)" for u
  proof -
    have "- 1 \<le> mu ! i \<and> mu ! i \<le> 11" if ta "i < 8" for i using up[OF that(1)] that(2) unfolding mode_row_def by (metis nth_mem)
    moreover have "- 1 \<le> ml ! i \<and> ml ! i \<le> 11" if la "i < 8" for i using lf[OF that(1)] that(2) unfolding mode_row_def by (metis nth_mem)
    ultimately show ?thesis using mode_sources[OF u] by (elim disjE conjE exE) (simp_all add: entry_def)
  qed
  then have m: "\<forall>m \<in> set (intra4x4_pred_mode h1). - 1 \<le> m \<and> m \<le> 11" using set_store[of "entry mu ml" "load_top_modes ta @ load_left_modes la" "intra4x4_pred_mode h"] c
    unfolding md caches_ok_def by blast
  have pn: "non_zero_count h1 ! j = 0" if j: "j < 48" "j \<notin> set x264_scan8" "j \<notin> fst ` set nz_neighbours" for j
    unfolding nz by (rule loaded_padding[OF nz_match[OF j(1,2)] _ j(3)]) (use c j len in \<open>simp_all add: caches_ok_def\<close>)
  have pm: "intra4x4_pred_mode h1 ! j = 0" if j: "j < 48" "j \<notin> set (take 16 x264_scan8)" "j \<notin> fst ` set mode_neighbours" for j
    unfolding md by (rule loaded_padding[OF mode_match[OF j(1,2)] _ j(3)]) (use c j len in \<open>simp_all add: caches_ok_def\<close>)
  show "caches_ok h1" unfolding caches_ok_def cache_ok_def using n m pn pm by (simp add: nz md len)
qed

section \<open>Analysis\<close>

definition IS_SKIP :: "mb_class_e \<Rightarrow> bool" where
  "IS_SKIP t \<longleftrightarrow> t = P_SKIP \<or> t = B_SKIP"

text \<open>
  What \<^verbatim>\<open>x264_macroblock_analyse\<close> and \<^verbatim>\<open>x264_macroblock_encode\<close> are relied on for: they decide about the macroblock in the cache and leave the neighbours and the
  parameters of the slice alone, and what they decide is a macroblock that the syntax can express, or a skipped one without coefficients.
\<close>

definition analysed :: "x264_mb \<Rightarrow> x264_mb \<Rightarrow> bool" where
  "analysed h0 h \<longleftrightarrow> slice_const h = slice_const h0 \<and> i_last_qp h = i_last_qp h0 \<and>
     cache_ok h \<and> length (intra4x4_pred_mode h) = 48 \<and> (\<forall>m \<in> set (intra4x4_pred_mode h). - 1 \<le> m \<and> m \<le> 11) \<and>
     (\<forall>j < 48. j \<notin> set x264_scan8 \<longrightarrow> non_zero_count h ! j = non_zero_count h0 ! j) \<and>
     (\<forall>j < 48. j \<notin> set (take 16 x264_scan8) \<longrightarrow> intra4x4_pred_mode h ! j = intra4x4_pred_mode h0 ! j) \<and>
     (if IS_SKIP (i_type h)
      then sh_i_type h \<noteq> SLICE_TYPE_I \<and> i_cbp_luma h = 0 \<and> i_cbp_chroma h = 0 \<and> (\<forall>i < 24. non_zero_count h ! (x264_scan8 ! i) = 0)
      else mb_ok h)"

text \<open>The context of a slice, before the neighbours are filled in, of a picture without fields.\<close>

definition slice_context :: "mb_context \<Rightarrow> x264_mb \<Rightarrow> bool" where
  "slice_context cx h \<longleftrightarrow> cx_slice cx = sh_i_type h \<and> \<not> cx_field cx \<and> \<not> sh_b_mbaff h \<and> \<not> b_interlaced h \<and>
     cx_transform_8x8_mode cx = b_transform_8x8_mode h \<and> cx_direct_8x8_inference cx = b_direct8x8_inference h \<and>
     (sh_i_type h \<noteq> SLICE_TYPE_I \<longrightarrow> cx_num_ref cx = i_fref h)"

lemma slice_context_const: "slice_const h = slice_const h' \<Longrightarrow> slice_context cx h = slice_context cx h'"
  by (simp add: slice_const_def slice_context_def)

lemma caches_analysed: "caches_ok h0 \<Longrightarrow> analysed h0 h \<Longrightarrow> caches_ok h"
  by (simp add: caches_ok_def analysed_def)

lemma derived_blocks: "j \<in> set x264_scan8 \<Longrightarrow> derive u nz_neighbours up lf ! j = 0"
proof -
  assume j: "j \<in> set x264_scan8"
  have "list_all (\<lambda>j. j < 48 \<and> map_of (rev nz_neighbours) j = None) x264_scan8" unfolding neighbour_numbers by code_simp
  then have "j < 48" "map_of (rev nz_neighbours) j = None" using j unfolding list_all_iff by blast+
  then show "derive u nz_neighbours up lf ! j = 0" by (simp add: derive_def nth_store del: replicate.simps)
qed

lemma mb_ok_type: "mb_ok h \<Longrightarrow> \<not> is_intra h \<Longrightarrow> sh_i_type h \<noteq> SLICE_TYPE_I"
  by (auto simp: mb_ok_def split: if_splits)

lemma analysed_context:
  assumes c: "caches_ok h" and T: "tables_ok T n first rs" and w: "0 < w" and cx: "slice_context cx h"
    and h1: "h1 = x264_macroblock_cache_load T (int first) (int w) (int ((first + length rs) mod w)) (int ((first + length rs) div w)) h"
    and g: "analysed h1 g" "mb_ok g"
  shows "context_agrees (derive_context cx first w rs (i_last_qp h)) g"
proof -
  let ?cx = "derive_context cx first w rs (i_last_qp h)"
  have i: "\<not> b_interlaced h" using cx by (simp add: slice_context_def)
  note l = cache_load_derived[OF c T w i h1]
  note ln = l(2)[where cx = cx and qp = "i_last_qp h"] and lm = l(3)[where cx = cx and qp = "i_last_qp h"]
  have const: "slice_const g = slice_const h" and q: "i_last_qp g = i_last_qp h" using g(1) l(4,5) by (simp_all add: analysed_def)
  have cxg: "slice_context cx g" using cx slice_context_const[OF const] by simp
  have base: "cx_slice ?cx = cx_slice cx" "cx_field ?cx = cx_field cx" "cx_transform_8x8_mode ?cx = cx_transform_8x8_mode cx"
    "cx_direct_8x8_inference ?cx = cx_direct_8x8_inference cx" "cx_num_ref ?cx = cx_num_ref cx" "cx_qp ?cx = i_last_qp h"
    "length (cx_nz ?cx) = 48" "length (cx_modes ?cx) = 48" by (simp_all add: derive_context_def Let_def)
  have len: "length (non_zero_count g) = 48" "length (intra4x4_pred_mode g) = 48" using g(1) by (simp_all add: analysed_def cache_ok_def)
  have nz: "nz_agree (cx_nz ?cx) (non_zero_count g) (((!) x264_scan8) ` set (coded_luma g) \<union> chroma_cells g)"
    unfolding nz_agree_def
  proof (intro conjI allI impI base(7) len(1))
    fix j assume j: "j < 48" "j \<notin> ((!) x264_scan8) ` set (coded_luma g) \<union> chroma_cells g"
    show "cx_nz ?cx ! j = non_zero_count g ! j"
    proof (cases "j \<in> set x264_scan8")
      case True
      have "cx_nz (decoder_context g) ! j = non_zero_count g ! j" using context_nz[OF g(2)] j by (simp add: nz_agree_def)
      moreover have "cx_nz (decoder_context g) ! j = 0" using True j(1) by (simp add: decoder_context_def del: upt.simps)
      moreover have "cx_nz ?cx ! j = 0" using derived_blocks[OF True] by (simp add: derive_context_def Let_def)
      ultimately show ?thesis by simp
    qed (use ln j(1) g(1) in \<open>simp add: analysed_def\<close>)
  qed
  have md: "modes_agree (cx_modes ?cx) (intra4x4_pred_mode g) (\<Union> (mode_cells b8 ` set (mode_blocks b8)))" for b8
    unfolding modes_agree_def
  proof (intro conjI allI impI base(8) len(2))
    fix j assume j: "j < 48" "j \<notin> \<Union> (mode_cells b8 ` set (mode_blocks b8))"
    then have n: "j \<notin> set (take 16 x264_scan8)" using mode_cells_cover[of j b8] by blast
    then have "intra4x4_pred_mode g ! j = intra4x4_pred_mode h1 ! j" using g(1) j(1) by (simp add: analysed_def)
    then show "x264_mb_pred_mode4x4_fix (cx_modes ?cx ! j) = x264_mb_pred_mode4x4_fix (intra4x4_pred_mode g ! j)" using lm j(1) n by simp
  qed
  show ?thesis unfolding context_agrees_def base(1-6) using nz md cxg q mb_ok_type[OF g(2)] by (simp add: slice_context_def)
qed

section \<open>Saving\<close>

lemma tables_save:
  assumes "tables_ok T n first rs" "first + length rs < n" "nz_row nz r" "mode_row md r"
    and "length (mb_type T') = length (mb_type T)" "mb_intra4x4_pred_mode T' = (mb_intra4x4_pred_mode T)[first + length rs := md]"
    "mb_non_zero_count T' = (mb_non_zero_count T)[first + length rs := nz]"
  shows "tables_ok T' n first (rs @ [r])"
  using assms by (auto simp: tables_ok_def nth_append nth_list_update less_Suc_eq)

lemma cache_save_eq:
  assumes "x264_macroblock_cache_save xy (T, h) = (T', h')" "i_type h \<noteq> I_PCM"
  shows "length (mb_type T') = length (mb_type T)" "mb_non_zero_count T' = (mb_non_zero_count T)[xy := map ((!) (non_zero_count h)) nz_save_cells]"
    "mb_intra4x4_pred_mode T' = (mb_intra4x4_pred_mode T)[xy :=
       (if i_type h = I_4x4 \<or> i_type h = I_8x8 then map ((!) (intra4x4_pred_mode h)) mode_save_cells @ [0] else replicate 8 2)]"
    "non_zero_count h' = non_zero_count h" "intra4x4_pred_mode h' = intra4x4_pred_mode h" "slice_const h' = slice_const h"
    "i_last_qp h' = (if has_residual h then i_qp h else i_last_qp h)"
  using assms by (auto simp: x264_macroblock_cache_save_def x264_mb_type_fix_def Let_def slice_const_def has_residual_def split: if_splits)

lemma save_caches: "non_zero_count h' = non_zero_count h \<Longrightarrow> intra4x4_pred_mode h' = intra4x4_pred_mode h \<Longrightarrow> caches_ok h' = caches_ok h"
  by (simp add: caches_ok_def cache_ok_def)

section \<open>The loop over the macroblocks\<close>

definition next_mb :: "bool \<Rightarrow> nat \<Rightarrow> nat \<times> nat \<Rightarrow> nat \<times> nat" where
  "next_mb mbaff w = (\<lambda>(i_mb_x, i_mb_y).
     let (i_mb_x, i_mb_y) =
           (if mbaff then let i_mb_x = i_mb_x + (i_mb_y AND 1) in (i_mb_x, i_mb_y XOR of_bool (i_mb_x < w)) else (i_mb_x + 1, i_mb_y))
     in if i_mb_x = w then (0, i_mb_y + 1) else (i_mb_x, i_mb_y))"

record slice_loop_t =
  lp_tables :: mb_tables
  lp_mb :: x264_mb
  lp_pos :: "nat \<times> nat"
  i_skip :: nat

text \<open>
  The analysis and the encoding of a macroblock are a function \<open>analyse\<close> of its address and of the loaded cache. A step returns the calls of the bit
  writer; filtering, statistics and rate control are left out.
\<close>

type_synonym analysis = "nat \<Rightarrow> x264_mb \<Rightarrow> x264_mb"

definition mb_address :: "nat \<Rightarrow> slice_loop_t \<Rightarrow> nat" where
  "mb_address w st = fst (lp_pos st) + snd (lp_pos st) * w"

definition analysed_mb :: "analysis \<Rightarrow> nat \<Rightarrow> nat \<Rightarrow> slice_loop_t \<Rightarrow> x264_mb" where
  "analysed_mb analyse first w st =
     analyse (mb_address w st)
       (x264_macroblock_cache_load (lp_tables st) (int first) (int w) (int (fst (lp_pos st))) (int (snd (lp_pos st))) (lp_mb st))"

definition write_mb :: "nat \<Rightarrow> x264_mb \<Rightarrow> calls \<times> x264_mb \<times> nat" where
  "write_mb skip h =
     (if IS_SKIP (i_type h) then ([], h, skip + 1)
      else let (run, skip) = (if sh_i_type h \<noteq> SLICE_TYPE_I then ([put_ue (int skip)], 0) else ([], skip));
               (ws, h) = x264_macroblock_write_cavlc h
           in (run @ ws, h, skip))"

definition slice_step :: "analysis \<Rightarrow> nat \<Rightarrow> nat \<Rightarrow> slice_loop_t \<Rightarrow> calls \<times> slice_loop_t" where
  "slice_step analyse first w st =
     (let (ws, h, skip) = write_mb (i_skip st) (analysed_mb analyse first w st);
          (T, h) = x264_macroblock_cache_save (mb_address w st) (lp_tables st, h)
      in (ws, \<lparr>lp_tables = T, lp_mb = h, lp_pos = next_mb (sh_b_mbaff h) w (lp_pos st), i_skip = skip\<rparr>))"

fun slice_loop :: "nat \<Rightarrow> analysis \<Rightarrow> nat \<Rightarrow> nat \<Rightarrow> nat \<Rightarrow> slice_loop_t \<Rightarrow> (calls \<times> slice_loop_t) option" where
  "slice_loop fuel analyse first i_last w st =
     (if mb_address w st < i_last
      then case fuel of
             0 \<Rightarrow> None
           | Suc n \<Rightarrow> let (ws, st) = slice_step analyse first w st
                      in map_option (\<lambda>(ws', st). (ws @ ws', st)) (slice_loop n analyse first i_last w st)
      else Some ([], st))"

declare slice_loop.simps [simp del]

definition last_run :: "slice_loop_t \<Rightarrow> calls" where
  "last_run st = (if i_skip st > 0 then [put_ue (int (i_skip st))] else [])"

text \<open>The macroblocks that a decoder has to find.\<close>

definition mb_result_of :: "x264_mb \<Rightarrow> mb_result" where
  "mb_result_of h = (if IS_SKIP (i_type h) then Skipped else Coded (syntax_of h (snd (x264_macroblock_write_cavlc h))))"

fun slice_results :: "nat \<Rightarrow> analysis \<Rightarrow> nat \<Rightarrow> nat \<Rightarrow> nat \<Rightarrow> slice_loop_t \<Rightarrow> mb_result list" where
  "slice_results fuel analyse first i_last w st =
     (if mb_address w st < i_last
      then case fuel of
             0 \<Rightarrow> []
           | Suc n \<Rightarrow> mb_result_of (analysed_mb analyse first w st) # slice_results n analyse first i_last w (snd (slice_step analyse first w st))
      else [])"

declare slice_results.simps [simp del]

section \<open>The syntax of slice data\<close>

definition more_rbsp_data :: "bool list \<Rightarrow> bool" where
  "more_rbsp_data bs \<longleftrightarrow> True \<in> set (tl bs)"

fun slice_data :: "nat \<Rightarrow> mb_context \<Rightarrow> nat \<Rightarrow> nat \<Rightarrow> mb_result list \<Rightarrow> int \<Rightarrow> mb_result list parser" where
  "slice_data 0 cx first w rs qp bs = None"
| "slice_data (Suc n) cx first w rs qp bs =
     (case (if cx_slice cx \<noteq> SLICE_TYPE_I then get_ue else preturn 0) bs of
        None \<Rightarrow> None
      | Some (run, bs) \<Rightarrow>
          let rs = rs @ replicate (nat run) Skipped
          in if run > 0 \<and> \<not> more_rbsp_data bs then Some (rs, bs)
             else case macroblock_layer (derive_context cx first w rs qp) bs of
                    None \<Rightarrow> None
                  | Some (m, bs) \<Rightarrow>
                      let rs = rs @ [Coded m]
                      in if more_rbsp_data bs then slice_data n cx first w rs (ms_qp m) bs else Some (rs, bs))"

declare slice_data.simps(2) [simp del]

section \<open>One step\<close>

lemma next_mb_address:
  assumes "0 < w"
  shows "next_mb False w (xy mod w, xy div w) = ((xy + 1) mod w, (xy + 1) div w)"
proof (cases "xy mod w + 1 = w")
  case True
  then have "(xy + 1) mod w = 0" by (metis mod_Suc Suc_eq_plus1)
  moreover have "(xy + 1) div w = xy div w + 1" using True by (metis div_Suc Suc_eq_plus1 calculation)
  ultimately show ?thesis using True by (simp add: next_mb_def Let_def)
next
  case False
  then have "(xy + 1) mod w = xy mod w + 1" by (metis mod_Suc Suc_eq_plus1)
  moreover have "(xy + 1) div w = xy div w" using False by (metis div_Suc Suc_eq_plus1 calculation nat.simps(3))
  ultimately show ?thesis using False by (simp add: next_mb_def Let_def)
qed

text \<open>The state of the loop at the macroblock after \<open>rs\<close>.\<close>

definition loop_ok :: "mb_context \<Rightarrow> nat \<Rightarrow> nat \<Rightarrow> nat \<Rightarrow> mb_result list \<Rightarrow> slice_loop_t \<Rightarrow> bool" where
  "loop_ok cx n first w rs st \<longleftrightarrow> lp_pos st = ((first + length rs) mod w, (first + length rs) div w) \<and> tables_ok (lp_tables st) n first rs \<and>
     caches_ok (lp_mb st) \<and> slice_context cx (lp_mb st) \<and> 0 \<le> i_last_qp (lp_mb st) \<and> i_last_qp (lp_mb st) \<le> 51"

definition analysis_ok :: "mb_context \<Rightarrow> analysis \<Rightarrow> bool" where
  "analysis_ok cx analyse \<longleftrightarrow>
     (\<forall>xy h. caches_ok h \<and> slice_context cx h \<and> 0 \<le> i_last_qp h \<and> i_last_qp h \<le> 51 \<longrightarrow> analysed h (analyse xy h))"

lemma analysed_mb_ok:
  assumes st: "loop_ok cx n first w rs st" and w: "0 < w" and a: "analysis_ok cx analyse" and g: "g = analysed_mb analyse first w st"
  shows "mb_address w st = first + length rs" "caches_ok g" "slice_const g = slice_const (lp_mb st)" "i_last_qp g = i_last_qp (lp_mb st)"
    "\<not> IS_SKIP (i_type g) \<longrightarrow> mb_ok g \<and> context_agrees (derive_context cx first w rs (i_last_qp (lp_mb st))) g"
    "IS_SKIP (i_type g) \<longrightarrow> sh_i_type g \<noteq> SLICE_TYPE_I \<and> \<not> has_residual g \<and> (\<forall>i < 24. non_zero_count g ! (x264_scan8 ! i) = 0)"
proof -
  note s = st[unfolded loop_ok_def]
  define h1 where "h1 = x264_macroblock_cache_load (lp_tables st) (int first) (int w) (int ((first + length rs) mod w)) (int ((first + length rs) div w)) (lp_mb st)"
  show xy: "mb_address w st = first + length rs" using s by (simp add: mb_address_def)
  have ge: "g = analyse (first + length rs) h1" using s xy by (simp add: g analysed_mb_def h1_def)
  have c: "caches_ok (lp_mb st)" and T: "tables_ok (lp_tables st) n first rs" and cx: "slice_context cx (lp_mb st)" using s by simp_all
  have i: "\<not> b_interlaced (lp_mb st)" using cx by (simp add: slice_context_def)
  note l = cache_load_derived[OF c T w i h1_def]
  have an: "analysed h1 g" unfolding ge using a l(1,4,5) s slice_context_const[OF l(4)] by (simp add: analysis_ok_def)
  show "caches_ok g" by (rule caches_analysed[OF l(1) an])
  show "slice_const g = slice_const (lp_mb st)" "i_last_qp g = i_last_qp (lp_mb st)" using an l(4,5) by (simp_all add: analysed_def)
  show "\<not> IS_SKIP (i_type g) \<longrightarrow> mb_ok g \<and> context_agrees (derive_context cx first w rs (i_last_qp (lp_mb st))) g"
    using an analysed_context[OF c T w cx h1_def an] by (simp add: analysed_def)
  show "IS_SKIP (i_type g) \<longrightarrow> sh_i_type g \<noteq> SLICE_TYPE_I \<and> \<not> has_residual g \<and> (\<forall>i < 24. non_zero_count g ! (x264_scan8 ! i) = 0)"
    using an by (auto simp: analysed_def has_residual_def IS_SKIP_def)
qed

lemma mb_ok_pcm: "mb_ok h \<Longrightarrow> i_type h \<noteq> I_PCM"
  by (auto simp: mb_ok_def is_intra_def inter_ok_def split: if_splits)

lemma save_step:
  assumes st: "loop_ok cx n first w rs st" and w: "0 < w" and n: "first + length rs < n" and g: "slice_const g = slice_const (lp_mb st)" "i_type g \<noteq> I_PCM" "caches_ok g"
    and rows: "nz_row (map ((!) (non_zero_count g)) nz_save_cells) r"
      "mode_row (if i_type g = I_4x4 \<or> i_type g = I_8x8 then map ((!) (intra4x4_pred_mode g)) mode_save_cells @ [0] else replicate 8 2) r"
    and qp: "0 \<le> (if has_residual g then i_qp g else i_last_qp g)" "(if has_residual g then i_qp g else i_last_qp g) \<le> 51"
    and s: "x264_macroblock_cache_save (mb_address w st) (lp_tables st, g) = (T, h)"
  shows "loop_ok cx n first w (rs @ [r]) \<lparr>lp_tables = T, lp_mb = h, lp_pos = next_mb (sh_b_mbaff h) w (lp_pos st), i_skip = k\<rparr>"
    "i_last_qp h = (if has_residual g then i_qp g else i_last_qp g)"
proof -
  note l = st[unfolded loop_ok_def]
  have xy: "mb_address w st = first + length rs" using l by (simp add: mb_address_def)
  note e = cache_save_eq[OF s g(2), unfolded xy]
  show q: "i_last_qp h = (if has_residual g then i_qp g else i_last_qp g)" by (rule e(7))
  have T: "tables_ok T n first (rs @ [r])" using l by (intro tables_save[OF _ n rows e(1,3,2)]) simp
  have c: "caches_ok h" using save_caches[OF e(4,5)] g(3) by simp
  have const: "slice_const h = slice_const (lp_mb st)" using e(6) g(1) by simp
  have cx: "slice_context cx h" using l slice_context_const[OF const] by simp
  then have "\<not> sh_b_mbaff h" by (simp add: slice_context_def)
  then have "next_mb (sh_b_mbaff h) w (lp_pos st) = ((first + length (rs @ [r])) mod w, (first + length (rs @ [r])) div w)"
    using l next_mb_address[OF w, of "first + length rs"] by simp
  then show "loop_ok cx n first w (rs @ [r]) \<lparr>lp_tables = T, lp_mb = h, lp_pos = next_mb (sh_b_mbaff h) w (lp_pos st), i_skip = k\<rparr>"
    unfolding loop_ok_def using T c cx qp q by simp
qed

lemma step_skip:
  assumes st: "loop_ok cx n first w rs st" and w: "0 < w" and a: "analysis_ok cx analyse" and n: "first + length rs < n"
    and g: "g = analysed_mb analyse first w st" "IS_SKIP (i_type g)" and s: "slice_step analyse first w st = (ws, st')"
  shows "ws = []" "i_skip st' = i_skip st + 1" "loop_ok cx n first w (rs @ [Skipped]) st'" "i_last_qp (lp_mb st') = i_last_qp (lp_mb st)" "cx_slice cx \<noteq> SLICE_TYPE_I"
proof -
  note m = analysed_mb_ok[OF st w a g(1)]
  obtain T h where sv: "x264_macroblock_cache_save (mb_address w st) (lp_tables st, g) = (T, h)" by fastforce
  have wm: "write_mb (i_skip st) g = ([], g, i_skip st + 1)" using g(2) by (simp add: write_mb_def)
  have e: "ws = []" "st' = \<lparr>lp_tables = T, lp_mb = h, lp_pos = next_mb (sh_b_mbaff h) w (lp_pos st), i_skip = i_skip st + 1\<rparr>"
    using s unfolding slice_step_def g(1)[symmetric] wm by (simp_all add: sv)
  have t: "i_type g \<noteq> I_PCM" "\<not> (i_type g = I_4x4 \<or> i_type g = I_8x8)" using g(2) by (auto simp: IS_SKIP_def)
  have z: "\<not> has_residual g" "\<forall>i < 24. non_zero_count g ! (x264_scan8 ! i) = 0" using m(6) g(2) by simp_all
  have "map (\<lambda>i. non_zero_count g ! scan8 i) [0..<24] = replicate 24 0" using z(2) by (intro replicate_eqI) (auto simp del: upt.simps)
  then have "nz_row (map ((!) (non_zero_count g)) nz_save_cells) Skipped"
    using m(2) by (intro saved_nz) (simp_all add: caches_ok_def cache_ok_def result_nz_def del: upt.simps replicate.simps)
  moreover have "mode_row (replicate 8 2) Skipped" by (rule saved_flat) (simp add: result_modes_def)
  ultimately have r: "loop_ok cx n first w (rs @ [Skipped]) st'" "i_last_qp h = i_last_qp g"
    using save_step[where r = Skipped, OF st w n m(3) t(1) m(2) _ _ _ _ sv] t(2) z(1) m(4) st unfolding e(2) by (simp_all add: loop_ok_def)
  show "ws = []" "i_skip st' = i_skip st + 1" "loop_ok cx n first w (rs @ [Skipped]) st'" "i_last_qp (lp_mb st') = i_last_qp (lp_mb st)"
    using e r m(4) by simp_all
  show "cx_slice cx \<noteq> SLICE_TYPE_I" using m(3,6) g(2) st by (simp add: loop_ok_def slice_context_def slice_const_def)
qed

lemma step_coded:
  assumes st: "loop_ok cx n first w rs st" and w: "0 < w" and a: "analysis_ok cx analyse" and n: "first + length rs < n"
    and g: "g = analysed_mb analyse first w st" "\<not> IS_SKIP (i_type g)" and s: "slice_step analyse first w st = (ws, st')"
    and wr: "x264_macroblock_write_cavlc g = (wm, g')"
  shows "ws = (if cx_slice cx \<noteq> SLICE_TYPE_I then [put_ue (int (i_skip st))] else []) @ wm"
    "i_skip st' = (if cx_slice cx \<noteq> SLICE_TYPE_I then 0 else i_skip st)"
    "loop_ok cx n first w (rs @ [Coded (syntax_of g g')]) st'" "i_last_qp (lp_mb st') = ms_qp (syntax_of g g')"
proof -
  note m = analysed_mb_ok[OF st w a g(1)]
  let ?r = "Coded (syntax_of g g')"
  have ok: "mb_ok g" using m(5) g(2) by simp
  have ty: "sh_i_type g = cx_slice cx" using m(3) st by (simp add: loop_ok_def slice_context_def slice_const_def)
  obtain T h where sv: "x264_macroblock_cache_save (mb_address w st) (lp_tables st, g') = (T, h)" by fastforce
  define k where "k = (if cx_slice cx \<noteq> SLICE_TYPE_I then 0 else i_skip st)"
  have wm: "write_mb (i_skip st) g = ((if cx_slice cx \<noteq> SLICE_TYPE_I then [put_ue (int (i_skip st))] else []) @ wm, g', k)"
    using g(2) ty wr by (simp add: write_mb_def k_def)
  have e: "ws = (if cx_slice cx \<noteq> SLICE_TYPE_I then [put_ue (int (i_skip st))] else []) @ wm"
    "st' = \<lparr>lp_tables = T, lp_mb = h, lp_pos = next_mb (sh_b_mbaff h) w (lp_pos st), i_skip = k\<rparr>"
    using s unfolding slice_step_def g(1)[symmetric] wm by (simp_all add: sv)
  note mw = macroblock_written[OF wr, unfolded mb_written_def]
  note f = erased_fields[OF conjunct1[OF mw]]
  have const: "slice_const g' = slice_const (lp_mb st)" using m(3) f by (simp add: slice_const_def)
  have c: "caches_ok g'" using m(2) mw f(11) by (simp add: caches_ok_def cache_ok_def nz_kept_def)
  have res: "has_residual g' = has_residual g" using f by (simp add: has_residual_def)
  have v: "ms_nz (syntax_of g g') = map (\<lambda>i. non_zero_count g' ! scan8 i) [0..<24]" "ms_pred (syntax_of g g') = pred_value g"
    "ms_qp (syntax_of g g') = (if has_residual g then i_qp g' else i_last_qp g)" by (simp_all add: syntax_of_def del: upt.simps)
  have nz: "nz_row (map ((!) (non_zero_count g')) nz_save_cells) ?r"
    by (rule saved_nz) (use c v(1) in \<open>simp_all add: caches_ok_def cache_ok_def result_nz_def del: upt.simps\<close>)
  have md: "mode_row (if i_type g' = I_4x4 \<or> i_type g' = I_8x8 then map ((!) (intra4x4_pred_mode g')) mode_save_cells @ [0] else replicate 8 2) ?r"
  proof (cases "i_type g = I_4x4 \<or> i_type g = I_8x8")
    case True
    then have "is_intra g" by (auto simp: is_intra_def)
    then have "intra_ok g" "length (intra4x4_pred_mode g) = 48" "ms_pred (syntax_of g g') = intra_value g" using ok v(2) by (simp_all add: mb_ok_def pred_value_def)
    then show ?thesis unfolding f(7,11) if_P[OF True] using True by (intro saved_modes[OF _ _ True refl])
  next
    case False
    then have "result_modes ?r = replicate 16 2" unfolding result_modes_def mb_result.case v(2)
      by (auto simp: pred_value_def is_intra_def intra_value_def inter_value_def split: mb_pred.splits if_splits simp del: replicate.simps)
    then show ?thesis unfolding f(7) if_not_P[OF False] by (rule saved_flat)
  qed
  have "0 \<le> i_qp g" "i_qp g \<le> 51" "0 \<le> i_last_qp g" "i_last_qp g \<le> 51" using ok by (simp_all add: mb_ok_def)
  then have q: "0 \<le> (if has_residual g' then i_qp g' else i_last_qp g')" "(if has_residual g' then i_qp g' else i_last_qp g') \<le> 51" using mw f(10) by auto
  have "i_type g' \<noteq> I_PCM" using mb_ok_pcm[OF ok] f(7) by simp
  note r = save_step[OF st w n const this c nz md q sv]
  show "ws = (if cx_slice cx \<noteq> SLICE_TYPE_I then [put_ue (int (i_skip st))] else []) @ wm" "i_skip st' = (if cx_slice cx \<noteq> SLICE_TYPE_I then 0 else i_skip st)"
    "loop_ok cx n first w (rs @ [?r]) st'" using e r(1) by (simp_all add: k_def)
  show "i_last_qp (lp_mb st') = ms_qp (syntax_of g g')" using e(2) r(2) v(3) res f(10) by simp
qed

section \<open>All steps\<close>

lemma macroblock_layer_Nil: "\<not> cx_field cx \<Longrightarrow> macroblock_layer cx [] = None"
  by (simp add: macroblock_layer_def pwhen_def get_mb_pred_def pbind_def get_uen_def read_ue_def read_u_def)

lemma read_ue_Nil: "get_ue [] = None"
  by (simp add: get_ue_def read_ue_def read_u_def)

lemma not_more: "\<not> more_rbsp_data (True # replicate z False)"
  by (simp add: more_rbsp_data_def)

lemma more: "bs \<noteq> [] \<Longrightarrow> more_rbsp_data (bs @ cs @ True # replicate z False)" "bs \<noteq> [] \<Longrightarrow> more_rbsp_data (bs @ True # replicate z False)"
  by (cases bs; simp add: more_rbsp_data_def)+

lemma run_codes:
  assumes "int k < 2 ^ 31 - 1"
  obtains c where "writes (seqR [put_ue (int k)]) c" "c \<noteq> []" "\<forall>rest. get_ue (c @ rest) = Some (int k, rest)"
proof -
  have "codes (put_ue (int k)) get_ue (int k)" using assms by (intro codes_ue) simp_all
  then obtain c where c: "writes (put_ue (int k)) c" "\<forall>rest. get_ue (c @ rest) = Some (int k, rest)" by (auto simp: codes_def)
  have "c \<noteq> []"
  proof
    assume "c = []"
    then show False using spec[OF c(2), of "[]"] read_ue_Nil by simp
  qed
  then show thesis using that c by (simp only: writes_single)
qed

text \<open>The parser at a run of \<open>k\<close> skipped macroblocks and a macroblock.\<close>

lemma slice_data_mb:
  assumes run: "(if cx_slice cx \<noteq> SLICE_TYPE_I then get_ue else preturn 0) (c @ bm @ rest) = Some (int k, bm @ rest)"
    and m: "macroblock_layer (derive_context cx first w (rs @ replicate k Skipped) qp) (bm @ rest) = Some (m, rest)"
    and rest: "rest = bits @ True # replicate z False" "bm \<noteq> []"
  shows "slice_data (Suc n) cx first w rs qp (c @ bm @ rest) =
    (if bits \<noteq> [] then slice_data n cx first w (rs @ replicate k Skipped @ [Coded m]) (ms_qp m) rest else Some (rs @ replicate k Skipped @ [Coded m], rest))"
proof -
  have a: "more_rbsp_data (bm @ rest)" unfolding rest(1) by (rule more(1)[OF rest(2)])
  have b: "more_rbsp_data rest \<longleftrightarrow> bits \<noteq> []" unfolding rest(1) using more(2)[of bits z] not_more[of z] by (cases "bits = []") simp_all
  show ?thesis unfolding slice_data.simps(2) run using a b m by (simp add: Let_def)
qed

lemma slice_data_last_run:
  assumes "cx_slice cx \<noteq> SLICE_TYPE_I" "get_ue (c @ True # replicate z False) = Some (int k, True # replicate z False)" "0 < k"
  shows "slice_data (Suc n) cx first w rs qp (c @ True # replicate z False) = Some (rs @ replicate k Skipped, True # replicate z False)"
  unfolding slice_data.simps(2) using assms not_more[of z] by (simp add: Let_def)

lemma length_Suc: "c \<noteq> [] \<Longrightarrow> length (c @ bs) \<le> m \<Longrightarrow> \<exists>m'. m = Suc m' \<and> length bs \<le> m'"
  by (cases m; cases c) auto

lemma macroblock_bits:
  assumes "mb_ok g" "context_agrees cx g" "\<not> cx_field cx" "x264_macroblock_write_cavlc g = (wm, g')"
  obtains bm where "writes (seqR wm) bm" "bm \<noteq> []" "\<forall>rest. macroblock_layer cx (bm @ rest) = Some (syntax_of g g', rest)"
proof -
  obtain bm where b: "writes (seqR wm) bm" "\<forall>rest. macroblock_layer cx (bm @ rest) = Some (syntax_of g g', rest)"
    using codes_macroblock[OF assms(1,2,4)] by (auto simp: codes_def)
  have "bm \<noteq> []"
  proof
    assume "bm = []"
    then show False using spec[OF b(2), of "[]"] macroblock_layer_Nil[OF assms(3)] by simp
  qed
  then show thesis using that b by blast
qed

definition loop_codes :: "mb_context \<Rightarrow> nat \<Rightarrow> nat \<Rightarrow> mb_result list \<Rightarrow> int \<Rightarrow> calls \<Rightarrow> bool \<Rightarrow> mb_result list \<Rightarrow> bool" where
  "loop_codes cx first w rs qp ws nil rs' \<longleftrightarrow> (\<exists>bits. writes (seqR ws) bits \<and> (bits = [] \<longleftrightarrow> nil) \<and>
     (\<not> nil \<longrightarrow> (\<forall>z m. length bits \<le> m \<longrightarrow>
        slice_data m cx first w rs qp (bits @ True # replicate z False) = Some (rs', True # replicate z False))))"

text \<open>The bits of a run and a macroblock in front of those that follow.\<close>

lemma loop_codes_mb:
  assumes run: "cx_slice cx = SLICE_TYPE_I \<longrightarrow> k = 0" "int k < 2 ^ 31 - 1" and f: "\<not> cx_field cx"
    and mb: "mb_ok g" "context_agrees (derive_context cx first w (rs @ replicate k Skipped) qp) g" "x264_macroblock_write_cavlc g = (wm, g')"
    and ih: "loop_codes cx first w (rs @ replicate k Skipped @ [Coded (syntax_of g g')]) (ms_qp (syntax_of g g')) ws nil rs'"
    and e: "nil \<longrightarrow> rs' = rs @ replicate k Skipped @ [Coded (syntax_of g g')]"
  shows "loop_codes cx first w rs qp (((if cx_slice cx \<noteq> SLICE_TYPE_I then [put_ue (int k)] else []) @ wm) @ ws) False rs'"
proof -
  have f': "\<not> cx_field (derive_context cx first w (rs @ replicate k Skipped) qp)" using f by (simp add: derive_context_def Let_def)
  obtain bm where bm: "writes (seqR wm) bm" "bm \<noteq> []"
    "\<forall>rest. macroblock_layer (derive_context cx first w (rs @ replicate k Skipped) qp) (bm @ rest) = Some (syntax_of g g', rest)"
    by (rule macroblock_bits[OF mb(1,2) f' mb(3)])
  obtain bits where b: "writes (seqR ws) bits" "bits = [] \<longleftrightarrow> nil"
    "\<not> nil \<longrightarrow> (\<forall>z m. length bits \<le> m \<longrightarrow> slice_data m cx first w (rs @ replicate k Skipped @ [Coded (syntax_of g g')]) (ms_qp (syntax_of g g'))
        (bits @ True # replicate z False) = Some (rs', True # replicate z False))"
    using ih unfolding loop_codes_def by blast
  obtain c where c: "writes (seqR (if cx_slice cx \<noteq> SLICE_TYPE_I then [put_ue (int k)] else [])) c"
    "\<forall>rest. (if cx_slice cx \<noteq> SLICE_TYPE_I then get_ue else preturn 0) (c @ rest) = Some (int k, rest)"
  proof (cases "cx_slice cx = SLICE_TYPE_I")
    case True
    then show ?thesis using run(1) writes_Nil by (intro that[of "[]"]) (simp_all del: seqR.simps)
  next
    case False
    obtain c where "writes (seqR [put_ue (int k)]) c" "\<forall>rest. get_ue (c @ rest) = Some (int k, rest)" by (rule run_codes[OF run(2)])
    then show ?thesis using False by (intro that[of c]) (simp_all del: seqR.simps)
  qed
  have w: "writes (seqR (((if cx_slice cx \<noteq> SLICE_TYPE_I then [put_ue (int k)] else []) @ wm) @ ws)) ((c @ bm) @ bits)"
    by (rule writes_append[OF writes_append[OF c(1) bm(1)] b(1)])
  have "slice_data m cx first w rs qp (((c @ bm) @ bits) @ True # replicate z False) = Some (rs', True # replicate z False)"
    if m: "length ((c @ bm) @ bits) \<le> m" for z m
  proof -
    obtain m' where m': "m = Suc m'" "length bits \<le> m'" using length_Suc[of "c @ bm" bits m] m bm(2) by auto
    define rest where "rest = bits @ True # replicate z False"
    note d = slice_data_mb[OF spec[OF c(2), of "bm @ rest"] spec[OF bm(3), of rest] rest_def bm(2), of m']
    show ?thesis
    proof (cases nil)
      case True
      then have "bits = []" using b(2) by simp
      then show ?thesis using d e True by (simp add: m' rest_def)
    next
      case False
      then have "bits \<noteq> []" using b(2) by simp
      then show ?thesis using d b(3) False m'(2) by (simp add: m' rest_def)
    qed
  qed
  then show ?thesis unfolding loop_codes_def using w bm(2) by (intro exI[of _ "(c @ bm) @ bits"]) simp
qed

lemma slice_loop_codes:
  assumes w: "0 < w" and a: "analysis_ok cx analyse" and n: "i_last \<le> n" "int i_last < 2 ^ 31 - 1" and f: "\<not> cx_field cx"
  shows "loop_ok cx n first w (rs @ replicate k Skipped) st \<Longrightarrow> i_skip st = k \<Longrightarrow> (cx_slice cx = SLICE_TYPE_I \<longrightarrow> k = 0) \<Longrightarrow>
    first + length (rs @ replicate k Skipped) + d = i_last \<Longrightarrow> d \<le> fuel \<Longrightarrow>
    \<exists>ws st'. slice_loop fuel analyse first i_last w st = Some (ws, st') \<and>
      loop_codes cx first w rs (i_last_qp (lp_mb st)) (ws @ last_run st') (d = 0 \<and> k = 0) (rs @ replicate k Skipped @ slice_results fuel analyse first i_last w st) \<and>
      length (slice_results fuel analyse first i_last w st) = d"
proof (induction d arbitrary: rs k st fuel)
  case 0
  have xy: "\<not> mb_address w st < i_last" using 0(1,4) by (simp add: loop_ok_def mb_address_def)
  have e: "slice_loop fuel analyse first i_last w st = Some ([], st)" "slice_results fuel analyse first i_last w st = []"
    unfolding slice_loop.simps[of fuel] slice_results.simps[of fuel] if_not_P[OF xy] by simp_all
  have "loop_codes cx first w rs (i_last_qp (lp_mb st)) (last_run st) (k = 0) (rs @ replicate k Skipped)"
  proof (cases "k = 0")
    case True
    then show ?thesis using 0(2) writes_Nil by (auto simp: loop_codes_def last_run_def simp del: seqR.simps)
  next
    case False
    then have t: "cx_slice cx \<noteq> SLICE_TYPE_I" using 0(3) by blast
    have "int k < 2 ^ 31 - 1" using 0(4) n(2) by simp
    then obtain c where c: "writes (seqR [put_ue (int k)]) c" "c \<noteq> []" "\<forall>rest. get_ue (c @ rest) = Some (int k, rest)" by (rule run_codes)
    have "slice_data m cx first w rs (i_last_qp (lp_mb st)) (c @ True # replicate z False) = Some (rs @ replicate k Skipped, True # replicate z False)"
      if "length c \<le> m" for z m
    proof -
      obtain m' where "m = Suc m'" using length_Suc[OF c(2), of "[]" m] \<open>length c \<le> m\<close> by auto
      then show ?thesis using slice_data_last_run[OF t spec[OF c(3)]] False by simp
    qed
    then show ?thesis using c False 0(2) by (auto simp: loop_codes_def last_run_def simp del: seqR.simps)
  qed
  then show ?case using e by simp
next
  case (Suc d)
  let ?rs = "rs @ replicate k Skipped"
  obtain m where m: "fuel = Suc m" "d \<le> m" using Suc.prems(5) by (cases fuel) auto
  have lt: "first + length ?rs < n" "mb_address w st < i_last" using Suc.prems(1,4) n(1) by (simp_all add: loop_ok_def mb_address_def)
  obtain ws1 st1 where s: "slice_step analyse first w st = (ws1, st1)" by fastforce
  define g where "g = analysed_mb analyse first w st"
  have loop: "slice_loop fuel analyse first i_last w st = map_option (\<lambda>(ws', st). (ws1 @ ws', st)) (slice_loop m analyse first i_last w st1)"
    "slice_results fuel analyse first i_last w st = mb_result_of g # slice_results m analyse first i_last w st1"
    unfolding m(1) slice_loop.simps[of "Suc m"] slice_results.simps[of "Suc m"] if_P[OF lt(2)] g_def[symmetric] s by simp_all
  show ?case
  proof (cases "IS_SKIP (i_type g)")
    case True
    note p = step_skip[OF Suc.prems(1) w a lt(1) g_def True s]
    have rs': "?rs @ [Skipped] = rs @ replicate (k + 1) Skipped" by (simp add: replicate_append_same)
    have "loop_ok cx n first w (rs @ replicate (k + 1) Skipped) st1" using p(3) rs' by simp
    moreover have "i_skip st1 = k + 1" using p(2) Suc.prems(2) by simp
    moreover have "cx_slice cx = SLICE_TYPE_I \<longrightarrow> k + 1 = 0" using p(5) by simp
    moreover have "first + length (rs @ replicate (k + 1) Skipped) + d = i_last" using Suc.prems(4) by simp
    ultimately obtain ws st' where r: "slice_loop m analyse first i_last w st1 = Some (ws, st')"
      "loop_codes cx first w rs (i_last_qp (lp_mb st1)) (ws @ last_run st') (d = 0 \<and> k + 1 = 0) (rs @ replicate (k + 1) Skipped @ slice_results m analyse first i_last w st1)"
      "length (slice_results m analyse first i_last w st1) = d"
      using Suc.IH[of rs "k + 1" st1 m] m(2) by blast
    have "mb_result_of g = Skipped" using True by (simp add: mb_result_of_def)
    then have e: "rs @ replicate k Skipped @ slice_results fuel analyse first i_last w st = rs @ replicate (k + 1) Skipped @ slice_results m analyse first i_last w st1"
      unfolding loop(2) using rs' by simp
    show ?thesis using r p(1,4) unfolding e loop(1) by (auto simp: loop(2))
  next
    case False
    obtain wm g' where wr: "x264_macroblock_write_cavlc g = (wm, g')" by fastforce
    let ?r = "Coded (syntax_of g g')"
    note p = step_coded[OF Suc.prems(1) w a lt(1) g_def False s wr]
    note mo = analysed_mb_ok(5)[OF Suc.prems(1) w a g_def, rule_format, OF False]
    have k': "i_skip st1 = 0" using p(2) Suc.prems(2,3) by simp
    have "loop_ok cx n first w ((?rs @ [?r]) @ replicate 0 Skipped) st1" using p(3) by simp
    moreover have "first + length ((?rs @ [?r]) @ replicate 0 Skipped) + d = i_last" using Suc.prems(4) by simp
    ultimately obtain ws st' where r: "slice_loop m analyse first i_last w st1 = Some (ws, st')"
      "loop_codes cx first w (?rs @ [?r]) (i_last_qp (lp_mb st1)) (ws @ last_run st') (d = 0) ((?rs @ [?r]) @ slice_results m analyse first i_last w st1)"
      "length (slice_results m analyse first i_last w st1) = d"
      using Suc.IH[of "?rs @ [?r]" 0 st1 m] k' m(2) by auto
    have "int k < 2 ^ 31 - 1" using Suc.prems(4) n(2) by simp
    note c = loop_codes_mb[OF Suc.prems(3) this f conjunct1[OF mo] conjunct2[OF mo] wr r(2)[unfolded append_assoc p(4)]]
    have "mb_result_of g = ?r" using False by (simp add: mb_result_of_def wr)
    then have e: "rs @ replicate k Skipped @ slice_results fuel analyse first i_last w st = rs @ replicate k Skipped @ [?r] @ slice_results m analyse first i_last w st1"
      unfolding loop(2) by simp
    have "d = 0 \<longrightarrow> slice_results m analyse first i_last w st1 = []" using r(3) by (metis length_0_conv)
    then show ?thesis using r(1,3) c unfolding e loop(1) p(1) Suc.prems(2) by (simp add: loop(2))
  qed
qed

end
