(* ===== verification/X264_Slice.thy ===== *)
theory X264_Slice
  imports X264_Slice_Data X264_Slice_Refs X264_Nal
begin

text \<open>
  A whole slice: \<^verbatim>\<open>x264_nal_start\<close>, \<^verbatim>\<open>x264_slice_write\<close> and \<^verbatim>\<open>x264_nal_end\<close> in \<^verbatim>\<open>apps/x264/src/encoder/encoder.c\<close> with variable-length codes, from the
  state of the encoder to the bytes of a unit, and what a decoder finds in the unit.
\<close>

section \<open>Writing a slice\<close>

text \<open>A unit that is being written is its header and the offset of its payload in the stream.\<close>

definition x264_nal_start :: "int \<Rightarrow> int \<Rightarrow> bs_t \<Rightarrow> x264_nal_t \<times> nat" where
  "x264_nal_start ty ref_idc s = (\<lparr>i_ref_idc = ref_idc, x264_nal_t.i_type = ty, p_payload = []\<rparr>, nat (bs_pos s div 8))"

definition x264_nal_end :: "x264_nal_t \<times> nat \<Rightarrow> bs_t \<Rightarrow> x264_nal_t" where
  "x264_nal_end = (\<lambda>(nal, p) s. nal\<lparr>p_payload := take (nat (bs_pos s div 8) - p) (drop p (bs_out s))\<rparr>)"

text \<open>
  The branches of the variable-length codes. The loop has a bound on the number of macroblocks; the result says that it was too small. The tables of the
  picture and the macroblock cache come from the encoder; the buffer is as large as needed, which \<^verbatim>\<open>x264_bitstream_check_buffer\<close> sees to.
\<close>

definition slice_start :: "x264_slice_header_t \<Rightarrow> mb_tables \<Rightarrow> x264_mb \<Rightarrow> slice_loop_t" where
  "slice_start sh T h =
     (let w = nat (i_mb_width (sh_sps sh)); first = nat (i_first_mb sh)
      in \<lparr>lp_tables = T, lp_mb = h\<lparr>i_last_qp := slice_qp sh\<rparr>, lp_pos = (first mod w, first div w), i_skip = 0\<rparr>)"

definition x264_slice_write ::
  "nat \<Rightarrow> analysis \<Rightarrow> x264_slice_header_t \<Rightarrow> int \<Rightarrow> int \<Rightarrow> mb_tables \<Rightarrow> x264_mb \<Rightarrow> bs_t \<Rightarrow> (x264_nal_t \<times> slice_loop_t \<times> bs_t) outcome option" where
  "x264_slice_write fuel analyse sh i_nal_type i_nal_ref_idc T h s =
     (let nal = x264_nal_start i_nal_type i_nal_ref_idc s
      in map_option (\<lambda>(ws, st).
           bindR (seqR (x264_slice_header_write sh i_nal_ref_idc @ ws @ last_run st) s) (\<lambda>s.
             let s = bs_rbsp_trailing s in Inr (x264_nal_end nal s, st, s)))
         (slice_loop fuel analyse (nat (i_first_mb sh)) (nat (i_last_mb sh)) (nat (i_mb_width (sh_sps sh))) (slice_start sh T h)))"

section \<open>Decoding a slice\<close>

definition slice_of_num :: "int \<Rightarrow> slice_type_e" where
  "slice_of_num t = (if t = 0 then SLICE_TYPE_P else if t = 1 then SLICE_TYPE_B else SLICE_TYPE_I)"

definition decoder_slice_context :: "x264_sps_t \<Rightarrow> x264_pps_t \<Rightarrow> slice_type_e \<Rightarrow> nat \<Rightarrow> nat \<Rightarrow> mb_context" where
  "decoder_slice_context sps pps t n0 n1 =
     \<lparr>cx_slice = t, cx_field = False, cx_transform_8x8_mode = (x264_pps_t.b_transform_8x8_mode pps \<noteq> 0),
      cx_direct_8x8_inference = (x264_sps_t.b_direct8x8_inference sps \<noteq> 0), cx_num_ref = [int n0, int n1], cx_modes = [], cx_nz = [], cx_qp = 0\<rparr>"

text \<open>The arithmetic coder and macroblock pairs of two fields are not decoded here.\<close>

definition decode_slice ::
  "x264_sps_t \<Rightarrow> x264_pps_t \<Rightarrow> int \<Rightarrow> x264_frame_t list \<Rightarrow> byte list \<Rightarrow> (slice_syntax \<times> (x264_frame_t list \<times> x264_frame_t list) \<times> mb_result list) option" where
  "decode_slice sps pps prev dpb unit =
     (if pps_cabac pps \<noteq> 0 \<or> b_mb_adaptive_frame_field sps \<noteq> 0 then None
      else case nal_decode unit of None \<Rightarrow> None | Some (hb, payload) \<Rightarrow>
      let idr = (hb AND 0x1f = 5); ref_idc = uint (drop_bit 5 hb AND 3)
      in case slice_header sps pps idr ref_idc (bytes_bits payload) of None \<Rightarrow> None | Some (hdr, bs) \<Rightarrow>
         case slice_references sps pps (decoded_poc sps prev hdr) dpb hdr of None \<Rightarrow> None | Some (l0, l1) \<Rightarrow>
         case slice_data (length bs) (decoder_slice_context sps pps (slice_of_num (sl_type hdr mod 5)) (length l0) (length l1))
                (nat (sl_first_mb hdr)) (nat (i_mb_width sps)) [] (i_pic_init_qp pps + sl_qp_delta hdr) bs of None \<Rightarrow> None | Some (rs, bs) \<Rightarrow>
         Some (hdr, (l0, l1), rs))"

section \<open>The unit\<close>

lemma nal_header_fields:
  assumes "ref_idc \<in> {0, 1, 2, 3}" "i_ref_idc nal = ref_idc" "x264_nal_t.i_type nal = (if idr then 5 else 1)"
  shows "(nal_header nal AND 0x1f = 5) = idr" "uint (drop_bit 5 (nal_header nal) AND 3) = ref_idc"
  using assms by (cases idr; auto simp: nal_header_def)+

lemma bytes_bits_drop: "bytes_bits (drop n xs) = drop (8 * n) (bytes_bits xs)"
proof (induction n arbitrary: xs)
  case (Suc n)
  then show ?case by (cases xs) (simp_all add: bytes_bits_def)
qed simp

lemma length_bits_of_bytes: "length (bytes_bits xs) = 8 * length xs"
  by (induction xs) (simp_all add: bytes_bits_def)

text \<open>What is written to a stream without a partial byte is the payload of the unit.\<close>

lemma nal_payload:
  assumes s: "bs_inv s" "i_left s = 64" and w: "writes f cs" and nal: "nal = x264_nal_start ty ref_idc s"
  shows "\<exists>s' k. f s = Inr s' \<and> k < 8 \<and> bytes_bits (p_payload (x264_nal_end nal (bs_rbsp_trailing s'))) = cs @ True # replicate k False"
proof -
  obtain s' where s': "f s = Inr s'" "bs_inv s'" "bs_bits s' = bs_bits s @ cs" using w s(1) unfolding writes_def by blast
  define t where "t = bs_rbsp_trailing s'"
  obtain k where k: "k < 8" "bs_bits t = bs_bits s' @ True # replicate k False" using bs_rbsp_trailing_bits(2)[OF s'(2)] unfolding t_def by blast
  have t: "bytes_bits (bs_out t) = bs_bits t" "bs_inv t" using bs_rbsp_trailing_bits(1,3)[OF s'(2)] unfolding t_def by simp_all
  have b: "bs_bits s = bytes_bits (bs_out s)" using s(2) by (simp add: bs_bits_def)
  have "bs_pos t = int (8 * length (bs_out t))" using bs_pos_bits[OF t(2)] length_bits_of_bytes[of "bs_out t"] t(1) by simp
  then have pt: "nat (bs_pos t div 8) = length (bs_out t)" by simp
  have ps: "nat (bs_pos s div 8) = length (bs_out s)" using s(2) by (simp add: bs_pos_def)
  have "p_payload (x264_nal_end nal t) = drop (length (bs_out s)) (bs_out t)" by (simp add: nal x264_nal_end_def x264_nal_start_def pt ps)
  then have "bytes_bits (p_payload (x264_nal_end nal t)) = drop (8 * length (bs_out s)) (bytes_bits (bs_out s) @ cs @ True # replicate k False)"
    using bytes_bits_drop[of "length (bs_out s)" "bs_out t"] t(1) k(2) s'(3) b by simp
  also have "\<dots> = cs @ True # replicate k False" using length_bits_of_bytes[of "bs_out s"] by simp
  finally show ?thesis using s'(1) k(1) unfolding t_def by blast
qed

section \<open>The macroblocks\<close>

text \<open>The state of the encoder before a slice: the parameters of the slice in the macroblock cache, and tables for the picture.\<close>

definition slice_mb_ok :: "slice_state \<Rightarrow> mb_tables \<Rightarrow> x264_mb \<Rightarrow> bool" where
  "slice_mb_ok h T mb \<longleftrightarrow>
     (let n = nat (i_mb_width (st_sps h) * i_mb_height (st_sps h))
      in sh_i_type mb = slice_type (st_sh h) \<and> \<not> sh_b_mbaff mb \<and> \<not> b_interlaced mb \<and>
         x264_mb.b_transform_8x8_mode mb = (x264_pps_t.b_transform_8x8_mode (st_pps h) \<noteq> 0) \<and>
         x264_mb.b_direct8x8_inference mb = (x264_sps_t.b_direct8x8_inference (st_sps h) \<noteq> 0) \<and>
         i_fref mb = [i_ref0 (st_refs h), i_ref1 (st_refs h)] \<and> caches_ok mb \<and>
         length (mb_type T) = n \<and> length (mb_intra4x4_pred_mode T) = n \<and> length (mb_non_zero_count T) = n)"

text \<open>Pictures without fields, coded with variable-length codes.\<close>

definition picture_ok :: "slice_state \<Rightarrow> bool" where
  "picture_ok h \<longleftrightarrow> p_interlaced (st_param h) = 0 \<and> pps_cabac (st_pps h) = 0 \<and> b_mb_adaptive_frame_field (st_sps h) = 0 \<and>
     0 < i_mb_width (st_sps h) \<and> 0 < i_mb_height (st_sps h) \<and> i_mb_width (st_sps h) * i_mb_height (st_sps h) < 2 ^ 31 - 1"

definition encoder_slice_context :: "slice_state \<Rightarrow> mb_context" where
  "encoder_slice_context h =
     decoder_slice_context (st_sps h) (st_pps h) (slice_type (st_sh h))
       (if slice_type (st_sh h) = SLICE_TYPE_I then 0 else nat (i_ref0 (st_refs h))) (if slice_type (st_sh h) = SLICE_TYPE_B then nat (i_ref1 (st_refs h)) else 0)"

lemma slice_refs_numbers:
  assumes "slice_ok h idr qp dpb"
  shows "slice_type (st_sh h) \<noteq> SLICE_TYPE_I \<Longrightarrow> length (take (nat (i_ref0 (st_refs h))) (fref0 (st_refs h))) = nat (i_ref0 (st_refs h))"
    "length (take (nat (i_ref1 (st_refs h))) (fref1 (st_refs h))) = nat (i_ref1 (st_refs h))" "0 \<le> i_ref0 (st_refs h)" "0 \<le> i_ref1 (st_refs h)"
    "slice_type (st_sh h) = SLICE_TYPE_P \<Longrightarrow> i_ref1 (st_refs h) = 0"
proof -
  let ?L = "st_refs h" and ?t = "slice_type (st_sh h)"
  obtain m0 m1 fr where L: "0 \<le> m0" "0 \<le> m1" "0 \<le> fr" "x264_reference_build_list ?t m0 m1 fr dpb (fdec_poc h) = Inr ?L"
    using assms unfolding slice_ok_def Let_def by blast
  have inj: "inj_on f_poc (set dpb)" and P: "?t = SLICE_TYPE_P \<longrightarrow> (\<forall>f \<in> set dpb. f_poc f < fdec_poc h)" using assms by (simp_all add: slice_ok_def Let_def refs_ok_def)
  note e = build_list_eq[OF L(4) inj]
  show "?t \<noteq> SLICE_TYPE_I \<Longrightarrow> length (take (nat (i_ref0 ?L)) (fref0 ?L)) = nat (i_ref0 ?L)" "length (take (nat (i_ref1 ?L)) (fref1 ?L)) = nat (i_ref1 ?L)"
    "0 \<le> i_ref0 ?L" "0 \<le> i_ref1 ?L" using L(1-3) unfolding e(3,4) by auto
  show "i_ref1 ?L = 0" if "?t = SLICE_TYPE_P"
  proof -
    have "filter (\<lambda>f. f_poc f > fdec_poc h) dpb = []" using P that by (auto simp: filter_empty_conv)
    then have "fref1 ?L = []" using e(2) by simp
    then show ?thesis using e(4) L(2) by simp
  qed
qed

lemma slice_start_ok:
  assumes ok: "slice_ok h idr qp dpb" and p: "picture_ok h" and m: "slice_mb_ok h T mb"
  shows "loop_ok (encoder_slice_context h) (nat (i_mb_width (st_sps h) * i_mb_height (st_sps h))) 0 (nat (i_mb_width (st_sps h))) [] (slice_start (header_of h idr qp) T mb)"
proof -
  have z: "i_poc_type (st_sps h) = 0" "0 \<le> qp" "qp \<le> 51" "slice_type (st_sh h) \<in> {SLICE_TYPE_P, SLICE_TYPE_B, SLICE_TYPE_I}"
    using ok by (simp_all add: slice_ok_def Let_def)
  note F = header_of_fields[OF z(1)] and r = slice_refs_numbers[OF ok]
  have c: "caches_ok (mb\<lparr>i_last_qp := qp\<rparr>)" using m by (simp add: slice_mb_ok_def Let_def caches_ok_def cache_ok_def)
  have x: "slice_context (encoder_slice_context h) (mb\<lparr>i_last_qp := qp\<rparr>)"
    using m r(3-5) z(4) by (auto simp: slice_mb_ok_def Let_def slice_context_def encoder_slice_context_def decoder_slice_context_def)
  have T: "tables_ok T (nat (i_mb_width (st_sps h) * i_mb_height (st_sps h))) 0 []" using m by (simp add: slice_mb_ok_def Let_def tables_ok_def)
  show ?thesis unfolding loop_ok_def slice_start_def Let_def F using c x T z(2,3) by simp
qed

lemma slice_macroblocks:
  fixes h :: slice_state
  defines "w \<equiv> nat (i_mb_width (st_sps h))" and "n \<equiv> nat (i_mb_width (st_sps h) * i_mb_height (st_sps h))" and "cx \<equiv> encoder_slice_context h"
  assumes ok: "slice_ok h idr qp dpb" and p: "picture_ok h" and m: "slice_mb_ok h T mb" and a: "analysis_ok cx analyse" and fuel: "n \<le> fuel"
  shows "\<exists>ws st bits. slice_loop fuel analyse 0 n w (slice_start (header_of h idr qp) T mb) = Some (ws, st) \<and> writes (seqR (ws @ last_run st)) bits \<and>
    (\<forall>z m. length bits \<le> m \<longrightarrow> slice_data m cx 0 w [] qp (bits @ True # replicate z False) =
       Some (slice_results fuel analyse 0 n w (slice_start (header_of h idr qp) T mb), True # replicate z False)) \<and>
    length (slice_results fuel analyse 0 n w (slice_start (header_of h idr qp) T mb)) = n"
proof -
  let ?st = "slice_start (header_of h idr qp) T mb"
  have z: "i_poc_type (st_sps h) = 0" using ok by (simp add: slice_ok_def Let_def)
  have w: "0 < w" and n: "0 < n" "int n < 2 ^ 31 - 1" using p by (simp_all add: picture_ok_def w_def n_def)
  have st: "loop_ok cx n 0 w ([] @ replicate 0 Skipped) ?st" using slice_start_ok[OF ok p m] by (simp add: cx_def n_def w_def)
  have s: "i_skip ?st = 0" "i_last_qp (lp_mb ?st) = qp" by (simp_all add: slice_start_def Let_def header_of_fields[OF z])
  have f: "\<not> cx_field cx" by (simp add: cx_def encoder_slice_context_def decoder_slice_context_def)
  have d: "0 + length ([] @ replicate 0 Skipped) + n = n" by simp
  obtain ws st' where r: "slice_loop fuel analyse 0 n w ?st = Some (ws, st')"
    "loop_codes cx 0 w [] (i_last_qp (lp_mb ?st)) (ws @ last_run st') (n = 0 \<and> (0 :: nat) = 0) ([] @ replicate 0 Skipped @ slice_results fuel analyse 0 n w ?st)"
    "length (slice_results fuel analyse 0 n w ?st) = n"
    using slice_loop_codes[OF w a order_refl n(2) f st s(1) _ d fuel] by auto
  then obtain bits where "writes (seqR (ws @ last_run st')) bits"
    "\<forall>z m. length bits \<le> m \<longrightarrow> slice_data m cx 0 w [] qp (bits @ True # replicate z False) = Some (slice_results fuel analyse 0 n w ?st, True # replicate z False)"
    using n(1) unfolding loop_codes_def s(2) by auto
  then show ?thesis using r(1,3) by blast
qed

lemma header_abs_decoded:
  assumes ok: "slice_ok h idr qp dpb" and p: "picture_ok h"
  shows "slice_of_num (sl_type (header_abs (header_of h idr qp) ref_idc) mod 5) = slice_type (st_sh h)" "sl_first_mb (header_abs (header_of h idr qp) ref_idc) = 0"
    "i_pic_init_qp (st_pps h) + sl_qp_delta (header_abs (header_of h idr qp) ref_idc) = qp"
proof -
  have z: "i_poc_type (st_sps h) = 0" "slice_type (st_sh h) \<in> {SLICE_TYPE_P, SLICE_TYPE_B, SLICE_TYPE_I}" using ok by (simp_all add: slice_ok_def Let_def)
  show "slice_of_num (sl_type (header_abs (header_of h idr qp) ref_idc) mod 5) = slice_type (st_sh h)" "sl_first_mb (header_abs (header_of h idr qp) ref_idc) = 0"
    "i_pic_init_qp (st_pps h) + sl_qp_delta (header_abs (header_of h idr qp) ref_idc) = qp"
    using z(2) p by (auto simp: header_abs_def Let_def header_of_fields[OF z(1)] slice_of_num_def picture_ok_def)
qed

section \<open>Slices\<close>


text \<open>A picture of four macroblocks, of which the first and the third are coded with chroma only and the others are skipped.\<close>

definition cleared_nz :: "x264_mb \<Rightarrow> int list" where
  "cleared_nz h = map (\<lambda>j. if j \<in> set x264_scan8 then 0 else non_zero_count h ! j) [0..<48]"

definition sample_analysis :: analysis where
  "sample_analysis xy h =
     (if odd xy then h\<lparr>x264_mb.i_type := P_SKIP, i_cbp_luma := 0, i_cbp_chroma := 0, non_zero_count := cleared_nz h\<rparr>
      else h\<lparr>x264_mb.i_type := P_L0, i_partition := D_16x16, b_transform_8x8 := False, i_cbp_luma := 0, i_cbp_chroma := 1, i_qp := 30,
             cache_ref := [replicate 48 1, replicate 48 (- 2)], cache_mv := [(replicate 48 (0, 0))[x264_scan8 ! 0 := (3, - 1)], replicate 48 (0, 0)],
             luma4x4 := replicate 24 (replicate 16 0), chroma_dc := [[5, 0, 0, - 1], [0, 0, 0, 0]], non_zero_count := (cleared_nz h)[x264_scan8 ! 25 := 1]\<rparr>)"

lemma cleared_nz_ok:
  assumes "cache_ok h"
  shows "length (cleared_nz h) = 48" "\<forall>z \<in> set (cleared_nz h). nz_ok z" "\<forall>j < 48. j \<notin> set x264_scan8 \<longrightarrow> cleared_nz h ! j = non_zero_count h ! j"
    "i < 27 \<Longrightarrow> cleared_nz h ! (x264_scan8 ! i) = 0"
proof -
  have "nz_ok (non_zero_count h ! j)" if "j < 48" for j using assms that by (simp add: cache_ok_def)
  then have "nz_ok (cleared_nz h ! j)" if "j < 48" for j using that by (simp add: cleared_nz_def del: upt.simps)
  moreover have "length (cleared_nz h) = 48" by (simp add: cleared_nz_def)
  ultimately show "\<forall>z \<in> set (cleared_nz h). nz_ok z" by (metis in_set_conv_nth)
  show "length (cleared_nz h) = 48" "\<forall>j < 48. j \<notin> set x264_scan8 \<longrightarrow> cleared_nz h ! j = non_zero_count h ! j" by (simp_all add: cleared_nz_def del: upt.simps)
  show "cleared_nz h ! (x264_scan8 ! i) = 0" if "i < 27" using scan8_mem[OF that] scan8_bound[OF that] by (simp add: cleared_nz_def del: upt.simps)
qed

lemma sample_coded_fields:
  fixes h :: x264_mb
  defines "g \<equiv> sample_analysis 0 h"
  shows "x264_mb.i_type g = P_L0" "i_partition g = D_16x16" "\<not> b_transform_8x8 g" "i_cbp_luma g = 0" "i_cbp_chroma g = 1" "i_qp g = 30"
    "cache_ref g = [replicate 48 1, replicate 48 (- 2)]" "cache_mv g = [(replicate 48 (0, 0))[x264_scan8 ! 0 := (3, - 1)], replicate 48 (0, 0)]"
    "luma4x4 g = replicate 24 (replicate 16 0)" "chroma_dc g = [[5, 0, 0, - 1], [0, 0, 0, 0]]" "non_zero_count g = (cleared_nz h)[x264_scan8 ! 25 := 1]"
    "slice_const g = slice_const h" "i_last_qp g = i_last_qp h" "intra4x4_pred_mode g = intra4x4_pred_mode h" "sh_i_type g = sh_i_type h" "i_fref g = i_fref h"
  unfolding g_def sample_analysis_def slice_const_def by simp_all

lemma sample_nz:
  assumes "cache_ok h"
  shows "cache_ok (sample_analysis 0 h)" "\<forall>j < 48. j \<notin> set x264_scan8 \<longrightarrow> non_zero_count (sample_analysis 0 h) ! j = non_zero_count h ! j"
    "i < 24 \<or> i = 26 \<Longrightarrow> non_zero_count (sample_analysis 0 h) ! (x264_scan8 ! i) = 0" "non_zero_count (sample_analysis 0 h) ! (x264_scan8 ! 25) = 1"
proof -
  note F = sample_coded_fields(11)[of h] and c = cleared_nz_ok[OF assms]
  have m: "x264_scan8 ! 25 \<in> set x264_scan8" "x264_scan8 ! 25 < 48" using scan8_mem[of 25] scan8_bound[of 25] by simp_all
  show "cache_ok (sample_analysis 0 h)" using c(1,2) set_update_subset_insert[of "cleared_nz h" "x264_scan8 ! 25" 1] unfolding cache_ok_def F by fastforce
  show "\<forall>j < 48. j \<notin> set x264_scan8 \<longrightarrow> non_zero_count (sample_analysis 0 h) ! j = non_zero_count h ! j" using c(3) m unfolding F by (metis nth_list_update_neq)
  have "list_all (\<lambda>i. x264_scan8 ! i \<noteq> x264_scan8 ! 25) (26 # [0..<24])" by code_simp
  then have "x264_scan8 ! i \<noteq> x264_scan8 ! 25" if "i < 24 \<or> i = 26" using that unfolding list_all_iff by (auto simp del: upt.simps)
  then show "non_zero_count (sample_analysis 0 h) ! (x264_scan8 ! i) = 0" if "i < 24 \<or> i = 26" using that c(4)[of i] unfolding F by auto
  show "non_zero_count (sample_analysis 0 h) ! (x264_scan8 ! 25) = 1" using m(2) c(1) unfolding F by simp
qed

lemma sample_mb_ok:
  assumes c: "cache_ok h" and h: "sh_i_type h = SLICE_TYPE_P" "i_fref h = [3, 0]" "0 \<le> i_last_qp h" "i_last_qp h \<le> 51"
  shows "mb_ok (sample_analysis 0 h)"
proof -
  define g where "g = sample_analysis 0 h"
  note F = sample_coded_fields[of h, folded g_def] and N = sample_nz[OF c, folded g_def]
  have "\<forall>v \<in> set (cache_mv g ! 0). mv_range v"
    unfolding F nth_Cons_0 using set_update_subset_insert[of "replicate 48 (0, 0)" "x264_scan8 ! 0" "(3, - 1) :: int \<times> int"] by (auto simp: set_replicate_conv_if)
  then have l: "list_ok g 0" using h by (simp add: list_ok_def F(8,16) del: replicate.simps)
  have r: "ref_of g 0 0 = 1" using scan8_bound[of 0] by (simp add: ref_of_def F(7) del: replicate.simps)
  have i: "inter_ok g" using l r h by (simp add: inter_ok_def parts_of_def partitions_def part_ok_def part_uses_def F)
  have n: "\<not> is_intra g" "x264_mb.i_type g \<noteq> I_16x16" by (simp_all add: is_intra_def F)
  have z: "\<forall>i < 24. non_zero_count g ! (x264_scan8 ! i) = 0" using N(3) by blast
  have lu: "luma_ok g" by (simp add: luma_ok_def F coded_8x8_def)
  have ch: "chroma_ok g"
  proof -
    have "\<forall>k < 2. length (chroma_dc g ! k) = 4 \<and> (\<forall>v \<in> set (chroma_dc g ! k). level_fits (x264_t.i_profile_idc g) v) \<and>
        (non_zero_count g ! (x264_scan8 ! (25 + k)) = 0 \<longleftrightarrow> (\<forall>x \<in> set (chroma_dc g ! k). x = 0))"
      unfolding numeral_2_eq_2 All_less_Suc using N(3)[of 26] N(4) by (simp add: F(10) level_fits_def)
    then show ?thesis by (simp add: chroma_ok_def F(5))
  qed
  show ?thesis unfolding g_def[symmetric] mb_ok_def using n i lu ch z h N(1) F by (simp add: F)
qed

lemma sample_analysis_ok:
  assumes "cx_slice cx = SLICE_TYPE_P" "cx_num_ref cx = [3, 0]"
  shows "analysis_ok cx sample_analysis"
proof -
  have "analysed h (sample_analysis xy h)" if a: "caches_ok h" "slice_context cx h" "0 \<le> i_last_qp h" "i_last_qp h \<le> 51" for xy h
  proof -
    have c: "cache_ok h" "length (intra4x4_pred_mode h) = 48" "\<forall>m \<in> set (intra4x4_pred_mode h). - 1 \<le> m \<and> m \<le> 11" using a(1) by (simp_all add: caches_ok_def)
    have t: "sh_i_type h = SLICE_TYPE_P" "i_fref h = [3, 0]" using a(2) assms by (simp_all add: slice_context_def)
    show ?thesis
    proof (cases "odd xy")
      case True
      let ?g = "h\<lparr>x264_mb.i_type := P_SKIP, i_cbp_luma := 0, i_cbp_chroma := 0, non_zero_count := cleared_nz h\<rparr>"
      have "sample_analysis xy h = ?g" using True by (simp add: sample_analysis_def)
      moreover have "analysed h ?g" unfolding analysed_def using c t cleared_nz_ok[OF c(1)] by (simp add: slice_const_def IS_SKIP_def cache_ok_def)
      ultimately show ?thesis by (simp only:)
    next
      case False
      then have e: "sample_analysis xy h = sample_analysis 0 h" by (simp add: sample_analysis_def)
      note F = sample_coded_fields[of h]
      have "\<not> IS_SKIP (x264_mb.i_type (sample_analysis 0 h))" by (simp add: F IS_SKIP_def)
      then show ?thesis unfolding e analysed_def using sample_nz(1,2)[OF c(1)] c(2,3) sample_mb_ok[OF c(1) t a(3,4)] by (simp add: F)
    qed
  qed
  then show ?thesis by (simp add: analysis_ok_def)
qed

definition sample_tables :: mb_tables where
  "sample_tables = \<lparr>mb_type = replicate 4 I_4x4, mb_intra4x4_pred_mode = replicate 4 [], mb_non_zero_count = replicate 4 []\<rparr>"

definition sample_slice_mb :: x264_mb where
  "sample_slice_mb = sample_mb\<lparr>non_zero_count := replicate 48 0, intra4x4_pred_mode := replicate 48 0, x264_mb.b_transform_8x8_mode := False,
     x264_mb.b_direct8x8_inference := False, i_fref := [3, 0]\<rparr>"

lemma sample_slice_mb_ok: "slice_mb_ok sample_state sample_tables sample_slice_mb"
proof -
  have "caches_ok sample_slice_mb" unfolding caches_ok_def cache_ok_def sample_slice_mb_def by (simp add: set_replicate_conv_if del: replicate.simps)
  then show ?thesis
    by (simp add: slice_mb_ok_def sample_state_def sample_header_def sample_refs_def sps_zero_def pps_zero_def sample_tables_def Let_def)
      (simp add: sample_slice_mb_def sample_mb_def)
qed


end
