(* ===== verification/Turkey.thy ===== *)
theory Turkey
  imports Prelude
begin

text \<open>
  The resource manager itself: the client library that the applications link
  (\<^verbatim>\<open>src/src/Client.cpp\<close>, \<^verbatim>\<open>src/src/Client.h\<close>), the server that divides the processors among the running clients
  (\<^verbatim>\<open>src/turkey/server.py\<close>, \<^verbatim>\<open>src/turkey/scheduler.py\<close>), and the two together as a step relation over what is
  in flight between them. The sockets and the encoding of messages belong to libraries: what the code
  relies on is that frames arrive in the order in which they were sent, that a socket of the server's kind
  removes the identity in front of a message it sends, and that decoding an encoded message gives
  it back. The encoding is an argument of the model.
\<close>

section \<open>Messages\<close>

datatype MessageType = MessageType_Start | MessageType_Stop | MessageType_Update

record Message =
  msg_type :: MessageType
  msg_data :: int

record 'f wire =
  empty_frame :: 'f
  encodeMessage :: "MessageType \<Rightarrow> int \<Rightarrow> 'f"
  GetMessage :: "'f \<Rightarrow> Message"

definition wire_ok :: "'f wire \<Rightarrow> bool" where
  "wire_ok w \<longleftrightarrow> (\<forall>t d. GetMessage w (encodeMessage w t d) = \<lparr>msg_type = t, msg_data = d\<rparr>)"

section \<open>The client\<close>

text \<open>
  Where the thread that processes messages stands: not started, waiting for the answer to its
  registration, in front of one of the two receives of its loop, returned because the server did not
  answer, or ended with the process.
\<close>

datatype phase = Idle | Connecting | At_Header | At_Message | Unreachable | Exited

record 'f Client =
  pools :: "int list"
  registered :: bool
  c_allocator :: "Message \<Rightarrow> int list \<Rightarrow> int list"
  c_phase :: phase
  c_inbox :: "'f list"

definition createPool :: "int \<Rightarrow> 'f Client \<Rightarrow> 'f Client" where
  "createPool defaultNumThreads c = c\<lparr>pools := pools c @ [defaultNumThreads]\<rparr>"

definition default_allocator :: "Message \<Rightarrow> int list \<Rightarrow> int list" where
  "default_allocator msg ps = map (\<lambda>_. msg_data msg) ps"

definition setAllocator :: "(Message \<Rightarrow> int list \<Rightarrow> int list) \<Rightarrow> 'f Client \<Rightarrow> 'f Client" where
  "setAllocator a c = c\<lparr>c_allocator := a\<rparr>"

definition new_Client :: "int \<Rightarrow> int \<Rightarrow> (Message \<Rightarrow> int list \<Rightarrow> int list) option \<Rightarrow> 'f Client" where
  "new_Client defaultNumThreads numPools allocator =
     (let c = \<lparr>pools = [], registered = False, c_allocator = (\<lambda>msg ps. ps), c_phase = Idle, c_inbox = []\<rparr>;
          c = (createPool defaultNumThreads ^^ nat numPools) c
      in case allocator of Some a \<Rightarrow> setAllocator a c | None \<Rightarrow> c\<lparr>c_allocator := default_allocator\<rparr>)"

text \<open>The comparison of the number of pools with the index is one of unsigned 64-bit numbers.\<close>

definition getPool :: "int \<Rightarrow> 'f Client \<Rightarrow> int outcome" where
  "getPool index c =
     (if (word_of_int index :: u64) < word_of_nat (length (pools c)) then Inr (pools c ! nat index)
      else Inl (Exit_Trace ''client does not have that many pools''))"

text \<open>A message is sent as two frames, an empty one in front.\<close>

definition sendMessage :: "'f wire \<Rightarrow> MessageType \<Rightarrow> int \<Rightarrow> 'f list" where
  "sendMessage w t d = [empty_frame w, encodeMessage w t d]"

text \<open>The switch of \<^verbatim>\<open>processMessage\<close>.\<close>

definition handle_message :: "Message \<Rightarrow> 'f Client \<Rightarrow> 'f Client" where
  "handle_message msg c =
     (case msg_type msg of
        MessageType_Start \<Rightarrow> c
      | MessageType_Stop \<Rightarrow> c\<lparr>c_phase := Exited\<rparr>
      | MessageType_Update \<Rightarrow> c\<lparr>pools := c_allocator c msg (pools c)\<rparr>)"

text \<open>
  The steps of \<^verbatim>\<open>processMessage\<close>. The flag of the first receive decides in the library whether it waits
  for a frame or goes on without one; both are covered by the argument.
\<close>

definition poll_step :: "bool \<Rightarrow> 'f Client \<Rightarrow> 'f Client" where
  "poll_step answered c =
     (if answered then c\<lparr>registered := True, c_phase := At_Header\<rparr> else c\<lparr>c_phase := Unreachable\<rparr>)"

definition recv_header :: "bool \<Rightarrow> 'f Client \<Rightarrow> 'f Client option" where
  "recv_header dontwait c =
     (case c_inbox c of
        f # fs \<Rightarrow> Some (c\<lparr>c_inbox := fs, c_phase := At_Message\<rparr>)
      | [] \<Rightarrow> if dontwait then Some (c\<lparr>c_phase := At_Message\<rparr>) else None)"

definition recv_message :: "'f wire \<Rightarrow> 'f Client \<Rightarrow> 'f Client option" where
  "recv_message w c =
     (case c_inbox c of
        f # fs \<Rightarrow> Some (handle_message (GetMessage w f) (c\<lparr>c_inbox := fs, c_phase := At_Header\<rparr>))
      | [] \<Rightarrow> None)"

section \<open>The server\<close>

record Server =
  tasks :: "(nat \<times> int) list"
  resources :: int

definition schedule :: "(nat \<times> int) list \<Rightarrow> int \<Rightarrow> (nat \<times> int) list" where
  "schedule ts res = map (\<lambda>(i, r). (i, res div int (length ts))) ts"

text \<open>A dictionary keeps its keys in the order of their insertion.\<close>

definition add_task :: "nat \<Rightarrow> (nat \<times> int) list \<Rightarrow> (nat \<times> int) list" where
  "add_task i ts = (if i \<in> fst ` set ts then map (\<lambda>(j, r). (j, if j = i then 0 else r)) ts else ts @ [(i, 0)])"

definition sched :: "'f wire \<Rightarrow> Server \<Rightarrow> nat \<Rightarrow> 'f list \<Rightarrow> Server \<times> (nat \<times> 'f) list" where
  "sched w s identity frames =
     (let message = GetMessage w (frames ! 1);
          (ts, replies) =
            (case msg_type message of
               MessageType_Start \<Rightarrow> (add_task identity (tasks s), [(identity, encodeMessage w MessageType_Start 0)])
             | MessageType_Stop \<Rightarrow> (filter (\<lambda>(j, r). j \<noteq> identity) (tasks s), [(identity, encodeMessage w MessageType_Stop 0)])
             | MessageType_Update \<Rightarrow> (tasks s, []));
          ts = schedule ts (resources s)
      in (s\<lparr>tasks := ts\<rparr>, replies @ map (\<lambda>(i, r). (i, encodeMessage w MessageType_Update r)) ts))"

section \<open>The system\<close>

record 'f system =
  server :: Server
  to_server :: "(nat \<times> 'f list) list"
  clients :: "nat \<Rightarrow> 'f Client"

definition deliver :: "(nat \<times> 'f) list \<Rightarrow> (nat \<Rightarrow> 'f Client) \<Rightarrow> nat \<Rightarrow> 'f Client" where
  "deliver sends cs i = (cs i)\<lparr>c_inbox := c_inbox (cs i) @ map snd (filter (\<lambda>(j, f). j = i) sends)\<rparr>"

text \<open>
  One step of some thread: a client starts its message thread, that thread polls, receives or handles, the
  main thread of a client asks to stop, or the server handles a message.
\<close>

inductive sys_step :: "'f wire \<Rightarrow> bool \<Rightarrow> 'f system \<Rightarrow> 'f system \<Rightarrow> bool" for w dontwait where
  start: "c_phase (clients s i) = Idle \<Longrightarrow>
    sys_step w dontwait s (s\<lparr>clients := (clients s)(i := (clients s i)\<lparr>c_phase := Connecting\<rparr>),
      to_server := to_server s @ [(i, sendMessage w MessageType_Start (int i))]\<rparr>)"
| poll: "c_phase (clients s i) = Connecting \<Longrightarrow>
    sys_step w dontwait s (s\<lparr>clients := (clients s)(i := poll_step (c_inbox (clients s i) \<noteq> []) (clients s i))\<rparr>)"
| header: "c_phase (clients s i) = At_Header \<Longrightarrow> recv_header dontwait (clients s i) = Some c \<Longrightarrow>
    sys_step w dontwait s (s\<lparr>clients := (clients s)(i := c)\<rparr>)"
| message: "c_phase (clients s i) = At_Message \<Longrightarrow> recv_message w (clients s i) = Some c \<Longrightarrow>
    sys_step w dontwait s (s\<lparr>clients := (clients s)(i := c)\<rparr>)"
| stop: "registered (clients s i) \<Longrightarrow> c_phase (clients s i) \<noteq> Exited \<Longrightarrow>
    sys_step w dontwait s (s\<lparr>to_server := to_server s @ [(i, sendMessage w MessageType_Stop (int i))]\<rparr>)"
| serve: "to_server s = (i, fs) # rest \<Longrightarrow> sched w (server s) i fs = (sv, sends) \<Longrightarrow>
    sys_step w dontwait s (s\<lparr>server := sv, to_server := rest, clients := deliver sends (clients s)\<rparr>)"

definition initial :: "int \<Rightarrow> (nat \<Rightarrow> 'f Client) \<Rightarrow> 'f system" where
  "initial num_cpus cs = \<lparr>server = \<lparr>tasks = [], resources = num_cpus\<rparr>, to_server = [], clients = cs\<rparr>"

inductive reach :: "'f wire \<Rightarrow> bool \<Rightarrow> 'f system \<Rightarrow> 'f system \<Rightarrow> bool" for w dontwait s0 where
  here: "reach w dontwait s0 s0"
| step: "reach w dontwait s0 s \<Longrightarrow> sys_step w dontwait s s' \<Longrightarrow> reach w dontwait s0 s'"


section \<open>The shares of the tasks\<close>

lemma schedule_ids [simp]: "map fst (schedule ts res) = map fst ts"
  by (induction ts) (auto simp: schedule_def)

lemma schedule_length [simp]: "length (schedule ts res) = length ts"
  by (simp add: schedule_def)

lemma schedule_shares: "(i, r) \<in> set (schedule ts res) \<Longrightarrow> r = res div int (length ts)"
  by (auto simp: schedule_def)

lemma schedule_total: "sum_list (map snd (schedule ts res)) = int (length ts) * (res div int (length ts))"
proof -
  have "map snd (schedule ts res) = replicate (length ts) (res div int (length ts))"
    by (auto simp: schedule_def map_replicate_const[symmetric] intro!: nth_equalityI)
  then show ?thesis by (simp add: sum_list_replicate)
qed

lemma share_bounds:
  assumes "0 \<le> res" "0 < n"
  shows "0 \<le> res div int n" "res div int n \<le> res" "int n * (res div int n) \<le> res" "res < int n * (res div int n) + int n"
proof -
  show "0 \<le> res div int n" using assms by (simp add: pos_imp_zdiv_nonneg_iff)
  have d: "int n * (res div int n) + res mod int n = res" by simp
  have m: "0 \<le> res mod int n" "res mod int n < int n" using assms by simp_all
  show "int n * (res div int n) \<le> res" using d m by linarith
  show "res < int n * (res div int n) + int n" using d m by linarith
  have "1 * (res div int n) \<le> int n * (res div int n)"
    using assms by (intro mult_right_mono) (simp_all add: pos_imp_zdiv_nonneg_iff)
  then show "res div int n \<le> res" using d m by linarith
qed

lemma add_task_ids:
  "map fst (add_task i ts) = (if i \<in> fst ` set ts then map fst ts else map fst ts @ [i])"
  by (induction ts) (auto simp: add_task_def)

lemma distinct_add_task: "distinct (map fst ts) \<Longrightarrow> distinct (map fst (add_task i ts))"
  by (simp add: add_task_ids)

lemma distinct_remove_task: "distinct (map fst ts) \<Longrightarrow> distinct (map fst (filter P ts))"
  by (induction ts) auto

section \<open>The invariant\<close>

definition share_ok :: "Server \<Rightarrow> bool" where
  "share_ok sv \<longleftrightarrow> distinct (map fst (tasks sv)) \<and>
     (\<forall>(i, r) \<in> set (tasks sv). r = resources sv div int (length (tasks sv)))"

text \<open>A frame on its way to a client is an answer, or an update with a share that exists.\<close>

definition frame_ok :: "'f wire \<Rightarrow> int \<Rightarrow> 'f \<Rightarrow> bool" where
  "frame_ok w res f \<longleftrightarrow> f = encodeMessage w MessageType_Start 0 \<or> f = encodeMessage w MessageType_Stop 0 \<or>
     (\<exists>r. f = encodeMessage w MessageType_Update r \<and> 0 \<le> r \<and> r \<le> res)"

definition client_ok :: "'f wire \<Rightarrow> int \<Rightarrow> int \<Rightarrow> 'f Client \<Rightarrow> bool" where
  "client_ok w res dflt c \<longleftrightarrow> c_allocator c = default_allocator \<and> (\<forall>p \<in> set (pools c). p = dflt \<or> 0 \<le> p \<and> p \<le> res) \<and>
     (\<forall>f \<in> set (c_inbox c). frame_ok w res f)"

definition sys_ok :: "'f wire \<Rightarrow> int \<Rightarrow> (nat \<Rightarrow> int) \<Rightarrow> 'f system \<Rightarrow> bool" where
  "sys_ok w res dflt s \<longleftrightarrow> resources (server s) = res \<and> share_ok (server s) \<and> (\<forall>i. client_ok w res (dflt i) (clients s i))"

lemma share_ok_schedule:
  assumes "distinct (map fst ts)"
  shows "share_ok (sv\<lparr>tasks := schedule ts (resources sv)\<rparr>)"
  using assms schedule_shares by (fastforce simp: share_ok_def)

lemma sched_share_ok:
  assumes "share_ok sv" "sched w sv i fs = (sv', sends)"
  shows "share_ok sv'" "resources sv' = resources sv"
proof -
  have d: "distinct (map fst (tasks sv))" using assms(1) by (simp add: share_ok_def)
  show "share_ok sv'" using assms(2) distinct_add_task[OF d] distinct_remove_task[OF d] d
    by (auto simp: sched_def Let_def intro!: share_ok_schedule split: MessageType.splits)
  show "resources sv' = resources sv" using assms(2)
    by (auto simp: sched_def Let_def split: MessageType.splits)
qed

lemma update_frame_ok:
  assumes "0 \<le> res" "(i, r) \<in> set (schedule ts res)"
  shows "frame_ok w res (encodeMessage w MessageType_Update r)"
proof -
  have "ts \<noteq> []" using assms(2) by (auto simp: schedule_def)
  then have "0 \<le> r \<and> r \<le> res"
    using schedule_shares[OF assms(2)] share_bounds(1,2)[OF assms(1), of "length ts"] by simp
  then show ?thesis by (auto simp: frame_ok_def)
qed

lemma sched_frames_ok:
  assumes "0 \<le> resources sv" "sched w sv i fs = (sv', sends)" "(j, f) \<in> set sends"
  shows "frame_ok w (resources sv) f"
proof -
  have a: "frame_ok w (resources sv) (encodeMessage w MessageType_Start 0)"
    "frame_ok w (resources sv) (encodeMessage w MessageType_Stop 0)" by (simp_all add: frame_ok_def)
  show ?thesis using assms(2,3) a update_frame_ok[OF assms(1)]
    by (auto simp: sched_def Let_def split: MessageType.splits)
qed

lemma handle_message_ok:
  assumes "wire_ok w" "client_ok w res d c" "frame_ok w res f"
  shows "client_ok w res d (handle_message (GetMessage w f) c)"
  using assms by (auto simp: client_ok_def frame_ok_def wire_ok_def handle_message_def default_allocator_def)

lemma client_ok_inbox [simp]:
  "client_ok w res d (c\<lparr>c_inbox := fs, c_phase := p\<rparr>) \<longleftrightarrow> client_ok w res d (c\<lparr>c_inbox := fs\<rparr>)"
  "client_ok w res d (c\<lparr>c_phase := p\<rparr>) \<longleftrightarrow> client_ok w res d c"
  "client_ok w res d (c\<lparr>registered := b\<rparr>) \<longleftrightarrow> client_ok w res d c"
  "client_ok w res d (c\<lparr>registered := b, c_phase := p\<rparr>) \<longleftrightarrow> client_ok w res d c"
  by (simp_all add: client_ok_def)

lemma poll_step_ok: "client_ok w res d c \<Longrightarrow> client_ok w res d (poll_step b c)"
  by (simp add: poll_step_def)

lemma client_ok_tl: "client_ok w res d c \<Longrightarrow> c_inbox c = f # fs \<Longrightarrow> client_ok w res d (c\<lparr>c_inbox := fs\<rparr>) \<and> frame_ok w res f"
  by (simp add: client_ok_def)

lemma recv_header_ok: "client_ok w res d c \<Longrightarrow> recv_header dw c = Some c' \<Longrightarrow> client_ok w res d c'"
  by (auto simp: recv_header_def client_ok_tl split: list.splits if_splits)

lemma recv_message_ok: "wire_ok w \<Longrightarrow> client_ok w res d c \<Longrightarrow> recv_message w c = Some c' \<Longrightarrow> client_ok w res d c'"
  by (auto simp: recv_message_def client_ok_tl intro!: handle_message_ok split: list.splits)

lemma deliver_ok:
  assumes "client_ok w res d (cs i)" "\<And>j f. (j, f) \<in> set sends \<Longrightarrow> frame_ok w res f"
  shows "client_ok w res d (deliver sends cs i)"
  using assms by (auto simp: deliver_def client_ok_def)

lemma sys_step_ok:
  assumes "sys_step w dw s s'" "wire_ok w" "0 \<le> res" "sys_ok w res d s"
  shows "sys_ok w res d s'"
  using assms
proof (induction rule: sys_step.induct)
  case (serve s i fs rest sv sends)
  have r: "resources (server s) = res" "share_ok (server s)" "\<And>i. client_ok w res (d i) (clients s i)"
    using serve.prems by (simp_all add: sys_ok_def)
  have f: "\<And>j f. (j, f) \<in> set sends \<Longrightarrow> frame_ok w res f"
    using sched_frames_ok[OF _ serve.hyps(2)] r serve.prems by simp
  have "client_ok w res (d i) (deliver sends (clients s) i)" for i by (rule deliver_ok[OF r(3)]) (rule f)
  then show ?case using sched_share_ok[OF r(2) serve.hyps(2)] r by (simp add: sys_ok_def)
qed (auto simp: sys_ok_def intro: poll_step_ok recv_header_ok recv_message_ok)

lemma createPool_iter:
  "(createPool d ^^ n) c = c\<lparr>pools := pools c @ replicate n d\<rparr>"
  by (induction n arbitrary: c) (simp_all add: createPool_def replicate_append_same)

lemma new_Client_ok: "client_ok w res d (new_Client d n None)"
  by (simp add: new_Client_def createPool_iter client_ok_def Let_def)

lemma initial_ok: "sys_ok w res d (initial res (\<lambda>i. new_Client (d i) (n i) None))"
  by (simp add: sys_ok_def initial_def share_ok_def new_Client_ok)

lemma reach_ok:
  assumes "reach w dw s0 s" "wire_ok w" "0 \<le> res" "sys_ok w res d s0"
  shows "sys_ok w res d s"
  using assms by (induction rule: reach.induct) (auto intro: sys_step_ok)

lemma share_ok_total:
  assumes "share_ok sv" "0 \<le> resources sv" "tasks sv \<noteq> []"
  shows "sum_list (map snd (tasks sv)) \<le> resources sv"
    and "resources sv < sum_list (map snd (tasks sv)) + int (length (tasks sv))"
proof -
  have "map snd (tasks sv) = replicate (length (tasks sv)) (resources sv div int (length (tasks sv)))"
    using assms(1) by (auto simp: share_ok_def list_eq_iff_nth_eq split_beta)
  then have t: "sum_list (map snd (tasks sv)) = int (length (tasks sv)) * (resources sv div int (length (tasks sv)))"
    by (metis sum_list_replicate of_nat_id)
  show "sum_list (map snd (tasks sv)) \<le> resources sv" "resources sv < sum_list (map snd (tasks sv)) + int (length (tasks sv))"
    unfolding t using share_bounds(3,4)[OF assms(2), of "length (tasks sv)"] assms(3) by simp_all
qed



section \<open>Two clients\<close>

text \<open>A run given by the threads that step, one after the other.\<close>

datatype event = Ev_Start nat | Ev_Poll nat | Ev_Header nat | Ev_Message nat | Ev_Serve

fun fire :: "'f wire \<Rightarrow> bool \<Rightarrow> event \<Rightarrow> 'f system \<Rightarrow> 'f system option" where
  "fire w dontwait (Ev_Start i) s =
     (if c_phase (clients s i) = Idle
      then Some (s\<lparr>clients := (clients s)(i := (clients s i)\<lparr>c_phase := Connecting\<rparr>),
             to_server := to_server s @ [(i, sendMessage w MessageType_Start (int i))]\<rparr>) else None)"
| "fire w dontwait (Ev_Poll i) s =
     (if c_phase (clients s i) = Connecting
      then Some (s\<lparr>clients := (clients s)(i := poll_step (c_inbox (clients s i) \<noteq> []) (clients s i))\<rparr>) else None)"
| "fire w dontwait (Ev_Header i) s =
     (if c_phase (clients s i) = At_Header
      then map_option (\<lambda>c. s\<lparr>clients := (clients s)(i := c)\<rparr>) (recv_header dontwait (clients s i)) else None)"
| "fire w dontwait (Ev_Message i) s =
     (if c_phase (clients s i) = At_Message
      then map_option (\<lambda>c. s\<lparr>clients := (clients s)(i := c)\<rparr>) (recv_message w (clients s i)) else None)"
| "fire w dontwait Ev_Serve s =
     (case to_server s of (i, fs) # rest \<Rightarrow>
        (case sched w (server s) i fs of (sv, sends) \<Rightarrow>
           Some (s\<lparr>server := sv, to_server := rest, clients := deliver sends (clients s)\<rparr>))
      | [] \<Rightarrow> None)"

fun run :: "'f wire \<Rightarrow> bool \<Rightarrow> event list \<Rightarrow> 'f system \<Rightarrow> 'f system option" where
  "run w dontwait [] s = Some s"
| "run w dontwait (e # es) s = Option.bind (fire w dontwait e s) (run w dontwait es)"

lemma fire_sys_step: "fire w dw e s = Some s' \<Longrightarrow> sys_step w dw s s'"
  by (cases e) (auto intro: sys_step.intros split: if_splits list.splits prod.splits)

lemma run_reach:
  assumes "reach w dw s0 s" "run w dw es s = Some s'"
  shows "reach w dw s0 s'"
  using assms by (induction es arbitrary: s) (auto split: Option.bind_splits intro: reach.step dest: fire_sys_step)

lemma wire_okD: "wire_ok w \<Longrightarrow> GetMessage w (encodeMessage w t d) = \<lparr>msg_type = t, msg_data = d\<rparr>"
  by (simp add: wire_ok_def)

lemmas run_simps = initial_def new_Client_def createPool_def poll_step_def recv_header_def recv_message_def
  handle_message_def default_allocator_def sched_def schedule_def add_task_def deliver_def sendMessage_def Let_def

definition two_clients :: "event list" where
  "two_clients = [Ev_Start 1, Ev_Serve, Ev_Poll 1, Ev_Header 1, Ev_Message 1,
     Ev_Start 2, Ev_Serve, Ev_Poll 2, Ev_Header 2, Ev_Message 2, Ev_Header 1]"

text \<open>
  C36. The loop of a client takes two frames for every message, but the server puts the identity of the
  client and the message into its envelopes and nothing between them, and its socket removes the
  identity: one frame arrives for every message, and an update can be taken for the delimiter in front of
  the next one. Whether or not the first receive waits, two clients on 64 processors reach a state in which
  no message is in flight, the server has given each of them 32 processors, the first one still runs 64
  threads, and what it does next is wait for a frame.
\<close>

theorem update_lost:
  assumes "wire_ok w"
  shows "\<exists>s. reach w dontwait (initial 64 (\<lambda>_. new_Client 1 1 None)) s \<and> to_server s = [] \<and> (\<forall>i. c_inbox (clients s i) = []) \<and>
    tasks (server s) = [(1, 32), (2, 32)] \<and> pools (clients s 1) = [64] \<and> pools (clients s 2) = [32] \<and>
    c_phase (clients s 1) = At_Message \<and> recv_message w (clients s 1) = None"
proof -
  let ?s0 = "initial 64 (\<lambda>_. new_Client 1 1 None)"
  have "\<exists>s. run w dontwait two_clients ?s0 = Some s \<and> to_server s = [] \<and> (\<forall>i. c_inbox (clients s i) = []) \<and>
    tasks (server s) = [(1, 32), (2, 32)] \<and> pools (clients s 1) = [64] \<and> pools (clients s 2) = [32] \<and>
    c_phase (clients s 1) = At_Message \<and> recv_message w (clients s 1) = None"
    by (simp add: two_clients_def run_simps wire_okD[OF assms])
  then show ?thesis using run_reach[OF reach.here] by blast
qed


definition plain_wire :: "(MessageType \<times> int) option wire" where
  "plain_wire = \<lparr>empty_frame = None, encodeMessage = (\<lambda>t d. Some (t, d)),
     GetMessage = (\<lambda>f. \<lparr>msg_type = fst (the f), msg_data = snd (the f)\<rparr>)\<rparr>"

lemma plain_wire_ok: "wire_ok plain_wire"
  by (simp add: wire_ok_def plain_wire_def)

theorem update_lost_witness:
  "wire_ok plain_wire \<and> (\<exists>s. reach plain_wire True (initial 64 (\<lambda>_. new_Client 1 1 None)) s \<and>
     tasks (server s) = [(1, 32), (2, 32)] \<and> pools (clients s 1) = [64] \<and> recv_message plain_wire (clients s 1) = None)"
  using update_lost[OF plain_wire_ok, of True] plain_wire_ok by blast

definition two_clients_end :: "(MessageType \<times> int) option system" where
  "two_clients_end = the (run plain_wire False two_clients (initial 64 (\<lambda>_. new_Client 1 1 None)))"

lemma two_clients_end_reach: "reach plain_wire False (initial 64 (\<lambda>_. new_Client 1 1 None)) two_clients_end"
  by (rule run_reach[OF reach.here, of _ _ two_clients])
    (simp add: two_clients_end_def two_clients_def run_simps wire_okD[OF plain_wire_ok])


end
