(* ===== verification/Spec2Isabelle.thy ===== *)
theory Spec2Isabelle
  imports Ringbuffer Binheap Search_Tree Dedup_Def Hashtable Rabin Mbuffer Dedup_Util Encoder_Stats Encoder Decoder Fragment Reorder Roundtrip
    X264_Bitstream X264_Nal X264_Syntax X264_Set X264_Sps_Init X264_Pps X264_Sei
    X264_Cabac_Tables X264_Cabac X264_Cabac_Roundtrip X264_Vlc X264_Cavlc
    X264_Reference X264_Slice_Header X264_Slice_Refs X264_Macroblock X264_Mb_Cavlc X264_Mb_Parse X264_Mb_Roundtrip X264_Mb_Layer X264_Mb_Decode
    X264_Mb_Cache X264_Slice_Data X264_Slice Turkey
begin

text \<open>
  A verification of \<^verbatim>\<open>turkey\<close>, a resource manager for parallel programs, and of the algorithmic core of two of
  the programs it runs. The repository has three kinds of code: the manager (\<^verbatim>\<open>src/src\<close>, \<^verbatim>\<open>src/turkey\<close>), the
  applications (\<^verbatim>\<open>src/apps\<close>, benchmarks in C and C++ that are linked with the manager's client library) and scripts
  that build, start and measure. Paths below are relative to \<^verbatim>\<open>src/\<close>.

  \<^bold>\<open>How the parts interact.\<close> An application creates a client, which registers with the server; the
  server divides the processors among its clients and tells each of them its share; the client sets the
  sizes of the thread pools accordingly. Inside \<^verbatim>\<open>apps/dedup\<close> a pipeline of threads compresses a file:
  \<^verbatim>\<open>Fragment\<close> cuts the input into coarse chunks, \<^verbatim>\<open>FragmentRefine\<close> cuts these at Rabin fingerprints,
  \<^verbatim>\<open>Deduplicate\<close> looks the digests up in a hash table, \<^verbatim>\<open>Compress\<close> compresses what is new, and \<^verbatim>\<open>Reorder\<close> writes
  everything in the order of the input; the stages are connected by synchronised queues and share
  reference-counted buffers. Inside \<^verbatim>\<open>apps/x264\<close> the encoder writes headers with a bit writer, codes the
  residual of macroblocks with variable-length codes or an arithmetic coder, wraps the result in units and multiplexes them.

  \<^bold>\<open>Shared theories.\<close> \<open>Prelude\<close>: words, the outcome type \<open>'a outcome = fault + 'a\<close> (a failed assertion, an exit, an access
  outside an array, a use after free, a division by zero, a shift or signed overflow are values), little-endian
  numbers, list and word lemmas. \<open>Fifo\<close>: the locale \<open>bounded_fifo\<close> of a bounded buffer and the transfer loop
  between two of them. \<open>Array_Heap\<close>: the argument behind percolation in an array and the locale
  \<open>priority_queue\<close>.

  \<^bold>\<open>The manager\<close> (\<open>Turkey\<close>: \<^verbatim>\<open>src/Client.cpp\<close>, \<^verbatim>\<open>src/Client.h\<close>, \<^verbatim>\<open>turkey/server.py\<close>, \<^verbatim>\<open>turkey/scheduler.py\<close>).
  The record \<open>Client\<close> has the fields of the class (a pool is its number of threads), the record \<open>Server\<close> the tasks
  in the order of their registration; \<open>sys_step\<close> is one step of some thread, \<open>reach\<close> the states of the system. C35 is an
  invariant of every reachable state (shares, their sum, the sizes of pools); C36 shows that the two frames the client
  expects and the one the server sends can leave a client with a stale share for good.

  \<^bold>\<open>dedup.\<close>
  \<open>Ringbuffer\<close> (\<^verbatim>\<open>apps/dedup/src/queue.h\<close>, \<^verbatim>\<open>queue.c\<close>): ring buffer and queue, an interpretation of
  \<open>bounded_fifo\<close>; C1 every branch of \<^verbatim>\<open>queue_dequeue\<close>, C2 every concurrent history delivers what was put in, in order.
  \<open>Dedup_Def\<close> (\<^verbatim>\<open>dedupdef.h\<close>): sequence numbers as a linear order, chunk states.
  \<open>Binheap\<close> (\<^verbatim>\<open>binheap.c\<close>): an interpretation of \<open>priority_queue\<close>; C3 draining sorts.
  \<open>Search_Tree\<close> (\<^verbatim>\<open>tree.c\<close>): with the locale \<open>ordered_map\<close>; C4 refinement of a finite map.
  \<open>Hashtable\<close> (\<^verbatim>\<open>hashtable.c\<close>, \<^verbatim>\<open>hashtable_private.h\<close>): with the locale \<open>keyed_store\<close>; C5 refinement of stacks of bindings,
  C6 operations under different locks commute.
  \<open>Rabin\<close> (\<^verbatim>\<open>rabin.c\<close>): C7 progress and bounds, C8 the rolling search is the bit-serial fingerprint of each window,
  C9 what the removal table is for the arguments used.
  \<open>Mbuffer\<close> (\<^verbatim>\<open>mbuffer.c\<close>): an explicit heap; C10 no use after free and no leak over every interleaving, C11 the operations on every branch.
  \<open>Dedup_Util\<close> (\<^verbatim>\<open>util.c\<close>): reads and writes over scripts of partial and failing system calls; C12, C13.
  \<open>Encoder_Stats\<close>, \<open>Encoder\<close>, \<open>Fragment\<close>, \<open>Reorder\<close> (\<^verbatim>\<open>pthread/encoder.c\<close>): statistics (C14, C15), the kernels and every interleaving
  of their calls (C16), the two chunking stages (C20, C21), the reorder stage (C22, C23).
  \<open>Decoder\<close> (\<^verbatim>\<open>decoder.c\<close>): C17, C18, C19. \<open>Roundtrip\<close> composes the stages: C24 the chunks written are the
  input, C25 decoding what the encoder wrote gives the input back, for every schedule.
  Chunks live in a store (a map from addresses) because the hash table, the queues and the threads share them; the digest, compression and decompression
  are arguments with the hypothesis that decompression inverts compression, and that digests do not collide on the chunks at hand.

  \<^bold>\<open>x264.\<close>
  \<open>X264_Bitstream\<close> (\<^verbatim>\<open>apps/x264/src/common/bs.h\<close>): the abstraction of a stream is the list of its bits (locale \<open>bit_sink\<close>); C26, C27.
  \<open>X264_Nal\<close> (\<^verbatim>\<open>common/common.c\<close>, \<^verbatim>\<open>x264.c\<close>): C28, C29, and that the reduction of a fraction divides by the greatest common divisor.
  \<open>X264_Syntax\<close>: rules that relate a sequence of writer calls to a parser of the standard's syntax.
  \<open>X264_Set\<close>, \<open>X264_Sps_Init\<close>, \<open>X264_Pps\<close>, \<open>X264_Sei\<close> (\<^verbatim>\<open>encoder/set.c\<close>, \<^verbatim>\<open>common/set.h\<close>): parameter sets; C31, C32, C33.
  \<open>X264_Cabac_Tables\<close>, \<open>X264_Cabac\<close>, \<open>X264_Cabac_Roundtrip\<close> (\<^verbatim>\<open>common/cabac.c\<close>, \<^verbatim>\<open>cabac.h\<close>): the arithmetic coder against the
  decoder of the standard; C34.
  \<open>X264_Vlc\<close>, \<open>X264_Cavlc\<close> (\<^verbatim>\<open>common/vlc.c\<close>, \<^verbatim>\<open>encoder/cavlc.c\<close>): blocks of coefficients against the parsing process of the standard; C37, with
  the exception that C38 shows.
  \<open>X264_Macroblock\<close> (\<^verbatim>\<open>common/macroblock.h\<close>, \<^verbatim>\<open>common/macroblock.c\<close>, \<^verbatim>\<open>common/predict.h\<close>): types, caches and prediction;
  \<open>X264_Mb_Cavlc\<close> (\<^verbatim>\<open>encoder/cavlc.c\<close>): the writer of macroblocks, a function from the macroblock to the calls of the bit writer and the
  macroblock afterwards; \<open>X264_Mb_Parse\<close>: the macroblock syntax of the standard; \<open>X264_Mb_Roundtrip\<close>, \<open>X264_Mb_Layer\<close>,
  \<open>X264_Mb_Decode\<close>: the parts of a macroblock and the whole of it; C39.
  \<open>X264_Reference\<close>, \<open>X264_Slice_Header\<close>, \<open>X264_Slice_Refs\<close> (\<^verbatim>\<open>encoder/encoder.c\<close>): the reference lists with their reordering commands, the
  slice header, and what a decoder derives from it; C30.
  \<open>X264_Mb_Cache\<close> (\<^verbatim>\<open>common/macroblock.c\<close>): the tables of a picture and the cache of the neighbours, loaded and saved, against the derivation of a decoder;
  \<open>X264_Slice_Data\<close> (\<^verbatim>\<open>encoder/encoder.c\<close>): the loop over the macroblocks of a slice with its runs of skipped macroblocks, and the slice data
  syntax; its invariant \<open>loop_ok\<close> relates the caches to the macroblocks decoded so far. \<open>X264_Slice\<close>: a whole slice from
  the state of the encoder to the bytes of a unit and back; C40. Analysis and encoding of a macroblock (\<^verbatim>\<open>encoder/analyse.c\<close>, \<^verbatim>\<open>encoder/macroblock.c\<close>)
  are an arbitrary function there, with the contract \<open>analysis_ok\<close>: it leaves the neighbours and the parameters of the slice alone, and chooses
  macroblocks that the syntax can express.

  \<^bold>\<open>Bounds and fuel.\<close> Machine integers have their width wherever the source can overflow (sizes of 64
  bits, counters of 32 bits, the words of the bit writer and of the arithmetic coder); an integer that an invariant keeps in range is
  an \<open>int\<close> or \<open>nat\<close>, and the invariant is proved. Fuel occurs in the loops that empty the reorder cache, in the decoder's loop and in
  the chunking loops; the theorems C17, C20, C21, C22 and C25 state that the fuel they name, linear in the input, gives a result;
  the loop over the macroblocks of a slice has one unit for each macroblock, which C40 shows to be enough. Waiting
  (\<^verbatim>\<open>pthread_cond_wait\<close>, a receive on an empty socket) is the value \<open>None\<close>.

  \<^bold>\<open>Not modelled.\<close> Of dedup: option parsing, the integrated serial pipeline, thread creation, the SHA-1 and zlib libraries and the
  printing of statistics in floating point. Of x264: motion search, mode decision, rate control and
  slice-type decision (heuristics in floating point whose outcome no specification fixes), transforms and pixels, macroblocks coded with the
  arithmetic coder, field pictures in the slice loop, the assembly versions, muxers for container formats and the command line. The applications barnes, blackscholes, bodytrack, canneal, facesim, fluidanimate,
  freqmine, raytrace, streamcluster and swaptions compute in floating point or are vendored frameworks; vips is a vendored
  image library with generated bindings. The scripts that build, submit jobs and plot have no state of their own.
\<close>

end
